(* ===== verification/Rust_Prelude.thy ===== *)
theory Rust_Prelude
  imports Main "HOL-Library.Word" "HOL-Library.Signed_Division" "HOL-Library.Monad_Syntax"
begin

text \<open>
  Shared vocabulary of the development: the machine integers of the compiler's Rust sources, the
  checked operations of the language (indexing, assertions, subtraction on \<open>usize\<close>, the
  overflow-checked operators), and the lemmas about lists and words that the components use.

  A Rust computation that can panic is an \<open>option\<close>: \<open>None\<close> is the panic. Every
  \<open>assert!\<close>, \<open>debug_assert!\<close>, \<open>unwrap\<close>, out-of-range index and arithmetic
  overflow of the modelled code is such a \<open>None\<close>, as in a build with debug assertions; where a
  theorem shows \<open>Some\<close>, a release build computes the same value.
  \<open>usize\<close> is \<open>nat\<close> (64-bit, never reached by a \<open>Vec\<close> length); the fixed-width types are
  words, read as signed values by \<open>sint\<close> where the source type is signed.
\<close>

unbundle bit_operations_syntax

type_synonym u8 = "8 word"
type_synonym u32 = "32 word"
type_synonym u64 = "64 word"
type_synonym i32 = "32 word"
type_synonym i64 = "64 word"
type_synonym usize = nat
type_synonym 'a rust = "'a option"

named_theorems rust_defs \<open>definitions of the checked language operations\<close>
named_theorems sint_simps \<open>signed readings of wrapped operations\<close>

section \<open>Checked operations\<close>

definition rassert :: "bool \<Rightarrow> unit rust" where
  "rassert b = (if b then Some () else None)"

definition usize_MAX :: usize where
  "usize_MAX = 18446744073709551615"

definition vec_get :: "'a list \<Rightarrow> usize \<Rightarrow> 'a rust" where
  "vec_get xs i = (if i < length xs then Some (xs ! i) else None)"

definition vec_set :: "'a list \<Rightarrow> usize \<Rightarrow> 'a \<Rightarrow> 'a list rust" where
  "vec_set xs i v = (if i < length xs then Some (xs[i := v]) else None)"

definition usize_sub :: "usize \<Rightarrow> usize \<Rightarrow> usize rust" where
  "usize_sub a b = (if b \<le> a then Some (a - b) else None)"

definition u32_of_usize :: "usize \<Rightarrow> u32" where
  "u32_of_usize n = word_of_nat n"

definition try_u32 :: "usize \<Rightarrow> u32 option" where
  "try_u32 n = (if n < 2 ^ 32 then Some (word_of_nat n) else None)"

definition u32_add :: "u32 \<Rightarrow> u32 \<Rightarrow> u32 rust" where
  "u32_add a b = (if uint a + uint b < 2 ^ 32 then Some (a + b) else None)"

definition u32_sub :: "u32 \<Rightarrow> u32 \<Rightarrow> u32 rust" where
  "u32_sub a b = (if b \<le> a then Some (a - b) else None)"

definition u32_mul :: "u32 \<Rightarrow> u32 \<Rightarrow> u32 rust" where
  "u32_mul a b = (if uint a * uint b < 2 ^ 32 then Some (a * b) else None)"

definition u32_div :: "u32 \<Rightarrow> u32 \<Rightarrow> u32 rust" where
  "u32_div a b = (if b = 0 then None else Some (a div b))"

definition u32_rem :: "u32 \<Rightarrow> u32 \<Rightarrow> u32 rust" where
  "u32_rem a b = (if b = 0 then None else Some (a mod b))"

declare rassert_def [rust_defs] vec_get_def [rust_defs] vec_set_def [rust_defs]
  usize_sub_def [rust_defs] u32_of_usize_def [rust_defs] try_u32_def [rust_defs]
  u32_add_def [rust_defs] u32_sub_def [rust_defs] u32_mul_def [rust_defs]
  u32_div_def [rust_defs] u32_rem_def [rust_defs]

definition u32_is_power_of_two :: "u32 \<Rightarrow> bool" where
  "u32_is_power_of_two x = list_ex (\<lambda>k. x = 2 ^ k) [0..<32]"

text \<open>\<open>for x in xs\<close> with a panicking body.\<close>

fun foldM :: "('s \<Rightarrow> 'a \<Rightarrow> 's rust) \<Rightarrow> 's \<Rightarrow> 'a list \<Rightarrow> 's rust" where
  "foldM f s [] = Some s"
| "foldM f s (x # xs) = do { s' \<leftarrow> f s x; foldM f s' xs }"

text \<open>\<open>usize::ilog2\<close> of a positive number, and \<open>is_power_of_two\<close>.\<close>

fun usize_ilog2 :: "usize \<Rightarrow> nat" where
  "usize_ilog2 n = (if n \<le> 1 then 0 else Suc (usize_ilog2 (n div 2)))"

declare usize_ilog2.simps [simp del]

definition usize_is_power_of_two :: "usize \<Rightarrow> bool" where
  "usize_is_power_of_two n = (n = 2 ^ usize_ilog2 n)"

section \<open>Signed 32-bit integers\<close>

definition i32_MIN :: i32 where
  "i32_MIN = 0x80000000"

definition i32_MAX :: i32 where
  "i32_MAX = 0x7FFFFFFF"

definition i32_min :: "i32 \<Rightarrow> i32 \<Rightarrow> i32" where
  "i32_min a b = (if b <s a then b else a)"

definition i32_max :: "i32 \<Rightarrow> i32 \<Rightarrow> i32" where
  "i32_max a b = (if a <s b then b else a)"

text \<open>\<open>wrapping_div\<close> and \<open>wrapping_rem\<close>: truncating division that panics on a zero divisor.\<close>

definition wrapping_div :: "i32 \<Rightarrow> i32 \<Rightarrow> i32 rust" where
  "wrapping_div a b = (if b = 0 then None else Some (word_of_int (sint a sdiv sint b)))"

definition wrapping_rem :: "i32 \<Rightarrow> i32 \<Rightarrow> i32 rust" where
  "wrapping_rem a b = (if b = 0 then None else Some (word_of_int (sint a smod sint b)))"

text \<open>The plain operator \<open>/\<close> also panics on the one quotient that does not fit.\<close>

definition i32_div :: "i32 \<Rightarrow> i32 \<Rightarrow> i32 rust" where
  "i32_div a b = (if a = i32_MIN \<and> b = -1 then None else wrapping_div a b)"

section \<open>Lemmas\<close>

lemma bind_eq_Some [simp]: "(Option.bind m f = Some y) = (\<exists>x. m = Some x \<and> f x = Some y)"
  by (cases m) auto

lemma rassert_Some [simp]: "(rassert b = Some u) = b"
  by (simp add: rassert_def)

lemma rassert_True [simp]: "rassert True = Some ()"
  by (simp add: rassert_def)

lemma u32_add_eq_Some:
  "(u32_add a b = Some c) = (unat a + unat b < 2 ^ 32 \<and> c = a + b)"
proof -
  have "uint a + uint b = int (unat a + unat b)" by simp
  then have "(uint a + uint b < 2 ^ 32) = (unat a + unat b < 2 ^ 32)"
    using of_nat_less_iff [where 'a = int, of "unat a + unat b" "2 ^ 32"] by simp
  then show ?thesis unfolding u32_add_def by (auto simp del: unsigned_less)
qed

lemma u32_mul_eq_Some:
  "(u32_mul a b = Some c) = (unat a * unat b < 2 ^ 32 \<and> c = a * b)"
proof -
  have "uint a * uint b = int (unat a * unat b)" by simp
  then have "(uint a * uint b < 2 ^ 32) = (unat a * unat b < 2 ^ 32)"
    using of_nat_less_iff [where 'a = int, of "unat a * unat b" "2 ^ 32"] by simp
  then show ?thesis unfolding u32_mul_def by auto
qed

lemma u32_sub_eq_Some: "(u32_sub a b = Some c) = (b \<le> a \<and> c = a - b)"
  by (auto simp: u32_sub_def)

lemma unat_u32_add: "unat a + unat b < 2 ^ 32 \<Longrightarrow> unat (a + b :: u32) = unat a + unat b"
  by (simp add: unat_word_ariths)

lemma unat_u32_mul: "unat a * unat b < 2 ^ 32 \<Longrightarrow> unat (a * b :: u32) = unat a * unat b"
  by (simp add: unat_word_ariths)

lemma unat_u32_sub: "b \<le> a \<Longrightarrow> unat (a - b :: u32) = unat a - unat b"
  by (simp add: unat_sub word_le_nat_alt)

lemma u32_is_power_of_two_iff: "u32_is_power_of_two x = (\<exists>k < 32. unat x = 2 ^ k)"
proof -
  have "(x = 2 ^ k) = (unat x = 2 ^ k)" if "k < 32" for k
  proof -
    have lt: "(2 :: nat) ^ k < 2 ^ 32" using that by (simp only: power_strict_increasing_iff)
    have "unat (2 ^ k :: u32) = unat (word_of_nat (2 ^ k) :: u32)" by simp
    also have "\<dots> = 2 ^ k"
      using lt that by (subst unsigned_of_nat) (simp del: of_nat_power add: take_bit_nat_eq_self)
    finally have "unat (2 ^ k :: u32) = 2 ^ k" .
    then show ?thesis by (metis unsigned_word_eqI)
  qed
  then show ?thesis by (auto simp: u32_is_power_of_two_def list_ex_iff)
qed

lemma sint_i32_range: "- (2 ^ 31) \<le> sint (a :: i32) \<and> sint a < 2 ^ 31"
  using sint_range_size [of a] by (simp add: word_size)

lemma sint_i32_lower: "- 2147483648 \<le> sint (a :: i32)"
  using sint_i32_range [of a] by simp

lemma sint_i32_upper: "sint (a :: i32) \<le> 2147483647"
  using sint_i32_range [of a] by simp

lemma sint_word_of_int_i32:
  assumes "- (2 ^ 31) \<le> k" and "k < 2 ^ 31"
  shows "sint (word_of_int k :: i32) = k"
  using assms by (simp add: sint_sbintrunc' signed_take_bit_int_eq_self)

lemma sint_eq_iff: "(sint a = sint b) = (a = (b :: i32))"
  by (metis signed_word_eqI)

lemma sint_i32_MIN [simp]: "sint i32_MIN = - 2147483648"
  by (simp add: i32_MIN_def)

lemma sint_i32_MAX [simp]: "sint i32_MAX = 2147483647"
  by (simp add: i32_MAX_def)

lemma sint_i32_min [simp]: "sint (i32_min a b) = min (sint a) (sint b)"
  by (simp add: i32_min_def word_sless_alt)

lemma sint_i32_max [simp]: "sint (i32_max a b) = max (sint a) (sint b)"
  by (simp add: i32_max_def word_sless_alt)

lemma sint_i32_uint: "sint w = (if uint w < 2 ^ 31 then uint w else uint w - 2 ^ 32)" for w :: i32
proof -
  have r: "0 \<le> uint w" "uint w < 2 ^ 32" using unsigned_less [of w] by simp_all
  have "sint w = sint (word_of_int (uint w) :: i32)" by simp
  also have "\<dots> = (uint w + 2 ^ 31) mod 2 ^ 32 - 2 ^ 31" by (subst int_word_sint) simp
  also have "\<dots> = (if uint w < 2 ^ 31 then uint w else uint w - 2 ^ 32)"
  proof (cases "uint w < 2 ^ 31")
    case False
    have "(uint w + 2 ^ 31) mod 2 ^ 32 = (uint w - 2 ^ 31 + 2 ^ 32) mod 2 ^ 32" by (simp add: ac_simps)
    also have "\<dots> = uint w - 2 ^ 31" using False r by (subst mod_add_self2) simp
    finally show ?thesis using False by simp
  qed (use r in simp)
  finally show ?thesis .
qed

lemma drop_bit_31_sign: "drop_bit 31 w = (if sint w < 0 then 1 else 0)" for w :: i32
proof -
  have r: "0 \<le> uint w" "uint w < 2 ^ 32" using unsigned_less [of w] by simp_all
  have "uint (drop_bit 31 w) = uint w div 2 ^ 31" by (simp add: drop_bit_eq_div uint_div)
  also have "\<dots> = (if sint w < 0 then 1 else 0)" using r unfolding sint_i32_uint by auto
  finally show ?thesis by (auto simp: word_uint_eq_iff)
qed

lemma sint_i32_abs: "\<bar>sint a\<bar> \<le> 2 ^ 31" for a :: i32
  using sint_i32_range [of a] unfolding abs_le_iff by linarith

lemma sint_mul_high:
  fixes a b :: i32
  shows "sint (ucast (signed_drop_bit 32 (scast a * scast b :: i64)) :: i32) = (sint a * sint b) div 2 ^ 32"
proof -
  have bnd: "\<bar>sint a * sint b\<bar> \<le> 2 ^ 31 * 2 ^ 31"
    unfolding abs_mult by (intro mult_mono sint_i32_abs) auto
  have ext: "sint (scast x :: i64) = sint x" for x :: i32
  proof -
    have "- (2 ^ 63) \<le> sint x" "sint x < 2 ^ 63" using sint_i32_range [of x] by simp_all
    then have "signed_take_bit 63 (sint x) = sint x" by (rule signed_take_bit_int_eq_self)
    then show ?thesis by (simp add: signed_scast_eq)
  qed
  have "sint (scast a * scast b :: i64) = signed_take_bit 63 (sint a * sint b)"
    by (simp add: sint_word_mult ext)
  also have "\<dots> = sint a * sint b" using bnd by (intro signed_take_bit_int_eq_self) auto
  finally have p: "sint (scast a * scast b :: i64) = sint a * sint b" .
  let ?h = "signed_drop_bit 32 (scast a * scast b :: i64)"
  have h: "sint ?h = (sint a * sint b) div 2 ^ 32"
    by (simp add: sint_signed_drop_bit_eq p drop_bit_eq_div)
  have "sint (ucast ?h :: i32) = signed_take_bit 31 (sint ?h)"
    by (simp add: signed_ucast_eq uint_sint signed_take_bit_take_bit)
  also have "\<dots> = sint ?h"
    using bnd unfolding h by (intro signed_take_bit_int_eq_self) auto
  finally show ?thesis unfolding h .
qed
lemma sint_add_in_range:
  assumes "- (2 ^ 31) \<le> sint a + sint b" and "sint a + sint b < 2 ^ 31"
  shows "sint (a + b :: i32) = sint a + sint b"
  using assms by (simp add: sint_word_add signed_take_bit_int_eq_self)

lemma sint_diff_in_range:
  assumes "- (2 ^ 31) \<le> sint a - sint b" and "sint a - sint b < 2 ^ 31"
  shows "sint (a - b :: i32) = sint a - sint b"
  using assms by (simp add: sint_word_diff signed_take_bit_int_eq_self)

lemma sint_mult_in_range:
  assumes "- (2 ^ 31) \<le> sint a * sint b" and "sint a * sint b < 2 ^ 31"
  shows "sint (a * b :: i32) = sint a * sint b"
  using assms by (simp add: sint_word_mult signed_take_bit_int_eq_self)

section \<open>Packed fields\<close>

text \<open>Reading back a field of a word that was packed with shifts and \<open>OR\<close>.\<close>

definition fits :: "nat \<Rightarrow> 'a::len word \<Rightarrow> bool" where
  "fits n w = (take_bit n w = w)"

lemma fits_bit: "fits n w \<Longrightarrow> bit w k \<Longrightarrow> k < n"
  by (metis bit_take_bit_iff fits_def)

lemma fits_unat: "fits n w = (unat w < 2 ^ n)" for w :: "'a::len word"
proof -
  have "(take_bit n w = w) = (unat (take_bit n w) = unat w)" by (simp add: word_unat_eq_iff)
  also have "\<dots> = (take_bit n (unat w) = unat w)" by (simp add: unsigned_take_bit_eq)
  also have "\<dots> = (unat w < 2 ^ n)" by (simp add: take_bit_nat_eq_self_iff)
  finally show ?thesis by (simp add: fits_def)
qed

lemma low_field: "fits n x \<Longrightarrow> (push_bit n y OR x) AND mask n = x" for x :: "'a::len word"
  by (rule bit_eqI) (auto simp: bit_simps dest: fits_bit)

lemma high_field:
  "fits n x \<Longrightarrow> n + m \<le> LENGTH('a) \<Longrightarrow> fits m y \<Longrightarrow> drop_bit n (push_bit n y OR x) = y" for x :: "'a::len word"
  by (rule bit_eqI) (auto simp: bit_simps dest: fits_bit)

lemma join_fields: "push_bit n (drop_bit n w) OR (w AND mask n) = w" for w :: "'a::len word"
  by (rule bit_eqI) (auto simp: bit_simps)

lemma unat_of_nat_lt: "n < 2 ^ LENGTH('a) \<Longrightarrow> unat (word_of_nat n :: 'a::len word) = n"
  by (simp add: unsigned_of_nat take_bit_nat_eq_self)

lemma unat_lt: "unat w < 2 ^ LENGTH('a)" for w :: "'a::len word"
  by (rule unsigned_less)

lemma unat_and_mask: "unat (w AND mask n) = unat w mod 2 ^ n" for w :: "'a::len word"
  unfolding take_bit_eq_mask [symmetric] unsigned_take_bit_eq by (rule take_bit_eq_mod)

lemma unat_drop_bit: "unat (drop_bit n w) = unat w div 2 ^ n" for w :: "'a::len word"
proof -
  have "take_bit LENGTH('a) (unat w) = unat w" using unat_lt [of w] by (rule take_bit_nat_eq_self)
  then show ?thesis by (subst unsigned_drop_bit_eq) (simp add: drop_bit_eq_div)
qed

lemma ilog2_bounds: "0 < n \<Longrightarrow> 2 ^ usize_ilog2 n \<le> n \<and> n < 2 ^ Suc (usize_ilog2 n)"
proof (induction n rule: usize_ilog2.induct)
  case (1 n)
  show ?case
  proof (cases "n \<le> 1")
    case False
    then have "2 ^ usize_ilog2 (n div 2) \<le> n div 2 \<and> n div 2 < 2 ^ Suc (usize_ilog2 (n div 2))"
      using 1 by simp
    then have "2 * 2 ^ usize_ilog2 (n div 2) \<le> n \<and> n < 2 * 2 ^ Suc (usize_ilog2 (n div 2))" by linarith
    then show ?thesis using False by (simp add: usize_ilog2.simps [of n])
  qed (use 1 in \<open>simp add: usize_ilog2.simps [of n]\<close>)
qed

section \<open>Loops that make progress\<close>

text \<open>A loop whose step says whether to continue returns, and keeps what its steps keep, when every step that
  continues makes the state smaller.\<close>

locale progress_loop =
  fixes step :: "'s \<Rightarrow> (bool \<times> 's) option" and loop :: "'s \<Rightarrow> 's option"
    and good :: "'s \<Rightarrow> bool" and keep :: "'s \<Rightarrow> 's \<Rightarrow> bool" and weight :: "'s \<Rightarrow> nat"
  assumes loop_unfold: "loop s = Option.bind (step s) (\<lambda>(c, s'). if c then loop s' else Some s')"
    and step_returns: "good s \<Longrightarrow> \<exists>c s'. step s = Some (c, s') \<and> keep s s' \<and> (c \<longrightarrow> weight s' < weight s)"
    and keep_good: "keep s s' \<Longrightarrow> good s'"
    and keep_trans: "keep s s' \<Longrightarrow> keep s' s'' \<Longrightarrow> keep s s''"
begin

lemma loop_stops:
  assumes "good s"
  shows "\<exists>s' s0. loop s = Some s' \<and> keep s s' \<and> good s0 \<and> step s0 = Some (False, s')"
  using assms
proof (induction s rule: measure_induct_rule [of weight])
  case (less s)
  obtain c s' where st: "step s = Some (c, s')" "keep s s'" "c \<Longrightarrow> weight s' < weight s"
    using step_returns [OF less.prems] by blast
  have eq: "loop s = (if c then loop s' else Some s')"
    using loop_unfold [of s] st(1) by (simp del: bind_eq_Some)
  show ?case
  proof (cases c)
    case True
    obtain s'' s0 where s'': "loop s' = Some s''" "keep s' s''" "good s0" "step s0 = Some (False, s'')"
      using less.IH [OF st(3) [OF True] keep_good [OF st(2)]] by blast
    then show ?thesis using eq True keep_trans [OF st(2) s''(2)] by auto
  next
    case False
    then show ?thesis using eq st less.prems by auto
  qed
qed

lemma loop_returns: "good s \<Longrightarrow> \<exists>s'. loop s = Some s' \<and> keep s s'"
  using loop_stops by blast

end

end
