(* ===== verification/Div_Magic.thy ===== *)
theory Div_Magic
  imports Rust_Prelude
begin

text \<open>
  Magic numbers for signed division by a constant: \<^verbatim>\<open>taki_mir/src/div_magic.rs\<close>. The loop of
  \<open>signed_magic_i32\<close> is modelled with its overflow-checked \<open>u32\<close> arithmetic; the theorems
  show that it returns for every divisor it accepts, without an overflow, and that the sequence
  it describes computes the truncating quotient for every numerator.
\<close>

section \<open>Model\<close>

datatype magic_correction = NoCorrection | AddNumerator | SubNumerator

record signed_magic =
  multiplier :: i32
  shift :: u8
  correction :: magic_correction

definition magic_apply :: "signed_magic \<Rightarrow> i32 \<Rightarrow> i32 rust" where
  "magic_apply self numerator =
    (let product = (scast numerator * scast (multiplier self) :: i64);
         high = (ucast (signed_drop_bit 32 product) :: i32);
         corrected = (case correction self of
             NoCorrection \<Rightarrow> high
           | AddNumerator \<Rightarrow> high + numerator
           | SubNumerator \<Rightarrow> high - numerator)
     in do {
       rassert (shift self < 32);
       let shifted = signed_drop_bit (unat (shift self)) corrected;
       Some (shifted + drop_bit 31 shifted) })"

definition unsigned_abs :: "i32 \<Rightarrow> u32" where
  "unsigned_abs a = (if a <s 0 then - a else a)"

record magic_state =
  power :: u32
  boundary_quotient :: u32
  boundary_remainder :: u32
  quotient :: u32
  remainder :: u32

definition double_step :: "u32 \<Rightarrow> u32 \<times> u32 \<Rightarrow> (u32 \<times> u32) rust" where
  "double_step modulus qr = do {
     q \<leftarrow> u32_mul (fst qr) 2;
     r \<leftarrow> u32_mul (snd qr) 2;
     if modulus \<le> r then do { q' \<leftarrow> u32_add q 1; r' \<leftarrow> u32_sub r modulus; Some (q', r') }
     else Some (q, r) }"

definition magic_step :: "u32 \<Rightarrow> u32 \<Rightarrow> magic_state \<Rightarrow> magic_state rust" where
  "magic_step boundary magnitude s = do {
     p \<leftarrow> u32_add (power s) 1;
     b \<leftarrow> double_step boundary (boundary_quotient s, boundary_remainder s);
     m \<leftarrow> double_step magnitude (quotient s, remainder s);
     Some \<lparr>power = p, boundary_quotient = fst b, boundary_remainder = snd b,
           quotient = fst m, remainder = snd m\<rparr> }"

partial_function (option) magic_loop :: "u32 \<Rightarrow> u32 \<Rightarrow> magic_state \<Rightarrow> magic_state option" where
  "magic_loop boundary magnitude s = do {
     s' \<leftarrow> magic_step boundary magnitude s;
     delta \<leftarrow> u32_sub magnitude (remainder s');
     if delta < boundary_quotient s' \<or> boundary_quotient s' = delta \<and> boundary_remainder s' \<noteq> 0
     then Some s'
     else magic_loop boundary magnitude s' }"

declare magic_loop.simps [code]

definition TWO31 :: u32 where
  "TWO31 = 0x80000000"

definition signed_magic_i32 :: "i32 \<Rightarrow> signed_magic option rust" where
  "signed_magic_i32 divisor =
    (let magnitude = unsigned_abs divisor in
     if magnitude \<le> 1 \<or> u32_is_power_of_two magnitude then Some None
     else do {
       threshold \<leftarrow> u32_add TWO31 (drop_bit 31 divisor);
       t1 \<leftarrow> u32_sub threshold 1;
       tm \<leftarrow> u32_rem threshold magnitude;
       boundary \<leftarrow> u32_sub t1 tm;
       bq \<leftarrow> u32_div TWO31 boundary;
       bb \<leftarrow> u32_mul bq boundary;
       br \<leftarrow> u32_sub TWO31 bb;
       q \<leftarrow> u32_div TWO31 magnitude;
       qm \<leftarrow> u32_mul q magnitude;
       r \<leftarrow> u32_sub TWO31 qm;
       s \<leftarrow> magic_loop boundary magnitude
              \<lparr>power = 31, boundary_quotient = bq, boundary_remainder = br,
               quotient = q, remainder = r\<rparr>;
       let m0 = quotient s + 1;
       let mul = (if divisor <s 0 then - m0 else m0);
       let corr = (case (0 <s divisor, 0 <s mul) of
            (True, False) \<Rightarrow> AddNumerator
          | (False, True) \<Rightarrow> SubNumerator
          | _ \<Rightarrow> NoCorrection);
       sh \<leftarrow> u32_sub (power s) 32;
       Some (Some \<lparr>multiplier = mul, shift = ucast sh, correction = corr\<rparr>) })"

section \<open>Number theory\<close>

lemma double_div_mod:
  fixes a n :: nat
  assumes "0 < n"
  shows "(2 * a) div n = 2 * (a div n) + (if n \<le> 2 * (a mod n) then 1 else 0)"
    and "(2 * a) mod n = 2 * (a mod n) - (if n \<le> 2 * (a mod n) then n else 0)"
proof -
  let ?c = "if n \<le> 2 * (a mod n) then 1 else 0 :: nat"
  let ?r = "2 * (a mod n) - (if n \<le> 2 * (a mod n) then n else 0)"
  have lt: "a mod n < n" using assms by simp
  have eq: "2 * a = (2 * (a div n) + ?c) * n + ?r"
  proof -
    define q r where "q = a div n" and "r = a mod n"
    have "a = q * n + r" unfolding q_def r_def by simp
    then show ?thesis unfolding q_def [symmetric] r_def [symmetric] by (auto simp: algebra_simps)
  qed
  have r: "?r < n" using lt by auto
  show "(2 * a) div n = 2 * (a div n) + ?c"
    using eq r by (metis div_mult_self3 div_less add.right_neutral add.commute assms less_not_refl)
  show "(2 * a) mod n = ?r"
    using eq r by (metis mod_less mod_mult_self3)
qed

text \<open>reference multiplier facts\<close>

definition magic_nc :: "nat \<Rightarrow> nat \<Rightarrow> nat" where
  "magic_nc t d = t - 1 - t mod d"

definition magic_e :: "nat \<Rightarrow> nat \<Rightarrow> nat" where
  "magic_e p d = d - 2 ^ p mod d"

lemma magic_nc_split:
  assumes "2 \<le> d" "d \<le> t"
  shows "Suc (magic_nc t d + t mod d) = t" "magic_nc t d = (t div d) * d - 1" "d - 1 \<le> magic_nc t d"
proof -
  have k: "1 \<le> t div d" using assms by (simp add: div_greater_zero_iff Suc_leI)
  have t: "t = (t div d) * d + t mod d" by simp
  show "magic_nc t d = (t div d) * d - 1" unfolding magic_nc_def using t by linarith
  have "d \<le> (t div d) * d" using k by simp
  then show "d - 1 \<le> magic_nc t d" "Suc (magic_nc t d + t mod d) = t"
    unfolding magic_nc_def using t assms by linarith+
qed

lemma magic_mult:
  assumes "2 \<le> d"
  shows "(2 ^ p div d + 1) * d = 2 ^ p + magic_e p d"
proof -
  have "2 ^ p mod d < d" using assms by simp
  moreover have "(2 ^ p div d) * d + 2 ^ p mod d = 2 ^ p" by simp
  ultimately show ?thesis unfolding magic_e_def distrib_right by linarith
qed

lemma magic_mult_scaled:
  assumes "2 \<le> d"
  shows "d * ((2 ^ p div d + 1) * k) = 2 ^ p * k + magic_e p d * k"
proof -
  have "d * ((2 ^ p div d + 1) * k) = ((2 ^ p div d + 1) * d) * k" by (simp only: ac_simps)
  then show ?thesis unfolding magic_mult [OF assms] by (simp only: distrib_right)
qed

lemma magic_upper_nat:
  assumes d: "2 \<le> d" "d \<le> t" and big: "magic_nc t d * magic_e p d < 2 ^ p" and k: "k < t"
  shows "magic_e p d * k < 2 ^ p * (d - k mod d)"
proof -
  let ?nc = "magic_nc t d" and ?e = "magic_e p d" and ?r = "k mod d"
  have r: "?r < d" using d by simp
  show ?thesis
  proof (cases "k \<le> ?nc")
    case True
    then have "?e * k \<le> ?e * ?nc" by simp
    also have "\<dots> < 2 ^ p" using big by (simp add: mult.commute)
    also have "\<dots> \<le> 2 ^ p * (d - ?r)" using r by simp
    finally show ?thesis .
  next
    case False
    define q where "q = t div d"
    have nc: "?nc = q * d - 1" and tq: "t = q * d + t mod d" and q1: "1 \<le> q * d"
      using magic_nc_split(2) [OF d] d unfolding q_def
      by (auto simp: div_greater_zero_iff Suc_le_eq)
    have kq: "q * d \<le> k" using False nc by linarith
    define j where "j = k - q * d"
    have kj: "k = q * d + j" using kq j_def by simp
    have jlt: "j < t mod d" using k tq kj by linarith
    have td: "t mod d < d" using d by simp
    have jd: "j < d" using jlt td by linarith
    then have rj: "?r = j" using kj by simp
    have j1: "Suc j < d" using jlt td by linarith
    have kn: "k = ?nc + Suc j" using nc kj q1 by simp
    have "Suc j \<le> ?nc" using j1 magic_nc_split(3) [OF d] by linarith
    then have "?e * Suc j \<le> ?e * ?nc" by (rule mult_le_mono2)
    then have s: "?e * Suc j < 2 ^ p" and s': "?e * ?nc < 2 ^ p"
      using big by (simp_all add: mult.commute)
    have "?e * k = ?e * ?nc + ?e * Suc j" using kn by (simp add: algebra_simps)
    also have "\<dots> < 2 ^ p + 2 ^ p" using s s' by linarith
    also have "\<dots> = 2 ^ p * 2" by simp
    also have "\<dots> \<le> 2 ^ p * (d - ?r)" using j1 rj by (intro mult_le_mono2) simp
    finally show ?thesis .
  qed
qed

lemma magic_upper_pow:
  assumes d: "2 \<le> d" "d \<le> 2 ^ 31" and p: "31 \<le> p"
    and big: "magic_nc (2 ^ 31) d * magic_e p d < 2 ^ p"
  shows "magic_e p d * 2 ^ 31 \<le> 2 ^ p * (d - 2 ^ 31 mod d)"
proof -
  let ?t = "2 ^ 31 :: nat" and ?e = "magic_e p d"
  let ?nc = "magic_nc ?t d" and ?r = "?t mod d"
  have r: "?r < d" using d by simp
  show ?thesis
  proof (cases "Suc ?r < d")
    case True
    have "Suc ?r \<le> ?nc" using True magic_nc_split(3) [OF d] by linarith
    then have "?e * Suc ?r \<le> ?e * ?nc" by (rule mult_le_mono2)
    then have s: "?e * Suc ?r < 2 ^ p" and s': "?e * ?nc < 2 ^ p"
      using big by (simp_all add: mult.commute)
    have "?e * ?t = ?e * (?nc + Suc ?r)" using magic_nc_split(1) [OF d] by simp
    also have "\<dots> = ?e * ?nc + ?e * Suc ?r" by (simp only: distrib_left)
    also have "\<dots> \<le> 2 ^ p + 2 ^ p" using s s' by linarith
    also have "\<dots> = 2 ^ p * 2" by simp
    also have "\<dots> \<le> 2 ^ p * (d - ?r)" using True by (intro mult_le_mono2) simp
    finally show ?thesis .
  next
    case False
    then have rd: "Suc ?r = d" using r by simp
    define w where "w = (2::nat) ^ (p - 31)"
    have pw: "(2::nat) ^ p = ?t * w" unfolding w_def using p by (metis le_add_diff_inverse power_add)
    have "(2 ^ p + w) mod d = (?r * w + w) mod d" unfolding pw by (metis mod_add_left_eq mod_mult_left_eq)
    also have "\<dots> = (Suc ?r * w) mod d" by (simp add: add.commute)
    also have "\<dots> = 0" using rd by simp
    finally have dv: "d dvd 2 ^ p + w" by (simp add: mod_eq_0_iff_dvd)
    have "?e \<le> w"
    proof -
      have lt: "2 ^ p mod d < d" using d by simp
      have "2 ^ p + w = (2 ^ p div d) * d + (2 ^ p mod d + w)" by simp
      then have "d dvd 2 ^ p mod d + w" using dv by (metis dvd_add_right_iff dvd_triv_right)
      moreover have "0 < 2 ^ p mod d + w" unfolding w_def by simp
      ultimately have "d \<le> 2 ^ p mod d + w" by (rule dvd_imp_le)
      then show ?thesis unfolding magic_e_def by simp
    qed
    then have "?e * ?t \<le> w * ?t" by (rule mult_le_mono1)
    also have "\<dots> = 2 ^ p" using pw by (simp add: mult.commute)
    also have "\<dots> \<le> 2 ^ p * (d - ?r)" using rd by simp
    finally show ?thesis .
  qed
qed


lemma magic_floor:
  assumes d: "2 \<le> d" "d \<le> t" and big: "magic_nc t d * magic_e p d < 2 ^ p" and k: "k < t"
  shows "((2 ^ p div d + 1) * k) div 2 ^ p = k div d"
proof -
  let ?m = "2 ^ p div d + 1" and ?e = "magic_e p d"
  define q r where "q = k div d" and "r = k mod d"
  have kq: "k = q * d + r" and rd: "r < d" using d unfolding q_def r_def by simp_all
  have up: "?e * k < 2 ^ p * (d - r)" using magic_upper_nat [OF d big k] unfolding r_def .
  have dm: "d * (?m * k) = 2 ^ p * k + ?e * k" by (rule magic_mult_scaled [OF d(1)])
  also have "\<dots> < 2 ^ p * k + 2 ^ p * (d - r)" using up by simp
  also have "\<dots> = 2 ^ p * (k + (d - r))" by (simp only: distrib_left)
  also have "\<dots> = d * (2 ^ p * Suc q)" using kq rd by (simp add: algebra_simps)
  finally have hi: "?m * k < 2 ^ p * Suc q" using d by simp
  have "d * (2 ^ p * q) \<le> 2 ^ p * k" using kq by (simp add: algebra_simps)
  also have "\<dots> \<le> d * (?m * k)" unfolding dm by simp
  finally have lo: "2 ^ p * q \<le> ?m * k" using d by simp
  show ?thesis unfolding q_def [symmetric]
    using lo hi by (intro div_nat_eqI) (simp_all add: mult.commute)
qed

lemma magic_ceiling:
  assumes d: "2 \<le> d" "d \<le> t" and k: "0 < k"
    and up: "magic_e p d * k \<le> 2 ^ p * (d - k mod d)"
  shows "(- (int (2 ^ p div d + 1) * int k)) div 2 ^ p = - int (k div d) - 1"
proof -
  let ?m = "2 ^ p div d + 1" and ?e = "magic_e p d"
  define q r where "q = k div d" and "r = k mod d"
  have kq: "k = q * d + r" and rd: "r < d" using d unfolding q_def r_def by simp_all
  have e0: "0 < ?e" unfolding magic_e_def using d by simp
  have dm: "d * (?m * k) = 2 ^ p * k + ?e * k" by (rule magic_mult_scaled [OF d(1)])
  also have "\<dots> \<le> 2 ^ p * k + 2 ^ p * (d - r)" using up unfolding r_def by simp
  also have "\<dots> = 2 ^ p * (k + (d - r))" by (simp only: distrib_left)
  also have "\<dots> = d * (2 ^ p * Suc q)" using kq rd by (simp add: algebra_simps)
  finally have hi: "?m * k \<le> 2 ^ p * Suc q" using d by simp
  have "d * (2 ^ p * q) \<le> 2 ^ p * k" using kq by (simp add: algebra_simps)
  also have "\<dots> < d * (?m * k)" using dm e0 k by simp
  finally have lo: "2 ^ p * q < ?m * k" using d by simp
  have hi': "int ?m * int k \<le> 2 ^ p * (int q + 1)"
    using hi [folded of_nat_le_iff [where 'a = int]]
    by (simp only: of_nat_mult of_nat_power of_nat_numeral of_nat_Suc add.commute)
  have lo': "2 ^ p * int q < int ?m * int k"
    using lo [folded of_nat_less_iff [where 'a = int]]
    by (simp only: of_nat_mult of_nat_power of_nat_numeral)
  show ?thesis unfolding q_def [symmetric]
    by (rule int_div_pos_eq [where r = "2 ^ p * (int q + 1) - int ?m * int k"])
      (use hi' lo' in \<open>simp_all add: algebra_simps\<close>)
qed

lemma dvd_pow2_iff: "(d :: nat) dvd 2 ^ p \<Longrightarrow> \<exists>i \<le> p. d = 2 ^ i"
proof (induction p arbitrary: d)
  case 0
  then show ?case by auto
next
  case (Suc p)
  show ?case
  proof (cases "even d")
    case True
    then obtain c where c: "d = 2 * c" ..
    with Suc.prems have "c dvd 2 ^ p" by simp
    then obtain i where "i \<le> p" "c = 2 ^ i" using Suc.IH by blast
    then have "d = 2 ^ Suc i" and "Suc i \<le> Suc p" using c by simp_all
    then show ?thesis by blast
  next
    case False
    then have "coprime d (2 ^ Suc p)" by simp
    with Suc.prems have "d = 1" by (metis coprime_absorb_left nat_dvd_1_iff_1 is_unit_gcd_iff)
    then show ?thesis by (metis le0 power_0)
  qed
qed

section \<open>The loop\<close>

definition magic_at :: "nat \<Rightarrow> nat \<Rightarrow> nat \<Rightarrow> magic_state \<Rightarrow> bool" where
  "magic_at p nc d s \<longleftrightarrow> unat (power s) = p \<and>
     unat (boundary_quotient s) = 2 ^ p div nc \<and> unat (boundary_remainder s) = 2 ^ p mod nc \<and>
     unat (quotient s) = 2 ^ p div d \<and> unat (remainder s) = 2 ^ p mod d"

lemma double_step_correct:
  assumes n: "unat modulus = n" "0 < n" "n \<le> 2 ^ 31"
    and q: "unat q = a div n" "a div n < 2 ^ 31" and r: "unat r = a mod n"
  obtains q' r' where "double_step modulus (q, r) = Some (q', r')"
    "unat q' = 2 * a div n" "unat r' = 2 * a mod n"
proof -
  have rn: "a mod n < 2 ^ 31" using n by (meson less_le_trans mod_less_divisor)
  have mq: "u32_mul q 2 = Some (q * 2)" "unat (q * 2) = 2 * (a div n)"
    using q unat_u32_mul [of q 2] by (simp_all add: u32_mul_eq_Some)
  have mr: "u32_mul r 2 = Some (r * 2)" "unat (r * 2) = 2 * (a mod n)"
    using r rn unat_u32_mul [of r 2] by (simp_all add: u32_mul_eq_Some)
  have le: "(modulus \<le> r * 2) = (n \<le> 2 * (a mod n))"
    using n mr by (simp add: word_le_nat_alt)
  have aq: "u32_add (q * 2) 1 = Some (q * 2 + 1)" "unat (q * 2 + 1) = 2 * (a div n) + 1"
    using mq q unat_u32_add [of "q * 2" 1] by (simp_all add: u32_add_eq_Some)
  have sr: "u32_sub (r * 2) modulus = Some (r * 2 - modulus)"
    "unat (r * 2 - modulus) = 2 * (a mod n) - n" if "modulus \<le> r * 2"
    using that mr n unat_u32_sub [OF that] by (simp_all add: u32_sub_eq_Some)
  show thesis
  proof (cases "modulus \<le> r * 2")
    case True
    have "double_step modulus (q, r) = Some (q * 2 + 1, r * 2 - modulus)"
      using True mq mr aq sr by (simp add: double_step_def)
    moreover have "unat (q * 2 + 1) = 2 * a div n" "unat (r * 2 - modulus) = 2 * a mod n"
      using True le double_div_mod [OF n(2)] aq sr by simp_all
    ultimately show ?thesis by (rule that)
  next
    case False
    have "double_step modulus (q, r) = Some (q * 2, r * 2)"
      using False mq mr by (simp add: double_step_def)
    moreover have "unat (q * 2) = 2 * a div n" "unat (r * 2) = 2 * a mod n"
      using False le double_div_mod [OF n(2)] mq mr by simp_all
    ultimately show ?thesis by (rule that)
  qed
qed

lemma magic_step_correct:
  assumes nc: "unat boundary = nc" "0 < nc" "nc \<le> 2 ^ 31"
    and d: "unat magnitude = d" "0 < d" "d \<le> 2 ^ 31"
    and s: "magic_at p nc d s" and p: "p < 2 ^ 32 - 1"
    and small: "2 ^ p div nc < 2 ^ 31" "2 ^ p div d < 2 ^ 31"
  obtains s' where "magic_step boundary magnitude s = Some s'" "magic_at (Suc p) nc d s'"
proof -
  have sp: "unat (power s) = p" and sb: "unat (boundary_quotient s) = 2 ^ p div nc"
    "unat (boundary_remainder s) = 2 ^ p mod nc"
    and sq: "unat (quotient s) = 2 ^ p div d" "unat (remainder s) = 2 ^ p mod d"
    using s unfolding magic_at_def by simp_all
  have pw: "u32_add (power s) 1 = Some (power s + 1)" "unat (power s + 1) = Suc p"
    using sp p unat_u32_add [of "power s" 1] by (simp_all add: u32_add_eq_Some)
  obtain bq br where b: "double_step boundary (boundary_quotient s, boundary_remainder s) = Some (bq, br)"
    "unat bq = 2 * 2 ^ p div nc" "unat br = 2 * 2 ^ p mod nc"
    using double_step_correct [OF nc sb(1) small(1) sb(2)] .
  obtain q r where m: "double_step magnitude (quotient s, remainder s) = Some (q, r)"
    "unat q = 2 * 2 ^ p div d" "unat r = 2 * 2 ^ p mod d"
    using double_step_correct [OF d sq(1) small(2) sq(2)] .
  show thesis
  proof (rule that)
    show "magic_step boundary magnitude s = Some \<lparr>power = power s + 1, boundary_quotient = bq,
        boundary_remainder = br, quotient = q, remainder = r\<rparr>"
      by (simp add: magic_step_def pw b m)
    show "magic_at (Suc p) nc d \<lparr>power = power s + 1, boundary_quotient = bq,
        boundary_remainder = br, quotient = q, remainder = r\<rparr>"
      using pw b m by (simp add: magic_at_def)
  qed
qed

text \<open>The loop's exit test decides \<open>nc * e < 2 ^ p\<close>.\<close>

lemma magic_test:
  fixes nc e x :: nat
  assumes "0 < nc"
  shows "(e < x div nc \<or> x div nc = e \<and> x mod nc \<noteq> 0) = (nc * e < x)"
proof -
  define q r where "q = x div nc" and "r = x mod nc"
  have x: "x = nc * q + r" and r: "r < nc" using assms unfolding q_def r_def by simp_all
  have "e < q \<Longrightarrow> nc * e < nc * q" using assms by simp
  moreover have "q < e \<Longrightarrow> x < nc * e"
  proof -
    assume "q < e"
    then have "nc * Suc q \<le> nc * e" by (intro mult_le_mono2) simp
    then show "x < nc * e" using x r by simp
  qed
  ultimately show ?thesis unfolding q_def [symmetric] r_def [symmetric]
    using x by (cases e q rule: linorder_cases) (auto intro: trans_less_add1)
qed

lemma magic_loop_correct:
  assumes nc: "unat boundary = nc" "2 \<le> nc" "nc \<le> 2 ^ 31"
    and d: "unat magnitude = d" "3 \<le> d" "d < 2 ^ 31" and nd: "\<And>p. 2 ^ p mod d \<noteq> 0"
    and s: "magic_at p nc d s" and p: "31 \<le> p" "p \<le> 61"
    and cont: "p = 31 \<or> 2 ^ p \<le> nc * magic_e p d"
  shows "\<exists>s' p'. magic_loop boundary magnitude s = Some s' \<and> magic_at p' nc d s' \<and>
    32 \<le> p' \<and> p' \<le> 62 \<and> nc * magic_e p' d < 2 ^ p' \<and>
    (p' = 32 \<or> 2 ^ (p' - 1) \<le> nc * magic_e (p' - 1) d)"
  using s p cont
proof (induction "62 - p" arbitrary: p s rule: less_induct)
  case less
  have e: "magic_e k d \<le> d - 1" for k using nd [of k] unfolding magic_e_def by simp
  have small: "2 ^ p div nc < 2 ^ 31" "2 ^ p div d < 2 ^ 31"
  proof -
    have "2 ^ p < 2 ^ 31 * nc \<and> 2 ^ p < 2 ^ 31 * d"
    proof (cases "p = 31")
      case False
      then have "2 ^ p \<le> nc * magic_e p d" using less.prems by simp
      also have le: "\<dots> \<le> nc * (d - 1)" using e by (rule mult_le_mono2)
      also have "\<dots> \<le> 2 ^ 31 * (d - 1)" using nc by (intro mult_le_mono1)
      also have "\<dots> < 2 ^ 31 * d" using d by simp
      finally have "2 ^ p < 2 ^ 31 * d" .
      moreover have "2 ^ p \<le> nc * (d - 1)" using \<open>2 ^ p \<le> nc * magic_e p d\<close> le by (rule order.trans)
      moreover have "nc * (d - 1) < nc * 2 ^ 31" using nc d by simp
      ultimately show ?thesis by (metis le_less_trans mult.commute)
    qed (use nc d in simp)
    then show "2 ^ p div nc < 2 ^ 31" "2 ^ p div d < 2 ^ 31"
      by (simp_all add: less_mult_imp_div_less)
  qed
  obtain s' where s': "magic_step boundary magnitude s = Some s'" "magic_at (Suc p) nc d s'"
    using magic_step_correct [OF nc(1) _ nc(3) d(1) _ _ less.prems(1) _ small] nc d less.prems
    by auto
  have bq: "unat (boundary_quotient s') = 2 ^ Suc p div nc"
    "unat (boundary_remainder s') = 2 ^ Suc p mod nc" and r: "unat (remainder s') = 2 ^ Suc p mod d"
    using s'(2) unfolding magic_at_def by simp_all
  have "2 ^ Suc p mod d < d" using d by (intro mod_less_divisor) simp
  then have rle: "remainder s' \<le> magnitude" using r d by (simp only: word_le_nat_alt)
  define delta where "delta = magnitude - remainder s'"
  have dl: "u32_sub magnitude (remainder s') = Some delta" "unat delta = magic_e (Suc p) d"
    using rle unat_u32_sub [OF rle] r d unfolding delta_def magic_e_def
    by (simp_all only: u32_sub_eq_Some)
  have test: "(delta < boundary_quotient s' \<or> boundary_quotient s' = delta \<and> boundary_remainder s' \<noteq> 0)
      = (nc * magic_e (Suc p) d < 2 ^ Suc p)"
    using magic_test [of nc "magic_e (Suc p) d" "2 ^ Suc p"] nc dl bq
    by (simp only: word_less_nat_alt word_unat_eq_iff unat_0)
  show ?case
  proof (cases "nc * magic_e (Suc p) d < 2 ^ Suc p")
    case True
    then have "magic_loop boundary magnitude s = Some s'"
      using s' dl test by (subst magic_loop.simps) (simp only: Option.bind.simps if_True)
    then show ?thesis using s' True less.prems by (intro exI [of _ s'] exI [of _ "Suc p"]) auto
  next
    case False
    then have go: "2 ^ Suc p \<le> nc * magic_e (Suc p) d" by simp
    also have "\<dots> \<le> nc * (d - 1)" using e by (rule mult_le_mono2)
    also have "\<dots> \<le> 2 ^ 31 * (d - 1)" using nc by (intro mult_le_mono1)
    also have "\<dots> < 2 ^ 31 * 2 ^ 31" using d by (intro mult_strict_left_mono) simp_all
    finally have "(2 :: nat) ^ Suc p < 2 ^ 62" by simp
    then have p61: "Suc p \<le> 61" by (simp only: power_strict_increasing_iff)
    have eq: "magic_loop boundary magnitude s = magic_loop boundary magnitude s'"
      using s' dl test False
      by (subst magic_loop.simps) (simp only: Option.bind.simps if_False)
    show ?thesis unfolding eq
      using less.hyps [OF _ s'(2)] less.prems p61 go by simp
  qed
qed
section \<open>Applying a magic number\<close>

text \<open>\<open>effective m V\<close>: the multiplier and its correction together multiply by \<open>V\<close>.\<close>

definition effective :: "signed_magic \<Rightarrow> int \<Rightarrow> bool" where
  "effective m V \<longleftrightarrow> sint (multiplier m) =
     (case correction m of NoCorrection \<Rightarrow> V | AddNumerator \<Rightarrow> V - 2 ^ 32 | SubNumerator \<Rightarrow> V + 2 ^ 32)"

lemma effective_corrected:
  fixes n :: i32
  assumes eff: "effective m V" and V: "\<bar>V\<bar> < 2 ^ 32"
  defines "high \<equiv> ucast (signed_drop_bit 32 (scast n * scast (multiplier m) :: i64)) :: i32"
  shows "sint (case correction m of NoCorrection \<Rightarrow> high | AddNumerator \<Rightarrow> high + n
    | SubNumerator \<Rightarrow> high - n) = (sint n * V) div 2 ^ 32"
proof -
  have bnd: "\<bar>sint n * V\<bar> \<le> 2 ^ 31 * (2 ^ 32 - 1)"
    unfolding abs_mult using V by (intro mult_mono sint_i32_abs) auto
  have lo: "- (2 ^ 31) \<le> (sint n * V) div 2 ^ 32" and hi: "(sint n * V) div 2 ^ 32 < 2 ^ 31"
    using bnd by auto
  have h: "sint high = (sint n * sint (multiplier m)) div 2 ^ 32"
    unfolding high_def by (rule sint_mul_high)
  show ?thesis
  proof (cases "correction m")
    case NoCorrection
    then show ?thesis using eff h by (simp add: effective_def)
  next
    case AddNumerator
    have "sint high + sint n = (sint n * (V - 2 ^ 32) + sint n * 2 ^ 32) div 2 ^ 32"
      using eff h AddNumerator by (simp add: effective_def)
    also have "\<dots> = (sint n * V) div 2 ^ 32" by (simp add: algebra_simps)
    finally show ?thesis using lo hi AddNumerator by (simp add: sint_add_in_range)
  next
    case SubNumerator
    have "sint high - sint n = (sint n * (V + 2 ^ 32) + (- sint n) * 2 ^ 32) div 2 ^ 32"
      using eff h SubNumerator by (simp add: effective_def)
    also have "\<dots> = (sint n * V) div 2 ^ 32" by (simp add: algebra_simps)
    finally show ?thesis using lo hi SubNumerator by (simp add: sint_diff_in_range)
  qed
qed

lemma magic_apply_effective:
  fixes n :: i32
  assumes eff: "effective m V" and V: "\<bar>V\<bar> < 2 ^ 32" and sh: "unat (shift m) = s" "s < 32"
  defines "x \<equiv> (sint n * V) div 2 ^ (32 + s)"
  shows "magic_apply m n = Some (word_of_int (if x < 0 then x + 1 else x))"
proof -
  define c where "c = (case correction m of
      NoCorrection \<Rightarrow> ucast (signed_drop_bit 32 (scast n * scast (multiplier m) :: i64))
    | AddNumerator \<Rightarrow> ucast (signed_drop_bit 32 (scast n * scast (multiplier m) :: i64)) + n
    | SubNumerator \<Rightarrow> ucast (signed_drop_bit 32 (scast n * scast (multiplier m) :: i64)) - n)"
  have c: "sint c = (sint n * V) div 2 ^ 32"
    unfolding c_def by (rule effective_corrected [OF eff V])
  define w where "w = signed_drop_bit s c"
  have "sint w = (sint n * V) div 2 ^ 32 div 2 ^ s"
    unfolding w_def by (simp add: sint_signed_drop_bit_eq drop_bit_eq_div c)
  also have "\<dots> = x" unfolding x_def by (simp add: power_add zdiv_zmult2_eq)
  finally have wx: "sint w = x" .
  have lt: "shift m < 32" using sh by (simp add: word_less_nat_alt)
  have "magic_apply m n = Some (w + drop_bit 31 w)"
    using lt sh unfolding magic_apply_def Let_def c_def [symmetric] w_def by simp
  also have "w + drop_bit 31 w = word_of_int (if x < 0 then x + 1 else x)"
    unfolding drop_bit_31_sign wx [symmetric] by simp
  finally show ?thesis .
qed
section \<open>The computed magic number\<close>

lemma unat_unsigned_abs: "unat (unsigned_abs d) = nat \<bar>sint d\<bar>"
proof -
  have r: "0 \<le> uint d" "uint d < 2 ^ 32" using unsigned_less [of d] by simp_all
  have "uint (unsigned_abs d) = \<bar>sint d\<bar>"
  proof (cases "sint d < 0")
    case True
    then have "uint (- d) = 2 ^ 32 - uint d"
      using r unfolding sint_i32_uint by (simp add: uint_word_ariths zmod_zminus1_eq_if split: if_splits)
    then show ?thesis using True r unfolding unsigned_abs_def word_sless_alt sint_i32_uint
      by (auto split: if_splits)
  next
    case False
    then show ?thesis using r unfolding unsigned_abs_def word_sless_alt sint_i32_uint
      by (auto split: if_splits)
  qed
  then show ?thesis by (metis nat_uint_eq)
qed

definition magic_threshold :: "i32 \<Rightarrow> nat" where
  "magic_threshold d = (if sint d < 0 then 2 ^ 31 + 1 else 2 ^ 31)"

definition magic_multiplier :: "nat \<Rightarrow> nat \<Rightarrow> nat" where
  "magic_multiplier p d = 2 ^ p div d + 1"

lemma magic_multiplier_bound:
  assumes d: "3 \<le> d" "d < 2 ^ 31" and e: "\<And>k. magic_e k d \<le> d - 1" and nc: "nc \<le> 2 ^ 31"
    and p: "32 \<le> p" "p = 32 \<or> 2 ^ (p - 1) \<le> nc * magic_e (p - 1) d"
  shows "magic_multiplier p d < 2 ^ 32"
proof (cases "p = 32")
  case True
  have "(2::nat) ^ 32 div d \<le> 2 ^ 32 div 3" using d by (intro div_le_mono2) simp_all
  then show ?thesis using True by (simp add: magic_multiplier_def)
next
  case False
  have "2 ^ p = 2 * 2 ^ (p - 1)" using p by (cases p) simp_all
  also have "\<dots> \<le> 2 * (nc * magic_e (p - 1) d)" using False p by simp
  also have "\<dots> \<le> 2 * (2 ^ 31 * (d - 1))" using nc e by (intro mult_le_mono) simp_all
  finally have "2 ^ p \<le> 2 ^ 32 * (d - 1)" by simp
  then have "magic_multiplier p d * d \<le> 2 ^ 32 * (d - 1) + (d - 1)"
    using magic_mult [of d p] e [of p] d unfolding magic_multiplier_def by simp
  also have "\<dots> < 2 ^ 32 * d" using d by (cases d) simp_all
  finally show ?thesis by (rule mult_less_cancel2 [THEN iffD1, THEN conjunct2])
qed

lemma magic_fields_effective:
  assumes q: "unat q + 1 = M" "M < 2 ^ 32" and d: "sint d \<noteq> 0"
    and mul: "mul = (if d <s 0 then - (q + 1) else q + 1)"
    and corr: "corr = (case (0 <s d, 0 <s mul) of (True, False) \<Rightarrow> AddNumerator
        | (False, True) \<Rightarrow> SubNumerator | _ \<Rightarrow> NoCorrection)"
  shows "effective \<lparr>multiplier = mul, shift = sh, correction = corr\<rparr>
    (if sint d < 0 then - int M else int M)"
proof -
  have "unat (q + 1) = M" using q unat_u32_add [of q 1] by simp
  then have u: "uint (q + 1) = int M" by (metis of_nat_unat)
  have M: "0 < int M" "int M < 2 ^ 32" using q by (simp_all add: of_nat_less_iff [symmetric] del: of_nat_less_iff)
  have s: "sint (q + 1) = (if int M < 2 ^ 31 then int M else int M - 2 ^ 32)"
    unfolding sint_i32_uint u ..
  have "uint (- (q + 1)) = (- int M) mod 2 ^ 32" unfolding u [symmetric] by (subst uint_word_ariths) simp
  also have "\<dots> = 2 ^ 32 - int M" using M by (simp add: zmod_zminus1_eq_if)
  finally have n: "sint (- (q + 1)) = (if 2 ^ 32 - int M < 2 ^ 31 then 2 ^ 32 - int M else - int M)"
    unfolding sint_i32_uint by simp
  show ?thesis
  proof (cases "sint d < 0")
    case True
    then have "mul = - (q + 1)" using mul by (simp add: word_sless_alt)
    then show ?thesis using True n M unfolding effective_def corr word_sless_alt
      by (auto split: if_splits)
  next
    case False
    then have "mul = q + 1" using mul by (simp add: word_sless_alt)
    then show ?thesis using False d s M unfolding effective_def corr word_sless_alt
      by (auto split: if_splits)
  qed
qed
text \<open>What the number theory needs of an accepted divisor.\<close>

lemma magic_divisor:
  assumes nt: "1 < unsigned_abs d" "\<not> u32_is_power_of_two (unsigned_abs d)"
  defines "ad \<equiv> nat \<bar>sint d\<bar>"
  shows "3 \<le> ad" "ad < 2 ^ 31" "\<And>p. 2 ^ p mod ad \<noteq> 0" "ad \<le> magic_threshold d"
    "sint d \<noteq> 0" "\<And>k. magic_e k ad \<le> ad - 1"
proof -
  have u: "unat (unsigned_abs d) = ad" unfolding ad_def by (rule unat_unsigned_abs)
  have gt: "1 < ad" using nt(1) u by (simp add: word_less_nat_alt)
  have np: "ad \<noteq> 2 ^ k" if "k < 32" for k
    using nt(2) that u by (auto simp: u32_is_power_of_two_iff)
  have le: "ad \<le> 2 ^ 31" using sint_i32_abs [of d] unfolding ad_def by simp
  show "3 \<le> ad" using np [of 1] gt by simp
  show lt: "ad < 2 ^ 31" using np [of 31] le by simp
  show nd: "2 ^ p mod ad \<noteq> 0" for p
  proof
    assume "2 ^ p mod ad = 0"
    then obtain i where i: "ad = 2 ^ i" using dvd_pow2_iff [of ad p] by auto
    then have "(2::nat) ^ i < 2 ^ 31" using lt by simp
    then have "i < 31" by (simp only: power_strict_increasing_iff)
    then show False using np [of i] i by simp
  qed
  show "ad \<le> magic_threshold d" using le by (simp add: magic_threshold_def)
  show "sint d \<noteq> 0" using gt unfolding ad_def by auto
  show "magic_e k ad \<le> ad - 1" for k using nd [of k] unfolding magic_e_def by simp
qed

lemma two31_div_mod:
  assumes n: "unat m = n" "0 < n"
  defines "q \<equiv> TWO31 div m"
  shows "u32_div TWO31 m = Some q" "u32_mul q m = Some (q * m)"
    "u32_sub TWO31 (q * m) = Some (TWO31 - q * m)"
    "unat q = 2 ^ 31 div n" "unat (TWO31 - q * m) = 2 ^ 31 mod n"
proof -
  have T: "unat TWO31 = 2 ^ 31" by (simp add: TWO31_def)
  show q: "unat q = 2 ^ 31 div n" unfolding q_def using n T by (simp add: unat_div)
  show "u32_div TWO31 m = Some q" using n by (auto simp: u32_div_def q_def)
  have le: "unat q * unat m \<le> 2 ^ 31" unfolding q n by (rule div_times_less_eq_dividend)
  then show "u32_mul q m = Some (q * m)" by (simp add: u32_mul_eq_Some)
  have qm: "unat (q * m) = unat q * unat m" using le by (intro unat_u32_mul) simp
  have sub: "q * m \<le> TWO31" using le qm T by (simp add: word_le_nat_alt)
  then show "u32_sub TWO31 (q * m) = Some (TWO31 - q * m)" by (simp add: u32_sub_eq_Some)
  show "unat (TWO31 - q * m) = 2 ^ 31 mod n"
    unfolding unat_u32_sub [OF sub] qm T q n by (rule minus_div_mult_eq_mod)
qed

lemma magic_boundary:
  assumes d: "3 \<le> ad" "ad < 2 ^ 31" "unat (unsigned_abs d) = ad"
  defines "th \<equiv> TWO31 + drop_bit 31 d" and "m \<equiv> unsigned_abs d" and "t \<equiv> magic_threshold d"
  shows "u32_add TWO31 (drop_bit 31 d) = Some th" "u32_sub th 1 = Some (th - 1)"
    "u32_rem th m = Some (th mod m)"
    "u32_sub (th - 1) (th mod m) = Some (th - 1 - th mod m)"
    "unat (th - 1 - th mod m) = magic_nc t ad"
proof -
  have T: "unat TWO31 = 2 ^ 31" by (simp add: TWO31_def)
  have t31: "2 ^ 31 \<le> t" unfolding t_def magic_threshold_def by simp
  show "u32_add TWO31 (drop_bit 31 d) = Some th"
    unfolding th_def u32_add_eq_Some drop_bit_31_sign by (simp add: T)
  have th: "unat th = t"
    unfolding th_def t_def magic_threshold_def drop_bit_31_sign by (simp add: T unat_u32_add)
  have one: "1 \<le> th" using th t31 by (simp add: word_le_nat_alt)
  then show "u32_sub th 1 = Some (th - 1)" by (simp add: u32_sub_eq_Some)
  show "u32_rem th m = Some (th mod m)" using d unfolding u32_rem_def m_def by auto
  have md: "unat (th mod m) = t mod ad" using th d by (simp add: unat_mod m_def)
  have t1: "unat (th - 1) = t - 1" using th unat_u32_sub [OF one] by simp
  have "t mod ad < ad" using d by simp
  then have "t mod ad \<le> t - 1" using d t31 by linarith
  then have le: "th mod m \<le> th - 1" by (simp only: word_le_nat_alt md t1)
  then show "u32_sub (th - 1) (th mod m) = Some (th - 1 - th mod m)" by (simp add: u32_sub_eq_Some)
  show "unat (th - 1 - th mod m) = magic_nc t ad"
    unfolding unat_u32_sub [OF le] md t1 magic_nc_def ..
qed

lemma signed_magic_result:
  assumes nt: "1 < unsigned_abs d" "\<not> u32_is_power_of_two (unsigned_abs d)"
  defines "ad \<equiv> nat \<bar>sint d\<bar>" and "t \<equiv> magic_threshold d"
  obtains m p where "signed_magic_i32 d = Some (Some m)" "32 \<le> p" "p \<le> 62"
    "unat (shift m) = p - 32" "magic_nc t ad * magic_e p ad < 2 ^ p"
    "magic_multiplier p ad < 2 ^ 32"
    "effective m (if sint d < 0 then - int (magic_multiplier p ad) else int (magic_multiplier p ad))"
proof -
  let ?m = "unsigned_abs d" and ?th = "TWO31 + drop_bit 31 d" and ?nc = "magic_nc t ad"
  let ?b = "?th - 1 - ?th mod ?m"
  have u: "unat ?m = ad" unfolding ad_def by (rule unat_unsigned_abs)
  note dv = magic_divisor [OF nt, folded ad_def, folded t_def]
  have ad0: "0 < ad" using dv by simp
  note bd = magic_boundary [OF dv(1,2) u, folded t_def]
  have nc: "2 \<le> ?nc" "?nc \<le> 2 ^ 31"
    using magic_nc_split(1,3) [of ad t] dv unfolding t_def magic_threshold_def
    by (auto simp: t_def magic_threshold_def split: if_splits)
  have nc0: "0 < ?nc" using nc by simp
  note bq = two31_div_mod [OF bd(5) nc0] and q = two31_div_mod [OF u ad0]
  let ?s = "\<lparr>power = 31, boundary_quotient = TWO31 div ?b,
    boundary_remainder = TWO31 - TWO31 div ?b * ?b, quotient = TWO31 div ?m,
    remainder = TWO31 - TWO31 div ?m * ?m\<rparr>"
  have "magic_at 31 ?nc ad ?s" unfolding magic_at_def using bq q by simp
  from magic_loop_correct [OF bd(5) nc u dv(1,2) dv(3) this]
  obtain s p where s: "magic_loop ?b ?m ?s = Some s" "magic_at p ?nc ad s"
    and p: "32 \<le> p" "p \<le> 62" "?nc * magic_e p ad < 2 ^ p"
      "p = 32 \<or> 2 ^ (p - 1) \<le> ?nc * magic_e (p - 1) ad" by auto
  have M: "magic_multiplier p ad < 2 ^ 32"
    using magic_multiplier_bound [OF dv(1,2,6) nc(2) p(1) p(4)] .
  have sp: "unat (power s) = p" and sq: "unat (quotient s) + 1 = magic_multiplier p ad"
    using s(2) unfolding magic_at_def magic_multiplier_def by simp_all
  have p32: "32 \<le> power s" using sp p by (simp add: word_le_nat_alt)
  have sh: "u32_sub (power s) 32 = Some (power s - 32)" "unat (power s - 32) = p - 32"
    using p32 unat_u32_sub [OF p32] sp by (simp_all add: u32_sub_eq_Some)
  define mul where "mul = (if d <s 0 then - (quotient s + 1) else quotient s + 1)"
  define corr where "corr = (case (0 <s d, 0 <s mul) of (True, False) \<Rightarrow> AddNumerator
        | (False, True) \<Rightarrow> SubNumerator | _ \<Rightarrow> NoCorrection)"
  define m where "m = \<lparr>multiplier = mul, shift = ucast (power s - 32), correction = corr\<rparr>"
  show thesis
  proof (rule that)
    have nle: "\<not> ?m \<le> 1" using nt by simp
    show "signed_magic_i32 d = Some (Some m)"
      unfolding signed_magic_i32_def Let_def m_def mul_def corr_def
      using nle nt(2) bd bq q s(1) sh(1) by simp
    have "unat (ucast (power s - 32) :: u8) = unat (power s - 32)"
      using sh p by (simp add: unsigned_ucast_eq take_bit_nat_eq_self)
    then show "unat (shift m) = p - 32" using sh by (simp add: m_def)
    show "effective m (if sint d < 0 then - int (magic_multiplier p ad) else int (magic_multiplier p ad))"
      unfolding m_def by (rule magic_fields_effective [OF sq M dv(5) mul_def corr_def])
  qed (use p M in auto)
qed

lemma magic_quotient:
  fixes d n :: i32
  assumes nt: "1 < unsigned_abs d" "\<not> u32_is_power_of_two (unsigned_abs d)"
  defines "ad \<equiv> nat \<bar>sint d\<bar>"
  assumes p: "32 \<le> p" and big: "magic_nc (magic_threshold d) ad * magic_e p ad < 2 ^ p"
  defines "M \<equiv> int (magic_multiplier p ad)"
  defines "x \<equiv> (sint n * (if sint d < 0 then - M else M)) div 2 ^ p"
  shows "(if x < 0 then x + 1 else x) = sint n sdiv sint d"
proof -
  let ?t = "magic_threshold d"
  define k where "k = nat \<bar>sint n\<bar>"
  note dv = magic_divisor [OF nt, folded ad_def]
  have ad: "2 \<le> ad" "ad \<le> ?t" "\<bar>sint d\<bar> = int ad" using dv unfolding ad_def by simp_all
  have k: "\<bar>sint n\<bar> = int k" "k \<le> 2 ^ 31" using sint_i32_abs [of n] unfolding k_def by simp_all
  have floor: "(int k * M) div 2 ^ p = int (k div ad)" if "k < ?t"
  proof -
    have "(int k * M) div 2 ^ p = int ((magic_multiplier p ad * k) div 2 ^ p)"
      unfolding M_def by (simp add: zdiv_int mult.commute)
    then show ?thesis using magic_floor [OF ad(1,2) big that] by (simp add: magic_multiplier_def)
  qed
  have ceil: "(- (int k * M)) div 2 ^ p = - int (k div ad) - 1"
    if "0 < k" "k < ?t \<or> k = 2 ^ 31 \<and> ?t = 2 ^ 31"
  proof -
    have "magic_e p ad * k \<le> 2 ^ p * (ad - k mod ad)"
      using that(2)
    proof
      assume "k < ?t"
      then show ?thesis using magic_upper_nat [OF ad(1,2) big] by (simp add: less_imp_le)
    next
      assume "k = 2 ^ 31 \<and> ?t = 2 ^ 31"
      then show ?thesis using magic_upper_pow [of ad p] ad p big by simp
    qed
    from magic_ceiling [OF ad(1,2) that(1) this] show ?thesis
      unfolding M_def magic_multiplier_def by (simp add: mult.commute)
  qed
  consider "0 < sint d" "0 \<le> sint n" | "0 < sint d" "sint n < 0"
    | "sint d < 0" "sint n \<le> 0" | "sint d < 0" "0 < sint n"
    using dv(5) by linarith
  then show ?thesis
  proof cases
    case 1
    then have "k < ?t" using sint_i32_range [of n] k by (simp add: magic_threshold_def)
    then show ?thesis using floor 1 k ad by (simp add: x_def signed_divide_int_def sgn_if flip: zdiv_int)
  next
    case 2
    then have "0 < k" "k < ?t \<or> k = 2 ^ 31 \<and> ?t = 2 ^ 31" using k by (auto simp: magic_threshold_def)
    moreover have "sint n = - int k" using 2 k by simp
    ultimately show ?thesis using ceil 2 k ad
      by (simp add: x_def signed_divide_int_def sgn_if flip: zdiv_int)
  next
    case 3
    then have "k < ?t" using k by (simp add: magic_threshold_def)
    moreover have "sint n = - int k" using 3 k by simp
    ultimately show ?thesis using floor 3 k ad
      by (simp add: x_def signed_divide_int_def sgn_if flip: zdiv_int)
  next
    case 4
    then have "0 < k" "k < ?t" using k sint_i32_range [of n] by (auto simp: magic_threshold_def)
    moreover have "sint n = int k" using 4 k by simp
    ultimately show ?thesis using ceil 4 k ad
      by (simp add: x_def signed_divide_int_def sgn_if flip: zdiv_int)
  qed
qed

section \<open>Properties\<close>

text \<open>C1: for every divisor that is not \<open>0\<close>, \<open>1\<close>, \<open>-1\<close> or plus or minus a power of two,
  \<open>signed_magic_i32\<close> terminates without an arithmetic overflow and returns a magic number whose
  shift is at most 30 and whose sequence \<open>apply\<close> computes the Rust quotient \<open>n / d\<close> for every
  32-bit numerator \<open>n\<close>.\<close>

theorem signed_magic_divides:
  assumes "1 < unsigned_abs d" and "\<not> u32_is_power_of_two (unsigned_abs d)"
  shows "\<exists>m. signed_magic_i32 d = Some (Some m) \<and> unat (shift m) \<le> 30 \<and>
    (\<forall>n. magic_apply m n = i32_div n d)"
proof -
  obtain m p where m: "signed_magic_i32 d = Some (Some m)" and p: "32 \<le> p" "p \<le> 62"
    and sh: "unat (shift m) = p - 32"
    and big: "magic_nc (magic_threshold d) (nat \<bar>sint d\<bar>) * magic_e p (nat \<bar>sint d\<bar>) < 2 ^ p"
    and M: "magic_multiplier p (nat \<bar>sint d\<bar>) < 2 ^ 32"
    and eff: "effective m (if sint d < 0 then - int (magic_multiplier p (nat \<bar>sint d\<bar>))
      else int (magic_multiplier p (nat \<bar>sint d\<bar>)))"
    using signed_magic_result [OF assms] by blast
  have "d \<noteq> 0" "d \<noteq> -1" using magic_divisor(1) [OF assms] by auto
  then have div: "i32_div n d = Some (word_of_int (sint n sdiv sint d))" for n
    by (simp add: i32_div_def wrapping_div_def)
  have "\<bar>if b then - int k else int k\<bar> < 2 ^ 32" if "k < 2 ^ 32" for b k
    using that by simp
  note V = this [OF M]
  have s: "p - 32 < 32" "32 + (p - 32) = p" using p by simp_all
  have "magic_apply m n = i32_div n d" for n
    unfolding magic_apply_effective [OF eff V sh s(1), of n] s(2)
      magic_quotient [OF assms p(1) big, of n] div ..
  then show ?thesis using m sh p by (intro exI [of _ m]) simp
qed

theorem signed_magic_divides_witness:
  "\<exists>m. signed_magic_i32 (-7) = Some (Some m) \<and> unat (shift m) \<le> 30 \<and>
    (\<forall>n. magic_apply m n = i32_div n (-7))"
  by (rule signed_magic_divides) code_simp+

text \<open>\<open>signed_magic_i32\<close> returns \<open>None\<close> exactly for the divisors its documentation lists:
  \<open>0\<close>, \<open>1\<close>, \<open>-1\<close> and plus or minus a power of two, the most negative integer included.\<close>

theorem signed_magic_None_iff:
  "signed_magic_i32 d = Some None \<longleftrightarrow> sint d = 0 \<or> (\<exists>k < 32. \<bar>sint d\<bar> = 2 ^ k)"
proof (cases "unsigned_abs d \<le> 1 \<or> u32_is_power_of_two (unsigned_abs d)")
  case True
  have "u32_is_power_of_two (unsigned_abs d) \<longleftrightarrow> (\<exists>k < 32. \<bar>sint d\<bar> = 2 ^ k)"
    unfolding u32_is_power_of_two_iff unat_unsigned_abs
    by (metis abs_ge_zero nat_0_le nat_int of_nat_numeral of_nat_power)
  moreover have "unsigned_abs d \<le> 1 \<Longrightarrow> sint d = 0 \<or> (\<exists>k < 32. \<bar>sint d\<bar> = 2 ^ k)"
  proof -
    assume "unsigned_abs d \<le> 1"
    then have "sint d = 0 \<or> \<bar>sint d\<bar> = 2 ^ 0"
      by (simp add: word_le_nat_alt unat_unsigned_abs) linarith
    then show ?thesis by (metis zero_less_numeral)
  qed
  ultimately show ?thesis using True by (auto simp: signed_magic_i32_def)
next
  case False
  then have "1 < unsigned_abs d" "\<not> u32_is_power_of_two (unsigned_abs d)"
    by (simp_all add: not_le)
  then obtain m where "signed_magic_i32 d = Some (Some m)" using signed_magic_result by metis
  moreover have "\<not> (sint d = 0 \<or> (\<exists>k < 32. \<bar>sint d\<bar> = 2 ^ k))"
    using False unfolding u32_is_power_of_two_iff word_le_nat_alt unat_unsigned_abs
    by (auto simp: nat_power_eq)
  ultimately show ?thesis by simp
qed

end
