(* ===== verification/IR_Ops.thy ===== *)
theory IR_Ops
  imports Rust_Prelude
begin

text \<open>
  RaanaIR's types and binary operators: \<^verbatim>\<open>raana_ir/src/ir/types.rs\<close> and
  \<^verbatim>\<open>raana_ir/src/ir/inst_kind/binary.rs\<close>, with the wrapping integer meaning of the operators
  (\<open>fold_binary\<close> of \<^verbatim>\<open>opt/analysis_passes/range.rs\<close>). \<open>Type\<close> is a reference-counted,
  interned \<open>TypeKind\<close>: two types are equal when their kinds are, so the model uses the kind.
\<close>

section \<open>Types\<close>

datatype ty =
    Unit
  | Int32
  | Float32
  | StringTy
  | ArrayTy ty usize
  | VectorTy ty usize
  | PointerTy ty
  | FunctionTy "ty list" ty
  | ArgList

text \<open>The interning pool of \<open>Type::get\<close>: a map from kinds to the shared type.\<close>

type_synonym type_pool = "ty \<rightharpoonup> ty"

definition type_get :: "type_pool \<Rightarrow> ty \<Rightarrow> ty \<times> type_pool" where
  "type_get pool base = (case pool base of
      Some t \<Rightarrow> (t, pool)
    | None \<Rightarrow> (base, pool(base \<mapsto> base)))"

definition get_array :: "ty \<Rightarrow> usize \<Rightarrow> ty rust" where
  "get_array base len = do { rassert (len > 0); Some (ArrayTy base len) }"

definition get_vector :: "ty \<Rightarrow> usize \<Rightarrow> ty rust" where
  "get_vector elem lanes = do { rassert (lanes > 0); Some (VectorTy elem lanes) }"

fun is_i32 :: "ty \<Rightarrow> bool" where
  "is_i32 Int32 = True" | "is_i32 _ = False"

fun is_f32 :: "ty \<Rightarrow> bool" where
  "is_f32 Float32 = True" | "is_f32 _ = False"

definition is_scalar :: "ty \<Rightarrow> bool" where
  "is_scalar t = (is_i32 t \<or> is_f32 t)"

fun is_pointer :: "ty \<Rightarrow> bool" where
  "is_pointer (PointerTy _) = True" | "is_pointer _ = False"

fun is_array :: "ty \<Rightarrow> bool" where
  "is_array (ArrayTy _ _) = True" | "is_array _ = False"

fun is_vector :: "ty \<Rightarrow> bool" where
  "is_vector (VectorTy _ _) = True" | "is_vector _ = False"

fun is_unit :: "ty \<Rightarrow> bool" where
  "is_unit Unit = True" | "is_unit _ = False"

fun get_array_info :: "ty \<Rightarrow> (ty \<times> usize) rust" where
  "get_array_info (ArrayTy base len) = Some (base, len)" | "get_array_info _ = None"

definition POINTER_SIZE :: usize where
  "POINTER_SIZE = 8"

fun ty_size :: "ty \<Rightarrow> usize" where
  "ty_size ArgList = 0"
| "ty_size Unit = 0"
| "ty_size Int32 = 4"
| "ty_size Float32 = 4"
| "ty_size (ArrayTy base len) = ty_size base * len"
| "ty_size (VectorTy elem lanes) = ty_size elem * lanes"
| "ty_size StringTy = POINTER_SIZE"
| "ty_size (PointerTy _) = POINTER_SIZE"
| "ty_size (FunctionTy _ _) = POINTER_SIZE"

fun ty_alignment :: "ty \<Rightarrow> usize" where
  "ty_alignment Int32 = 4"
| "ty_alignment Float32 = 4"
| "ty_alignment (ArrayTy base _) = ty_alignment base"
| "ty_alignment (VectorTy elem _) = ty_alignment elem"
| "ty_alignment (PointerTy _) = POINTER_SIZE"
| "ty_alignment (FunctionTy _ _) = POINTER_SIZE"
| "ty_alignment _ = 1"

fun derefernce :: "ty \<Rightarrow> ty rust" where
  "derefernce (PointerTy base) = Some base" | "derefernce _ = None"

definition reference :: "ty \<Rightarrow> ty" where
  "reference t = PointerTy t"

fun get_array_elem_ty :: "ty \<Rightarrow> ty rust" where
  "get_array_elem_ty (ArrayTy base _) = Some base" | "get_array_elem_ty _ = None"

fun array_base_scalar_type :: "ty \<Rightarrow> ty rust" where
  "array_base_scalar_type (ArrayTy t _) = array_base_scalar_type t"
| "array_base_scalar_type Int32 = Some Int32"
| "array_base_scalar_type Float32 = Some Float32"
| "array_base_scalar_type _ = None"

fun array_flatten_length :: "ty \<Rightarrow> usize rust" where
  "array_flatten_length (ArrayTy t len) = do { n \<leftarrow> array_flatten_length t; Some (len * n) }"
| "array_flatten_length Int32 = Some 1"
| "array_flatten_length Float32 = Some 1"
| "array_flatten_length _ = None"

section \<open>Binary operators\<close>

datatype binary_op = Add | Sub | Mul | Div | Rem | NotEq | Eq | Gt | Lt | Ge | Le
  | And | Or | Xor | Shl | Shr | Sar | Min | Max

definition is_compare :: "binary_op \<Rightarrow> bool" where
  "is_compare op = (op \<in> {NotEq, Eq, Gt, Lt, Ge, Le})"

fun complement_integer_compare :: "binary_op \<Rightarrow> binary_op option" where
  "complement_integer_compare NotEq = Some Eq"
| "complement_integer_compare Eq = Some NotEq"
| "complement_integer_compare Gt = Some Le"
| "complement_integer_compare Lt = Some Ge"
| "complement_integer_compare Ge = Some Lt"
| "complement_integer_compare Le = Some Gt"
| "complement_integer_compare _ = None"

fun swap_compare_args :: "binary_op \<Rightarrow> binary_op option" where
  "swap_compare_args NotEq = Some NotEq"
| "swap_compare_args Eq = Some Eq"
| "swap_compare_args Gt = Some Lt"
| "swap_compare_args Lt = Some Gt"
| "swap_compare_args Ge = Some Le"
| "swap_compare_args Le = Some Ge"
| "swap_compare_args _ = None"

definition is_commutative_for :: "binary_op \<Rightarrow> ty \<Rightarrow> bool" where
  "is_commutative_for op t =
     (op \<in> {NotEq, Eq, Min, Max} \<or> is_i32 t \<and> op \<in> {Add, Mul, And, Or, Xor})"

text \<open>\<open>Binary::new_data\<close>: the type of a binary instruction over operands of type \<open>t\<close>.\<close>

definition binary_result_ty :: "binary_op \<Rightarrow> ty \<Rightarrow> ty" where
  "binary_result_ty op t = (if is_compare op \<and> \<not> is_vector t then Int32 else t)"

definition of_bool_i32 :: "bool \<Rightarrow> i32" where
  "of_bool_i32 b = (if b then 1 else 0)"

fun fold_binary :: "binary_op \<Rightarrow> i32 \<Rightarrow> i32 \<Rightarrow> i32 rust" where
  "fold_binary Add lhs rhs = Some (lhs + rhs)"
| "fold_binary Sub lhs rhs = Some (lhs - rhs)"
| "fold_binary Mul lhs rhs = Some (lhs * rhs)"
| "fold_binary Div lhs rhs = wrapping_div lhs rhs"
| "fold_binary Rem lhs rhs = wrapping_rem lhs rhs"
| "fold_binary NotEq lhs rhs = Some (of_bool_i32 (lhs \<noteq> rhs))"
| "fold_binary Eq lhs rhs = Some (of_bool_i32 (lhs = rhs))"
| "fold_binary Gt lhs rhs = Some (of_bool_i32 (rhs <s lhs))"
| "fold_binary Lt lhs rhs = Some (of_bool_i32 (lhs <s rhs))"
| "fold_binary Ge lhs rhs = Some (of_bool_i32 (rhs \<le>s lhs))"
| "fold_binary Le lhs rhs = Some (of_bool_i32 (lhs \<le>s rhs))"
| "fold_binary And lhs rhs = Some (lhs AND rhs)"
| "fold_binary Or lhs rhs = Some (lhs OR rhs)"
| "fold_binary Xor lhs rhs = Some (lhs XOR rhs)"
| "fold_binary Shl lhs rhs = Some (push_bit (unat rhs mod 32) lhs)"
| "fold_binary Shr lhs rhs = Some (drop_bit (unat rhs mod 32) lhs)"
| "fold_binary Sar lhs rhs = Some (signed_drop_bit (unat rhs mod 32) lhs)"
| "fold_binary Min lhs rhs = Some (i32_min lhs rhs)"
| "fold_binary Max lhs rhs = Some (i32_max lhs rhs)"

section \<open>Properties\<close>

lemma sint_of_bool_i32 [simp]: "sint (of_bool_i32 b) = (if b then 1 else 0)"
  by (simp add: of_bool_i32_def)

lemma ty_alignment_dvd_size: "ty_alignment t dvd ty_size t"
  by (induction t rule: ty_size.induct) (simp_all add: dvd_mult2)

lemma size_flatten:
  "array_flatten_length t = Some n \<Longrightarrow> ty_size t = 4 * n"
  by (induction t arbitrary: n rule: array_flatten_length.induct) auto

lemma flatten_iff_scalar_base:
  "(\<exists>n. array_flatten_length t = Some n) = (\<exists>s. array_base_scalar_type t = Some s)"
  by (induction t rule: array_base_scalar_type.induct) auto

text \<open>the size of every type is a multiple of its alignment, so consecutive array elements
  stay aligned.\<close>

theorem type_size_aligned: "ty_size t mod ty_alignment t = 0 \<and> ty_alignment t \<in> {1, 4, 8}"
proof -
  have "ty_alignment t \<in> {1, 4, 8}"
    by (induction t) (simp_all add: POINTER_SIZE_def)
  then show ?thesis using ty_alignment_dvd_size [of t] by simp
qed

text \<open>flattening an array succeeds exactly when its innermost element is a scalar, and the
  byte size of the array is then four times the flattened length.\<close>

theorem array_flatten_size:
  "(case array_flatten_length t of
      Some n \<Rightarrow> ty_size t = 4 * n \<and> array_base_scalar_type t \<in> {Some Int32, Some Float32}
    | None \<Rightarrow> array_base_scalar_type t = None)"
proof -
  have "array_base_scalar_type t \<in> {None, Some Int32, Some Float32}"
    by (induction t rule: array_base_scalar_type.induct) auto
  then show ?thesis
    using size_flatten [of t] flatten_iff_scalar_base [of t] by (auto split: option.splits)
qed

text \<open>the complement of an integer comparison is true exactly when the comparison is false,
  the swapped comparison gives the same result on swapped operands, and both are defined exactly
  on the comparison operators.\<close>

theorem compare_rewrites_sound:
  "(case complement_integer_compare op of
      Some c \<Rightarrow> is_compare op \<and> is_compare c \<and>
        (\<forall>a b. \<exists>r. fold_binary op a b = Some r \<and> fold_binary c a b = Some (1 - r))
    | None \<Rightarrow> \<not> is_compare op) \<and>
   (case swap_compare_args op of
      Some s \<Rightarrow> is_compare op \<and> is_compare s \<and> (\<forall>a b. fold_binary s b a = fold_binary op a b)
    | None \<Rightarrow> \<not> is_compare op)"
  by (cases op) (auto simp: is_compare_def of_bool_i32_def word_sless_alt word_sle_eq)

text \<open>every operator the IR treats as commutative on \<open>i32\<close> gives the same result on swapped
  operands.\<close>

theorem commutative_for_i32_sound:
  assumes "is_commutative_for op Int32"
  shows "fold_binary op a b = fold_binary op b a"
proof -
  have "i32_min a b = i32_min b a" "i32_max a b = i32_max b a"
    by (simp_all flip: sint_eq_iff add: min.commute max.commute)
  then show ?thesis using assms
    by (cases op) (auto simp: is_commutative_for_def of_bool_i32_def ac_simps)
qed

end
