(* ===== verification/Int_Ranges.thy ===== *)
theory Int_Ranges
  imports IR_Ops
begin

unbundle bit_operations_syntax

text \<open>
  The signed \<open>i32\<close> range analysis of \<^verbatim>\<open>raana_ir/src/opt/analysis_passes/range.rs\<close>: the
  abstract domain \<open>IntRange\<close> (one closed interval with an optional hole at zero), the transfer
  functions of the binary operators, the branch refinements, and the evaluation of a value against
  a set of facts.
\<close>

section \<open>The domain\<close>

datatype int_range = Empty | Bounded i32 i32 bool

definition range_full :: int_range where
  "range_full = Bounded i32_MIN i32_MAX True"

definition range_constant :: "i32 \<Rightarrow> int_range" where
  "range_constant value = Bounded value value (value = 0)"

definition normalized :: "i32 \<Rightarrow> i32 \<Rightarrow> bool \<Rightarrow> int_range" where
  "normalized mn0 mx0 zero =
    (if mx0 <s mn0 then Empty
     else
       let mn = (if \<not> zero \<and> mn0 = 0 then 1 else mn0);
           mx = (if \<not> zero \<and> mx0 = 0 then - 1 else mx0)
       in if \<not> zero \<and> mx <s mn then Empty
          else Bounded mn mx (zero \<and> mn \<le>s 0 \<and> 0 \<le>s mx))"

definition bounded :: "i32 \<Rightarrow> i32 \<Rightarrow> int_range" where
  "bounded mn mx = normalized mn mx (mn \<le>s 0 \<and> 0 \<le>s mx)"

fun range_min :: "int_range \<Rightarrow> i32 option" where
  "range_min Empty = None"
| "range_min (Bounded mn _ _) = Some mn"

fun range_max :: "int_range \<Rightarrow> i32 option" where
  "range_max Empty = None"
| "range_max (Bounded _ mx _) = Some mx"

fun singleton :: "int_range \<Rightarrow> i32 option" where
  "singleton (Bounded mn mx _) = (if mn = mx then Some mn else None)"
| "singleton Empty = None"

fun contains :: "int_range \<Rightarrow> i32 \<Rightarrow> bool" where
  "contains Empty value = False"
| "contains (Bounded mn mx zero) value =
     (mn \<le>s value \<and> value \<le>s mx \<and> (value \<noteq> 0 \<or> zero))"

definition contains_zero :: "int_range \<Rightarrow> bool" where
  "contains_zero r = contains r 0"

definition excludes_zero :: "int_range \<Rightarrow> bool" where
  "excludes_zero r = (\<not> contains_zero r)"

fun join :: "int_range \<Rightarrow> int_range \<Rightarrow> int_range" where
  "join Empty r = r"
| "join r Empty = r"
| "join (Bounded lmn lmx lz) (Bounded rmn rmx rz) =
     normalized (i32_min lmn rmn) (i32_max lmx rmx) (lz \<or> rz)"

fun intersect :: "int_range \<Rightarrow> int_range \<Rightarrow> int_range" where
  "intersect Empty _ = Empty"
| "intersect _ Empty = Empty"
| "intersect (Bounded lmn lmx lz) (Bounded rmn rmx rz) =
     normalized (i32_max lmn rmn) (i32_min lmx rmx) (lz \<and> rz)"

fun is_subset_of :: "int_range \<Rightarrow> int_range \<Rightarrow> bool" where
  "is_subset_of Empty _ = True"
| "is_subset_of _ Empty = False"
| "is_subset_of (Bounded lmn lmx lz) (Bounded rmn rmx rz) =
     (rmn \<le>s lmn \<and> lmx \<le>s rmx \<and> (\<not> lz \<or> rz) \<and> \<not> (lmn = 0 \<and> \<not> lz \<and> lmx = 0))"

definition assume_eq :: "int_range \<Rightarrow> int_range \<Rightarrow> int_range" where
  "assume_eq r other = intersect r other"

definition assume_ne :: "int_range \<Rightarrow> int_range \<Rightarrow> int_range" where
  "assume_ne r other = (case singleton other of
      Some value \<Rightarrow>
        if value = 0 then
          (case r of
             Bounded mn mx _ \<Rightarrow> if mn = 0 \<and> mx = 0 then Empty else normalized mn mx False
           | Empty \<Rightarrow> Empty)
        else if singleton r = Some value then Empty
        else r
    | None \<Rightarrow> r)"

definition i32_checked_sub :: "i32 \<Rightarrow> i32 \<Rightarrow> i32 option" where
  "i32_checked_sub a b =
     (if - (2 ^ 31) \<le> sint a - sint b \<and> sint a - sint b < 2 ^ 31 then Some (a - b) else None)"

definition i32_checked_add :: "i32 \<Rightarrow> i32 \<Rightarrow> i32 option" where
  "i32_checked_add a b =
     (if - (2 ^ 31) \<le> sint a + sint b \<and> sint a + sint b < 2 ^ 31 then Some (a + b) else None)"

definition assume_lt :: "int_range \<Rightarrow> int_range \<Rightarrow> int_range" where
  "assume_lt r other = (case range_max other of
      None \<Rightarrow> Empty
    | Some other_max \<Rightarrow> (case i32_checked_sub other_max 1 of
          None \<Rightarrow> Empty
        | Some mx \<Rightarrow> intersect r (bounded i32_MIN mx)))"

definition assume_le :: "int_range \<Rightarrow> int_range \<Rightarrow> int_range" where
  "assume_le r other = (case range_max other of
      None \<Rightarrow> Empty
    | Some other_max \<Rightarrow> intersect r (bounded i32_MIN other_max))"

definition assume_gt :: "int_range \<Rightarrow> int_range \<Rightarrow> int_range" where
  "assume_gt r other = (case range_min other of
      None \<Rightarrow> Empty
    | Some other_min \<Rightarrow> (case i32_checked_add other_min 1 of
          None \<Rightarrow> Empty
        | Some mn \<Rightarrow> intersect r (bounded mn i32_MAX)))"

definition assume_ge :: "int_range \<Rightarrow> int_range \<Rightarrow> int_range" where
  "assume_ge r other = (case range_min other of
      None \<Rightarrow> Empty
    | Some other_min \<Rightarrow> intersect r (bounded other_min i32_MAX))"

fun widen :: "int_range \<Rightarrow> int_range \<Rightarrow> int_range" where
  "widen Empty r = r"
| "widen r Empty = r"
| "widen (Bounded omn omx oz) (Bounded nmn nmx nz) =
     normalized (if nmn <s omn then i32_MIN else omn)
                (if omx <s nmx then i32_MAX else omx) (oz \<or> nz)"

section \<open>Transfer functions\<close>

definition refine_comparison :: "binary_op \<Rightarrow> int_range \<Rightarrow> int_range \<Rightarrow> int_range \<times> int_range" where
  "refine_comparison op lhs rhs = (case op of
      Eq \<Rightarrow> (assume_eq lhs rhs, assume_eq rhs lhs)
    | NotEq \<Rightarrow> (assume_ne lhs rhs, assume_ne rhs lhs)
    | Lt \<Rightarrow> (assume_lt lhs rhs, assume_gt rhs lhs)
    | Le \<Rightarrow> (assume_le lhs rhs, assume_ge rhs lhs)
    | Gt \<Rightarrow> (assume_gt lhs rhs, assume_lt rhs lhs)
    | Ge \<Rightarrow> (assume_ge lhs rhs, assume_le rhs lhs)
    | _ \<Rightarrow> (lhs, rhs))"

text \<open>The \<open>i64\<close> endpoints of \<open>mathematical_binary\<close> are integers here: products of two \<open>i32\<close>
  values, and \<open>i32\<close> values scaled by at most \<open>2 ^ 31\<close>, never leave \<open>i64\<close>.\<close>

definition math_endpoints :: "binary_op \<Rightarrow> int \<Rightarrow> int \<Rightarrow> int \<Rightarrow> int \<Rightarrow> (int \<times> int) option" where
  "math_endpoints op lmn lmx rmn rmx = (case op of
      Add \<Rightarrow> Some (lmn + rmn, lmx + rmx)
    | Sub \<Rightarrow> Some (lmn - rmx, lmx - rmn)
    | Mul \<Rightarrow>
        Some (min (min (lmn * rmn) (lmn * rmx)) (min (lmx * rmn) (lmx * rmx)),
              max (max (lmn * rmn) (lmn * rmx)) (max (lmx * rmn) (lmx * rmx)))
    | Shl \<Rightarrow>
        if rmn = rmx \<and> 0 \<le> rmn \<and> rmn < 32 then
          (let factor = 2 ^ nat rmn
           in Some (min (lmn * factor) (lmx * factor), max (lmn * factor) (lmx * factor)))
        else None
    | Min \<Rightarrow> Some (min lmn rmn, min lmx rmx)
    | Max \<Rightarrow> Some (max lmn rmn, max lmx rmx)
    | _ \<Rightarrow> None)"

definition mathematical_binary :: "binary_op \<Rightarrow> int_range \<Rightarrow> int_range \<Rightarrow> int_range option" where
  "mathematical_binary op lhs rhs = do {
     lhs_min \<leftarrow> range_min lhs;
     lhs_max \<leftarrow> range_max lhs;
     rhs_min \<leftarrow> range_min rhs;
     rhs_max \<leftarrow> range_max rhs;
     (mn, mx) \<leftarrow> math_endpoints op (sint lhs_min) (sint lhs_max) (sint rhs_min) (sint rhs_max);
     if mn < sint i32_MIN \<or> mx > sint i32_MAX then None
     else Some (bounded (word_of_int mn) (word_of_int mx))
   }"

definition proven_true :: "binary_op \<Rightarrow> int_range \<Rightarrow> int_range \<Rightarrow> i32 \<Rightarrow> i32 \<Rightarrow> i32 \<Rightarrow> i32 \<Rightarrow> bool" where
  "proven_true op lhs rhs lmn lmx rmn rmx = (case op of
      Eq \<Rightarrow> singleton lhs \<noteq> None \<and> singleton lhs = singleton rhs
    | NotEq \<Rightarrow> lmx <s rmn \<or> rmx <s lmn
    | Lt \<Rightarrow> lmx <s rmn
    | Le \<Rightarrow> lmx \<le>s rmn
    | Gt \<Rightarrow> rmx <s lmn
    | Ge \<Rightarrow> rmx \<le>s lmn
    | _ \<Rightarrow> False)"

definition proven_false :: "binary_op \<Rightarrow> int_range \<Rightarrow> int_range \<Rightarrow> i32 \<Rightarrow> i32 \<Rightarrow> i32 \<Rightarrow> i32 \<Rightarrow> bool" where
  "proven_false op lhs rhs lmn lmx rmn rmx = (case op of
      Eq \<Rightarrow> lmx <s rmn \<or> rmx <s lmn
    | NotEq \<Rightarrow> singleton lhs \<noteq> None \<and> singleton lhs = singleton rhs
    | Lt \<Rightarrow> rmx \<le>s lmn
    | Le \<Rightarrow> rmx <s lmn
    | Gt \<Rightarrow> lmx \<le>s rmn
    | Ge \<Rightarrow> lmx <s rmn
    | _ \<Rightarrow> False)"

definition comparison_range :: "binary_op \<Rightarrow> int_range \<Rightarrow> int_range \<Rightarrow> int_range rust" where
  "comparison_range op lhs rhs = do {
     lhs_min \<leftarrow> range_min lhs;
     lhs_max \<leftarrow> range_max lhs;
     rhs_min \<leftarrow> range_min rhs;
     rhs_max \<leftarrow> range_max rhs;
     Some (if proven_true op lhs rhs lhs_min lhs_max rhs_min rhs_max then range_constant 1
           else if proven_false op lhs rhs lhs_min lhs_max rhs_min rhs_max then range_constant 0
           else bounded 0 1)
   }"

definition transfer_div :: "int_range \<Rightarrow> int_range \<Rightarrow> int_range rust" where
  "transfer_div lhs rhs = (case singleton rhs of
      None \<Rightarrow> Some range_full
    | Some divisor \<Rightarrow>
        if divisor = 0 \<or> divisor = - 1 \<and> contains lhs i32_MIN then Some range_full
        else do {
          mn \<leftarrow> range_min lhs;
          mx \<leftarrow> range_max lhs;
          a \<leftarrow> i32_div mn divisor;
          b \<leftarrow> i32_div mx divisor;
          Some (bounded (i32_min a b) (i32_max a b))
        })"

text \<open>\<open>unsigned_abs().saturating_sub(1).min(i32::MAX as u32) as i32\<close>\<close>

definition rem_magnitude :: "i32 \<Rightarrow> i32" where
  "rem_magnitude divisor =
     word_of_int (min (max (\<bar>sint divisor\<bar> - 1) 0) (sint i32_MAX))"

definition transfer_rem :: "int_range \<Rightarrow> int_range \<Rightarrow> int_range rust" where
  "transfer_rem lhs rhs = (case singleton rhs of
      None \<Rightarrow> Some range_full
    | Some divisor \<Rightarrow>
        if divisor = 0 then Some range_full
        else
          let magnitude = rem_magnitude divisor
          in if (case range_min lhs of Some mn \<Rightarrow> 0 \<le>s mn | None \<Rightarrow> False)
             then Some (bounded 0 magnitude)
             else if magnitude = i32_MIN then None
             else Some (bounded (- magnitude) magnitude))"

text \<open>The last \<open>match\<close> of \<open>transfer_binary\<close>.\<close>

definition transfer_fallback :: "binary_op \<Rightarrow> int_range \<Rightarrow> int_range \<Rightarrow> int_range rust" where
  "transfer_fallback op lhs rhs = (case op of
      And \<Rightarrow>
        if singleton rhs = Some 0 \<or> singleton lhs = Some 0 then Some (range_constant 0)
        else (case (case singleton lhs of Some l \<Rightarrow> Some l | None \<Rightarrow> singleton rhs) of
            Some msk \<Rightarrow> if 0 \<le>s msk then Some (bounded 0 msk) else Some range_full
          | None \<Rightarrow> Some range_full)
    | Or \<Rightarrow> if singleton rhs = Some 0 then Some lhs
            else if singleton lhs = Some 0 then Some rhs else Some range_full
    | Xor \<Rightarrow> if singleton rhs = Some 0 then Some lhs
             else if singleton lhs = Some 0 then Some rhs else Some range_full
    | Div \<Rightarrow> transfer_div lhs rhs
    | Rem \<Rightarrow> transfer_rem lhs rhs
    | Shr \<Rightarrow> Some (bounded 0 i32_MAX)
    | Sar \<Rightarrow> (case singleton rhs of
          Some shift \<Rightarrow>
            if 0 \<le>s shift \<and> shift <s 32 then do {
              mn \<leftarrow> range_min lhs;
              mx \<leftarrow> range_max lhs;
              Some (bounded (signed_drop_bit (unat shift) mn) (signed_drop_bit (unat shift) mx))
            }
            else Some range_full
        | None \<Rightarrow> Some range_full)
    | _ \<Rightarrow> Some range_full)"

definition transfer_binary :: "binary_op \<Rightarrow> int_range \<Rightarrow> int_range \<Rightarrow> int_range rust" where
  "transfer_binary op lhs rhs =
    (if lhs = Empty \<or> rhs = Empty then Some Empty
     else case (singleton lhs, singleton rhs) of
       (Some l, Some r) \<Rightarrow>
         if op \<in> {Div, Rem} \<and> r = 0 then Some range_full
         else do { c \<leftarrow> fold_binary op l r; Some (range_constant c) }
     | _ \<Rightarrow>
       if is_compare op then comparison_range op lhs rhs
       else case mathematical_binary op lhs rhs of
         Some rng \<Rightarrow> Some rng
       | None \<Rightarrow> transfer_fallback op lhs rhs)"

section \<open>Meaning and invariant\<close>

text \<open>The values of a range, as integers, and the representation invariant: the interval is not
  empty, the zero flag is only set when zero lies in it, and a hole at zero is never an endpoint.\<close>

fun range_wf :: "int_range \<Rightarrow> bool" where
  "range_wf Empty = True"
| "range_wf (Bounded mn mx zero) =
     (mn \<le>s mx \<and> (if zero then mn \<le>s 0 \<and> 0 \<le>s mx else mn \<noteq> 0 \<and> mx \<noteq> 0))"

lemma i32_eq_iff_sint: "(a = b) = (sint a = sint (b :: i32))"
  by (simp add: sint_eq_iff)

lemmas i32_order = word_sle_eq word_sless_alt
lemmas i32_arith = word_sle_eq word_sless_alt i32_eq_iff_sint

lemma contains_normalized:
  "contains (normalized mn mx z) v =
     (sint mn \<le> sint v \<and> sint v \<le> sint mx \<and> (v \<noteq> 0 \<or> z))"
  by (auto simp: normalized_def Let_def i32_arith split: if_splits)

lemma normalized_wf: "range_wf (normalized mn mx z)"
  by (auto simp: normalized_def Let_def i32_arith)

lemma contains_bounded [simp]:
  "contains (bounded mn mx) v = (sint mn \<le> sint v \<and> sint v \<le> sint mx)"
  by (auto simp: bounded_def contains_normalized i32_order)

lemma bounded_wf [simp]: "range_wf (bounded mn mx)"
  by (simp add: bounded_def normalized_wf)

lemma contains_full [simp]: "contains range_full v"
  using sint_i32_lower [of v] sint_i32_upper [of v] by (simp add: range_full_def i32_order)

lemma full_wf [simp]: "range_wf range_full"
  by (simp add: range_full_def i32_order)

lemma contains_constant [simp]: "contains (range_constant c) v = (v = c)"
  by (auto simp: range_constant_def i32_arith)

lemma constant_wf [simp]: "range_wf (range_constant c)"
  by (simp add: range_constant_def i32_order)

lemma contains_intersect: "contains (intersect a b) v = (contains a v \<and> contains b v)"
  by (cases "(a, b)" rule: intersect.cases) (auto simp: contains_normalized i32_order)

lemma contains_join: "contains a v \<or> contains b v \<Longrightarrow> contains (join a b) v"
  by (cases "(a, b)" rule: join.cases) (auto simp: contains_normalized i32_order)

lemma contains_widen: "contains a v \<or> contains b v \<Longrightarrow> contains (widen a b) v"
  using sint_i32_lower [of v] sint_i32_upper [of v]
  by (cases "(a, b)" rule: widen.cases) (auto simp: contains_normalized i32_order)

lemma intersect_wf: "range_wf (intersect a b)"
  by (cases "(a, b)" rule: intersect.cases) (simp_all add: normalized_wf)

lemma join_wf: "range_wf a \<Longrightarrow> range_wf b \<Longrightarrow> range_wf (join a b)"
  by (cases "(a, b)" rule: join.cases) (simp_all add: normalized_wf)

lemma widen_wf: "range_wf a \<Longrightarrow> range_wf b \<Longrightarrow> range_wf (widen a b)"
  by (cases "(a, b)" rule: widen.cases) (simp_all add: normalized_wf)

lemma wf_empty_iff: "range_wf r \<Longrightarrow> (r = Empty) = (\<forall>v. \<not> contains r v)"
proof (cases r)
  case (Bounded mn mx z)
  moreover assume "range_wf r"
  ultimately have "contains r mn" by (auto simp: i32_order split: if_splits)
  then show ?thesis using Bounded by blast
qed simp

text \<open>Endpoints of a well-formed range are members.\<close>
lemma wf_endpoints:
  assumes "range_wf (Bounded mn mx z)"
  shows "contains (Bounded mn mx z) mn" "contains (Bounded mn mx z) mx"
  using assms by (auto simp: i32_order split: if_splits)

lemma subset_iff:
  assumes "range_wf a" "range_wf b"
  shows "is_subset_of a b = (\<forall>v. contains a v \<longrightarrow> contains b v)"
proof (cases "(a, b)" rule: is_subset_of.cases)
  case (3 lmn lmx lz rmn rmx rz)
  then have ab: "a = Bounded lmn lmx lz" "b = Bounded rmn rmx rz" by simp_all
  have "is_subset_of a b" if "\<forall>v. contains a v \<longrightarrow> contains b v"
  proof -
    have "contains b lmn" "contains b lmx"
      using that assms(1) wf_endpoints [of lmn lmx lz] ab by blast+
    moreover have "lz \<Longrightarrow> contains a 0" using assms(1) ab by simp
    then have "lz \<Longrightarrow> contains b 0" using that by blast
    ultimately show ?thesis using assms ab by (auto simp: i32_arith split: if_splits)
  qed
  moreover have "contains b v" if "is_subset_of a b" "contains a v" for v
    using that ab by (auto simp: i32_order)
  ultimately show ?thesis by blast
next
  case (2 a' b' c')
  then show ?thesis using assms wf_empty_iff [of a] by auto
qed auto

text \<open>Two well-formed ranges with the same values are the same range.\<close>
lemma range_ext:
  assumes "range_wf a" "range_wf b" "\<And>v. contains a v = contains b v"
  shows "a = b"
proof -
  have "is_subset_of a b" "is_subset_of b a" using assms by (simp_all add: subset_iff)
  then show ?thesis using assms(1,2)
    by (cases a; cases b) (auto simp: i32_arith split: if_splits)
qed

lemma join_least:
  assumes "range_wf a" "range_wf b" "range_wf c" "is_subset_of a c" "is_subset_of b c"
  shows "is_subset_of (join a b) c"
proof (cases "(a, b)" rule: join.cases)
  case (3 lmn lmx lz rmn rmx rz)
  then obtain mn mx z where c: "c = Bounded mn mx z" using assms by (cases c) auto
  have "contains c v" if "contains (join a b) v" for v
  proof -
    have "sint mn \<le> min (sint lmn) (sint rmn)" "max (sint lmx) (sint rmx) \<le> sint mx" "lz \<or> rz \<longrightarrow> z"
      using assms(4,5) 3 c by (simp_all add: i32_order)
    then show ?thesis using that 3 c by (simp add: contains_normalized i32_order) linarith
  qed
  then show ?thesis using assms by (simp add: subset_iff join_wf)
qed (use assms in auto)

section \<open>Soundness of the refinements and transfers\<close>

text \<open>\<open>range_cases\<close>: what a value of a well-formed, non-empty range satisfies.\<close>

lemma contains_minmax:
  "contains r v \<Longrightarrow> \<exists>mn mx. range_min r = Some mn \<and> range_max r = Some mx \<and> sint mn \<le> sint v \<and> sint v \<le> sint mx"
  by (cases r) (auto simp: i32_order)

lemma singleton_SomeD: "singleton r = Some c \<Longrightarrow> contains r v \<Longrightarrow> v = c"
  by (cases r) (auto simp: i32_arith split: if_splits)

lemma contains_assume_eq: "contains lhs v \<Longrightarrow> contains rhs v \<Longrightarrow> contains (assume_eq lhs rhs) v"
  by (simp add: assume_eq_def contains_intersect)

lemma contains_assume_ne:
  assumes "contains lhs v" "contains rhs w" "v \<noteq> w"
  shows "contains (assume_ne lhs rhs) v"
proof (cases "singleton rhs")
  case (Some c)
  then have "w = c" using assms(2) singleton_SomeD by blast
  then show ?thesis using assms Some singleton_SomeD [of lhs c v]
    by (cases lhs) (auto simp: assume_ne_def contains_normalized i32_order dest: sym)
qed (use assms in \<open>simp add: assume_ne_def\<close>)

lemma contains_assume_lt:
  assumes "contains lhs v" "contains rhs w" "v <s w"
  shows "contains (assume_lt lhs rhs) v"
proof -
  obtain mx where mx: "range_max rhs = Some mx" "sint w \<le> sint mx"
    using contains_minmax [OF assms(2)] by blast
  have "sint v < sint w" using assms(3) by (simp add: i32_order)
  then have b: "- (2 ^ 31) \<le> sint mx - sint (1 :: i32)" "sint mx - sint (1 :: i32) < 2 ^ 31"
    using mx sint_i32_lower [of v] sint_i32_upper [of mx] by simp_all
  have "sint (mx - 1) = sint mx - 1" using sint_diff_in_range [OF b] by simp
  then show ?thesis using assms mx b sint_i32_lower [of v] \<open>sint v < sint w\<close>
    by (simp add: assume_lt_def i32_checked_sub_def contains_intersect)
qed

lemma contains_assume_gt:
  assumes "contains lhs v" "contains rhs w" "w <s v"
  shows "contains (assume_gt lhs rhs) v"
proof -
  obtain mn where mn: "range_min rhs = Some mn" "sint mn \<le> sint w"
    using contains_minmax [OF assms(2)] by blast
  have "sint w < sint v" using assms(3) by (simp add: i32_order)
  then have b: "- (2 ^ 31) \<le> sint mn + sint (1 :: i32)" "sint mn + sint (1 :: i32) < 2 ^ 31"
    using mn sint_i32_upper [of v] sint_i32_lower [of mn] by simp_all
  have "sint (mn + 1) = sint mn + 1" using sint_add_in_range [OF b] by simp
  then show ?thesis using assms mn b sint_i32_upper [of v] \<open>sint w < sint v\<close>
    by (simp add: assume_gt_def i32_checked_add_def contains_intersect)
qed

lemma contains_assume_le:
  assumes "contains lhs v" "contains rhs w" "v \<le>s w"
  shows "contains (assume_le lhs rhs) v"
  using assms contains_minmax [OF assms(2)] sint_i32_lower [of v]
  by (auto simp: assume_le_def contains_intersect i32_order)

lemma contains_assume_ge:
  assumes "contains lhs v" "contains rhs w" "w \<le>s v"
  shows "contains (assume_ge lhs rhs) v"
  using assms contains_minmax [OF assms(2)] sint_i32_upper [of v]
  by (auto simp: assume_ge_def contains_intersect i32_order)

lemma refine_comparison_sound:
  assumes "contains lhs a" "contains rhs b" "fold_binary op a b = Some 1" "is_compare op"
  shows "contains (fst (refine_comparison op lhs rhs)) a \<and> contains (snd (refine_comparison op lhs rhs)) b"
  using assms
  by (cases op)
     (auto simp: refine_comparison_def is_compare_def of_bool_i32_def contains_assume_eq
       contains_assume_ne contains_assume_lt contains_assume_gt contains_assume_le
       contains_assume_ge split: if_splits)

lemma assume_ne_wf: "range_wf r \<Longrightarrow> range_wf (assume_ne r other)"
  by (auto simp: assume_ne_def normalized_wf split: option.splits int_range.splits)

lemma assume_wf:
  "range_wf (assume_eq r other)" "range_wf (assume_lt r other)" "range_wf (assume_le r other)"
  "range_wf (assume_gt r other)" "range_wf (assume_ge r other)"
  by (auto simp: assume_eq_def assume_lt_def assume_le_def assume_gt_def assume_ge_def intersect_wf
    split: option.splits)

lemma refine_comparison_wf:
  assumes "range_wf lhs" "range_wf rhs"
  shows "range_wf (fst (refine_comparison op lhs rhs)) \<and> range_wf (snd (refine_comparison op lhs rhs))"
  using assms by (cases op) (simp_all add: refine_comparison_def assume_wf assume_ne_wf)

subsection \<open>Arithmetic\<close>

lemma mult_between:
  fixes x y :: int
  assumes "a \<le> x" "x \<le> b" "c \<le> y" "y \<le> d"
  shows "min (min (a * c) (a * d)) (min (b * c) (b * d)) \<le> x * y"
    and "x * y \<le> max (max (a * c) (a * d)) (max (b * c) (b * d))"
proof -
  have lo: "min (a * y) (b * y) \<le> x * y" and hi: "x * y \<le> max (a * y) (b * y)"
    using assms mult_right_mono [of a x y] mult_right_mono [of x b y]
      mult_right_mono_neg [of x b y] mult_right_mono_neg [of a x y]
    by (cases "0 \<le> y"; simp add: min_def max_def; linarith)+
  have k: "min (z * c) (z * d) \<le> z * y \<and> z * y \<le> max (z * c) (z * d)" for z
    using assms mult_left_mono [of c y z] mult_left_mono [of y d z]
      mult_left_mono_neg [of c y z] mult_left_mono_neg [of y d z]
    by (cases "0 \<le> z"; simp add: min_def max_def; linarith)
  show "min (min (a * c) (a * d)) (min (b * c) (b * d)) \<le> x * y"
    using lo k [of a] k [of b] by linarith
  show "x * y \<le> max (max (a * c) (a * d)) (max (b * c) (b * d))"
    using hi k [of a] k [of b] by linarith
qed

text \<open>The unbounded result of an operator that can wrap.\<close>

definition exact_binary :: "binary_op \<Rightarrow> int \<Rightarrow> int \<Rightarrow> int option" where
  "exact_binary op a b = (case op of
      Add \<Rightarrow> Some (a + b)
    | Sub \<Rightarrow> Some (a - b)
    | Mul \<Rightarrow> Some (a * b)
    | Shl \<Rightarrow> Some (a * 2 ^ nat (b mod 32))
    | Min \<Rightarrow> Some (min a b)
    | Max \<Rightarrow> Some (max a b)
    | _ \<Rightarrow> None)"

lemma math_endpoints_exact:
  assumes "math_endpoints op lmn lmx rmn rmx = Some (mn, mx)"
    and "lmn \<le> a" "a \<le> lmx" "rmn \<le> b" "b \<le> rmx"
  shows "\<exists>e. exact_binary op a b = Some e \<and> mn \<le> e \<and> e \<le> mx"
  using assms mult_between [of lmn a lmx rmn b rmx]
  by (cases op)
     (auto simp: math_endpoints_def exact_binary_def Let_def min_def max_def mult_right_mono split: if_splits)

lemma unat_mod_32: "unat b mod 32 = nat (sint b mod 32)" for b :: i32
proof -
  have "sint b mod 32 = uint b mod 32"
  proof (cases "uint b < 2 ^ 31")
    case False
    have "(uint b - 2 ^ 32) mod 32 = (uint b + 32 * (- (2 ^ 27))) mod 32" by simp
    also have "\<dots> = uint b mod 32" by (rule mod_mult_self2)
    finally show ?thesis using False unfolding sint_i32_uint by simp
  qed (simp add: sint_i32_uint)
  then show ?thesis by (simp add: nat_mod_distrib)
qed

lemma fold_binary_exact:
  assumes "exact_binary op (sint a) (sint b) = Some e" "- (2 ^ 31) \<le> e" "e < 2 ^ 31"
  shows "\<exists>r. fold_binary op a b = Some r \<and> sint r = e"
proof (cases op)
  case Shl
  have m: "unat b mod 32 = nat (sint b mod 32)" by (rule unat_mod_32)
  have "push_bit (unat b mod 32) a = word_of_int e"
    using assms(1) Shl m by (auto simp: exact_binary_def push_bit_eq_mult)
  then have "sint (push_bit (unat b mod 32) a) = e" using assms by (simp add: sint_word_of_int_i32)
  then show ?thesis using Shl by simp
qed (use assms in \<open>auto simp: exact_binary_def sint_add_in_range sint_diff_in_range sint_mult_in_range\<close>)

lemma mathematical_binary_exact:
  assumes "mathematical_binary op lhs rhs = Some rng" "contains lhs a" "contains rhs b"
  shows "\<exists>r. fold_binary op a b = Some r \<and> exact_binary op (sint a) (sint b) = Some (sint r) \<and> contains rng r"
proof -
  obtain lmn lmx rmn rmx mn mx where
    m: "range_min lhs = Some lmn" "range_max lhs = Some lmx" "range_min rhs = Some rmn" "range_max rhs = Some rmx"
    and e: "math_endpoints op (sint lmn) (sint lmx) (sint rmn) (sint rmx) = Some (mn, mx)"
    and r: "- (2 ^ 31) \<le> mn" "mx < 2 ^ 31" "rng = bounded (word_of_int mn) (word_of_int mx)"
    using assms(1) by (auto simp: mathematical_binary_def split: if_splits)
  have "sint lmn \<le> sint a" "sint a \<le> sint lmx" "sint rmn \<le> sint b" "sint b \<le> sint rmx"
    using m contains_minmax [OF assms(2)] contains_minmax [OF assms(3)] by auto
  then obtain x where x: "exact_binary op (sint a) (sint b) = Some x" "mn \<le> x" "x \<le> mx"
    using math_endpoints_exact [OF e] by blast
  then obtain y where y: "fold_binary op a b = Some y" "sint y = x"
    using fold_binary_exact [OF x(1)] r by force
  have "sint (word_of_int mn :: i32) = mn" "sint (word_of_int mx :: i32) = mx"
    using x r by (auto intro!: sint_word_of_int_i32)
  then show ?thesis using x y r by simp
qed

subsection \<open>Division, remainder and bit operations\<close>

lemma sdiv_mono:
  fixes x y d :: int
  assumes "x \<le> y" "0 < d"
  shows "x sdiv d \<le> y sdiv d"
proof -
  have n: "0 \<le> \<bar>z\<bar> div d" for z using assms(2) by (simp add: pos_imp_zdiv_nonneg_iff)
  consider "0 \<le> x" | "x < 0" "0 \<le> y" | "x < 0" "y < 0" by linarith
  then show ?thesis
  proof cases
    case 1 then show ?thesis using assms zdiv_mono1 [of x y d] by (auto simp: signed_divide_int_def sgn_if)
  next
    case 2 then show ?thesis using assms n [of x] n [of y] by (auto simp: signed_divide_int_def sgn_if)
  next
    case 3 then show ?thesis using assms zdiv_mono1 [of "- y" "- x" d] by (auto simp: signed_divide_int_def sgn_if)
  qed
qed

lemma sdiv_antimono:
  fixes x y d :: int
  assumes "x \<le> y" "d < 0"
  shows "y sdiv d \<le> x sdiv d"
  using sdiv_mono [of x y "- d"] assms by (simp add: signed_divide_int_def)

lemma sdiv_between:
  fixes x d :: int
  assumes "a \<le> x" "x \<le> b" "d \<noteq> 0"
  shows "min (a sdiv d) (b sdiv d) \<le> x sdiv d \<and> x sdiv d \<le> max (a sdiv d) (b sdiv d)"
  using sdiv_mono [of a x d] sdiv_mono [of x b d] sdiv_antimono [of a x d] sdiv_antimono [of x b d] assms
  by (cases "0 < d") (simp_all add: min_le_iff_disj le_max_iff_disj)

lemma sint_wrapping_div:
  assumes "b \<noteq> 0" "\<not> (a = i32_MIN \<and> b = - 1)"
  shows "\<exists>q. wrapping_div a b = Some q \<and> sint q = sint a sdiv sint b"
proof -
  have b0: "sint b \<noteq> 0" using assms(1) by (simp add: i32_eq_iff_sint)
  have "- (2 ^ 31) \<le> sint a sdiv sint b \<and> sint a sdiv sint b < 2 ^ 31"
  proof (cases "\<bar>sint b\<bar> = 1")
    case True
    then consider "sint b = 1" | "sint b = - 1" by linarith
    then show ?thesis
    proof cases
      case 2
      then have "b = - 1" by (simp add: i32_eq_iff_sint)
      then have "sint a \<noteq> - 2147483648" using assms(2) sint_eq_iff [of a i32_MIN] by auto
      then show ?thesis using 2 sint_i32_lower [of a] sint_i32_upper [of a]
        by (simp add: signed_divide_int_def sgn_if split: if_splits)
    qed (use sint_i32_lower [of a] sint_i32_upper [of a] in
      \<open>simp add: signed_divide_int_def sgn_if split: if_splits\<close>)
  next
    case False
    then have "2 \<le> \<bar>sint b\<bar>" using b0 by linarith
    then have "\<bar>sint a\<bar> div \<bar>sint b\<bar> \<le> \<bar>sint a\<bar> div 2" by (intro zdiv_mono2) auto
    also have "\<dots> \<le> 2 ^ 30" using sint_i32_abs [of a] by simp
    finally have "\<bar>sint a\<bar> div \<bar>sint b\<bar> \<le> 2 ^ 30" .
    moreover have "0 \<le> \<bar>sint a\<bar> div \<bar>sint b\<bar>" using b0 by (simp add: pos_imp_zdiv_nonneg_iff)
    ultimately show ?thesis by (auto simp: signed_divide_int_def sgn_if)
  qed
  then show ?thesis using assms(1) by (simp add: wrapping_div_def sint_word_of_int_i32)
qed

lemma smod_bounds:
  fixes x d :: int
  assumes "d \<noteq> 0"
  shows "\<bar>x smod d\<bar> \<le> \<bar>d\<bar> - 1" "0 \<le> x \<Longrightarrow> 0 \<le> x smod d"
proof -
  have m: "x smod d = sgn x * (\<bar>x\<bar> mod \<bar>d\<bar>)"
    by (simp add: signed_modulo_int_def signed_divide_int_def)
  have r: "0 \<le> \<bar>x\<bar> mod \<bar>d\<bar>" "\<bar>x\<bar> mod \<bar>d\<bar> < \<bar>d\<bar>" using assms by simp_all
  show "\<bar>x smod d\<bar> \<le> \<bar>d\<bar> - 1" "0 \<le> x \<Longrightarrow> 0 \<le> x smod d"
    using r by (auto simp: m sgn_if abs_mult)
qed

lemma transfer_div_sound:
  assumes "range_wf lhs" "contains lhs a" "contains rhs b"
  shows "\<exists>rng. transfer_div lhs rhs = Some rng \<and> range_wf rng \<and>
     (\<forall>r. fold_binary Div a b = Some r \<longrightarrow> contains rng r)"
proof (cases "singleton rhs")
  case (Some d)
  then have b: "b = d" using assms(3) singleton_SomeD by blast
  obtain mn mx z where l: "lhs = Bounded mn mx z" using assms(2) by (cases lhs) auto
  show ?thesis
  proof (cases "d = 0 \<or> d = - 1 \<and> contains lhs i32_MIN")
    case False
    have "contains lhs mn" "contains lhs mx" using wf_endpoints [of mn mx z] assms(1) l by auto
    then have ne: "\<not> (mn = i32_MIN \<and> d = - 1)" "\<not> (mx = i32_MIN \<and> d = - 1)" "\<not> (a = i32_MIN \<and> d = - 1)"
      using False assms(2) by auto
    obtain q1 where q1: "wrapping_div mn d = Some q1" "sint q1 = sint mn sdiv sint d"
      using sint_wrapping_div [OF _ ne(1)] False by blast
    obtain q2 where q2: "wrapping_div mx d = Some q2" "sint q2 = sint mx sdiv sint d"
      using sint_wrapping_div [OF _ ne(2)] False by blast
    obtain q where q: "wrapping_div a d = Some q" "sint q = sint a sdiv sint d"
      using sint_wrapping_div [OF _ ne(3)] False by blast
    have "sint mn \<le> sint a" "sint a \<le> sint mx" "sint d \<noteq> 0"
      using assms(2) l False by (auto simp: i32_arith)
    from sdiv_between [OF this] show ?thesis using Some False l b q q1 q2 ne
      by (auto simp: transfer_div_def i32_div_def)
  qed (use Some in \<open>auto simp: transfer_div_def\<close>)
qed (auto simp: transfer_div_def)

lemma sint_rem_magnitude:
  assumes "d \<noteq> 0" shows "sint (rem_magnitude d) = \<bar>sint d\<bar> - 1"
proof -
  have "1 \<le> \<bar>sint d\<bar>" using assms by (simp add: i32_eq_iff_sint)
  then show ?thesis using sint_i32_abs [of d]
    unfolding rem_magnitude_def by (subst sint_word_of_int_i32) (auto simp: min_def max_def)
qed

lemma transfer_rem_sound:
  assumes "contains lhs a" "contains rhs b"
  shows "\<exists>rng. transfer_rem lhs rhs = Some rng \<and> range_wf rng \<and>
     (\<forall>r. fold_binary Rem a b = Some r \<longrightarrow> contains rng r)"
proof (cases "singleton rhs")
  case (Some d)
  then have b: "b = d" using assms(2) singleton_SomeD by blast
  obtain mn mx z where l: "lhs = Bounded mn mx z" using assms(1) by (cases lhs) auto
  show ?thesis
  proof (cases "d = 0")
    case False
    then have d: "sint d \<noteq> 0" by (simp add: i32_eq_iff_sint)
    note mag = sint_rem_magnitude [OF False]
    have "rem_magnitude d \<noteq> i32_MIN" using mag by (auto simp: i32_eq_iff_sint)
    moreover have "sint (- rem_magnitude d) = - (\<bar>sint d\<bar> - 1)"
      using sint_diff_in_range [of 0 "rem_magnitude d"] mag d sint_i32_abs [of d] by simp
    moreover have r: "sint (word_of_int (sint a smod sint d) :: i32) = sint a smod sint d"
      using smod_bounds(1) [OF d, of "sint a"] sint_i32_abs [of d] by (intro sint_word_of_int_i32) auto
    moreover have "sint mn \<le> sint a" using assms(1) l by (simp add: i32_order)
    ultimately show ?thesis using Some False l b mag smod_bounds [OF d, of "sint a"]
      by (auto simp: transfer_rem_def Let_def wrapping_rem_def i32_order)
  qed (use Some in \<open>auto simp: transfer_rem_def\<close>)
qed (auto simp: transfer_rem_def)

lemma comparison_range_sound:
  assumes "contains lhs a" "contains rhs b" "is_compare op"
  shows "\<exists>rng r. comparison_range op lhs rhs = Some rng \<and> range_wf rng \<and>
     fold_binary op a b = Some r \<and> contains rng r"
proof -
  obtain lmn lmx lz rmn rmx rz where l: "lhs = Bounded lmn lmx lz" "rhs = Bounded rmn rmx rz"
    using assms(1,2) by (cases lhs; cases rhs) auto
  obtain r where r: "fold_binary op a b = Some (of_bool_i32 r)" using assms(3) by (cases op) (auto simp: is_compare_def)
  have "r" if "proven_true op lhs rhs lmn lmx rmn rmx"
    using that r assms l
    by (cases op) (auto simp: proven_true_def of_bool_i32_def i32_arith is_compare_def split: if_splits)
  moreover have "\<not> r" if "proven_false op lhs rhs lmn lmx rmn rmx"
    using that r assms l
    by (cases op) (auto simp: proven_false_def of_bool_i32_def i32_arith is_compare_def split: if_splits)
  ultimately show ?thesis using l r
    by (auto simp: comparison_range_def of_bool_i32_def)
qed

lemma sint_and_mask:
  fixes a m :: i32
  assumes "0 \<le> sint m"
  shows "0 \<le> sint (a AND m)" "sint (a AND m) \<le> sint m"
proof -
  have m: "uint m < 2 ^ 31" "sint m = uint m"
    using assms sint_i32_uint [of m] unsigned_less [of m, where ?'a = int] by (simp_all split: if_splits)
  have "uint (a AND m) = uint a AND uint m" by (simp add: unsigned_and_eq)
  also have "\<dots> \<le> uint m" by (simp add: AND_upper2)
  finally have "uint (a AND m) \<le> uint m" .
  then show "0 \<le> sint (a AND m)" "sint (a AND m) \<le> sint m"
    using m by (simp_all add: sint_i32_uint [of "a AND m"])
qed

lemma sint_shift_right: "sint (signed_drop_bit n a) = sint a div 2 ^ n" for a :: i32
  by (simp add: sint_signed_drop_bit_eq drop_bit_eq_div)

lemma sint_drop_bit_nonneg:
  fixes a :: i32
  assumes "0 < n" shows "0 \<le> sint (drop_bit n a)"
proof -
  have "take_bit 32 (uint a) = uint a"
    using unsigned_less [of a, where ?'a = int] by (simp add: take_bit_int_eq_self)
  then have "uint (drop_bit n a) = uint a div 2 ^ n"
    by (subst unsigned_drop_bit_eq) (simp add: drop_bit_eq_div)
  also have "\<dots> \<le> uint a div 2"
    using assms by (intro zdiv_mono2) (simp_all add: self_le_power)
  also have "\<dots> < 2 ^ 31" using unsigned_less [of a, where ?'a = int] by simp
  finally show ?thesis by (simp add: sint_i32_uint)
qed

lemma contains_not_Empty: "contains r v \<Longrightarrow> r \<noteq> Empty"
  by auto

lemma fold_binary_cases: "fold_binary op a b = None \<longleftrightarrow> op \<in> {Div, Rem} \<and> b = 0"
  by (cases op) (simp_all add: wrapping_div_def wrapping_rem_def)

text \<open>The one case in which the transfer of the code is not sound: a logical right shift of a
  negative value by a multiple of 32.\<close>

definition shr_keeps_sign :: "binary_op \<Rightarrow> i32 \<Rightarrow> i32 \<Rightarrow> bool" where
  "shr_keeps_sign op a b = (op = Shr \<and> unat b mod 32 = 0 \<and> a <s 0)"

lemma transfer_binary_singletons:
  assumes "contains lhs a" "contains rhs b" "singleton lhs = Some l" "singleton rhs = Some r"
  shows "\<exists>rng. transfer_binary op lhs rhs = Some rng \<and> range_wf rng \<and>
     (\<forall>c. fold_binary op a b = Some c \<longrightarrow> contains rng c)"
proof -
  have ab: "a = l" "b = r" using assms singleton_SomeD by blast+
  show ?thesis
  proof (cases "fold_binary op l r")
    case None
    then show ?thesis using assms ab fold_binary_cases [of op l r]
      by (auto simp: transfer_binary_def)
  next
    case (Some c)
    then have "\<not> (op \<in> {Div, Rem} \<and> r = 0)" using fold_binary_cases [of op l r] by auto
    then show ?thesis using assms ab Some by (auto simp: transfer_binary_def)
  qed
qed

definition sound_for :: "int_range \<Rightarrow> binary_op \<Rightarrow> i32 \<Rightarrow> i32 \<Rightarrow> bool" where
  "sound_for rng op a b = (range_wf rng \<and>
     (\<forall>c. fold_binary op a b = Some c \<longrightarrow> \<not> shr_keeps_sign op a b \<longrightarrow> contains rng c))"

lemma sound_for_full [simp]: "sound_for range_full op a b"
  by (simp add: sound_for_def)

lemma transfer_binary_interval:
  assumes "contains lhs a" "contains rhs b" "singleton lhs = None \<or> singleton rhs = None"
  shows "transfer_binary op lhs rhs =
    (if is_compare op then comparison_range op lhs rhs
     else case mathematical_binary op lhs rhs of Some rng \<Rightarrow> Some rng | None \<Rightarrow> transfer_fallback op lhs rhs)"
proof -
  have "lhs \<noteq> Empty" "rhs \<noteq> Empty" using assms(1,2) by auto
  then show ?thesis using assms(3)
    by (cases "singleton lhs"; cases "singleton rhs") (simp_all only: transfer_binary_def, simp_all)
qed

lemma mathematical_binary_None:
  "op \<in> {Div, Rem, And, Or, Xor, Shr, Sar} \<Longrightarrow> mathematical_binary op lhs rhs = None"
  by (cases "range_min lhs"; cases "range_max lhs"; cases "range_min rhs"; cases "range_max rhs")
     (auto simp: mathematical_binary_def math_endpoints_def)

lemma transfer_and_sound:
  assumes "contains lhs a" "contains rhs b" "singleton lhs = None \<or> singleton rhs = None"
  shows "\<exists>rng. transfer_binary And lhs rhs = Some rng \<and> sound_for rng And a b"
proof -
  have ml: "0 \<le> sint l \<Longrightarrow> sound_for (bounded 0 l) And a b" if "singleton lhs = Some l" for l
    using singleton_SomeD [OF that assms(1)] sint_and_mask [of l b]
    by (simp add: sound_for_def and.commute)
  have mr: "0 \<le> sint l \<Longrightarrow> sound_for (bounded 0 l) And a b" if "singleton rhs = Some l" for l
    using singleton_SomeD [OF that assms(2)] sint_and_mask [of l a]
    by (simp add: sound_for_def)
  have z: "sound_for (range_constant 0) And a b" if "singleton rhs = Some 0 \<or> singleton lhs = Some 0"
    using that singleton_SomeD [OF _ assms(1)] singleton_SomeD [OF _ assms(2)] by (auto simp: sound_for_def)
  show ?thesis using ml mr z unfolding transfer_binary_interval [OF assms]
    by (auto simp: is_compare_def mathematical_binary_None transfer_fallback_def i32_order split: option.splits)
qed

lemma transfer_or_sound:
  assumes "range_wf lhs" "range_wf rhs" "contains lhs a" "contains rhs b"
    and "singleton lhs = None \<or> singleton rhs = None" and "op = Or \<or> op = Xor"
  shows "\<exists>rng. transfer_binary op lhs rhs = Some rng \<and> sound_for rng op a b"
proof -
  have "sound_for lhs op a b" if "singleton rhs = Some 0"
    using singleton_SomeD [OF that assms(4)] assms by (auto simp: sound_for_def)
  moreover have "sound_for rhs op a b" if "singleton lhs = Some 0"
    using singleton_SomeD [OF that assms(3)] assms by (auto simp: sound_for_def)
  ultimately show ?thesis using assms(6) unfolding transfer_binary_interval [OF assms(3-5)]
    by (auto simp: is_compare_def mathematical_binary_None transfer_fallback_def)
qed

lemma transfer_sar_sound:
  assumes "contains lhs a" "contains rhs b" "singleton lhs = None \<or> singleton rhs = None"
  shows "\<exists>rng. transfer_binary Sar lhs rhs = Some rng \<and> sound_for rng Sar a b"
proof -
  obtain mn mx where m: "range_min lhs = Some mn" "range_max lhs = Some mx" "sint mn \<le> sint a" "sint a \<le> sint mx"
    using contains_minmax [OF assms(1)] by blast
  have s: "sound_for (bounded (signed_drop_bit (unat b) mn) (signed_drop_bit (unat b) mx)) Sar a b"
    if "0 \<le>s b" "b <s 32"
  proof -
    have "nat (sint b mod 32) = nat (sint b)" using that by (simp add: i32_order)
    moreover have "sint b = uint b" using that sint_i32_uint [of b] unsigned_less [of b, where ?'a = int]
      by (simp add: i32_order split: if_splits)
    ultimately have "unat b mod 32 = unat b" using unat_mod_32 [of b] by simp
    then show ?thesis using m by (simp add: sound_for_def sint_shift_right zdiv_mono1)
  qed
  have "singleton rhs = Some c \<Longrightarrow> c = b" for c using assms(2) singleton_SomeD by blast
  then show ?thesis using s m unfolding transfer_binary_interval [OF assms]
    by (auto simp: is_compare_def mathematical_binary_None transfer_fallback_def split: option.splits)
qed

lemma transfer_shr_sound:
  assumes "contains lhs a" "contains rhs b" "singleton lhs = None \<or> singleton rhs = None"
  shows "\<exists>rng. transfer_binary Shr lhs rhs = Some rng \<and> sound_for rng Shr a b"
proof -
  have "contains (bounded 0 i32_MAX) (drop_bit (unat b mod 32) a)" if "\<not> shr_keeps_sign Shr a b"
    using that sint_drop_bit_nonneg [of "unat b mod 32" a] sint_i32_upper [of "drop_bit (unat b mod 32) a"]
    by (cases "unat b mod 32 = 0") (auto simp: shr_keeps_sign_def i32_order)
  then have "sound_for (bounded 0 i32_MAX) Shr a b" by (simp add: sound_for_def del: contains_bounded)
  then show ?thesis unfolding transfer_binary_interval [OF assms]
    by (auto simp: is_compare_def mathematical_binary_None transfer_fallback_def)
qed

lemma transfer_math_sound:
  assumes "contains lhs a" "contains rhs b" "singleton lhs = None \<or> singleton rhs = None"
    and "op \<in> {Add, Sub, Mul, Shl, Min, Max}"
  shows "\<exists>rng. transfer_binary op lhs rhs = Some rng \<and> sound_for rng op a b"
proof (cases "mathematical_binary op lhs rhs")
  case (Some rng)
  then have "range_wf rng" by (auto simp: mathematical_binary_def split: if_splits)
  then have "sound_for rng op a b"
    using mathematical_binary_exact [OF Some assms(1,2)] by (auto simp: sound_for_def)
  moreover have "transfer_binary op lhs rhs = Some rng"
    using Some assms(4) unfolding transfer_binary_interval [OF assms(1-3)] by (auto simp: is_compare_def)
  ultimately show ?thesis by blast
next
  case None
  then have "transfer_binary op lhs rhs = Some range_full"
    using assms(4) unfolding transfer_binary_interval [OF assms(1-3)]
    by (auto simp: is_compare_def transfer_fallback_def)
  then show ?thesis by simp
qed

lemma transfer_div_rem_sound:
  assumes "range_wf lhs" "contains lhs a" "contains rhs b" "singleton lhs = None \<or> singleton rhs = None"
    and "op = Div \<or> op = Rem"
  shows "\<exists>rng. transfer_binary op lhs rhs = Some rng \<and> sound_for rng op a b"
proof -
  have "transfer_binary op lhs rhs = (if op = Div then transfer_div lhs rhs else transfer_rem lhs rhs)"
    using assms(5) unfolding transfer_binary_interval [OF assms(2-4)]
    by (auto simp: is_compare_def mathematical_binary_None transfer_fallback_def)
  then show ?thesis
    using transfer_div_sound [OF assms(1-3)] transfer_rem_sound [OF assms(2,3)] assms(5)
    by (auto simp: sound_for_def)
qed

lemma transfer_binary_sound_for:
  assumes "range_wf lhs" "range_wf rhs" "contains lhs a" "contains rhs b"
  shows "\<exists>rng. transfer_binary op lhs rhs = Some rng \<and> sound_for rng op a b"
proof (cases "singleton lhs = None \<or> singleton rhs = None")
  case False
  then show ?thesis using transfer_binary_singletons [OF assms(3,4)] by (fastforce simp: sound_for_def)
next
  case True
  consider "is_compare op" | "op \<in> {Add, Sub, Mul, Shl, Min, Max}" | "op = Div \<or> op = Rem" | "op = And"
    | "op = Or \<or> op = Xor" | "op = Shr" | "op = Sar" by (cases op) (auto simp: is_compare_def)
  then show ?thesis
  proof cases
    case 1
    have "transfer_binary op lhs rhs = comparison_range op lhs rhs"
      using 1 by (simp add: transfer_binary_interval [OF assms(3,4) True])
    then show ?thesis using comparison_range_sound [OF assms(3,4) 1] by (auto simp: sound_for_def)
  next
    case 2 then show ?thesis by (rule transfer_math_sound [OF assms(3,4) True])
  next
    case 3 then show ?thesis by (rule transfer_div_rem_sound [OF assms(1,3,4) True])
  next
    case 5 then show ?thesis by (rule transfer_or_sound [OF assms True])
  qed (use transfer_and_sound [OF assms(3,4) True] transfer_shr_sound [OF assms(3,4) True]
      transfer_sar_sound [OF assms(3,4) True] in simp_all)
qed

lemma transfer_binary_Empty [simp]:
  "transfer_binary op Empty rhs = Some Empty" "transfer_binary op lhs Empty = Some Empty"
  by (simp_all add: transfer_binary_def)

lemma transfer_binary_total:
  assumes "range_wf lhs" "range_wf rhs"
  shows "\<exists>rng. transfer_binary op lhs rhs = Some rng \<and> range_wf rng"
proof (cases "lhs = Empty \<or> rhs = Empty")
  case False
  then obtain a b where "contains lhs a" "contains rhs b" using assms wf_empty_iff by metis
  then show ?thesis using transfer_binary_sound_for [OF assms] by (fastforce simp: sound_for_def)
qed (auto simp: transfer_binary_def)

text \<open>Widening: each endpoint moves at most once, the hole closes at most once.\<close>

fun widen_height :: "int_range \<Rightarrow> nat" where
  "widen_height Empty = 4"
| "widen_height (Bounded mn mx z) =
     (if mn = i32_MIN then 0 else 1) + (if mx = i32_MAX then 0 else 1) + (if z then 0 else 1)"

lemma widen_height_le: "widen_height r \<le> 4"
  by (cases r) auto

lemma widen_decreases:
  assumes "range_wf a" "range_wf b" "widen a b \<noteq> a"
  shows "widen_height (widen a b) < widen_height a"
proof (cases "(a, b)" rule: widen.cases)
  case (1 r)
  then show ?thesis using assms by (cases r) auto
next
  case (3 omn omx oz nmn nmx nz)
  let ?mn = "if nmn <s omn then i32_MIN else omn" and ?mx = "if omx <s nmx then i32_MAX else omx"
  have "widen a b = Bounded ?mn ?mx (oz \<or> nz)"
    using 3 assms sint_i32_lower [of nmn] sint_i32_upper [of nmx] sint_i32_lower [of omn] sint_i32_upper [of omx]
    by (auto simp: normalized_def Let_def i32_arith split: if_splits)
  then show ?thesis using 3 assms sint_i32_lower [of nmn] sint_i32_upper [of nmx]
    by (auto simp: i32_order)
qed (use assms in auto)

section \<open>The domain as an interface\<close>

text \<open>What the fixpoint iteration of the analysis needs of its domain: a join that keeps the values
  of both sides, and a widening that keeps them and can change only finitely often.\<close>

locale value_domain =
  fixes mem :: "'r \<Rightarrow> 'v \<Rightarrow> bool"
    and ok :: "'r \<Rightarrow> bool"
    and lub :: "'r \<Rightarrow> 'r \<Rightarrow> 'r"
  assumes lub_mem: "mem a v \<or> mem b v \<Longrightarrow> mem (lub a b) v"
    and lub_ok: "ok a \<Longrightarrow> ok b \<Longrightarrow> ok (lub a b)"
begin

lemma foldl_lub_mem: "mem a v \<or> (\<exists>b \<in> set bs. mem b v) \<Longrightarrow> mem (foldl lub a bs) v"
  by (induction bs arbitrary: a) (auto intro: lub_mem)

lemma foldl_lub_ok: "ok a \<Longrightarrow> \<forall>b \<in> set bs. ok b \<Longrightarrow> ok (foldl lub a bs)"
  by (induction bs arbitrary: a) (auto intro: lub_ok)

end

locale widening_domain = value_domain mem ok lub
  for mem :: "'r \<Rightarrow> 'v \<Rightarrow> bool" and ok :: "'r \<Rightarrow> bool" and lub :: "'r \<Rightarrow> 'r \<Rightarrow> 'r" +
  fixes wide :: "'r \<Rightarrow> 'r \<Rightarrow> 'r"
    and height :: "'r \<Rightarrow> nat"
  assumes wide_mem: "mem a v \<or> mem b v \<Longrightarrow> mem (wide a b) v"
    and wide_ok: "ok a \<Longrightarrow> ok b \<Longrightarrow> ok (wide a b)"
    and wide_progress: "ok a \<Longrightarrow> ok b \<Longrightarrow> wide a b \<noteq> a \<Longrightarrow> height (wide a b) < height a"
begin

text \<open>The sequence of values a loop header takes when the \<open>n\<close>-th incoming value is \<open>y n\<close>.\<close>

primrec chain :: "'r \<Rightarrow> (nat \<Rightarrow> 'r) \<Rightarrow> nat \<Rightarrow> 'r" where
  "chain x y 0 = x"
| "chain x y (Suc n) = wide (chain x y n) (y n)"

lemma chain_ok: "ok x \<Longrightarrow> (\<And>n. ok (y n)) \<Longrightarrow> ok (chain x y n)"
  by (induction n) (auto intro: wide_ok)

lemma chain_mem: "mem (y n) v \<Longrightarrow> n < m \<Longrightarrow> mem (chain x y m) v"
  by (induction m) (auto intro: wide_mem simp: less_Suc_eq)

lemma chain_potential:
  assumes "ok x" "\<And>n. ok (y n)"
  shows "card {n \<in> {..<m}. chain x y (Suc n) \<noteq> chain x y n} + height (chain x y m) \<le> height x"
proof (induction m)
  case (Suc m)
  let ?c = "\<lambda>n. chain x y (Suc n) \<noteq> chain x y n"
  have "{n \<in> {..<Suc m}. ?c n} = (if ?c m then insert m {n \<in> {..<m}. ?c n} else {n \<in> {..<m}. ?c n})"
    by (auto simp: less_Suc_eq simp del: chain.simps)
  then have "card {n \<in> {..<Suc m}. ?c n} = card {n \<in> {..<m}. ?c n} + (if ?c m then 1 else 0)"
    by (simp del: chain.simps)
  moreover have "?c m \<Longrightarrow> height (chain x y (Suc m)) < height (chain x y m)"
    using wide_progress [of "chain x y m" "y m"] chain_ok [of x y m] assms by simp
  ultimately show ?case using Suc.IH by (cases "?c m") (auto simp del: chain.simps)
qed simp

lemma chain_changes:
  assumes "ok x" "\<And>n. ok (y n)"
  shows "finite {n. chain x y (Suc n) \<noteq> chain x y n} \<and>
    card {n. chain x y (Suc n) \<noteq> chain x y n} \<le> height x"
proof (rule finite_if_finite_subsets_card_bdd)
  fix G assume G: "G \<subseteq> {n. chain x y (Suc n) \<noteq> chain x y n}" "finite G"
  then obtain m where "G \<subseteq> {..<m}" using finite_nat_set_iff_bounded by (metis lessThan_iff subsetI)
  with G have "card G \<le> card {n \<in> {..<m}. chain x y (Suc n) \<noteq> chain x y n}"
    by (intro card_mono) auto
  then show "card G \<le> height x" using chain_potential [of x y m, OF assms(1)] assms(2) by force
qed

end

interpretation ir: widening_domain contains range_wf join widen widen_height
  by unfold_locales
     (simp_all add: contains_join join_wf contains_widen widen_wf widen_decreases)

section \<open>Properties\<close>

text \<open>C12: the transfer function of every binary operator is total on well-formed ranges and keeps
  the invariant, and the range it returns contains the result of the operator on every pair of
  operands in the argument ranges, unless the operator is a logical right shift of a negative value
  by a multiple of 32.\<close>

theorem transfer_binary_sound:
  assumes "range_wf lhs" and "range_wf rhs"
  shows "\<exists>rng. transfer_binary op lhs rhs = Some rng \<and> range_wf rng \<and>
    (\<forall>a b c. contains lhs a \<longrightarrow> contains rhs b \<longrightarrow> fold_binary op a b = Some c \<longrightarrow>
       \<not> shr_keeps_sign op a b \<longrightarrow> contains rng c)"
proof -
  obtain rng where r: "transfer_binary op lhs rhs = Some rng" "range_wf rng"
    using transfer_binary_total [OF assms] by blast
  moreover have "sound_for rng op a b" if "contains lhs a" "contains rhs b" for a b
    using transfer_binary_sound_for [OF assms that, of op] r by auto
  ultimately show ?thesis by (auto simp: sound_for_def)
qed

theorem transfer_binary_sound_witness:
  "\<exists>rng. transfer_binary Mul (bounded 2 5) (bounded 3 7) = Some rng \<and> contains rng (4 * 6)"
proof -
  have "contains (bounded 2 5) 4" "contains (bounded 3 7) 6" by simp_all
  moreover have "fold_binary Mul 4 6 = Some (4 * 6)" "\<not> shr_keeps_sign Mul 4 6"
    by (simp_all add: shr_keeps_sign_def)
  ultimately show ?thesis
    using transfer_binary_sound [OF bounded_wf bounded_wf, of Mul 2 5 3 7] by blast
qed

text \<open>C13: when the interval computation of an addition, subtraction, multiplication, constant left
  shift, minimum or maximum gives a range, no pair of operands in the argument ranges wraps: the
  32-bit result is the result over the integers.\<close>

theorem mathematical_binary_no_wrap:
  assumes "mathematical_binary op lhs rhs = Some rng" and "contains lhs a" and "contains rhs b"
  shows "\<exists>r. fold_binary op a b = Some r \<and> exact_binary op (sint a) (sint b) = Some (sint r) \<and>
    contains rng r"
  using mathematical_binary_exact [OF assms] .

theorem mathematical_binary_no_wrap_witness:
  "\<exists>r. fold_binary Sub 7 9 = Some r \<and> exact_binary Sub 7 9 = Some (sint r)"
proof -
  have "mathematical_binary Sub (bounded 2 7) (bounded 3 9) = Some (bounded (- 7) 4)"
    by (simp add: mathematical_binary_def math_endpoints_def bounded_def normalized_def i32_order)
  from mathematical_binary_no_wrap [OF this, of 7 9] show ?thesis by auto
qed

text \<open>C14: refining two ranges by a comparison that holds keeps every pair of values for which the
  comparison is true, and keeps the invariant.\<close>

theorem refine_comparison_keeps:
  assumes "range_wf lhs" and "range_wf rhs" and "is_compare op"
  shows "range_wf (fst (refine_comparison op lhs rhs)) \<and> range_wf (snd (refine_comparison op lhs rhs)) \<and>
    (\<forall>a b. contains lhs a \<longrightarrow> contains rhs b \<longrightarrow> fold_binary op a b = Some 1 \<longrightarrow>
       contains (fst (refine_comparison op lhs rhs)) a \<and> contains (snd (refine_comparison op lhs rhs)) b)"
  using refine_comparison_wf [OF assms(1,2)] refine_comparison_sound assms(3) by blast

theorem refine_comparison_keeps_witness:
  "contains (fst (refine_comparison Lt (bounded 0 9) (bounded 2 4))) 3"
proof -
  have "contains (bounded 0 9) 3" "contains (bounded 2 4) 4" "fold_binary Lt 3 4 = Some 1"
    by (simp_all add: of_bool_i32_def i32_order)
  moreover have "is_compare Lt" by (simp add: is_compare_def)
  ultimately show ?thesis using refine_comparison_keeps [OF bounded_wf bounded_wf, of Lt 0 9 2 4] by blast
qed

text \<open>C15: the lattice operations on well-formed ranges: a range is determined by its values, the
  intersection has exactly the common values, \<open>is_subset_of\<close> decides inclusion of values, and
  \<open>join\<close> is the least well-formed range above both.\<close>

theorem range_lattice:
  assumes "range_wf a" and "range_wf b"
  shows "((\<forall>v. contains a v = contains b v) = (a = b)) \<and>
    (\<forall>v. contains (intersect a b) v = (contains a v \<and> contains b v)) \<and>
    (is_subset_of a b = (\<forall>v. contains a v \<longrightarrow> contains b v)) \<and>
    range_wf (join a b) \<and> is_subset_of a (join a b) \<and> is_subset_of b (join a b) \<and>
    (\<forall>c. range_wf c \<longrightarrow> is_subset_of a c \<longrightarrow> is_subset_of b c \<longrightarrow> is_subset_of (join a b) c)"
proof (intro conjI)
  show "(\<forall>v. contains a v = contains b v) = (a = b)" using range_ext [OF assms] by blast
  show "\<forall>c. range_wf c \<longrightarrow> is_subset_of a c \<longrightarrow> is_subset_of b c \<longrightarrow> is_subset_of (join a b) c"
    using join_least [OF assms] by blast
  show "is_subset_of a (join a b)" "is_subset_of b (join a b)"
    using contains_join [of a _ b] assms by (simp_all add: subset_iff join_wf)
qed (simp_all add: contains_intersect subset_iff join_wf assms)

theorem range_lattice_witness:
  "range_wf (bounded 1 3) \<and> range_wf (range_constant 0) \<and>
   is_subset_of (range_constant 0) (join (bounded 1 3) (range_constant 0))"
  using range_lattice [OF bounded_wf constant_wf, of 1 3 0] by simp

text \<open>C16: a value that is widened at every step changes at most four times, whatever the incoming
  ranges are, so the iteration at a loop header reaches a fixed value; and from the step after it
  arrives on, the value covers every incoming range.\<close>

theorem widening_stabilises:
  assumes "range_wf (x 0)" and "\<And>n. range_wf (y n)" and "\<And>n. x (Suc n) = widen (x n) (y n)"
  shows "card {n. x (Suc n) \<noteq> x n} \<le> 4 \<and> (\<exists>N. \<forall>n \<ge> N. x n = x N) \<and>
    (\<forall>n m v. n < m \<longrightarrow> contains (y n) v \<longrightarrow> contains (x m) v)"
proof -
  have x: "x n = ir.chain (x 0) y n" for n by (induction n) (simp_all add: assms(3))
  let ?S = "{n. x (Suc n) \<noteq> x n}"
  have fin: "finite ?S" "card ?S \<le> 4"
    using ir.chain_changes [of "x 0" y] assms(1,2) widen_height_le [of "x 0"]
    unfolding x [symmetric] by simp_all
  then obtain N where N: "\<forall>n \<in> ?S. n < N" using finite_nat_set_iff_bounded by blast
  have step: "x (Suc (N + k)) = x (N + k)" for k using N by (metis (mono_tags) mem_Collect_eq not_add_less1)
  have "x (N + k) = x N" for k by (induction k) (simp_all only: add_0_right add_Suc_right step)
  then have "\<forall>n \<ge> N. x n = x N" by (metis le_Suc_ex)
  moreover have "contains (x m) v" if "n < m" "contains (y n) v" for n m v
    using ir.chain_mem [of y n v m "x 0", OF that(2,1)] x [of m] by simp
  ultimately show ?thesis using fin by blast
qed

theorem widening_stabilises_witness:
  "\<exists>N. \<forall>n \<ge> N. ir.chain (range_constant 0) (\<lambda>n. range_constant (word_of_nat n)) n =
     ir.chain (range_constant 0) (\<lambda>n. range_constant (word_of_nat n)) N"
  using widening_stabilises [of "ir.chain (range_constant 0) (\<lambda>n. range_constant (word_of_nat n))"
      "\<lambda>n. range_constant (word_of_nat n)"] by simp

text \<open>C17: the transfer function of the logical right shift is not sound for a shift by zero: the
  range it gives for \<open>[-2, -1]\<close> shifted by \<open>0\<close> does not contain \<open>-1\<close>, the result on \<open>-1\<close>.\<close>

theorem transfer_shr_zero_unsound:
  "\<exists>rng. transfer_binary Shr (bounded (- 2) (- 1)) (range_constant 0) = Some rng \<and>
     contains (bounded (- 2) (- 1)) (- 1) \<and> fold_binary Shr (- 1) 0 = Some (- 1) \<and>
     \<not> contains rng (- 1)"
proof -
  have b: "bounded (- 2) (- 1) = Bounded (- 2) (- 1) False"
    by (simp add: bounded_def normalized_def i32_order)
  have "transfer_binary Shr (bounded (- 2) (- 1)) (range_constant 0) = Some (bounded 0 i32_MAX)"
    unfolding b by (simp add: transfer_binary_def range_constant_def is_compare_def
      mathematical_binary_None transfer_fallback_def)
  then show ?thesis by (simp add: i32_order)
qed

end
