(* ===== verification/Range_Analysis.thy ===== *)
theory Range_Analysis
  imports Int_Ranges "HOL-Library.AList"
begin

text \<open>
  The function-local part of the range analysis (\<open>RangeAnalysis\<close> of
  \<^verbatim>\<open>raana_ir/src/opt/analysis_passes/range.rs\<close>): the value definitions it extracts, the facts it
  keeps (\<open>State\<close>, a hash map, here an association list whose order is the iteration order), the
  bounded evaluation of a value against facts, the refinement along a branch edge, the join of two
  states, and the caps of induction variables.

  The properties are stated for an assignment of 32-bit values to the instructions that respects
  the definitions (\<open>execution\<close>): the values that running the function gives them. That no negative value is
  logically shifted right by a multiple of 32 is a hypothesis of its own (\<open>no_sign_keeping_shift\<close>), because the
  transfer function is unsound there, and so is that the ranges recorded for the function hold.
\<close>

section \<open>Model\<close>

type_synonym inst = nat
type_synonym func = nat
type_synonym basic_block = nat
type_synonym state = "(inst \<times> int_range) list"

text \<open>An \<open>f32\<close>: a finite value is \<open>m * 2 ^ e\<close>.\<close>

datatype f32 = NaN | Infinity bool | Finite int int

definition f32_ge_int :: "int \<Rightarrow> int \<Rightarrow> int \<Rightarrow> bool" where
  "f32_ge_int mant e k = (if 0 \<le> e then k \<le> mant * 2 ^ nat e else k * 2 ^ nat (- e) \<le> mant)"

definition f32_lt_int :: "int \<Rightarrow> int \<Rightarrow> int \<Rightarrow> bool" where
  "f32_lt_int mant e k = (if 0 \<le> e then mant * 2 ^ nat e < k else mant < k * 2 ^ nat (- e))"

definition f32_trunc :: "int \<Rightarrow> int \<Rightarrow> int" where
  "f32_trunc mant e = (if 0 \<le> e then mant * 2 ^ nat e else mant sdiv 2 ^ nat (- e))"

text \<open>\<open>i32::MAX as f32\<close> rounds to \<open>2 ^ 31\<close>.\<close>

fun fold_f32_to_i32 :: "f32 \<Rightarrow> i32 option" where
  "fold_f32_to_i32 (Finite mant e) =
     (if f32_ge_int mant e (- (2 ^ 31)) \<and> f32_lt_int mant e (2 ^ 31)
      then Some (word_of_int (f32_trunc mant e)) else None)"
| "fold_f32_to_i32 _ = None"

datatype value_def =
    Integer i32
  | ZeroInit
  | Undef
  | Binary binary_op inst inst
  | Select inst inst inst
  | Cast inst "f32 option"
  | Call func "inst list"
  | BlockParameter
  | Unknown

datatype logical_edge_arm = JumpArm | TrueArm | FalseArm

record logical_edge =
  from_block :: basic_block
  terminator :: inst
  arm :: logical_edge_arm

datatype range_context = FunctionContext | BlockEntry basic_block | Edge logical_edge | Before inst

record range_analysis =
  definitions :: "inst \<rightharpoonup> value_def"
  ranges :: state
  block_entries :: "basic_block \<rightharpoonup> state"
  edge_states :: "logical_edge \<rightharpoonup> state"
  before :: "inst \<rightharpoonup> state"
  loop_caps :: "inst \<rightharpoonup> int_range"
  loop_headers :: "basic_block set"
  nonneg_preserving :: "func set"
  modmul_builtin :: "func option"
  nonneg_params :: "inst set"

definition CONTEXT_DEPTH_LIMIT :: usize where
  "CONTEXT_DEPTH_LIMIT = 32"

definition ranges_or_full :: "range_analysis \<Rightarrow> inst \<Rightarrow> int_range" where
  "ranges_or_full self v = (case map_of (ranges self) v of Some r \<Rightarrow> r | None \<Rightarrow> range_full)"

definition constant_value :: "range_analysis \<Rightarrow> inst \<Rightarrow> i32 option" where
  "constant_value self v = (case definitions self v of
      Some (Integer c) \<Rightarrow> Some c
    | Some ZeroInit \<Rightarrow> Some 0
    | _ \<Rightarrow> None)"

definition base_range :: "range_analysis \<Rightarrow> inst \<Rightarrow> int_range" where
  "base_range self v = (case definitions self v of
      Some (Integer c) \<Rightarrow> range_constant c
    | Some ZeroInit \<Rightarrow> range_constant 0
    | Some Unknown \<Rightarrow> range_full
    | Some Undef \<Rightarrow> range_full
    | None \<Rightarrow> range_full
    | _ \<Rightarrow> ranges_or_full self v)"

definition min_nonneg :: "int_range \<Rightarrow> bool" where
  "min_nonneg r = (case range_min r of Some mn \<Rightarrow> 0 \<le>s mn | None \<Rightarrow> False)"

fun allM :: "('a \<Rightarrow> bool rust) \<Rightarrow> 'a list \<Rightarrow> bool rust" where
  "allM f [] = Some True"
| "allM f (x # xs) = do { b \<leftarrow> f x; if b then allM f xs else Some False }"

lemma allM_cong [fundef_cong]:
  "xs = ys \<Longrightarrow> (\<And>x. x \<in> set ys \<Longrightarrow> f x = g x) \<Longrightarrow> allM f xs = allM g ys"
proof -
  have "(\<And>x. x \<in> set ys \<Longrightarrow> f x = g x) \<Longrightarrow> allM f ys = allM g ys"
    by (induction ys) (auto cong: if_cong)
  then show "xs = ys \<Longrightarrow> (\<And>x. x \<in> set ys \<Longrightarrow> f x = g x) \<Longrightarrow> allM f xs = allM g ys" by blast
qed

text \<open>\<open>visiting\<close> is shared and mutable in the code; every call leaves it as it found it (the value
  it inserts is removed before it returns), so the model passes it down.\<close>

function evaluate_contextual :: "range_analysis \<Rightarrow> inst \<Rightarrow> state \<Rightarrow> inst set \<Rightarrow> usize \<Rightarrow> int_range rust"
  and evaluate_def :: "range_analysis \<Rightarrow> inst \<Rightarrow> state \<Rightarrow> inst set \<Rightarrow> usize \<Rightarrow> int_range rust"
  and call_range :: "range_analysis \<Rightarrow> func \<Rightarrow> inst list \<Rightarrow> state \<Rightarrow> inst set \<Rightarrow> usize \<Rightarrow> int_range rust"
where
  "evaluate_contextual self v facts visiting depth =
     (case map_of facts v of
        Some r \<Rightarrow> Some r
      | None \<Rightarrow>
          if CONTEXT_DEPTH_LIMIT \<le> depth \<or> v \<in> visiting then Some (base_range self v)
          else evaluate_def self v facts (insert v visiting) depth)"
| "evaluate_def self v facts visiting depth =
     (case definitions self v of
        Some (Integer c) \<Rightarrow> Some (range_constant c)
      | Some ZeroInit \<Rightarrow> Some (range_constant 0)
      | Some (Binary op lhs rhs) \<Rightarrow> do {
          l \<leftarrow> evaluate_contextual self lhs facts visiting (depth + 1);
          r \<leftarrow> evaluate_contextual self rhs facts visiting (depth + 1);
          transfer_binary op l r }
      | Some (Select cond if_true if_false) \<Rightarrow> do {
          c \<leftarrow> evaluate_contextual self cond facts visiting (depth + 1);
          if singleton c = Some 0 then evaluate_contextual self if_false facts visiting (depth + 1)
          else if excludes_zero c then evaluate_contextual self if_true facts visiting (depth + 1)
          else do {
            t \<leftarrow> evaluate_contextual self if_true facts visiting (depth + 1);
            f \<leftarrow> evaluate_contextual self if_false facts visiting (depth + 1);
            Some (join t f) } }
      | Some (Cast src source_float) \<Rightarrow>
          (case Option.bind source_float fold_f32_to_i32 of
             Some c \<Rightarrow> Some (range_constant c)
           | None \<Rightarrow> (case definitions self src of
                 Some (Integer _) \<Rightarrow> evaluate_contextual self src facts visiting (depth + 1)
               | _ \<Rightarrow> Some range_full))
      | Some BlockParameter \<Rightarrow> Some (ranges_or_full self v)
      | Some (Call callee args) \<Rightarrow> call_range self callee args facts visiting depth
      | Some Undef \<Rightarrow> Some range_full
      | Some Unknown \<Rightarrow> Some range_full
      | None \<Rightarrow> Some range_full)"
| "call_range self callee args facts visiting depth =
     (if modmul_builtin self = Some callee \<and> length args = 3 then do {
        a \<leftarrow> evaluate_contextual self (args ! 0) facts visiting (depth + 1);
        b \<leftarrow> evaluate_contextual self (args ! 1) facts visiting (depth + 1);
        if min_nonneg a \<and> min_nonneg b then
          let p = (case definitions self (args ! 2) of Some (Integer c) \<Rightarrow> c | _ \<Rightarrow> 0)
          in if 0 <s p then Some (bounded 0 (p - 1)) else Some (bounded 0 i32_MAX)
        else Some range_full }
      else if callee \<in> nonneg_preserving self then do {
        b \<leftarrow> allM (\<lambda>arg. do {
               r \<leftarrow> evaluate_contextual self arg facts visiting (depth + 1);
               Some (min_nonneg r) }) args;
        if b then Some (bounded 0 i32_MAX) else Some range_full }
      else Some range_full)"
  by pat_completeness auto
termination
  by (relation "measure (\<lambda>x. case x of
        Inl (_, _, _, _, d) \<Rightarrow> 3 * (33 - d)
      | Inr (Inl (_, _, _, _, d)) \<Rightarrow> 3 * (32 - d) + 2
      | Inr (Inr (_, _, _, _, _, d)) \<Rightarrow> 3 * (32 - d) + 1)")
     (auto simp: CONTEXT_DEPTH_LIMIT_def)

declare evaluate_contextual.simps [simp del] evaluate_def.simps [simp del] call_range.simps [simp del]

definition eval_with_state :: "range_analysis \<Rightarrow> inst \<Rightarrow> state \<Rightarrow> int_range rust" where
  "eval_with_state self v st = evaluate_contextual self v st {} 0"

definition range_of_fresh :: "range_analysis \<Rightarrow> inst \<Rightarrow> int_range rust" where
  "range_of_fresh self v = evaluate_def self v (ranges self) {} 0"

definition range_in_context :: "range_analysis \<Rightarrow> inst \<Rightarrow> range_context \<Rightarrow> int_range rust" where
  "range_in_context self v ctx = (case ctx of
      FunctionContext \<Rightarrow> evaluate_contextual self v (ranges self) {} 0
    | BlockEntry block \<Rightarrow> (case block_entries self block of
          Some st \<Rightarrow> evaluate_contextual self v st {} 0
        | None \<Rightarrow> Some (base_range self v))
    | Edge edge \<Rightarrow> (case edge_states self edge of
          Some st \<Rightarrow> evaluate_contextual self v st {} 0
        | None \<Rightarrow> Some Empty)
    | Before i \<Rightarrow> (case before self i of
          Some st \<Rightarrow> evaluate_contextual self v st {} 0
        | None \<Rightarrow> Some (base_range self v)))"

definition proves_binary_no_signed_wrap ::
  "range_analysis \<Rightarrow> binary_op \<Rightarrow> inst \<Rightarrow> inst \<Rightarrow> range_context \<Rightarrow> bool rust" where
  "proves_binary_no_signed_wrap self op lhs rhs ctx =
     (if op \<notin> {Add, Sub, Mul, Shl} then Some False
      else do {
        l \<leftarrow> range_in_context self lhs ctx;
        r \<leftarrow> range_in_context self rhs ctx;
        Some (mathematical_binary op l r \<noteq> None) })"

fun join_entry :: "state \<times> bool \<Rightarrow> inst \<times> int_range \<Rightarrow> state \<times> bool" where
  "join_entry (target, changed) (v, r) = (case map_of target v of
      Some old \<Rightarrow>
        (let joined = join old r
         in if joined \<noteq> old then (AList.update v joined target, True) else (target, changed))
    | None \<Rightarrow> (AList.update v r target, True))"

definition join_state :: "state \<Rightarrow> state \<Rightarrow> state \<times> bool" where
  "join_state target incoming = foldl join_entry (target, False) incoming"

text \<open>What \<open>refine_edge\<close> reads of the function: the condition of a branch terminator and whether
  an instruction has type \<open>i32\<close>.\<close>

record branch_view =
  branch_cond :: "inst \<rightharpoonup> inst"
  inst_is_i32 :: "inst \<Rightarrow> bool"

text \<open>The result is the Boolean of the code with the updated state.\<close>

definition refine_operands ::
  "range_analysis \<Rightarrow> branch_view \<Rightarrow> bool \<Rightarrow> inst \<Rightarrow> state \<Rightarrow> (bool \<times> state) rust" where
  "refine_operands self data truth cond st = (case definitions self cond of
      Some (Binary op0 lhs rhs) \<Rightarrow>
        if \<not> is_compare op0 then Some (True, st)
        else if \<not> inst_is_i32 data lhs \<or> \<not> inst_is_i32 data rhs then Some (True, st)
        else do {
          op \<leftarrow> (if truth then Some op0 else complement_integer_compare op0);
          l \<leftarrow> eval_with_state self lhs st;
          r \<leftarrow> eval_with_state self rhs st;
          let (new_lhs, new_rhs) = refine_comparison op l r;
          if new_lhs = Empty \<or> new_rhs = Empty then Some (False, st)
          else Some (True, AList.update rhs new_rhs (AList.update lhs new_lhs st)) }
    | _ \<Rightarrow> Some (True, st))"

definition refine_edge ::
  "range_analysis \<Rightarrow> branch_view \<Rightarrow> logical_edge \<Rightarrow> state \<Rightarrow> (bool \<times> state) rust" where
  "refine_edge self data edge st =
     (if arm edge \<notin> {TrueArm, FalseArm} then Some (True, st)
      else case branch_cond data (terminator edge) of
        None \<Rightarrow> Some (True, st)
      | Some cond \<Rightarrow> do {
          let truth = (arm edge = TrueArm);
          c \<leftarrow> eval_with_state self cond st;
          if truth \<and> singleton c = Some 0 \<or> \<not> truth \<and> excludes_zero c then Some (False, st)
          else do {
            let refined = (if truth then assume_ne c (range_constant 0)
                           else assume_eq c (range_constant 0));
            if refined = Empty then Some (False, st)
            else refine_operands self data truth cond (AList.update cond refined st) } })"

section \<open>Induction caps\<close>

datatype induction_step = StepAdd inst | StepSub inst
datatype induction_direction = Forward | Backward

definition i32_checked_neg :: "i32 \<Rightarrow> i32 option" where
  "i32_checked_neg a = (if a = i32_MIN then None else Some (- a))"

fun constant_step :: "range_analysis \<Rightarrow> induction_step \<Rightarrow> i32 option" where
  "constant_step self (StepAdd v) = constant_value self v"
| "constant_step self (StepSub v) = Option.bind (constant_value self v) i32_checked_neg"

fun collect_constants :: "range_analysis \<Rightarrow> inst list \<Rightarrow> i32 list option" where
  "collect_constants self [] = Some []"
| "collect_constants self (v # vs) = do {
     c \<leftarrow> constant_value self v; cs \<leftarrow> collect_constants self vs; Some (c # cs) }"

fun iter_min :: "i32 list \<Rightarrow> i32 option" where
  "iter_min [] = None" | "iter_min (x # xs) = Some (foldl i32_min x xs)"

fun iter_max :: "i32 list \<Rightarrow> i32 option" where
  "iter_max [] = None" | "iter_max (x # xs) = Some (foldl i32_max x xs)"

definition try_i32 :: "int \<Rightarrow> i32 option" where
  "try_i32 k = (if - (2 ^ 31) \<le> k \<and> k < 2 ^ 31 then Some (word_of_int k) else None)"

text \<open>The \<open>i64\<close> sums cannot overflow: their operands are \<open>i32\<close> values and ones.\<close>

definition constant_induction_cap ::
  "range_analysis \<Rightarrow> inst list \<Rightarrow> induction_direction \<Rightarrow> i32 \<Rightarrow> inst \<Rightarrow> int_range option" where
  "constant_induction_cap self initial_values direction signed_step bound_value = do {
     bound \<leftarrow> constant_value self bound_value;
     inits \<leftarrow> collect_constants self initial_values;
     initial_min \<leftarrow> iter_min inits;
     initial_max \<leftarrow> iter_max inits;
     (case direction of
        Forward \<Rightarrow> do {
          terminal \<leftarrow> try_i32 (sint bound - 1 + sint signed_step);
          Some (bounded initial_min (i32_max initial_max terminal)) }
      | Backward \<Rightarrow> do {
          terminal \<leftarrow> try_i32 (sint bound + 1 + sint signed_step);
          Some (bounded (i32_min initial_min terminal) initial_max) }) }"

section \<open>Executions\<close>

text \<open>The result of an operator: division and remainder by zero give no particular value.\<close>

definition binary_result :: "binary_op \<Rightarrow> i32 \<Rightarrow> i32 \<Rightarrow> i32 \<Rightarrow> bool" where
  "binary_result op a b c = (case fold_binary op a b of Some r \<Rightarrow> c = r | None \<Rightarrow> True)"

text \<open>\<open>env\<close> gives every instruction the value it has at some point of an execution;
  \<open>is_int\<close> tells the \<open>i32\<close> instructions (a comparison may have \<open>f32\<close> operands).\<close>

definition call_holds :: "range_analysis \<Rightarrow> (inst \<Rightarrow> i32) \<Rightarrow> func \<Rightarrow> inst list \<Rightarrow> i32 \<Rightarrow> bool" where
  "call_holds self env callee args res =
     ((modmul_builtin self = Some callee \<and> length args = 3 \<longrightarrow>
         env (args ! 2) \<noteq> 0 \<and>
         sint res = (sint (env (args ! 0)) * sint (env (args ! 1))) smod sint (env (args ! 2))) \<and>
      (callee \<in> nonneg_preserving self \<longrightarrow>
         (\<forall>arg \<in> set args. 0 \<le> sint (env arg)) \<longrightarrow> 0 \<le> sint res))"

definition def_holds :: "range_analysis \<Rightarrow> (inst \<Rightarrow> bool) \<Rightarrow> (inst \<Rightarrow> i32) \<Rightarrow> inst \<Rightarrow> bool" where
  "def_holds self is_int env v = (case definitions self v of
      Some (Integer c) \<Rightarrow> env v = c
    | Some ZeroInit \<Rightarrow> env v = 0
    | Some (Binary op l r) \<Rightarrow>
        if is_int l \<and> is_int r
        then binary_result op (env l) (env r) (env v)
        else \<not> is_int l \<and> \<not> is_int r \<and> is_compare op \<and> env v \<in> {0, 1}
    | Some (Select c t f) \<Rightarrow> env v = (if env c \<noteq> 0 then env t else env f)
    | Some (Cast src flt) \<Rightarrow>
        (case Option.bind flt fold_f32_to_i32 of
           Some c \<Rightarrow> env v = c
         | None \<Rightarrow> (case definitions self src of Some (Integer c) \<Rightarrow> env v = env src | _ \<Rightarrow> True))
    | Some (Call callee args) \<Rightarrow> call_holds self env callee args (env v)
    | _ \<Rightarrow> True)"

definition facts_hold :: "(inst \<Rightarrow> bool) \<Rightarrow> (inst \<Rightarrow> i32) \<Rightarrow> state \<Rightarrow> bool" where
  "facts_hold is_int env st =
     (\<forall>v r. map_of st v = Some r \<longrightarrow> is_int v \<and> range_wf r \<and> contains r (env v))"

text \<open>Every value agrees with its definition, and the analysis has definitions of \<open>i32\<close> instructions only.\<close>

definition execution :: "range_analysis \<Rightarrow> (inst \<Rightarrow> bool) \<Rightarrow> (inst \<Rightarrow> i32) \<Rightarrow> bool" where
  "execution self is_int env =
     ((\<forall>v. def_holds self is_int env v) \<and>
      (\<forall>v. \<not> is_int v \<longrightarrow> definitions self v \<in> {None, Some Unknown}))"

text \<open>The values on which the transfer function of the logical right shift is sound: no negative value is shifted by a
  multiple of 32. The range of such a shift leaves out negative results.\<close>

definition no_sign_keeping_shift :: "range_analysis \<Rightarrow> (inst \<Rightarrow> i32) \<Rightarrow> bool" where
  "no_sign_keeping_shift self env =
     (\<forall>v op l r. definitions self v = Some (Binary op l r) \<longrightarrow> \<not> shr_keeps_sign op (env l) (env r))"

text \<open>The recorded facts of a point that an execution passes. An edge without recorded facts is one that the analysis
  has found to be never taken; at other points without facts the ranges of the whole function are used.\<close>

definition context_holds :: "range_analysis \<Rightarrow> (inst \<Rightarrow> bool) \<Rightarrow> (inst \<Rightarrow> i32) \<Rightarrow> range_context \<Rightarrow> bool" where
  "context_holds self is_int env ctx = (case ctx of
      FunctionContext \<Rightarrow> True
    | BlockEntry block \<Rightarrow> (case block_entries self block of Some st \<Rightarrow> facts_hold is_int env st | None \<Rightarrow> True)
    | Edge edge \<Rightarrow> (case edge_states self edge of Some st \<Rightarrow> facts_hold is_int env st | None \<Rightarrow> False)
    | Before i \<Rightarrow> (case before self i of Some st \<Rightarrow> facts_hold is_int env st | None \<Rightarrow> True))"

text \<open>What the soundness lemmas share.\<close>

definition sound_run :: "range_analysis \<Rightarrow> (inst \<Rightarrow> bool) \<Rightarrow> (inst \<Rightarrow> i32) \<Rightarrow> bool" where
  "sound_run self is_int env =
     (execution self is_int env \<and> no_sign_keeping_shift self env \<and> facts_hold is_int env (ranges self))"

section \<open>Soundness of the evaluation\<close>

abbreviation sound_range :: "int_range rust \<Rightarrow> i32 \<Rightarrow> bool" where
  "sound_range res v \<equiv> (\<exists>r. res = Some r \<and> range_wf r \<and> contains r v)"

lemma transfer_undefined:
  assumes "contains lhs a" "contains rhs 0" "op = Div \<or> op = Rem"
  shows "transfer_binary op lhs rhs = Some range_full"
proof -
  have s: "singleton rhs = Some c \<Longrightarrow> c = 0" for c using assms(2) singleton_SomeD by blast
  show ?thesis
  proof (cases "singleton lhs = None \<or> singleton rhs = None")
    case True
    then show ?thesis using assms(3) s unfolding transfer_binary_interval [OF assms(1,2) True]
      by (auto simp: is_compare_def mathematical_binary_None transfer_fallback_def transfer_div_def
        transfer_rem_def split: option.splits)
  next
    case False
    then show ?thesis using assms s by (auto simp: transfer_binary_def)
  qed
qed

lemma transfer_binary_result:
  assumes "range_wf l" "range_wf r" "contains l a" "contains r b" "binary_result op a b c"
    and "\<not> shr_keeps_sign op a b"
  shows "sound_range (transfer_binary op l r) c"
proof (cases "fold_binary op a b")
  case (Some x)
  then show ?thesis using transfer_binary_sound_for [OF assms(1-4), of op] assms(5,6)
    by (auto simp: sound_for_def binary_result_def)
next
  case None
  then have "op = Div \<or> op = Rem" "b = 0" using fold_binary_cases [of op a b] by auto
  then show ?thesis using transfer_undefined [OF assms(3), of r op] assms(4) by simp
qed

lemma transfer_compare_full:
  assumes "is_compare op" "c \<in> {0, 1}"
  shows "sound_range (transfer_binary op range_full range_full) c"
proof -
  have s: "singleton range_full = None" by (simp add: range_full_def i32_MIN_def i32_MAX_def)
  have "transfer_binary op range_full range_full = Some (bounded 0 1)"
    using assms(1) unfolding transfer_binary_interval [OF contains_full contains_full disjI1 [OF s]]
    by (cases op) (auto simp: is_compare_def comparison_range_def proven_true_def proven_false_def
      range_full_def i32_order i32_MIN_def i32_MAX_def)
  then show ?thesis using assms(2) by auto
qed

lemma ranges_or_full_sound:
  "facts_hold is_int env (ranges self) \<Longrightarrow> range_wf (ranges_or_full self v) \<and> contains (ranges_or_full self v) (env v)"
  by (auto simp: ranges_or_full_def facts_hold_def split: option.splits)

lemma base_range_sound:
  assumes "sound_run self is_int env"
  shows "range_wf (base_range self v) \<and> contains (base_range self v) (env v)"
  using assms ranges_or_full_sound [of is_int env self v] spec [of "def_holds self is_int env" v]
  by (auto simp: base_range_def sound_run_def execution_def def_holds_def split: option.splits value_def.splits)

lemma nonint_full:
  assumes "sound_run self is_int env" "\<not> is_int v" "facts_hold is_int env facts"
  shows "evaluate_contextual self v facts visiting d = Some range_full"
proof -
  have "definitions self v = None \<or> definitions self v = Some Unknown"
    using assms(1,2) by (auto simp: sound_run_def execution_def)
  moreover have "map_of facts v = None"
    using assms(2,3) unfolding facts_hold_def by (cases "map_of facts v") auto
  ultimately show ?thesis
    by (auto simp: evaluate_contextual.simps evaluate_def.simps base_range_def)
qed

lemma min_nonneg_sound: "min_nonneg r \<Longrightarrow> contains r v \<Longrightarrow> 0 \<le> sint v"
  by (cases r) (auto simp: min_nonneg_def i32_order)

lemma select_zero: "singleton c = Some 0 \<Longrightarrow> contains c v \<Longrightarrow> v = 0"
  using singleton_SomeD by blast

lemma excludes_zero_sound: "excludes_zero c \<Longrightarrow> contains c v \<Longrightarrow> v \<noteq> 0"
  by (auto simp: excludes_zero_def contains_zero_def)

lemma allM_total:
  assumes "\<forall>x \<in> set xs. \<exists>b. f x = Some b \<and> (b \<longrightarrow> P x)"
  shows "\<exists>b. allM f xs = Some b \<and> (b \<longrightarrow> (\<forall>x \<in> set xs. P x))"
  using assms
proof (induction xs)
  case (Cons x xs)
  then obtain b c where "f x = Some b" "b \<longrightarrow> P x" "allM f xs = Some c" "c \<longrightarrow> (\<forall>x \<in> set xs. P x)"
    by auto
  then show ?case by (cases b) auto
qed auto

lemma mulmod_range:
  fixes a b p res :: i32
  assumes "0 \<le> sint a" "0 \<le> sint b" "p \<noteq> 0" "sint res = (sint a * sint b) smod sint p"
  shows "0 \<le> sint res" "0 \<le> sint p \<Longrightarrow> sint res \<le> sint p - 1"
proof -
  have p: "sint p \<noteq> 0" using assms(3) by (simp add: i32_eq_iff_sint)
  show "0 \<le> sint res" using smod_bounds(2) [OF p, of "sint a * sint b"] assms by simp
  show "0 \<le> sint p \<Longrightarrow> sint res \<le> sint p - 1"
    using smod_bounds(1) [OF p, of "sint a * sint b"] assms by simp
qed

text \<open>One level of the evaluation, given that the next level is sound.\<close>

lemma binary_step:
  assumes "sound_run self is_int env" "facts_hold is_int env facts"
    and "definitions self v = Some (Binary op l r)"
    and ev: "\<And>x. sound_range (evaluate_contextual self x facts visiting (depth + 1)) (env x)"
  shows "sound_range (evaluate_def self v facts visiting depth) (env v)"
proof -
  let ?ev = "\<lambda>x. evaluate_contextual self x facts visiting (depth + 1)"
  have e: "evaluate_def self v facts visiting depth = do { a \<leftarrow> ?ev l; b \<leftarrow> ?ev r; transfer_binary op a b }"
    using assms(3) by (simp add: evaluate_def.simps)
  have d: "def_holds self is_int env v" using assms(1) by (simp add: sound_run_def execution_def)
  show ?thesis
  proof (cases "is_int l \<and> is_int r")
    case True
    moreover have "\<not> shr_keeps_sign op (env l) (env r)"
      using assms(1,3) unfolding sound_run_def no_sign_keeping_shift_def by blast
    ultimately show ?thesis using ev [of l] ev [of r] d assms(3) e transfer_binary_result
      by (auto simp: def_holds_def)
  next
    case False
    then have "?ev l = Some range_full" "?ev r = Some range_full" "is_compare op" "env v \<in> {0, 1}"
      using d assms(3) nonint_full [OF assms(1) _ assms(2)] by (auto simp: def_holds_def)
    then show ?thesis using e transfer_compare_full by simp
  qed
qed

lemma select_step:
  assumes "def_holds self is_int env v" and "definitions self v = Some (Select c t f)"
    and ev: "\<And>x. sound_range (evaluate_contextual self x facts visiting (depth + 1)) (env x)"
  shows "sound_range (evaluate_def self v facts visiting depth) (env v)"
proof -
  obtain rc where rc: "evaluate_contextual self c facts visiting (depth + 1) = Some rc" "contains rc (env c)"
    using ev by blast
  obtain rt where rt: "evaluate_contextual self t facts visiting (depth + 1) = Some rt" "range_wf rt" "contains rt (env t)"
    using ev by blast
  obtain rf where rf: "evaluate_contextual self f facts visiting (depth + 1) = Some rf" "range_wf rf" "contains rf (env f)"
    using ev by blast
  have "env v = (if env c \<noteq> 0 then env t else env f)" using assms(1,2) by (simp add: def_holds_def)
  then show ?thesis
    using assms(2) rc rt rf select_zero [OF _ rc(2)] excludes_zero_sound [OF _ rc(2)]
      contains_join [of rt _ rf] join_wf [OF rt(2) rf(2)]
    by (auto simp: evaluate_def.simps)
qed

lemma cast_step:
  assumes "def_holds self is_int env v" and "definitions self v = Some (Cast src flt)"
    and ev: "\<And>x. sound_range (evaluate_contextual self x facts visiting (depth + 1)) (env x)"
  shows "sound_range (evaluate_def self v facts visiting depth) (env v)"
  using assms(1,2) ev [of src]
  by (auto simp: def_holds_def evaluate_def.simps split: option.splits value_def.splits)

lemma call_step_mulmod:
  assumes "sound_run self is_int env" and "call_holds self env callee args res"
    and builtin: "modmul_builtin self = Some callee \<and> length args = 3"
    and ev: "\<And>x. sound_range (evaluate_contextual self x facts visiting (depth + 1)) (env x)"
  shows "sound_range (call_range self callee args facts visiting depth) res"
proof -
  obtain a where a: "evaluate_contextual self (args ! 0) facts visiting (depth + 1) = Some a" "contains a (env (args ! 0))"
    using ev by blast
  obtain b where b: "evaluate_contextual self (args ! 1) facts visiting (depth + 1) = Some b" "contains b (env (args ! 1))"
    using ev by blast
  define p where "p = (case definitions self (args ! 2) of Some (Integer c) \<Rightarrow> c | _ \<Rightarrow> 0)"
  have e: "call_range self callee args facts visiting depth =
     (if min_nonneg a \<and> min_nonneg b then if 0 <s p then Some (bounded 0 (p - 1)) else Some (bounded 0 i32_MAX)
      else Some range_full)"
    using builtin a b by (simp add: call_range.simps p_def Let_def)
  have "def_holds self is_int env (args ! 2)" using assms(1) by (simp add: sound_run_def execution_def)
  then have pv: "0 <s p \<Longrightarrow> p = env (args ! 2)"
    by (auto simp: p_def def_holds_def i32_order split: option.splits value_def.splits)
  have pm: "0 <s p \<Longrightarrow> sint (p - 1) = sint p - 1"
    using sint_diff_in_range [of p 1] sint_i32_upper [of p] by (simp add: i32_order)
  show ?thesis
  proof (cases "min_nonneg a \<and> min_nonneg b")
    case True
    then have nn: "0 \<le> sint (env (args ! 0))" "0 \<le> sint (env (args ! 1))"
      using a b min_nonneg_sound by blast+
    have c: "env (args ! 2) \<noteq> 0" "sint res = (sint (env (args ! 0)) * sint (env (args ! 1))) smod sint (env (args ! 2))"
      using assms(2) builtin by (simp_all add: call_holds_def)
    show ?thesis using True e pv pm mulmod_range [OF nn c] sint_i32_upper [of res] by (auto simp: i32_order)
  qed (use e in auto)
qed

lemma call_step:
  assumes "sound_run self is_int env" and "call_holds self env callee args res"
    and ev: "\<And>x. sound_range (evaluate_contextual self x facts visiting (depth + 1)) (env x)"
  shows "sound_range (call_range self callee args facts visiting depth) res"
proof (cases "modmul_builtin self = Some callee \<and> length args = 3")
  case True
  then show ?thesis using call_step_mulmod [OF assms(1,2) _ ev] by blast
next
  case False
  show ?thesis
  proof (cases "callee \<in> nonneg_preserving self")
    case True
    let ?f = "\<lambda>arg. do { r \<leftarrow> evaluate_contextual self arg facts visiting (depth + 1); Some (min_nonneg r) }"
    have "\<exists>b. ?f arg = Some b \<and> (b \<longrightarrow> 0 \<le> sint (env arg))" for arg
      using ev [of arg] min_nonneg_sound by fastforce
    then obtain b where b: "allM ?f args = Some b" "b \<longrightarrow> (\<forall>arg \<in> set args. 0 \<le> sint (env arg))"
      using allM_total [of args ?f "\<lambda>arg. 0 \<le> sint (env arg)"] by blast
    have "0 \<le> sint res" if b using b that assms(2) True by (simp add: call_holds_def)
    moreover have "call_range self callee args facts visiting depth =
        (if b then Some (bounded 0 i32_MAX) else Some range_full)"
      unfolding call_range.simps if_not_P [OF False] if_P [OF True] b(1) by simp
    ultimately show ?thesis using sint_i32_upper [of res] by auto
  qed (unfold call_range.simps if_not_P [OF False], simp)
qed

lemma evaluate_def_step:
  assumes "sound_run self is_int env" "facts_hold is_int env facts"
    and ev: "\<And>x. sound_range (evaluate_contextual self x facts visiting (depth + 1)) (env x)"
  shows "sound_range (evaluate_def self v facts visiting depth) (env v)"
proof -
  have d: "def_holds self is_int env v" using assms(1) by (simp add: sound_run_def execution_def)
  show ?thesis
  proof (cases "definitions self v")
    case (Some def)
    show ?thesis
    proof (cases def)
      case (Binary op l r)
      then show ?thesis using binary_step [OF assms(1,2) _ ev] Some by blast
    next
      case (Select c t f)
      then show ?thesis using select_step [OF d _ ev] Some by blast
    next
      case (Cast src flt)
      then show ?thesis using cast_step [OF d _ ev] Some by blast
    next
      case (Call callee args)
      then show ?thesis using call_step [OF assms(1) _ ev] d Some
        by (simp add: def_holds_def evaluate_def.simps)
    next
      case BlockParameter
      then show ?thesis using Some assms(1) ranges_or_full_sound [of is_int env self v]
        by (simp add: evaluate_def.simps sound_run_def execution_def)
    qed (use Some d in \<open>simp_all add: evaluate_def.simps def_holds_def\<close>)
  qed (simp add: evaluate_def.simps)
qed

lemma evaluate_contextual_sound:
  assumes "sound_run self is_int env" "facts_hold is_int env facts"
  shows "sound_range (evaluate_contextual self v facts visiting depth) (env v)"
proof (induction "32 - depth" arbitrary: depth v visiting)
  case 0
  then show ?case using base_range_sound [OF assms(1), of v] assms(2)
    by (auto simp: evaluate_contextual.simps CONTEXT_DEPTH_LIMIT_def facts_hold_def split: option.splits)
next
  case (Suc n)
  then have "\<And>x visiting. sound_range (evaluate_contextual self x facts visiting (depth + 1)) (env x)" by simp
  then have "sound_range (evaluate_def self v facts (insert v visiting) depth) (env v)"
    using evaluate_def_step [OF assms] by blast
  then show ?case using base_range_sound [OF assms(1), of v] assms(2)
    by (auto simp: evaluate_contextual.simps [of self v] facts_hold_def split: option.splits)
qed

lemma eval_with_state_sound:
  "sound_run self is_int env \<Longrightarrow> facts_hold is_int env facts \<Longrightarrow> sound_range (eval_with_state self v facts) (env v)"
  unfolding eval_with_state_def by (rule evaluate_contextual_sound)

lemma range_of_fresh_sound:
  assumes "sound_run self is_int env"
  shows "sound_range (range_of_fresh self v) (env v)"
proof -
  have "facts_hold is_int env (ranges self)" using assms by (simp add: sound_run_def execution_def)
  from evaluate_def_step [OF assms this] evaluate_contextual_sound [OF assms this]
  show ?thesis unfolding range_of_fresh_def by blast
qed

lemma range_in_context_sound:
  assumes "sound_run self is_int env" and "context_holds self is_int env ctx"
  shows "sound_range (range_in_context self v ctx) (env v)"
proof -
  have fun_facts: "facts_hold is_int env (ranges self)" using assms(1) by (simp add: sound_run_def)
  show ?thesis
    using assms(2) evaluate_contextual_sound [OF assms(1)] base_range_sound [OF assms(1), of v] fun_facts
    by (cases ctx) (auto simp: range_in_context_def context_holds_def split: option.splits)
qed

section \<open>Branch refinement\<close>

lemma facts_hold_update:
  "facts_hold is_int env st \<Longrightarrow> is_int v \<Longrightarrow> range_wf r \<Longrightarrow> contains r (env v) \<Longrightarrow>
     facts_hold is_int env (AList.update v r st)"
  by (auto simp: facts_hold_def update_conv')

lemma complement_holds:
  assumes "complement_integer_compare op = Some c" "fold_binary op a b = Some 0"
  shows "fold_binary c a b = Some 1 \<and> is_compare c"
  using assms by (cases op) (auto simp: is_compare_def of_bool_i32_def word_sless_alt word_sle_eq split: if_splits)

lemma complement_total: "is_compare op \<Longrightarrow> \<exists>c. complement_integer_compare op = Some c"
  by (cases op) (auto simp: is_compare_def)

lemma compare_result: "is_compare op \<Longrightarrow> fold_binary op a b = Some 0 \<or> fold_binary op a b = Some 1"
  by (cases op) (auto simp: is_compare_def of_bool_i32_def)

text \<open>The comparison a taken edge establishes.\<close>

lemma taken_comparison:
  assumes "sound_run self is_int env" "definitions self cond = Some (Binary op0 l r)" "is_compare op0"
    "is_int l" "is_int r" "truth = (env cond \<noteq> 0)"
  shows "\<exists>op. (if truth then Some op0 else complement_integer_compare op0) = Some op \<and>
    is_compare op \<and> fold_binary op (env l) (env r) = Some 1"
proof -
  have "def_holds self is_int env cond" using assms(1) by (simp add: sound_run_def execution_def)
  then have b: "fold_binary op0 (env l) (env r) = Some (env cond)"
    using assms compare_result [OF assms(3), of "env l" "env r"]
    by (auto simp: def_holds_def binary_result_def)
  obtain c where c: "complement_integer_compare op0 = Some c" using complement_total [OF assms(3)] by blast
  show ?thesis
    using b c assms(3,6) complement_holds [OF c, of "env l" "env r"] compare_result [OF assms(3), of "env l" "env r"]
    by auto
qed

lemma refine_operands_sound:
  assumes "sound_run self is_int env" "facts_hold is_int env st" "truth = (env cond \<noteq> 0)"
    and "inst_is_i32 data = is_int"
  shows "\<exists>st'. refine_operands self data truth cond st = Some (True, st') \<and> facts_hold is_int env st'"
proof (cases "\<exists>op0 l r. definitions self cond = Some (Binary op0 l r) \<and> is_compare op0 \<and> is_int l \<and> is_int r")
  case True
  then obtain op0 l r where d: "definitions self cond = Some (Binary op0 l r)" "is_compare op0" "is_int l" "is_int r"
    by blast
  obtain op where op: "(if truth then Some op0 else complement_integer_compare op0) = Some op"
    "is_compare op" "fold_binary op (env l) (env r) = Some 1"
    using taken_comparison [OF assms(1) d assms(3)] by blast
  obtain rl where rl: "eval_with_state self l st = Some rl" "range_wf rl" "contains rl (env l)"
    using eval_with_state_sound [OF assms(1,2)] by blast
  obtain rr where rr: "eval_with_state self r st = Some rr" "range_wf rr" "contains rr (env r)"
    using eval_with_state_sound [OF assms(1,2)] by blast
  obtain nl nr where n: "refine_comparison op rl rr = (nl, nr)" by fastforce
  have c: "contains nl (env l)" "contains nr (env r)" "range_wf nl" "range_wf nr"
    using refine_comparison_sound [OF rl(3) rr(3) op(3,2)] refine_comparison_wf [OF rl(2) rr(2), of op] n by auto
  then have "facts_hold is_int env (AList.update r nr (AList.update l nl st))"
    using d(3,4) assms(2) by (intro facts_hold_update)
  moreover have "nl \<noteq> Empty" "nr \<noteq> Empty" using c by auto
  ultimately show ?thesis using d assms(4) op rl rr n by (simp add: refine_operands_def)
next
  case False
  then have "refine_operands self data truth cond st = Some (True, st)"
    using assms(4) by (auto simp: refine_operands_def split: option.splits value_def.splits)
  then show ?thesis using assms(2) by simp
qed

lemma refine_edge_sound:
  assumes "sound_run self is_int env" "facts_hold is_int env st"
    and "inst_is_i32 data = is_int" and "\<And>c. branch_cond data (terminator edge) = Some c \<Longrightarrow> is_int c"
    and taken: "\<And>c. branch_cond data (terminator edge) = Some c \<Longrightarrow> arm edge = TrueArm \<Longrightarrow> env c \<noteq> 0"
      "\<And>c. branch_cond data (terminator edge) = Some c \<Longrightarrow> arm edge = FalseArm \<Longrightarrow> env c = 0"
  shows "\<exists>st'. refine_edge self data edge st = Some (True, st') \<and> facts_hold is_int env st'"
proof (cases "arm edge \<notin> {TrueArm, FalseArm} \<or> branch_cond data (terminator edge) = None")
  case True
  then show ?thesis using assms(2) by (auto simp: refine_edge_def)
next
  case False
  then obtain cond where cond: "branch_cond data (terminator edge) = Some cond" by auto
  let ?t = "arm edge = TrueArm"
  have t: "?t = (env cond \<noteq> 0)" using False taken cond by auto
  obtain c where c: "eval_with_state self cond st = Some c" "range_wf c" "contains c (env cond)"
    using eval_with_state_sound [OF assms(1,2)] by blast
  define refined where "refined = (if ?t then assume_ne c (range_constant 0) else assume_eq c (range_constant 0))"
  have g: "\<not> (?t \<and> singleton c = Some 0 \<or> \<not> ?t \<and> excludes_zero c)"
    using t select_zero [OF _ c(3)] excludes_zero_sound [OF _ c(3)] by blast
  have r: "range_wf refined" "contains refined (env cond)"
    using t c contains_assume_ne [OF c(3), of "range_constant 0" 0] contains_assume_eq [OF c(3), of "range_constant 0"]
    by (auto simp: refined_def assume_wf assume_ne_wf)
  then have "facts_hold is_int env (AList.update cond refined st)"
    using assms(2,4) cond by (intro facts_hold_update)
  then obtain st' where "refine_operands self data ?t cond (AList.update cond refined st) = Some (True, st')"
    "facts_hold is_int env st'"
    using refine_operands_sound [OF assms(1) _ t assms(3)] by blast
  moreover have "refined \<noteq> Empty" using r by auto
  ultimately show ?thesis using False cond c(1) g
    unfolding refine_edge_def refined_def [symmetric] by (simp add: Let_def refined_def [symmetric])
qed

section \<open>Joining states\<close>

lemma join_entry_eq:
  "join_entry (t, ch) (v, r) =
     (let t' = fst (join_entry (t, ch) (v, r)) in (t', ch \<or> map_of t' \<noteq> map_of t))"
  by (auto simp: Let_def update_conv' fun_eq_iff split: option.splits)

lemma map_of_join_entry:
  "map_of (fst (join_entry (t, ch) (v, r))) =
     (map_of t)(v \<mapsto> (case map_of t v of Some old \<Rightarrow> join old r | None \<Rightarrow> r))"
  by (auto simp: Let_def update_conv' fun_upd_idem split: option.splits)

definition joined_fact :: "state \<Rightarrow> state \<Rightarrow> inst \<Rightarrow> int_range option" where
  "joined_fact t inc v = (case (map_of t v, map_of inc v) of
      (Some old, Some r) \<Rightarrow> Some (join old r)
    | (Some old, None) \<Rightarrow> Some old
    | (None, r) \<Rightarrow> r)"

lemma join_entries:
  assumes "distinct (map fst inc)" "foldl join_entry (t, ch) inc = (t', ch')"
  shows "map_of t' = joined_fact t inc \<and> ch' = (ch \<or> map_of t' \<noteq> map_of t)"
  using assms
proof (induction inc arbitrary: t ch)
  case Nil
  then show ?case by (auto simp: joined_fact_def fun_eq_iff split: option.splits)
next
  case (Cons e inc)
  obtain v r where e: "e = (v, r)" by fastforce
  obtain t1 ch1 where 1: "join_entry (t, ch) (v, r) = (t1, ch1)" by fastforce
  have m1: "map_of t1 = (map_of t)(v \<mapsto> (case map_of t v of Some old \<Rightarrow> join old r | None \<Rightarrow> r))"
    using map_of_join_entry [of t ch v r] 1 by simp
  have c1: "ch1 = (ch \<or> map_of t1 \<noteq> map_of t)" using join_entry_eq [of t ch v r] 1 by (simp add: Let_def)
  have ih: "map_of t' = joined_fact t1 inc" "ch' = (ch1 \<or> map_of t' \<noteq> map_of t1)"
    using Cons.IH [of t1 ch1] Cons.prems e 1 by simp_all
  have nv: "map_of inc v = None" using Cons.prems(1) e by (simp add: map_of_eq_None_iff)
  have jf: "map_of t' = joined_fact t (e # inc)"
    using nv by (auto simp: ih(1) fun_eq_iff joined_fact_def m1 e split: option.splits)
  have "map_of t' v = map_of t1 v" using nv by (simp add: ih(1) joined_fact_def split: option.splits)
  then have "(map_of t1 \<noteq> map_of t \<or> map_of t' \<noteq> map_of t1) = (map_of t' \<noteq> map_of t)"
    using m1 by (cases "map_of t1 v = map_of t v") (auto simp: fun_upd_idem)
  then show ?case using jf ih(2) c1 by blast
qed

section \<open>Induction variables\<close>

text \<open>The values an induction variable has at its loop header: an initial value, or the previous
  value plus the step when the header's comparison with the bound held.\<close>

inductive iv_value :: "i32 set \<Rightarrow> induction_direction \<Rightarrow> i32 \<Rightarrow> i32 \<Rightarrow> i32 \<Rightarrow> bool"
  for inits direction stp bound where
  iv_init: "x \<in> inits \<Longrightarrow> iv_value inits direction stp bound x"
| iv_forward: "iv_value inits direction stp bound x \<Longrightarrow> direction = Forward \<Longrightarrow> x <s bound \<Longrightarrow>
    iv_value inits direction stp bound (x + stp)"
| iv_backward: "iv_value inits direction stp bound x \<Longrightarrow> direction = Backward \<Longrightarrow> bound <s x \<Longrightarrow>
    iv_value inits direction stp bound (x + stp)"

lemma foldl_i32_min: "sint (foldl i32_min x xs) \<le> sint x \<and> (\<forall>y \<in> set xs. sint (foldl i32_min x xs) \<le> sint y)"
proof (induction xs arbitrary: x)
  case (Cons a xs)
  then show ?case using Cons [of "i32_min x a"] by auto
qed simp

lemma foldl_i32_max: "sint x \<le> sint (foldl i32_max x xs) \<and> (\<forall>y \<in> set xs. sint y \<le> sint (foldl i32_max x xs))"
proof (induction xs arbitrary: x)
  case (Cons a xs)
  then show ?case using Cons [of "i32_max x a"] by auto
qed simp

lemma iter_min_le: "iter_min xs = Some m \<Longrightarrow> y \<in> set xs \<Longrightarrow> sint m \<le> sint y"
  using foldl_i32_min by (cases xs) auto

lemma iter_max_ge: "iter_max xs = Some m \<Longrightarrow> y \<in> set xs \<Longrightarrow> sint y \<le> sint m"
  using foldl_i32_max by (cases xs) auto

lemma try_i32_Some: "try_i32 k = Some w \<Longrightarrow> sint w = k \<and> - (2 ^ 31) \<le> k \<and> k < 2 ^ 31"
  by (auto simp: try_i32_def sint_word_of_int_i32 split: if_splits)

lemma induction_cap_contains:
  assumes cap: "constant_induction_cap self vs direction stp bv = Some cap"
    and c: "constant_value self bv = Some bound" "collect_constants self vs = Some inits"
    and dir: "direction = Forward \<Longrightarrow> 0 <s stp" "direction = Backward \<Longrightarrow> stp <s 0"
    and "iv_value (set inits) direction stp bound x"
  shows "contains cap x"
proof -
  obtain lo hi where lh: "iter_min inits = Some lo" "iter_max inits = Some hi" using cap c
    by (auto simp: constant_induction_cap_def)
  show ?thesis
  proof (cases direction)
    case Forward
    then obtain t where t: "try_i32 (sint bound - 1 + sint stp) = Some t" "cap = bounded lo (i32_max hi t)"
      using cap c lh by (auto simp: constant_induction_cap_def)
    note t' = try_i32_Some [OF t(1)]
    have s: "0 < sint stp" using dir(1) Forward by (simp add: i32_order)
    show ?thesis using assms(6)
    proof (induction rule: iv_value.induct)
      case (iv_init x)
      then show ?case using iter_min_le [OF lh(1)] iter_max_ge [OF lh(2)] t by (simp add: le_max_iff_disj)
    next
      case (iv_forward x)
      then have "sint x < sint bound" "sint lo \<le> sint x" using t by (simp_all add: i32_order)
      moreover then have "sint (x + stp) = sint x + sint stp"
        using s t' sint_i32_lower [of x] by (intro sint_add_in_range) simp_all
      ultimately show ?case using t t' s by (simp add: le_max_iff_disj)
    qed (use Forward in simp)
  next
    case Backward
    then obtain t where t: "try_i32 (sint bound + 1 + sint stp) = Some t" "cap = bounded (i32_min lo t) hi"
      using cap c lh by (auto simp: constant_induction_cap_def)
    note t' = try_i32_Some [OF t(1)]
    have s: "sint stp < 0" using dir(2) Backward by (simp add: i32_order)
    show ?thesis using assms(6)
    proof (induction rule: iv_value.induct)
      case (iv_init x)
      then show ?case using iter_min_le [OF lh(1)] iter_max_ge [OF lh(2)] t by (simp add: min_le_iff_disj)
    next
      case (iv_backward x)
      then have "sint bound < sint x" "sint x \<le> sint hi" using t by (simp_all add: i32_order)
      moreover then have "sint (x + stp) = sint x + sint stp"
        using s t' sint_i32_upper [of x] by (intro sint_add_in_range) simp_all
      ultimately show ?case using t t' s by (simp add: min_le_iff_disj)
    qed (use Backward in simp)
  qed
qed

section \<open>Properties\<close>

text \<open>C18: take values that agree with the definitions of the function and lie in the ranges recorded for it, where no
  negative value is logically shifted right by a multiple of 32. Then evaluating a value against facts that hold
  returns, within the depth limit, a well-formed range that contains the value; so does the fresh evaluation
  of its definition, and so does the query of every context whose recorded facts hold.\<close>

theorem evaluation_sound:
  assumes "execution self is_int env" and "no_sign_keeping_shift self env" and "facts_hold is_int env (ranges self)"
  shows "(\<forall>facts. facts_hold is_int env facts \<longrightarrow>
      (\<exists>r. evaluate_contextual self v facts visiting depth = Some r \<and> range_wf r \<and> contains r (env v))) \<and>
    (\<exists>r. range_of_fresh self v = Some r \<and> range_wf r \<and> contains r (env v)) \<and>
    (\<forall>ctx. context_holds self is_int env ctx \<longrightarrow>
      (\<exists>r. range_in_context self v ctx = Some r \<and> range_wf r \<and> contains r (env v)))"
proof -
  have run: "sound_run self is_int env" using assms by (simp add: sound_run_def)
  show ?thesis using evaluate_contextual_sound [OF run] range_of_fresh_sound [OF run] range_in_context_sound [OF run] by blast
qed

text \<open>A two-instruction function: \<open>%0 = 7\<close>, \<open>%1 = %0 * %0\<close>, with \<open>%2 = %1 < %0\<close>.\<close>

definition demo_analysis :: range_analysis where
  "demo_analysis = \<lparr>definitions = [0 \<mapsto> Integer 7, 1 \<mapsto> Binary Mul 0 0, 2 \<mapsto> Binary Lt 1 0], ranges = [],
     block_entries = Map.empty, edge_states = Map.empty, before = Map.empty, loop_caps = Map.empty,
     loop_headers = {}, nonneg_preserving = {}, modmul_builtin = None, nonneg_params = {}\<rparr>"

definition demo_env :: "inst \<Rightarrow> i32" where
  "demo_env v = (if v = 0 then 7 else if v = 1 then 49 else 0)"

lemma demo_execution: "execution demo_analysis (\<lambda>v. True) demo_env"
  by (auto simp: execution_def def_holds_def demo_analysis_def demo_env_def binary_result_def of_bool_i32_def i32_order)

lemma demo_shifts: "no_sign_keeping_shift demo_analysis demo_env"
  by (auto simp: no_sign_keeping_shift_def shr_keeps_sign_def demo_analysis_def split: if_splits)

lemma demo_ranges: "facts_hold (\<lambda>v. True) demo_env (ranges demo_analysis)"
  by (simp add: facts_hold_def demo_analysis_def)

theorem evaluation_sound_witness:
  "(\<exists>r. evaluate_contextual demo_analysis 1 [(0, range_constant 7)] {} 0 = Some r \<and> contains r 49)
    \<and> (\<exists>r. range_in_context demo_analysis 1 (Before 2) = Some r \<and> contains r 49)"
proof -
  have "facts_hold (\<lambda>v. True) demo_env [(0, range_constant 7)]"
    by (simp add: facts_hold_def demo_env_def)
  moreover have "context_holds demo_analysis (\<lambda>v. True) demo_env (Before 2)" by (simp add: context_holds_def demo_analysis_def)
  moreover have "demo_env 1 = 49" by (simp add: demo_env_def)
  ultimately show ?thesis
    using evaluation_sound [OF demo_execution demo_shifts demo_ranges, of 1 "{}" 0] by metis
qed

text \<open>C19: take values as before, where again no negative value is logically shifted right by a multiple of 32. Refining
  facts that hold along a branch edge that is taken succeeds, and the facts it leaves hold; an edge the
  refinement rejects is never taken by such values.\<close>

theorem refine_edge_keeps_facts:
  assumes "execution self is_int env" and "no_sign_keeping_shift self env" and "facts_hold is_int env (ranges self)"
    and "facts_hold is_int env st"
    and "inst_is_i32 data = is_int"
    and "branch_cond data (terminator edge) = Some cond" and "is_int cond"
    and "arm edge = (if env cond \<noteq> 0 then TrueArm else FalseArm)"
  shows "\<exists>st'. refine_edge self data edge st = Some (True, st') \<and> facts_hold is_int env st'"
proof -
  have run: "sound_run self is_int env" using assms(1-3) by (simp add: sound_run_def)
  show ?thesis using assms(4-) by (intro refine_edge_sound [OF run]) (auto split: if_splits)
qed

theorem refine_edge_keeps_facts_witness:
  "\<exists>st'. refine_edge demo_analysis \<lparr>branch_cond = [3 \<mapsto> 2], inst_is_i32 = \<lambda>v. True\<rparr>
     \<lparr>from_block = 0, terminator = 3, arm = FalseArm\<rparr> [] = Some (True, st') \<and> facts_hold (\<lambda>v. True) demo_env st'"
proof -
  have "facts_hold (\<lambda>v. True) demo_env []" by (simp add: facts_hold_def)
  from refine_edge_keeps_facts [OF demo_execution demo_shifts demo_ranges this,
      of "\<lparr>branch_cond = [3 \<mapsto> 2], inst_is_i32 = \<lambda>v. True\<rparr>"
        "\<lparr>from_block = 0, terminator = 3, arm = FalseArm\<rparr>" 2]
  show ?thesis by (auto simp: demo_env_def)
qed

text \<open>joining a state into another gives each value the join of its two ranges (or the one it
  has), and the returned flag tells exactly whether the state changed, which is what requeues a
  block.\<close>

theorem join_state_exact:
  assumes "distinct (map fst incoming)" and "join_state target incoming = (target', changed)"
  shows "(\<forall>v. map_of target' v = (case (map_of target v, map_of incoming v) of
             (Some old, Some r) \<Rightarrow> Some (join old r)
           | (Some old, None) \<Rightarrow> Some old
           | (None, r) \<Rightarrow> r)) \<and>
    changed = (map_of target' \<noteq> map_of target)"
  using join_entries [OF assms(1) assms(2) [unfolded join_state_def]] by (simp add: joined_fact_def)

text \<open>C20: the cap computed for an induction variable with constant initial values, step and bound
  contains every value the variable has at the loop header, without wrap-around.\<close>

theorem induction_cap_sound:
  assumes "constant_induction_cap self vs direction stp bv = Some cap"
    and "constant_value self bv = Some bound" and "collect_constants self vs = Some inits"
    and "if direction = Forward then 0 <s stp else stp <s 0"
    and "iv_value (set inits) direction stp bound x"
  shows "contains cap x"
  using assms by (intro induction_cap_contains) (auto split: if_splits)

theorem induction_cap_sound_witness:
  "\<exists>cap. constant_induction_cap demo_analysis [0] Backward (- 2) 0 = Some cap \<and> contains cap 7"
proof -
  have cv: "constant_value demo_analysis 0 = Some 7" by (simp add: constant_value_def demo_analysis_def)
  have cap: "constant_induction_cap demo_analysis [0] Backward (- 2) 0 = Some (bounded 6 7)"
    by (simp add: constant_induction_cap_def cv try_i32_def i32_min_def i32_order)
  have "iv_value (set [7]) Backward (- 2) 7 7" by (rule iv_init) simp
  from induction_cap_sound [OF cap cv _ _ this] cap show ?thesis by (simp add: cv i32_order)
qed

text \<open>C21: take values as before, at a point whose recorded facts hold (the whole function, a block entry, a taken edge,
  or before an instruction, with or without recorded facts), where no negative value is logically shifted right by
  a multiple of 32. When the analysis reports that an addition, subtraction, multiplication or left shift cannot
  wrap there, the integer result of the operands is the 32-bit result.\<close>

theorem no_signed_wrap_sound:
  assumes "execution self is_int env" and "no_sign_keeping_shift self env" and "facts_hold is_int env (ranges self)"
    and "context_holds self is_int env ctx"
    and "proves_binary_no_signed_wrap self op lhs rhs ctx = Some True"
  shows "\<exists>r. fold_binary op (env lhs) (env rhs) = Some r \<and>
    exact_binary op (sint (env lhs)) (sint (env rhs)) = Some (sint r)"
proof -
  have run: "sound_run self is_int env" using assms(1-3) by (simp add: sound_run_def)
  obtain l where l: "range_in_context self lhs ctx = Some l" "contains l (env lhs)"
    using range_in_context_sound [OF run assms(4)] by blast
  obtain r where r: "range_in_context self rhs ctx = Some r" "contains r (env rhs)"
    using range_in_context_sound [OF run assms(4)] by blast
  obtain rng where "mathematical_binary op l r = Some rng"
    using assms(5) l r by (auto simp: proves_binary_no_signed_wrap_def split: if_splits)
  from mathematical_binary_exact [OF this l(2) r(2)] show ?thesis by blast
qed

text \<open>Before instruction 5 of the demonstration function, with the fact \<open>%1 = 49\<close> recorded there.\<close>

definition demo_before :: range_analysis where
  "demo_before = demo_analysis\<lparr>before := [5 \<mapsto> [(1, range_constant 49)]]\<rparr>"

theorem no_signed_wrap_sound_witness:
  "proves_binary_no_signed_wrap demo_before Mul 0 1 (Before 5) = Some True \<and>
   (\<exists>r. fold_binary Mul (demo_env 0) (demo_env 1) = Some r \<and>
     exact_binary Mul (sint (demo_env 0)) (sint (demo_env 1)) = Some (sint r))"
proof -
  have ex: "execution demo_before (\<lambda>v. True) demo_env" using demo_execution
    by (simp add: execution_def def_holds_def call_holds_def demo_before_def cong: option.case_cong value_def.case_cong)
  have sh: "no_sign_keeping_shift demo_before demo_env" using demo_shifts by (simp add: no_sign_keeping_shift_def demo_before_def)
  have rg: "facts_hold (\<lambda>v. True) demo_env (ranges demo_before)" using demo_ranges by (simp add: demo_before_def)
  have c: "context_holds demo_before (\<lambda>v. True) demo_env (Before 5)"
    by (simp add: context_holds_def demo_before_def facts_hold_def demo_env_def)
  have p: "proves_binary_no_signed_wrap demo_before Mul 0 1 (Before 5) = Some True"
    by (simp add: proves_binary_no_signed_wrap_def range_in_context_def evaluate_contextual.simps
      evaluate_def.simps demo_analysis_def demo_before_def CONTEXT_DEPTH_LIMIT_def range_constant_def
      mathematical_binary_def math_endpoints_def)
  from no_signed_wrap_sound [OF ex sh rg c p] p show ?thesis by blast
qed

end
