(* ===== verification/Reg_Encoding.thy ===== *)
theory Reg_Encoding
  imports Rust_Prelude
begin

unbundle bit_operations_syntax

text \<open>
  The packed register encodings of the register allocator
  (\<^verbatim>\<open>taki_mir/src/reg_alloc/reg.rs\<close>, \<^verbatim>\<open>taki_mir/src/register.rs\<close>): physical registers in eight bits,
  virtual registers and spill slots in thirty-two, allocations, program points, operands in
  sixty-four bits, and the \<open>Reg\<close> that holds any of a virtual register, a pinned physical register
  or a spill slot.
\<close>

section \<open>Register classes and physical registers\<close>

datatype reg_class = IntClass | FloatClass | VectorClass

fun class_code :: "reg_class \<Rightarrow> nat" where
  "class_code IntClass = 0" | "class_code FloatClass = 1" | "class_code VectorClass = 2"

definition class_of_code :: "nat \<Rightarrow> reg_class rust" where
  "class_of_code c = (if c = 0 then Some IntClass else if c = 1 then Some FloatClass
     else if c = 2 then Some VectorClass else None)"

datatype preg = PReg u8

fun preg_repr :: "preg \<Rightarrow> u8" where
  "preg_repr (PReg repr) = repr"

definition PREG_MAX_BITS :: usize where "PREG_MAX_BITS = 6"
definition PREG_MAX :: usize where "PREG_MAX = 63"
definition PREG_NUM_INDEX :: usize where "PREG_NUM_INDEX = 256"
definition PREG_INVALID :: u8 where
  "PREG_INVALID = push_bit PREG_MAX_BITS 0 OR word_of_nat (PREG_MAX - 1)"

definition preg_new :: "usize \<Rightarrow> reg_class \<Rightarrow> preg rust" where
  "preg_new hw_enc cls = do {
     rassert (hw_enc \<le> PREG_MAX);
     Some (PReg (push_bit PREG_MAX_BITS (word_of_nat (class_code cls)) OR word_of_nat hw_enc)) }"

definition preg_hw_enc :: "preg \<Rightarrow> usize" where
  "preg_hw_enc r = unat (preg_repr r AND mask 6)"

definition preg_class :: "preg \<Rightarrow> reg_class rust" where
  "preg_class r = class_of_code (unat (drop_bit PREG_MAX_BITS (preg_repr r) AND mask 2))"

definition preg_index :: "preg \<Rightarrow> usize" where
  "preg_index r = unat (preg_repr r)"

definition preg_from_index :: "usize \<Rightarrow> preg" where
  "preg_from_index index = PReg (word_of_nat (index mod PREG_NUM_INDEX))"

definition preg_invalid :: preg where
  "preg_invalid = PReg PREG_INVALID"

definition preg_as_valid :: "preg \<Rightarrow> preg option" where
  "preg_as_valid r = (if preg_repr r = PREG_INVALID then None else Some r)"

section \<open>Virtual registers and spill slots\<close>

datatype vreg = VReg u32

fun vreg_repr :: "vreg \<Rightarrow> u32" where
  "vreg_repr (VReg repr) = repr"

definition VREG_MAX :: usize where "VREG_MAX = 2 ^ 30 - 1"

definition vreg_new :: "usize \<Rightarrow> reg_class \<Rightarrow> vreg rust" where
  "vreg_new v cls = do {
     rassert (v \<le> VREG_MAX);
     Some (VReg (push_bit 2 (word_of_nat v) OR word_of_nat (class_code cls))) }"

definition vreg_vreg :: "vreg \<Rightarrow> usize" where
  "vreg_vreg r = unat (drop_bit 2 (vreg_repr r))"

definition vreg_class :: "vreg \<Rightarrow> reg_class rust" where
  "vreg_class r = class_of_code (unat (vreg_repr r AND mask 2))"

definition vreg_invalid :: "vreg rust" where
  "vreg_invalid = vreg_new VREG_MAX IntClass"

definition vreg_from_bits :: "u32 \<Rightarrow> vreg" where
  "vreg_from_bits repr = VReg repr"

datatype spill_slot = SpillSlot u32

fun spill_raw_bits :: "spill_slot \<Rightarrow> u32" where
  "spill_raw_bits (SpillSlot repr) = repr"

definition SPILL_MAX :: usize where "SPILL_MAX = 2 ^ 24 - 1"

definition spill_new :: "usize \<Rightarrow> spill_slot rust" where
  "spill_new index = do { rassert (index \<le> SPILL_MAX); Some (SpillSlot (word_of_nat index)) }"

definition spill_invalid :: spill_slot where
  "spill_invalid = SpillSlot (- 1)"

definition spill_is_invalid :: "spill_slot \<Rightarrow> bool" where
  "spill_is_invalid s = (s = spill_invalid)"

definition spill_is_valid :: "spill_slot \<Rightarrow> bool" where
  "spill_is_valid s = (s \<noteq> spill_invalid)"

section \<open>Allocations\<close>

datatype allocation_kind = KindNone | KindReg | KindStack

fun allocation_kind_code :: "allocation_kind \<Rightarrow> nat" where
  "allocation_kind_code KindNone = 0" | "allocation_kind_code KindReg = 1"
| "allocation_kind_code KindStack = 2"

datatype allocation = Allocation u32

fun allocation_bits :: "allocation \<Rightarrow> u32" where
  "allocation_bits (Allocation bits) = bits"

definition allocation_new :: "allocation_kind \<Rightarrow> usize \<Rightarrow> allocation rust" where
  "allocation_new kind index = do {
     rassert (index < 2 ^ 28);
     Some (Allocation (push_bit 29 (word_of_nat (allocation_kind_code kind)) OR word_of_nat index)) }"

definition allocation_none :: "allocation rust" where
  "allocation_none = allocation_new KindNone 0"

definition allocation_reg :: "preg \<Rightarrow> allocation rust" where
  "allocation_reg r = allocation_new KindReg (preg_index r)"

definition allocation_stack :: "spill_slot \<Rightarrow> allocation rust" where
  "allocation_stack s = allocation_new KindStack (unat (spill_raw_bits s))"

definition allocation_get_kind :: "allocation \<Rightarrow> allocation_kind rust" where
  "allocation_get_kind a =
    (let k = unat (drop_bit 29 (allocation_bits a) AND mask 3)
     in if k = 0 then Some KindNone else if k = 1 then Some KindReg
        else if k = 2 then Some KindStack else None)"

definition allocation_is_none :: "allocation \<Rightarrow> bool rust" where
  "allocation_is_none a = do { k \<leftarrow> allocation_get_kind a; Some (k = KindNone) }"

definition allocation_is_some :: "allocation \<Rightarrow> bool rust" where
  "allocation_is_some a = do { k \<leftarrow> allocation_get_kind a; Some (k \<noteq> KindNone) }"

definition allocation_is_reg :: "allocation \<Rightarrow> bool rust" where
  "allocation_is_reg a = do { k \<leftarrow> allocation_get_kind a; Some (k = KindReg) }"

definition allocation_is_stack :: "allocation \<Rightarrow> bool rust" where
  "allocation_is_stack a = do { k \<leftarrow> allocation_get_kind a; Some (k = KindStack) }"

definition allocation_index :: "allocation \<Rightarrow> usize" where
  "allocation_index a = unat (allocation_bits a AND mask 28)"

definition allocation_as_reg :: "allocation \<Rightarrow> preg option rust" where
  "allocation_as_reg a = do {
     k \<leftarrow> allocation_get_kind a;
     Some (if k = KindReg then Some (preg_from_index (allocation_index a)) else None) }"

definition allocation_as_stack :: "allocation \<Rightarrow> spill_slot option rust" where
  "allocation_as_stack a = do {
     k \<leftarrow> allocation_get_kind a;
     if k = KindStack then do { s \<leftarrow> spill_new (allocation_index a); Some (Some s) }
     else Some None }"

definition allocation_from_bits :: "u32 \<Rightarrow> allocation rust" where
  "allocation_from_bits bits = do { rassert (5 \<le> drop_bit 29 bits); Some (Allocation bits) }"

section \<open>Program points\<close>

datatype inst_position = BeforePos | AfterPos

fun inst_position_code :: "inst_position \<Rightarrow> u32" where
  "inst_position_code BeforePos = 0" | "inst_position_code AfterPos = 1"

datatype prog_point = ProgPoint u32

fun point_bits :: "prog_point \<Rightarrow> u32" where
  "point_bits (ProgPoint bits) = bits"

definition point_new :: "u32 \<Rightarrow> inst_position \<Rightarrow> prog_point" where
  "point_new i pos = ProgPoint (push_bit 1 i OR inst_position_code pos)"

definition point_before :: "u32 \<Rightarrow> prog_point" where
  "point_before i = point_new i BeforePos"

definition point_after :: "u32 \<Rightarrow> prog_point" where
  "point_after i = point_new i AfterPos"

definition point_inst :: "prog_point \<Rightarrow> u32" where
  "point_inst p = drop_bit 1 (point_bits p)"

definition point_pos :: "prog_point \<Rightarrow> inst_position" where
  "point_pos p = (if point_bits p AND 1 = 0 then BeforePos else AfterPos)"

definition point_next :: "prog_point \<Rightarrow> prog_point rust" where
  "point_next p = do { b \<leftarrow> u32_add (point_bits p) 1; Some (ProgPoint b) }"

definition point_prev :: "prog_point \<Rightarrow> prog_point rust" where
  "point_prev p = do { b \<leftarrow> u32_sub (point_bits p) 1; Some (ProgPoint b) }"

definition point_invalid :: prog_point where
  "point_invalid = point_before (- 1)"

text \<open>The derived order of \<open>ProgPoint\<close> compares the packed bits.\<close>

instantiation prog_point :: linorder
begin

definition less_eq_prog_point :: "prog_point \<Rightarrow> prog_point \<Rightarrow> bool" where
  "less_eq_prog_point p q = (point_bits p \<le> point_bits q)"

definition less_prog_point :: "prog_point \<Rightarrow> prog_point \<Rightarrow> bool" where
  "less_prog_point p q = (point_bits p < point_bits q)"

instance
proof
  fix x y z :: prog_point
  show "(x < y) = (x \<le> y \<and> \<not> y \<le> x)" "x \<le> x" "x \<le> y \<or> y \<le> x"
    by (auto simp: less_eq_prog_point_def less_prog_point_def)
  show "x \<le> y \<Longrightarrow> y \<le> z \<Longrightarrow> x \<le> z" by (simp add: less_eq_prog_point_def)
  show "x \<le> y \<Longrightarrow> y \<le> x \<Longrightarrow> x = y" by (cases x; cases y) (simp add: less_eq_prog_point_def)
qed

end

section \<open>Operands\<close>

datatype operand_constraint = AnyLoc | RegLoc | StackLoc | FixedReg preg | Reuse usize | Limit usize
datatype operand_kind = Def | Use
datatype operand_pos = Early | Late

fun operand_kind_code :: "operand_kind \<Rightarrow> u64" where
  "operand_kind_code Def = 0" | "operand_kind_code Use = 1"

fun operand_pos_code :: "operand_pos \<Rightarrow> u64" where
  "operand_pos_code Early = 0" | "operand_pos_code Late = 1"

datatype operand = Operand u64

fun operand_bits :: "operand \<Rightarrow> u64" where
  "operand_bits (Operand bits) = bits"

definition CLASS_SHIFT :: nat where "CLASS_SHIFT = 32"
definition POS_SHIFT :: nat where "POS_SHIFT = 34"
definition KIND_SHIFT :: nat where "KIND_SHIFT = 35"
definition CONSTRAINT_SHIFT :: nat where "CONSTRAINT_SHIFT = 36"
definition TOTAL_BITS :: nat where "TOTAL_BITS = 43"

fun constraint_field :: "vreg \<Rightarrow> operand_constraint \<Rightarrow> u64 rust" where
  "constraint_field v AnyLoc = Some 0"
| "constraint_field v RegLoc = Some 1"
| "constraint_field v StackLoc = Some 2"
| "constraint_field v (FixedReg r) = do {
     pc \<leftarrow> preg_class r; vc \<leftarrow> vreg_class v;
     rassert (pc = vc);
     Some (0b1000000 OR word_of_nat (preg_hw_enc r)) }"
| "constraint_field v (Reuse which) = do {
     rassert (which \<le> 0b11111);
     Some (0b0100000 OR word_of_nat which) }"
| "constraint_field v (Limit mx) = do {
     rassert (usize_is_power_of_two mx);
     rassert (mx \<le> PREG_MAX + 1);
     rassert (usize_ilog2 mx \<le> 0b1111);
     Some (0b0010000 OR word_of_nat (usize_ilog2 mx)) }"

definition operand_new ::
  "vreg \<Rightarrow> operand_constraint \<Rightarrow> operand_kind \<Rightarrow> operand_pos \<Rightarrow> operand rust" where
  "operand_new v constraint kind pos = do {
     field \<leftarrow> constraint_field v constraint;
     cls \<leftarrow> vreg_class v;
     Some (Operand (word_of_nat (vreg_vreg v)
       OR push_bit CLASS_SHIFT (word_of_nat (class_code cls))
       OR push_bit POS_SHIFT (operand_pos_code pos)
       OR push_bit KIND_SHIFT (operand_kind_code kind)
       OR push_bit CONSTRAINT_SHIFT field)) }"

definition operand_reg_use :: "vreg \<Rightarrow> operand rust" where
  "operand_reg_use v = operand_new v RegLoc Use Early"

definition operand_reg_use_at_end :: "vreg \<Rightarrow> operand rust" where
  "operand_reg_use_at_end v = operand_new v RegLoc Use Late"

definition operand_reg_def :: "vreg \<Rightarrow> operand rust" where
  "operand_reg_def v = operand_new v RegLoc Def Late"

definition operand_reg_def_at_start :: "vreg \<Rightarrow> operand rust" where
  "operand_reg_def_at_start v = operand_new v RegLoc Def Early"

definition operand_reg_temp :: "vreg \<Rightarrow> operand rust" where
  "operand_reg_temp v = operand_new v RegLoc Def Early"

definition operand_reg_reuse_def :: "vreg \<Rightarrow> usize \<Rightarrow> operand rust" where
  "operand_reg_reuse_def v idx = operand_new v (Reuse idx) Def Late"

definition operand_reg_fixed_use :: "vreg \<Rightarrow> preg \<Rightarrow> operand rust" where
  "operand_reg_fixed_use v r = operand_new v (FixedReg r) Use Early"

definition operand_reg_fixed_def :: "vreg \<Rightarrow> preg \<Rightarrow> operand rust" where
  "operand_reg_fixed_def v r = operand_new v (FixedReg r) Def Late"

definition operand_reg_fixed_use_at_end :: "vreg \<Rightarrow> preg \<Rightarrow> operand rust" where
  "operand_reg_fixed_use_at_end v r = operand_new v (FixedReg r) Use Late"

definition operand_reg_fixed_def_at_start :: "vreg \<Rightarrow> preg \<Rightarrow> operand rust" where
  "operand_reg_fixed_def_at_start v r = operand_new v (FixedReg r) Def Early"

definition operand_any_use :: "vreg \<Rightarrow> operand rust" where
  "operand_any_use v = operand_new v AnyLoc Use Early"

definition operand_any_def :: "vreg \<Rightarrow> operand rust" where
  "operand_any_def v = operand_new v AnyLoc Def Late"

definition operand_fixed_nonallocatable :: "preg \<Rightarrow> operand rust" where
  "operand_fixed_nonallocatable r = do {
     cls \<leftarrow> preg_class r;
     v \<leftarrow> vreg_new VREG_MAX cls;
     operand_new v (FixedReg r) Use Early }"

definition operand_class :: "operand \<Rightarrow> reg_class rust" where
  "operand_class op = class_of_code (unat (drop_bit CLASS_SHIFT (operand_bits op) AND mask 2))"

definition operand_vreg :: "operand \<Rightarrow> vreg rust" where
  "operand_vreg op = do {
     cls \<leftarrow> operand_class op;
     vreg_new (unat (operand_bits op AND mask 32)) cls }"

definition operand_get_kind :: "operand \<Rightarrow> operand_kind" where
  "operand_get_kind op = (if drop_bit KIND_SHIFT (operand_bits op) AND mask 1 = 0 then Def else Use)"

definition operand_get_pos :: "operand \<Rightarrow> operand_pos" where
  "operand_get_pos op = (if drop_bit POS_SHIFT (operand_bits op) AND mask 1 = 0 then Early else Late)"

definition operand_get_constraint :: "operand \<Rightarrow> operand_constraint rust" where
  "operand_get_constraint op =
    (let field = drop_bit CONSTRAINT_SHIFT (operand_bits op) AND mask 7 in
     if field AND 0b1000000 \<noteq> 0 then do {
       cls \<leftarrow> operand_class op;
       r \<leftarrow> preg_new (unat (field AND 0b0111111)) cls;
       Some (FixedReg r) }
     else if field AND 0b0100000 \<noteq> 0 then Some (Reuse (unat (field AND 0b0011111)))
     else if field AND 0b0010000 \<noteq> 0 then Some (Limit (2 ^ unat (field AND 0b0001111)))
     else if field = 0 then Some AnyLoc
     else if field = 1 then Some RegLoc
     else if field = 2 then Some StackLoc
     else None)"

definition operand_as_fixed_nonallocatable :: "operand \<Rightarrow> preg option rust" where
  "operand_as_fixed_nonallocatable op = do {
     c \<leftarrow> operand_get_constraint op;
     (case c of
        FixedReg r \<Rightarrow> do {
          v \<leftarrow> operand_vreg op;
          Some (if vreg_vreg v = VREG_MAX then Some r else None) }
      | _ \<Rightarrow> Some None) }"

definition operand_from_bits :: "u64 \<Rightarrow> operand rust" where
  "operand_from_bits bits = do { rassert (drop_bit TOTAL_BITS bits = 0); Some (Operand bits) }"

section \<open>Registers named by instructions\<close>

definition PINNED_PREG :: usize where "PINNED_PREG = 192"

definition pinned_vreg_to_preg :: "vreg \<Rightarrow> preg option" where
  "pinned_vreg_to_preg v = (if vreg_vreg v < PINNED_PREG then Some (preg_from_index (vreg_vreg v)) else None)"

definition preg_to_pinned_vreg :: "preg \<Rightarrow> vreg rust" where
  "preg_to_pinned_vreg r = do { cls \<leftarrow> preg_class r; vreg_new (preg_index r) cls }"

datatype reg = Reg u32

fun reg_bits :: "reg \<Rightarrow> u32" where
  "reg_bits (Reg bits) = bits"

definition SPILLSLOT_BIT :: u32 where "SPILLSLOT_BIT = 0x80000000"
definition SPILLSLOT_MASK :: u32 where "SPILLSLOT_MASK = NOT SPILLSLOT_BIT"

definition reg_from_virtual_reg :: "vreg \<Rightarrow> reg rust" where
  "reg_from_virtual_reg v = do { rassert (vreg_repr v < SPILLSLOT_MASK); Some (Reg (vreg_repr v)) }"

definition reg_from_physical_reg :: "preg \<Rightarrow> reg rust" where
  "reg_from_physical_reg r = do {
     v \<leftarrow> preg_to_pinned_vreg r;
     rassert (vreg_repr v < SPILLSLOT_MASK);
     Some (Reg (vreg_repr v)) }"

definition reg_from_spillslot :: "spill_slot \<Rightarrow> reg" where
  "reg_from_spillslot s = Reg (spill_raw_bits s OR SPILLSLOT_BIT)"

definition reg_to_spillslot :: "reg \<Rightarrow> spill_slot option rust" where
  "reg_to_spillslot r =
    (if reg_bits r AND SPILLSLOT_BIT \<noteq> 0
     then do { s \<leftarrow> spill_new (unat (reg_bits r AND SPILLSLOT_MASK)); Some (Some s) }
     else Some None)"

definition reg_to_physical_reg :: "reg \<Rightarrow> preg option" where
  "reg_to_physical_reg r = pinned_vreg_to_preg (vreg_from_bits (reg_bits r))"

definition reg_to_virtual_reg :: "reg \<Rightarrow> vreg option rust" where
  "reg_to_virtual_reg r = do {
     s \<leftarrow> reg_to_spillslot r;
     Some (if s \<noteq> None then None
           else if pinned_vreg_to_preg (vreg_from_bits (reg_bits r)) = None
           then Some (vreg_from_bits (reg_bits r)) else None) }"

definition reg_class_of :: "reg \<Rightarrow> reg_class rust" where
  "reg_class_of r = do {
     s \<leftarrow> reg_to_spillslot r;
     rassert (s = None);
     vreg_class (vreg_from_bits (reg_bits r)) }"

definition reg_is_real :: "reg \<Rightarrow> bool" where
  "reg_is_real r = (reg_to_physical_reg r \<noteq> None)"

definition reg_is_virtual :: "reg \<Rightarrow> bool rust" where
  "reg_is_virtual r = do { v \<leftarrow> reg_to_virtual_reg r; Some (v \<noteq> None) }"

definition reg_is_spillslot :: "reg \<Rightarrow> bool rust" where
  "reg_is_spillslot r = do { s \<leftarrow> reg_to_spillslot r; Some (s \<noteq> None) }"

section \<open>Round trips\<close>

lemma class_code_lt: "class_code c < 4"
  by (cases c) simp_all

lemma class_of_code_code [simp]: "class_of_code (class_code c) = Some c"
  by (cases c) (simp_all add: class_of_code_def)

lemma class_of_code_Some: "(class_of_code k = Some c) = (k = class_code c)"
  by (cases c) (auto simp: class_of_code_def split: if_splits)

lemma unat_class_word:
  "2 \<le> LENGTH('a) \<Longrightarrow> unat (word_of_nat (class_code c) :: 'a::len word) = class_code c"
  by (rule unat_of_nat_lt)
     (use class_code_lt [of c] power_increasing [of 2 "LENGTH('a)" "2 :: nat"] in \<open>simp add: order_less_le_trans\<close>)

lemma preg_new_Some:
  "(preg_new hw c = Some r) =
     (hw \<le> 63 \<and> r = PReg (push_bit 6 (word_of_nat (class_code c)) OR word_of_nat hw))"
  by (auto simp: preg_new_def PREG_MAX_def PREG_MAX_BITS_def)

lemma preg_decode:
  assumes "preg_new hw c = Some r"
  shows "preg_hw_enc r = hw" "preg_class r = Some c"
proof -
  have hw: "hw \<le> 63" and r: "r = PReg (push_bit 6 (word_of_nat (class_code c)) OR word_of_nat hw)"
    using assms by (simp_all add: preg_new_Some)
  have u: "unat (word_of_nat hw :: u8) = hw" using hw by (simp add: unat_of_nat_lt)
  have f: "fits 6 (word_of_nat hw :: u8)" "fits 2 (word_of_nat (class_code c) :: u8)"
    using hw class_code_lt [of c] by (simp_all add: fits_unat u unat_class_word)
  show "preg_hw_enc r = hw" using f u by (simp add: r preg_hw_enc_def low_field)
  have "drop_bit 6 (preg_repr r) = word_of_nat (class_code c)"
    unfolding r preg_repr.simps by (rule high_field [OF f(1) _ f(2)]) simp
  then show "preg_class r = Some c" using f
    by (simp add: preg_class_def PREG_MAX_BITS_def unat_class_word fits_def flip: take_bit_eq_mask)
qed

lemma preg_encode:
  assumes "preg_class r = Some c"
  shows "preg_new (preg_hw_enc r) c = Some r"
proof -
  let ?w = "preg_repr r"
  have "unat (?w AND mask 6) < 2 ^ 6" by (simp add: unat_and_mask)
  moreover have "word_of_nat (class_code c) = drop_bit 6 ?w AND mask 2"
    using assms by (simp add: preg_class_def class_of_code_Some PREG_MAX_BITS_def word_unat_eq_iff unat_class_word)
  moreover have "push_bit 6 (drop_bit 6 ?w AND mask 2) OR (?w AND mask 6) = ?w"
    by (rule bit_eqI) (auto simp: bit_simps)
  ultimately show ?thesis by (cases r) (simp add: preg_new_Some preg_hw_enc_def)
qed

lemma preg_index_roundtrip [simp]: "preg_from_index (preg_index r) = r"
proof (cases r)
  case (PReg w)
  have "unat w < 256" using unat_lt [of w] by simp
  then show ?thesis using PReg by (simp add: preg_from_index_def preg_index_def PREG_NUM_INDEX_def)
qed

lemma preg_index_from: "i < 256 \<Longrightarrow> preg_index (preg_from_index i) = i"
  by (simp add: preg_from_index_def preg_index_def PREG_NUM_INDEX_def unat_of_nat_lt)

lemma preg_index_class:
  assumes "preg_class r = Some c"
  shows "preg_index r = 64 * class_code c + preg_hw_enc r" "preg_index r < 192"
proof -
  let ?w = "preg_repr r"
  have "unat (drop_bit 6 ?w AND mask 2) = class_code c"
    using assms by (simp add: preg_class_def class_of_code_Some PREG_MAX_BITS_def)
  moreover have "unat (drop_bit 6 ?w AND mask 2) = unat ?w div 64"
    using unat_lt [of ?w] by (simp add: unat_and_mask unat_drop_bit)
  moreover have m: "preg_hw_enc r = unat ?w mod 64" by (simp add: preg_hw_enc_def unat_and_mask)
  ultimately show "preg_index r = 64 * class_code c + preg_hw_enc r"
    using div_mult_mod_eq [of "unat ?w" 64] by (simp add: preg_index_def)
  then show "preg_index r < 192" using m by (cases c) simp_all
qed

lemma vreg_decode:
  assumes "vreg_new v c = Some r"
  shows "vreg_vreg r = v" "vreg_class r = Some c"
proof -
  have v: "v < 2 ^ 30" and r: "r = VReg (push_bit 2 (word_of_nat v) OR word_of_nat (class_code c))"
    using assms by (auto simp: vreg_new_def VREG_MAX_def)
  have u: "unat (word_of_nat v :: u32) = v" using v by (simp add: unat_of_nat_lt)
  have f: "fits 30 (word_of_nat v :: u32)" "fits 2 (word_of_nat (class_code c) :: u32)"
    using v class_code_lt [of c] by (simp_all add: fits_unat u unat_class_word)
  have "drop_bit 2 (vreg_repr r) = word_of_nat v"
    unfolding r vreg_repr.simps by (rule high_field [OF f(2) _ f(1)]) simp
  then show "vreg_vreg r = v" using u by (simp add: vreg_vreg_def)
  show "vreg_class r = Some c" using f by (simp add: r vreg_class_def low_field unat_class_word)
qed

lemma vreg_encode:
  assumes "vreg_class r = Some c"
  shows "vreg_new (vreg_vreg r) c = Some r"
proof -
  let ?w = "vreg_repr r"
  have "unat (drop_bit 2 ?w) < 2 ^ 30"
    using unat_lt [of ?w] by (simp add: unat_drop_bit)
  moreover have "word_of_nat (class_code c) = ?w AND mask 2"
    using assms by (simp add: vreg_class_def class_of_code_Some word_unat_eq_iff unat_class_word)
  moreover have "push_bit 2 (drop_bit 2 ?w) OR (?w AND mask 2) = ?w"
    by (rule join_fields)
  ultimately show ?thesis by (cases r) (simp add: vreg_new_def VREG_MAX_def vreg_vreg_def)
qed

lemma vreg_vreg_lt: "vreg_vreg v < 2 ^ 30"
  using unat_lt [of "vreg_repr v"] by (simp add: vreg_vreg_def unat_drop_bit)

subsection \<open>Allocations, program points and registers\<close>

lemma allocation_decode:
  assumes "allocation_new kind i = Some a"
  shows "allocation_get_kind a = Some kind" "allocation_index a = i"
proof -
  have i: "i < 2 ^ 28" and a: "a = Allocation (push_bit 29 (word_of_nat (allocation_kind_code kind)) OR word_of_nat i)"
    using assms by (auto simp: allocation_new_def)
  have u: "unat (word_of_nat i :: u32) = i" using i by (simp add: unat_of_nat_lt)
  have uk: "unat (word_of_nat (allocation_kind_code kind) :: u32) = allocation_kind_code kind"
    by (cases kind) simp_all
  have f: "fits 28 (word_of_nat i :: u32)" "fits 29 (word_of_nat i :: u32)" "fits 3 (word_of_nat (allocation_kind_code kind) :: u32)"
    using i uk by (simp_all add: fits_unat u) (cases kind; simp)
  have "drop_bit 29 (allocation_bits a) = word_of_nat (allocation_kind_code kind)"
    unfolding a allocation_bits.simps by (rule high_field [OF f(2) _ f(3)]) simp
  then show "allocation_get_kind a = Some kind" using uk
    by (cases kind) (simp_all add: allocation_get_kind_def Let_def unat_and_mask)
  have "allocation_bits a AND mask 28 = word_of_nat i"
    unfolding a allocation_bits.simps
    by (rule bit_eqI) (use f in \<open>auto simp: bit_simps dest: fits_bit\<close>)
  then show "allocation_index a = i" using u by (simp add: allocation_index_def)
qed

lemma allocation_reg_decode:
  "\<exists>a. allocation_reg r = Some a \<and> allocation_as_reg a = Some (Some r) \<and> allocation_as_stack a = Some None"
proof -
  have "preg_index r < 2 ^ 28" using unat_lt [of "preg_repr r"] by (simp add: preg_index_def)
  then obtain a where a: "allocation_new KindReg (preg_index r) = Some a" by (simp add: allocation_new_def)
  then show ?thesis using allocation_decode [OF a]
    by (simp add: allocation_reg_def allocation_as_reg_def allocation_as_stack_def)
qed

lemma allocation_stack_decode:
  assumes "spill_new i = Some s"
  shows "\<exists>a. allocation_stack s = Some a \<and> allocation_as_stack a = Some (Some s) \<and> allocation_as_reg a = Some None"
proof -
  have i: "i \<le> SPILL_MAX" and s: "s = SpillSlot (word_of_nat i)" using assms by (auto simp: spill_new_def)
  have u: "unat (word_of_nat i :: u32) = i" using i by (simp add: unat_of_nat_lt SPILL_MAX_def)
  then obtain a where a: "allocation_new KindStack i = Some a" using i by (auto simp: allocation_new_def SPILL_MAX_def)
  then show ?thesis using allocation_decode [OF a] u s i
    by (simp add: allocation_stack_def allocation_as_reg_def allocation_as_stack_def spill_new_def)
qed

lemma point_unat:
  assumes "unat i < 2 ^ 31"
  shows "unat (point_bits (point_before i)) = 2 * unat i" "unat (point_bits (point_after i)) = 2 * unat i + 1"
proof -
  have "unat (push_bit 1 i) = 2 * unat i" using assms by (simp add: push_bit_eq_mult unat_word_ariths)
  then show "unat (point_bits (point_before i)) = 2 * unat i" by (simp add: point_before_def point_new_def)
  have "push_bit 1 i OR 1 = push_bit 1 i + 1"
    by (simp add: or_one_eq)
  then show "unat (point_bits (point_after i)) = 2 * unat i + 1"
    using assms \<open>unat (push_bit 1 i) = 2 * unat i\<close>
    by (simp add: point_after_def point_new_def unat_word_ariths)
qed

lemma point_decode:
  assumes "unat i < 2 ^ 31"
  shows "point_inst (point_new i pos) = i" "point_pos (point_new i pos) = pos"
proof -
  have f: "fits 1 (inst_position_code pos)" "fits 31 i" using assms by (cases pos; simp add: fits_unat)+
  show "point_inst (point_new i pos) = i" unfolding point_inst_def point_new_def point_bits.simps
    by (rule high_field [OF f(1) _ f(2)]) simp
  have "(push_bit 1 i OR inst_position_code pos) AND mask 1 = inst_position_code pos" by (rule low_field [OF f(1)])
  then show "point_pos (point_new i pos) = pos" by (cases pos) (simp_all add: point_pos_def point_new_def)
qed

lemma prog_point_le: "(p \<le> q) = (unat (point_bits p) \<le> unat (point_bits q))"
  by (simp add: less_eq_prog_point_def word_le_nat_alt)

lemma prog_point_less: "(p < q) = (unat (point_bits p) < unat (point_bits q))"
  by (simp add: less_prog_point_def word_less_nat_alt)

lemma bit_SPILLSLOT_BIT: "bit SPILLSLOT_BIT n = (n = 31)"
proof -
  have e: "SPILLSLOT_BIT = 2 ^ 31" by (simp add: SPILLSLOT_BIT_def)
  show ?thesis unfolding e bit_exp_iff by auto
qed

lemma SPILLSLOT_MASK_eq: "SPILLSLOT_MASK = mask 31"
  by (simp add: SPILLSLOT_BIT_def SPILLSLOT_MASK_def mask_eq_exp_minus_1)

lemma reg_not_spill:
  assumes "reg_bits r < SPILLSLOT_BIT"
  shows "reg_bits r AND SPILLSLOT_BIT = 0"
proof -
  have "fits 31 (reg_bits r)" using assms by (simp add: fits_unat word_less_nat_alt SPILLSLOT_BIT_def)
  then show ?thesis by (intro bit_eqI) (auto simp: bit_and_iff bit_SPILLSLOT_BIT dest: fits_bit)
qed

lemma vreg_repr_unat: "vreg_new v c = Some r \<Longrightarrow> unat (vreg_repr r) = 4 * v + class_code c"
proof -
  assume n: "vreg_new v c = Some r"
  have "unat (vreg_repr r) div 4 = v" using vreg_decode(1) [OF n] by (simp add: vreg_vreg_def unat_drop_bit)
  moreover have "unat (vreg_repr r) mod 4 = class_code c"
    using vreg_decode(2) [OF n] by (simp add: vreg_class_def class_of_code_Some unat_and_mask)
  ultimately show ?thesis using div_mult_mod_eq [of "unat (vreg_repr r)" 4] by simp
qed

lemma reg_physical_decode:
  assumes "preg_class p = Some c"
  shows "\<exists>r. reg_from_physical_reg p = Some r \<and> reg_to_physical_reg r = Some p \<and>
    reg_to_virtual_reg r = Some None \<and> reg_to_spillslot r = Some None \<and> reg_class_of r = Some c"
proof -
  have lt: "preg_index p < 192" by (rule preg_index_class [OF assms])
  then obtain v where v: "vreg_new (preg_index p) c = Some v" by (simp add: vreg_new_def VREG_MAX_def)
  have u: "unat (vreg_repr v) < 800" using vreg_repr_unat [OF v] lt class_code_lt [of c] by simp
  then have b: "vreg_repr v < SPILLSLOT_BIT" "vreg_repr v < SPILLSLOT_MASK"
    by (simp_all add: word_less_nat_alt SPILLSLOT_BIT_def SPILLSLOT_MASK_def)
  have pv: "pinned_vreg_to_preg v = Some p" using vreg_decode(1) [OF v] lt by (simp add: pinned_vreg_to_preg_def PINNED_PREG_def)
  have "VReg (vreg_repr v) = v" by (cases v) simp
  then show ?thesis
    using v b pv assms vreg_decode(2) [OF v] reg_not_spill [of "Reg (vreg_repr v)"]
    by (simp add: reg_from_physical_reg_def preg_to_pinned_vreg_def reg_to_physical_reg_def vreg_from_bits_def
      reg_to_virtual_reg_def reg_to_spillslot_def reg_class_of_def)
qed

lemma reg_virtual_decode:
  assumes "vreg_new i c = Some v" "PINNED_PREG \<le> i" "i < 2 ^ 29 - 1"
  shows "\<exists>r. reg_from_virtual_reg v = Some r \<and> reg_to_virtual_reg r = Some (Some v) \<and>
    reg_to_physical_reg r = None \<and> reg_to_spillslot r = Some None \<and> reg_class_of r = Some c"
proof -
  have "unat (vreg_repr v) < 2 ^ 31 - 1" using vreg_repr_unat [OF assms(1)] assms(3) class_code_lt [of c] by simp
  then have b: "vreg_repr v < SPILLSLOT_BIT" "vreg_repr v < SPILLSLOT_MASK"
    by (simp_all add: word_less_nat_alt SPILLSLOT_BIT_def SPILLSLOT_MASK_def)
  have pv: "pinned_vreg_to_preg v = None" using vreg_decode(1) [OF assms(1)] assms(2) by (simp add: pinned_vreg_to_preg_def)
  have "VReg (vreg_repr v) = v" by (cases v) simp
  then show ?thesis
    using b pv vreg_decode(2) [OF assms(1)] reg_not_spill [of "Reg (vreg_repr v)"]
    by (simp add: reg_from_virtual_reg_def reg_to_physical_reg_def vreg_from_bits_def
      reg_to_virtual_reg_def reg_to_spillslot_def reg_class_of_def)
qed

lemma reg_spill_decode:
  assumes "spill_new i = Some s"
  shows "reg_to_spillslot (reg_from_spillslot s) = Some (Some s) \<and>
    reg_to_virtual_reg (reg_from_spillslot s) = Some None \<and> reg_to_physical_reg (reg_from_spillslot s) = None"
proof -
  have i: "i \<le> SPILL_MAX" and s: "s = SpillSlot (word_of_nat i)" using assms by (auto simp: spill_new_def)
  have u: "unat (word_of_nat i :: u32) = i" using i by (simp add: unat_of_nat_lt SPILL_MAX_def)
  have f: "fits 24 (word_of_nat i :: u32)" using i u by (simp add: fits_unat SPILL_MAX_def)
  let ?w = "reg_bits (reg_from_spillslot s)"
  have w: "?w AND SPILLSLOT_BIT = SPILLSLOT_BIT"
    by (rule bit_eqI) (auto simp: reg_from_spillslot_def bit_SPILLSLOT_BIT bit_and_iff bit_or_iff)
  have m: "?w AND SPILLSLOT_MASK = word_of_nat i"
    by (rule bit_eqI) (use f in \<open>auto simp: reg_from_spillslot_def s bit_SPILLSLOT_BIT bit_and_iff bit_or_iff
      SPILLSLOT_MASK_eq bit_mask_iff dest: fits_bit\<close>)
  have "bit (drop_bit 2 ?w) 29" by (simp add: reg_from_spillslot_def bit_drop_bit_eq bit_or_iff bit_SPILLSLOT_BIT)
  then have "\<not> fits 29 (drop_bit 2 ?w)" using fits_bit by blast
  then have "\<not> vreg_vreg (VReg ?w) < PINNED_PREG" by (simp add: fits_unat vreg_vreg_def PINNED_PREG_def)
  then show ?thesis using w m u i s
    by (simp add: reg_to_spillslot_def reg_to_virtual_reg_def reg_to_physical_reg_def pinned_vreg_to_preg_def
      vreg_from_bits_def spill_new_def SPILLSLOT_BIT_def)
qed

subsection \<open>Operands\<close>

lemma limit_log: "usize_is_power_of_two mx \<Longrightarrow> mx \<le> 64 \<Longrightarrow> usize_ilog2 mx \<le> 6 \<and> mx = 2 ^ usize_ilog2 mx"
proof -
  assume p: "usize_is_power_of_two mx" and l: "mx \<le> 64"
  then have "(2 :: nat) ^ usize_ilog2 mx \<le> 2 ^ 6" by (simp add: usize_is_power_of_two_def)
  then have "usize_ilog2 mx \<le> 6" by (simp only: power_increasing_iff)
  then show ?thesis using p by (simp add: usize_is_power_of_two_def)
qed

text \<open>The five fields of an operand occupy disjoint bits.\<close>

lemma operand_fields:
  fixes v c p k f :: u64
  assumes "fits 30 v" "fits 2 c" "fits 1 p" "fits 1 k" "fits 7 f"
  defines "w \<equiv> v OR push_bit 32 c OR push_bit 34 p OR push_bit 35 k OR push_bit 36 f"
  shows "w AND mask 32 = v" "drop_bit 32 w AND mask 2 = c" "drop_bit 34 w AND mask 1 = p"
    "drop_bit 35 w AND mask 1 = k" "drop_bit 36 w AND mask 7 = f" "drop_bit 43 w = 0"
proof -
  note b = fits_bit [OF assms(1)] fits_bit [OF assms(2)] fits_bit [OF assms(3)] fits_bit [OF assms(4)] fits_bit [OF assms(5)]
  show "w AND mask 32 = v" unfolding w_def by (rule bit_eqI) (auto simp: bit_simps dest: b)
  show "drop_bit 32 w AND mask 2 = c" unfolding w_def by (rule bit_eqI) (auto simp: bit_simps dest: b)
  show "drop_bit 34 w AND mask 1 = p" unfolding w_def by (rule bit_eqI) (auto simp: bit_simps dest: b)
  show "drop_bit 35 w AND mask 1 = k" unfolding w_def by (rule bit_eqI) (auto simp: bit_simps dest: b)
  show "drop_bit 36 w AND mask 7 = f" unfolding w_def by (rule bit_eqI) (auto simp: bit_simps dest: b)
  show "drop_bit 43 w = 0" unfolding w_def by (rule bit_eqI) (auto simp: bit_simps dest: b)
qed

definition decode_field :: "reg_class \<Rightarrow> u64 \<Rightarrow> operand_constraint rust" where
  "decode_field cls field =
    (if field AND 0b1000000 \<noteq> 0 then do {
       r \<leftarrow> preg_new (unat (field AND 0b0111111)) cls;
       Some (FixedReg r) }
     else if field AND 0b0100000 \<noteq> 0 then Some (Reuse (unat (field AND 0b0011111)))
     else if field AND 0b0010000 \<noteq> 0 then Some (Limit (2 ^ unat (field AND 0b0001111)))
     else if field = 0 then Some AnyLoc
     else if field = 1 then Some RegLoc
     else if field = 2 then Some StackLoc
     else None)"

lemma tagged_field:
  assumes "m < 2 ^ n" "n < 7"
  defines "w \<equiv> push_bit n 1 OR word_of_nat m :: u64"
  shows "w AND push_bit n 1 \<noteq> 0" "w AND mask n = word_of_nat m" "fits 7 w"
    "n < k \<Longrightarrow> w AND push_bit k 1 = 0" "unat (w AND mask n) = m"
proof -
  have "(2 :: nat) ^ n < 2 ^ 7" using assms(2) by (simp only: power_strict_increasing_iff)
  then have u: "unat (word_of_nat m :: u64) = m" using assms(1) by (simp add: unat_of_nat_lt)
  then have f: "fits n (word_of_nat m :: u64)" using assms(1) by (simp add: fits_unat)
  show "w AND mask n = word_of_nat m" unfolding w_def by (rule low_field [OF f])
  then show "unat (w AND mask n) = m" using u by simp
  have "bit (w AND push_bit n 1) n" using assms(2) by (simp add: w_def bit_simps)
  then show "w AND push_bit n 1 \<noteq> 0" by auto
  show "fits 7 w" unfolding fits_def w_def
    by (rule bit_eqI) (use assms(2) f in \<open>auto simp: bit_simps dest!: fits_bit\<close>)
  show "n < k \<Longrightarrow> w AND push_bit k 1 = 0"
    by (rule bit_eqI) (use f in \<open>auto simp: w_def bit_simps dest!: fits_bit\<close>)
qed

lemma decode_fixed:
  assumes "preg_class r = Some cls"
  shows "fits 7 (0b1000000 OR word_of_nat (preg_hw_enc r) :: u64)"
    "decode_field cls (0b1000000 OR word_of_nat (preg_hw_enc r)) = Some (FixedReg r)"
proof -
  have "preg_hw_enc r < 2 ^ 6" by (simp add: preg_hw_enc_def unat_and_mask)
  from tagged_field [OF this] show "fits 7 (0b1000000 OR word_of_nat (preg_hw_enc r) :: u64)"
    "decode_field cls (0b1000000 OR word_of_nat (preg_hw_enc r)) = Some (FixedReg r)"
    using preg_encode [OF assms] by (simp_all add: decode_field_def mask_eq_exp_minus_1)
qed

lemma decode_reuse:
  assumes "which \<le> 31"
  shows "fits 7 (0b0100000 OR word_of_nat which :: u64)"
    "decode_field cls (0b0100000 OR word_of_nat which) = Some (Reuse which)"
proof -
  have "which < 2 ^ 5" using assms by simp
  from tagged_field [OF this] tagged_field(4) [OF this, of 6] show "fits 7 (0b0100000 OR word_of_nat which :: u64)"
    "decode_field cls (0b0100000 OR word_of_nat which) = Some (Reuse which)"
    by (simp_all add: decode_field_def mask_eq_exp_minus_1)
qed

lemma decode_limit:
  assumes "usize_is_power_of_two mx" "mx \<le> 64"
  shows "fits 7 (0b0010000 OR word_of_nat (usize_ilog2 mx) :: u64)"
    "decode_field cls (0b0010000 OR word_of_nat (usize_ilog2 mx)) = Some (Limit mx)"
proof -
  note l = limit_log [OF assms]
  then have "usize_ilog2 mx < 2 ^ 4" by simp
  from tagged_field [OF this] tagged_field(4) [OF this, of 5] tagged_field(4) [OF this, of 6] l
  show "fits 7 (0b0010000 OR word_of_nat (usize_ilog2 mx) :: u64)"
    "decode_field cls (0b0010000 OR word_of_nat (usize_ilog2 mx)) = Some (Limit mx)"
    by (simp_all add: decode_field_def mask_eq_exp_minus_1)
qed

lemma constraint_roundtrip:
  assumes "constraint_field v c = Some f" "vreg_class v = Some cls"
  shows "fits 7 f \<and> decode_field cls f = Some c"
proof (cases c)
  case (FixedReg r)
  then have "preg_class r = Some cls" "f = 0b1000000 OR word_of_nat (preg_hw_enc r)" using assms by auto
  then show ?thesis using decode_fixed FixedReg by blast
next
  case (Reuse w)
  then show ?thesis using assms(1) decode_reuse by auto
next
  case (Limit mx)
  then show ?thesis using assms(1) decode_limit by (auto simp: PREG_MAX_def)
qed (use assms(1) in \<open>auto simp: decode_field_def fits_unat\<close>)

lemma get_constraint_decode:
  assumes "operand_class op = Some cls"
  shows "operand_get_constraint op = decode_field cls (drop_bit CONSTRAINT_SHIFT (operand_bits op) AND mask 7)"
  using assms by (simp add: operand_get_constraint_def decode_field_def Let_def)

lemma operand_decode:
  assumes n: "operand_new v c kind pos = Some op"
  shows "operand_vreg op = Some v \<and> operand_class op = vreg_class v \<and> operand_get_kind op = kind \<and>
    operand_get_pos op = pos \<and> operand_get_constraint op = Some c \<and>
    operand_from_bits (operand_bits op) = Some op"
proof -
  obtain f cls where f: "constraint_field v c = Some f" and cls: "vreg_class v = Some cls"
    and op: "op = Operand (word_of_nat (vreg_vreg v) OR push_bit 32 (word_of_nat (class_code cls))
      OR push_bit 34 (operand_pos_code pos) OR push_bit 35 (operand_kind_code kind) OR push_bit 36 f)"
    using n by (auto simp: operand_new_def CLASS_SHIFT_def POS_SHIFT_def KIND_SHIFT_def CONSTRAINT_SHIFT_def)
  note r = constraint_roundtrip [OF f cls]
  have uv: "unat (word_of_nat (vreg_vreg v) :: u64) = vreg_vreg v"
    using vreg_vreg_lt [of v] by (intro unat_of_nat_lt) simp
  have fits: "fits 30 (word_of_nat (vreg_vreg v) :: u64)" "fits 2 (word_of_nat (class_code cls) :: u64)"
    "fits 1 (operand_pos_code pos)" "fits 1 (operand_kind_code kind)" "fits 7 f"
    using r vreg_vreg_lt [of v] class_code_lt [of cls] uv
    by (simp_all add: fits_unat unat_class_word) (cases pos; simp; fail | cases kind; simp; fail)+
  have w: "operand_bits op AND mask 32 = word_of_nat (vreg_vreg v)"
    "drop_bit 32 (operand_bits op) AND mask 2 = word_of_nat (class_code cls)"
    "drop_bit 34 (operand_bits op) AND mask 1 = operand_pos_code pos"
    "drop_bit 35 (operand_bits op) AND mask 1 = operand_kind_code kind"
    "drop_bit 36 (operand_bits op) AND mask 7 = f" "drop_bit 43 (operand_bits op) = 0"
    unfolding op operand_bits.simps by (rule operand_fields [OF fits])+
  have cl: "operand_class op = Some cls"
    by (simp add: operand_class_def CLASS_SHIFT_def w(2) unat_class_word)
  have "operand_vreg op = Some v"
    by (simp add: operand_vreg_def cl w(1) uv vreg_encode [OF cls])
  moreover have "operand_get_kind op = kind" 
    unfolding operand_get_kind_def KIND_SHIFT_def w(4) by (cases kind) simp_all
  moreover have "operand_get_pos op = pos" 
    unfolding operand_get_pos_def POS_SHIFT_def w(3) by (cases pos) simp_all
  moreover have "operand_get_constraint op = Some c"
    by (simp add: get_constraint_decode [OF cl] CONSTRAINT_SHIFT_def w(5) r)
  moreover have "operand_from_bits (operand_bits op) = Some op"
    using w(6) by (cases op) (simp add: operand_from_bits_def TOTAL_BITS_def)
  ultimately show ?thesis using cl cls by simp
qed

section \<open>Properties\<close>

text \<open>C22: packing an operand into 64 bits and reading its fields gives back the virtual register,
  class, kind, position and constraint it was built from, and the bits pass the check of
  \<open>from_bits\<close>.\<close>

theorem operand_roundtrip:
  assumes "operand_new v constraint kind pos = Some op"
  shows "operand_vreg op = Some v \<and> operand_class op = vreg_class v \<and> operand_get_kind op = kind \<and>
    operand_get_pos op = pos \<and> operand_get_constraint op = Some constraint \<and>
    operand_from_bits (operand_bits op) = Some op"
  by (rule operand_decode [OF assms])

theorem operand_roundtrip_witness:
  "\<exists>v op. vreg_new 200 FloatClass = Some v \<and> operand_new v (Limit 16) Use Late = Some op \<and>
     operand_get_constraint op = Some (Limit 16) \<and> operand_vreg op = Some v"
proof -
  obtain v where v: "vreg_new 200 FloatClass = Some v" by (simp add: vreg_new_def VREG_MAX_def)
  have l: "usize_ilog2 16 = 4" by (simp add: usize_ilog2.simps)
  obtain op where op: "operand_new v (Limit 16) Use Late = Some op"
    using vreg_decode(2) [OF v] by (simp add: operand_new_def usize_is_power_of_two_def l PREG_MAX_def)
  show ?thesis using v op operand_roundtrip [OF op] by blast
qed

text \<open>the bit encodings of physical and virtual registers are inverse to their decodings: a
  constructed register has the number and class it was built from, and a register with a class is
  the one built from its number and class; the index of a physical register determines it and lies
  below 192.\<close>

theorem register_roundtrip:
  "(\<forall>hw c p. preg_new hw c = Some p \<longrightarrow> preg_hw_enc p = hw \<and> preg_class p = Some c) \<and>
   (\<forall>p c. preg_class p = Some c \<longrightarrow> preg_new (preg_hw_enc p) c = Some p \<and> preg_index p < 192) \<and>
   (\<forall>p. preg_from_index (preg_index p) = p) \<and>
   (\<forall>i c v. vreg_new i c = Some v \<longrightarrow> vreg_vreg v = i \<and> vreg_class v = Some c) \<and>
   (\<forall>v c. vreg_class v = Some c \<longrightarrow> vreg_new (vreg_vreg v) c = Some v)"
  using preg_decode preg_encode preg_index_class vreg_decode vreg_encode by simp

text \<open>an allocation built from a physical register is read back as that register and never as a
  spill slot, and one built from a spill slot as that slot and never as a register.\<close>

theorem allocation_roundtrip:
  assumes "spill_new i = Some s"
  shows "\<exists>a b. allocation_reg p = Some a \<and> allocation_as_reg a = Some (Some p) \<and>
      allocation_as_stack a = Some None \<and>
      allocation_stack s = Some b \<and> allocation_as_stack b = Some (Some s) \<and>
      allocation_as_reg b = Some None"
  using allocation_reg_decode [of p] allocation_stack_decode [OF assms] by blast

text \<open>the three uses of a \<open>Reg\<close> never overlap: a register built from a physical register, from
  an unpinned virtual register or from a spill slot is recognised as exactly that one.\<close>

theorem reg_three_way:
  assumes "preg_class p = Some c" and "vreg_new i c' = Some v" and "PINNED_PREG \<le> i" and "i < 2 ^ 29 - 1"
    and "spill_new j = Some s"
  shows "\<exists>rp rv. reg_from_physical_reg p = Some rp \<and> reg_from_virtual_reg v = Some rv \<and>
     (reg_to_physical_reg rp, reg_to_virtual_reg rp, reg_to_spillslot rp) = (Some p, Some None, Some None) \<and>
     (reg_to_physical_reg rv, reg_to_virtual_reg rv, reg_to_spillslot rv) = (None, Some (Some v), Some None) \<and>
     (reg_to_physical_reg (reg_from_spillslot s), reg_to_virtual_reg (reg_from_spillslot s),
        reg_to_spillslot (reg_from_spillslot s)) = (None, Some None, Some (Some s)) \<and>
     reg_class_of rp = Some c \<and> reg_class_of rv = Some c'"
  using reg_physical_decode [OF assms(1)] reg_virtual_decode [OF assms(2-4)] reg_spill_decode [OF assms(5)] by auto

text \<open>program points are ordered as the execution: the point before an instruction precedes the
  point after it, which precedes the point before the next; \<open>next\<close> and \<open>prev\<close> step between them.\<close>

theorem program_point_order:
  assumes "unat i < 2 ^ 31 - 1"
  shows "point_before i < point_after i \<and> point_after i < point_before (i + 1) \<and>
    point_next (point_before i) = Some (point_after i) \<and>
    point_next (point_after i) = Some (point_before (i + 1)) \<and>
    point_prev (point_after i) = Some (point_before i) \<and>
    point_inst (point_after i) = i \<and> point_pos (point_after i) = AfterPos"
proof -
  have i: "unat i < 2 ^ 31" "unat (i + 1) = unat i + 1" "unat (i + 1) < 2 ^ 31"
    using assms by (simp_all add: unat_u32_add)
  note p = point_unat [OF i(1)] point_unat(1) [OF i(3)]
  have n: "ProgPoint (point_bits (point_before i) + 1) = point_after i"
    "ProgPoint (point_bits (point_after i) + 1) = point_before (i + 1)"
    "ProgPoint (point_bits (point_after i) - 1) = point_before i"
    using p i by (cases "point_after i"; cases "point_before (i + 1)"; cases "point_before i";
      simp add: word_unat_eq_iff unat_u32_add unat_u32_sub word_le_nat_alt)+
  show ?thesis using p i n assms point_decode [OF i(1), of AfterPos]
    by (simp add: prog_point_less point_next_def point_prev_def u32_add_eq_Some u32_sub_eq_Some
      word_le_nat_alt flip: point_after_def)
qed

text \<open>C23: the assertion of \<open>Allocation::from_bits\<close> is never satisfied by the bits of an allocation the
  constructors can build, so the function panics on every encoding that \<open>bits\<close> returns (in a build
  with debug assertions).\<close>

theorem allocation_from_bits_rejects:
  assumes "allocation_new kind i = Some a"
  shows "allocation_from_bits (allocation_bits a) = None"
proof -
  have "unat (drop_bit 29 (allocation_bits a) AND mask 3) = allocation_kind_code kind"
    using allocation_decode(1) [OF assms] by (cases kind) (auto simp: allocation_get_kind_def Let_def split: if_splits)
  moreover have "unat (drop_bit 29 (allocation_bits a)) < 8"
    using unat_lt [of "allocation_bits a"] by (simp add: unat_drop_bit)
  ultimately have "unat (drop_bit 29 (allocation_bits a)) \<le> 2"
    by (cases kind) (simp_all add: unat_and_mask)
  then show ?thesis by (simp add: allocation_from_bits_def rassert_def word_le_nat_alt)
qed

theorem allocation_from_bits_rejects_witness:
  "\<exists>a. allocation_new KindReg 3 = Some a \<and> allocation_from_bits (allocation_bits a) = None"
proof -
  obtain a where a: "allocation_new KindReg 3 = Some a" by (simp add: allocation_new_def)
  show ?thesis using a allocation_from_bits_rejects [OF a] by blast
qed

end
