(* ===== verification/PReg_Sets.thy ===== *)
theory PReg_Sets
  imports Reg_Encoding
begin

unbundle bit_operations_syntax

text \<open>
  \<open>PRegSet\<close> of \<^verbatim>\<open>taki_mir/src/reg_alloc/reg.rs\<close>: a set of physical registers as an array of four
  64-bit words, its operations, its iterator, and the machine environment built from such sets.
  The set interface is stated as a locale and interpreted on the bit array.
\<close>

section \<open>Model\<close>

type_synonym preg_set = "u64 list"

definition SET_BITS :: usize where "SET_BITS = 64"
definition SET_LEN :: usize where "SET_LEN = 4"

definition pset_empty :: preg_set where
  "pset_empty = replicate SET_LEN 0"

definition split_index :: "preg \<Rightarrow> usize \<times> usize" where
  "split_index r = (let index = preg_index r in (index div SET_BITS, index mod SET_BITS))"

definition pset_contains :: "preg_set \<Rightarrow> preg \<Rightarrow> bool rust" where
  "pset_contains s r = (let (index, b) = split_index r in do {
     w \<leftarrow> vec_get s index;
     Some (w AND push_bit b 1 \<noteq> 0) })"

definition pset_add :: "preg_set \<Rightarrow> preg \<Rightarrow> preg_set rust" where
  "pset_add s r = (let (index, b) = split_index r in do {
     w \<leftarrow> vec_get s index;
     vec_set s index (w OR push_bit b 1) })"

definition pset_with :: "preg_set \<Rightarrow> preg \<Rightarrow> preg_set rust" where
  "pset_with s r = (let (index, b) = split_index r in do {
     w \<leftarrow> vec_get s index;
     vec_set s index (w OR push_bit b 1) })"

definition pset_remove :: "preg_set \<Rightarrow> preg \<Rightarrow> preg_set rust" where
  "pset_remove s r = (let (index, b) = split_index r in do {
     w \<leftarrow> vec_get s index;
     vec_set s index (w AND NOT (push_bit b 1)) })"

text \<open>The arrays have the same constant length, so the index loops are pointwise.\<close>

definition pset_union_from :: "preg_set \<Rightarrow> preg_set \<Rightarrow> preg_set" where
  "pset_union_from s other = map2 (OR) s other"

definition pset_intersect_from :: "preg_set \<Rightarrow> preg_set \<Rightarrow> preg_set" where
  "pset_intersect_from s other = map2 (AND) s other"

definition pset_invert :: "preg_set \<Rightarrow> preg_set" where
  "pset_invert s = map NOT s"

definition pset_is_empty :: "preg_set \<Rightarrow> reg_class \<Rightarrow> bool rust" where
  "pset_is_empty s cls = do { w \<leftarrow> vec_get s (class_code cls); Some (w = 0) }"

definition count_ones :: "u64 \<Rightarrow> nat" where
  "count_ones w = length (filter (bit w) [0..<64])"

definition pset_len :: "preg_set \<Rightarrow> nat" where
  "pset_len s = sum_list (map count_ones s)"

definition pset_add_up_to :: "preg_set \<Rightarrow> preg \<Rightarrow> preg_set rust" where
  "pset_add_up_to s r = (let (index, b) = split_index r in
     vec_set (map (\<lambda>i. if i < index then - 1 else s ! i) [0..<length s]) index (push_bit b 1 - 1))"

definition pset_bitand :: "preg_set \<Rightarrow> preg_set \<Rightarrow> preg_set" where
  "pset_bitand s rhs = pset_intersect_from s rhs"

definition pset_bitor :: "preg_set \<Rightarrow> preg_set \<Rightarrow> preg_set" where
  "pset_bitor s rhs = pset_union_from s rhs"

record preg_set_iter =
  iter_bits :: "u64 list"
  iter_cur :: usize

definition pset_into_iter :: "preg_set \<Rightarrow> preg_set_iter" where
  "pset_into_iter s = \<lparr>iter_bits = s, iter_cur = 0\<rparr>"

fun first_set_bit :: "u64 \<Rightarrow> nat list \<Rightarrow> nat" where
  "first_set_bit w [] = 64"
| "first_set_bit w (k # ks) = (if bit w k then k else first_set_bit w ks)"

definition trailing_zeros :: "u64 \<Rightarrow> nat" where
  "trailing_zeros w = first_set_bit w [0..<64]"

function pset_iter_next :: "preg_set_iter \<Rightarrow> (preg \<times> preg_set_iter) option" where
  "pset_iter_next it =
    (if iter_cur it < length (iter_bits it) then
       let w = iter_bits it ! iter_cur it in
       if w \<noteq> 0 then
         let b = trailing_zeros w
         in Some (preg_from_index (b + iter_cur it * SET_BITS),
                  it\<lparr>iter_bits := (iter_bits it)[iter_cur it := w AND NOT (push_bit b 1)]\<rparr>)
       else pset_iter_next (it\<lparr>iter_cur := iter_cur it + 1\<rparr>)
     else None)"
  by pat_completeness auto
termination
  by (relation "measure (\<lambda>it. length (iter_bits it) - iter_cur it)") auto

declare pset_iter_next.simps [simp del]

text \<open>Running the iterator to the end: the list of items it yields.\<close>

partial_function (option) pset_collect :: "preg_set_iter \<Rightarrow> preg list option" where
  "pset_collect it = (case pset_iter_next it of
      None \<Rightarrow> Some []
    | Some (r, it') \<Rightarrow> do { rs \<leftarrow> pset_collect it'; Some (r # rs) })"

declare pset_collect.simps [code]

definition pset_max_preg :: "preg_set \<Rightarrow> preg option option" where
  "pset_max_preg s = do {
     rs \<leftarrow> pset_collect (pset_into_iter s);
     Some (if rs = [] then None else Some (last rs)) }"

definition pset_from_iter :: "preg list \<Rightarrow> preg_set rust" where
  "pset_from_iter rs = foldM pset_add pset_empty rs"

record machine_env =
  preferred_regs_by_class :: "preg_set list"
  non_preferred_regs_by_class :: "preg_set list"
  scratch_by_class :: "preg option list"
  post_ra_scratch_by_class :: "preg list list"
  fixed_stack_slots :: "preg list"

definition pset_from_env :: "machine_env \<Rightarrow> preg_set" where
  "pset_from_env env =
     foldl pset_union_from (foldl pset_union_from pset_empty (preferred_regs_by_class env))
       (non_preferred_regs_by_class env)"

section \<open>Members\<close>

definition pset_wf :: "preg_set \<Rightarrow> bool" where
  "pset_wf s = (length s = SET_LEN)"

definition members :: "preg_set \<Rightarrow> preg set" where
  "members s = {r. bit (s ! (preg_index r div 64)) (preg_index r mod 64)}"

lemma bit_pow: "bit (2 ^ b :: u64) k = (k = b \<and> b < 64)"
  by (auto simp: bit_exp_iff)

lemma and_single_bit: "(w AND 2 ^ b \<noteq> 0) = bit w b" if "b < 64" for w :: u64
proof
  assume "w AND 2 ^ b \<noteq> 0"
  then obtain k where "bit (w AND 2 ^ b) k" using bit_eqI [of "w AND 2 ^ b" 0] by auto
  then show "bit w b" by (auto simp: bit_and_iff bit_pow)
next
  assume "bit w b"
  then have "bit (w AND 2 ^ b) b" using that by (simp add: bit_and_iff bit_pow)
  then show "w AND 2 ^ b \<noteq> 0" by auto
qed

lemma preg_index_lt: "preg_index r < 256"
  using unat_lt [of "preg_repr r"] by (simp add: preg_index_def)

lemma preg_index_inject: "(preg_index r = preg_index q) = (r = q)"
  by (metis preg_index_roundtrip)

lemma index_split: "preg_index r div 64 < 4" "preg_index r mod 64 < 64"
  using preg_index_lt [of r] by simp_all

lemma split_eq_iff: "(preg_index r div 64 = preg_index q div 64 \<and> preg_index r mod 64 = preg_index q mod 64) = (r = q)"
  by (metis preg_index_inject div_mult_mod_eq)

lemma vec_get_word: "pset_wf s \<Longrightarrow> vec_get s (preg_index r div 64) = Some (s ! (preg_index r div 64))"
  using index_split(1) [of r] by (simp add: vec_get_def pset_wf_def SET_LEN_def)

lemma contains_iff: "pset_wf s \<Longrightarrow> pset_contains s r = Some (r \<in> members s)"
  by (simp add: pset_contains_def split_index_def Let_def SET_BITS_def vec_get_word members_def and_single_bit)

lemma bit_set_bit: "b < 64 \<Longrightarrow> bit (w OR 2 ^ b) k = (bit w k \<or> k = b)" for w :: u64
  by (auto simp: bit_or_iff bit_pow)

lemma bit_clear_bit: "b < 64 \<Longrightarrow> bit (w AND NOT (2 ^ b)) k = (bit w k \<and> k \<noteq> b)" for w :: u64
  by (auto simp: bit_and_iff bit_not_iff bit_pow dest: bit_imp_le_length)

lemma members_update:
  assumes "pset_wf s"
  shows "members (s[preg_index r div 64 := w]) =
    {q. if preg_index q div 64 = preg_index r div 64 then bit w (preg_index q mod 64) else q \<in> members s}"
  using assms index_split by (auto simp: members_def pset_wf_def SET_LEN_def nth_list_update)

lemma add_members:
  assumes "pset_wf s"
  shows "\<exists>s'. pset_add s r = Some s' \<and> pset_wf s' \<and> members s' = insert r (members s)"
proof -
  let ?s = "s[preg_index r div 64 := s ! (preg_index r div 64) OR 2 ^ (preg_index r mod 64)]"
  have "pset_add s r = Some ?s" using assms index_split(1) [of r]
    by (simp add: pset_add_def split_index_def Let_def SET_BITS_def vec_get_word vec_set_def) (simp add: pset_wf_def SET_LEN_def)
  moreover have "(q \<in> members ?s) = (q \<in> insert r (members s))" for q
    using split_eq_iff [of q r] index_split(2) [of r]
    by (cases "preg_index q div 64 = preg_index r div 64"; cases "q = r")
       (simp_all add: members_update [OF assms] bit_set_bit, simp_all add: members_def)
  then have "members ?s = insert r (members s)" by blast
  ultimately show ?thesis using assms by (simp add: pset_wf_def)
qed

lemma remove_members:
  assumes "pset_wf s"
  shows "\<exists>s'. pset_remove s r = Some s' \<and> pset_wf s' \<and> members s' = members s - {r}"
proof -
  let ?s = "s[preg_index r div 64 := s ! (preg_index r div 64) AND NOT (2 ^ (preg_index r mod 64))]"
  have "pset_remove s r = Some ?s" using assms index_split(1) [of r]
    by (simp add: pset_remove_def split_index_def Let_def SET_BITS_def vec_get_word vec_set_def) (simp add: pset_wf_def SET_LEN_def)
  moreover have "(q \<in> members ?s) = (q \<in> members s - {r})" for q
    using split_eq_iff [of q r] index_split(2) [of r]
    by (cases "preg_index q div 64 = preg_index r div 64"; cases "q = r")
       (simp_all add: members_update [OF assms] bit_clear_bit, simp_all add: members_def)
  then have "members ?s = members s - {r}" by blast
  ultimately show ?thesis using assms by (simp add: pset_wf_def)
qed

lemma empty_members: "pset_wf pset_empty" "members pset_empty = {}"
  using index_split by (simp_all add: pset_wf_def pset_empty_def members_def SET_LEN_def)

lemma union_members:
  assumes "pset_wf s" "pset_wf t"
  shows "pset_wf (pset_union_from s t) \<and> members (pset_union_from s t) = members s \<union> members t"
  using assms index_split by (auto simp: pset_wf_def pset_union_from_def members_def SET_LEN_def bit_or_iff)

lemma intersect_members:
  assumes "pset_wf s" "pset_wf t"
  shows "pset_wf (pset_intersect_from s t) \<and> members (pset_intersect_from s t) = members s \<inter> members t"
  using assms index_split by (auto simp: pset_wf_def pset_intersect_from_def members_def SET_LEN_def bit_and_iff)

lemma invert_members:
  assumes "pset_wf s"
  shows "pset_wf (pset_invert s) \<and> members (pset_invert s) = - members s"
  using assms index_split by (auto simp: pset_wf_def pset_invert_def members_def SET_LEN_def bit_not_iff)

section \<open>The set interface\<close>

text \<open>What the register allocator's clients rely on: insertion and union of register sets.\<close>

locale reg_set =
  fixes inv :: "'s \<Rightarrow> bool"
    and elems :: "'s \<Rightarrow> 'r set"
    and emp :: "'s"
    and add :: "'s \<Rightarrow> 'r \<Rightarrow> 's rust"
    and uni :: "'s \<Rightarrow> 's \<Rightarrow> 's"
  assumes emp: "inv emp" "elems emp = {}"
    and add: "inv s \<Longrightarrow> \<exists>s'. add s r = Some s' \<and> inv s' \<and> elems s' = insert r (elems s)"
    and uni: "inv s \<Longrightarrow> inv t \<Longrightarrow> inv (uni s t) \<and> elems (uni s t) = elems s \<union> elems t"
begin

lemma fold_add: "inv s \<Longrightarrow> \<exists>s'. foldM add s rs = Some s' \<and> inv s' \<and> elems s' = elems s \<union> set rs"
proof (induction rs arbitrary: s)
  case (Cons r rs)
  obtain s1 where s1: "add s r = Some s1" "inv s1" "elems s1 = insert r (elems s)" using add [OF Cons.prems] by blast
  then show ?case using Cons.IH [OF s1(2)] by auto
qed simp

lemma collect_list: "\<exists>s'. foldM add emp rs = Some s' \<and> inv s' \<and> elems s' = set rs"
  using fold_add [OF emp(1), of rs] emp(2) by simp

lemma fold_uni:
  "inv s \<Longrightarrow> \<forall>t \<in> set ts. inv t \<Longrightarrow> inv (foldl uni s ts) \<and> elems (foldl uni s ts) = elems s \<union> \<Union> (elems ` set ts)"
  by (induction ts arbitrary: s) (auto simp: uni)

end

interpretation ps: reg_set pset_wf members pset_empty pset_add pset_union_from
  by unfold_locales (use empty_members add_members union_members in auto)

section \<open>Iteration\<close>

definition word_bits :: "u64 \<Rightarrow> nat list" where
  "word_bits w = filter (bit w) [0..<64]"

definition iter_items :: "preg_set_iter \<Rightarrow> preg list" where
  "iter_items it = concat (map (\<lambda>i. map (\<lambda>b. preg_from_index (b + i * 64)) (word_bits (iter_bits it ! i)))
     [iter_cur it..<length (iter_bits it)])"

lemma filter_first_bit:
  assumes "\<exists>k \<in> set ks. bit w k" "distinct ks" "\<forall>k \<in> set ks. k < 64"
  shows "filter (bit w) ks = first_set_bit w ks # filter (bit (w AND NOT (2 ^ first_set_bit w ks))) ks"
  using assms
proof (induction ks)
  case (Cons k ks)
  show ?case
  proof (cases "bit w k")
    case True
    then show ?thesis using Cons.prems by (auto simp: bit_clear_bit intro!: filter_cong)
  next
    case False
    then have "\<exists>k \<in> set ks. bit w k" using Cons.prems by auto
    then show ?thesis using Cons False by (simp add: bit_and_iff)
  qed
qed simp

lemma word_bits_step:
  assumes "w \<noteq> 0"
  shows "word_bits w = trailing_zeros w # word_bits (w AND NOT (2 ^ trailing_zeros w))"
proof -
  obtain k where "bit w k" using assms bit_eqI [of w 0] by auto
  then have "\<exists>k \<in> set [0..<64]. bit w k" using bit_imp_le_length [of w k] by auto
  then show ?thesis unfolding word_bits_def trailing_zeros_def by (rule filter_first_bit) auto
qed

lemma word_bits_0: "word_bits 0 = []"
  by (simp add: word_bits_def)

lemma iter_next_items:
  "case pset_iter_next it of
     None \<Rightarrow> iter_items it = []
   | Some (r, it') \<Rightarrow> iter_items it = r # iter_items it'"
proof (induction it rule: pset_iter_next.induct)
  case (1 it)
  let ?n = "length (iter_bits it)" and ?w = "iter_bits it ! iter_cur it"
  show ?case
  proof (cases "iter_cur it < ?n")
    case True
    then have up: "[iter_cur it..<?n] = iter_cur it # [Suc (iter_cur it)..<?n]" by (simp add: upt_conv_Cons)
    show ?thesis
    proof (cases "?w = 0")
      case False
      have "concat (map (\<lambda>i. map (\<lambda>b. preg_from_index (b + i * 64)) (word_bits ((iter_bits it)[iter_cur it := v] ! i))) [Suc (iter_cur it)..<?n]) =
          concat (map (\<lambda>i. map (\<lambda>b. preg_from_index (b + i * 64)) (word_bits (iter_bits it ! i))) [Suc (iter_cur it)..<?n])" for v
        by (intro arg_cong [where f = concat] map_cong) auto
      then show ?thesis using True False
        by (simp add: pset_iter_next.simps [of it] Let_def iter_items_def up word_bits_step [OF False] SET_BITS_def)
    next
      case z: True
      then have "iter_items it = iter_items (it\<lparr>iter_cur := iter_cur it + 1\<rparr>)"
        by (simp add: iter_items_def up word_bits_0)
      then show ?thesis using 1 True z
        by (auto simp: pset_iter_next.simps [of it] Let_def split: option.splits)
    qed
  qed (simp add: pset_iter_next.simps [of it] iter_items_def)
qed

lemma collect_items: "pset_collect it = Some (iter_items it)"
proof (induction "iter_items it" arbitrary: it)
  case Nil
  then show ?case using iter_next_items [of it] by (auto simp: pset_collect.simps [of it] split: option.splits)
next
  case (Cons r rs)
  then obtain it' where "pset_iter_next it = Some (r, it')" "iter_items it' = rs"
    using iter_next_items [of it] by (auto split: option.splits)
  then show ?case using Cons by (simp add: pset_collect.simps [of it])
qed

text \<open>The indices a set iterates over, in order.\<close>

definition index_list :: "preg_set \<Rightarrow> nat list" where
  "index_list s = concat (map (\<lambda>i. map (\<lambda>b. b + i * 64) (word_bits (s ! i))) [0..<4])"

lemma iter_items_index_list:
  "pset_wf s \<Longrightarrow> iter_items (pset_into_iter s) = map preg_from_index (index_list s)"
  by (simp add: iter_items_def pset_into_iter_def index_list_def pset_wf_def SET_LEN_def map_concat comp_def)

lemma word_bits_props: "sorted_wrt (<) (word_bits w)" "\<forall>b \<in> set (word_bits w). b < 64 \<and> bit w b"
  "\<And>b. b < 64 \<Longrightarrow> bit w b \<Longrightarrow> b \<in> set (word_bits w)"
  by (auto simp: word_bits_def intro!: sorted_wrt_filter)

lemma chunks_sorted:
  "sorted_wrt (<) (concat (map (\<lambda>i. map (\<lambda>b. b + i * 64) (word_bits (s ! i))) [0..<n])) \<and>
   (\<forall>k \<in> set (concat (map (\<lambda>i. map (\<lambda>b. b + i * 64) (word_bits (s ! i))) [0..<n])). k < n * 64)"
proof (induction n)
  case (Suc n)
  have "sorted_wrt (<) (map (\<lambda>b. b + n * 64) (word_bits (s ! n)))"
    using word_bits_props(1) [of "s ! n"] by (simp add: sorted_wrt_map)
  then show ?case using Suc word_bits_props(2) [of "s ! n"]
    by (fastforce simp: sorted_wrt_append)
qed simp

lemma index_list_sorted: "sorted_wrt (<) (index_list s)" "\<forall>k \<in> set (index_list s). k < 256"
  using chunks_sorted [of s 4] by (simp_all add: index_list_def)

lemma set_index_list: "k \<in> set (index_list s) \<longleftrightarrow> k < 256 \<and> bit (s ! (k div 64)) (k mod 64)"
proof
  assume k: "k < 256 \<and> bit (s ! (k div 64)) (k mod 64)"
  have "k div 64 < 4" using k by auto
  moreover have "k = k mod 64 + k div 64 * 64" by (simp add: mod_div_mult_eq)
  moreover have "k mod 64 \<in> set (word_bits (s ! (k div 64)))" using k by (intro word_bits_props(3)) auto
  ultimately show "k \<in> set (index_list s)" unfolding index_list_def by force
next
  assume "k \<in> set (index_list s)"
  then obtain i b where "i < 4" "b \<in> set (word_bits (s ! i))" "k = b + i * 64"
    by (auto simp: index_list_def)
  then show "k < 256 \<and> bit (s ! (k div 64)) (k mod 64)" using word_bits_props(2) [of "s ! i"] by auto
qed

lemma map_preg_index: "map preg_index (map preg_from_index (index_list s)) = index_list s"
  using index_list_sorted(2) [of s] by (auto simp: preg_index_from intro!: map_idI)

lemma collect_spec:
  assumes "pset_wf s"
  shows "\<exists>rs. pset_collect (pset_into_iter s) = Some rs \<and> set rs = members s \<and>
    sorted_wrt (\<lambda>p q. preg_index p < preg_index q) rs"
proof -
  let ?rs = "map preg_from_index (index_list s)"
  have "r \<in> set ?rs \<longleftrightarrow> r \<in> members s" for r
  proof -
    have "r \<in> set ?rs \<longleftrightarrow> preg_index r \<in> set (map preg_index ?rs)"
      by (metis (no_types, lifting) image_eqI list.set_map preg_index_inject imageE)
    then show ?thesis unfolding map_preg_index by (simp add: set_index_list preg_index_lt members_def)
  qed
  moreover have "sorted_wrt (\<lambda>p q. preg_index p < preg_index q) ?rs"
    using index_list_sorted(1) [of s] map_preg_index [of s] by (metis sorted_wrt_map)
  ultimately show ?thesis using collect_items [of "pset_into_iter s"] iter_items_index_list [OF assms] by auto
qed

lemma len_card:
  assumes "pset_wf s"
  shows "pset_len s = card (members s)"
proof -
  obtain rs where rs: "pset_collect (pset_into_iter s) = Some rs" "set rs = members s"
    "sorted_wrt (\<lambda>p q. preg_index p < preg_index q) rs" using collect_spec [OF assms] by blast
  have "distinct (map preg_index rs)" using rs(3)
    by (simp flip: sorted_wrt_map add: strict_sorted_iff)
  then have "distinct rs" by (simp add: distinct_map)
  moreover have "length rs = pset_len s"
  proof -
    have "rs = map preg_from_index (index_list s)"
      using rs(1) collect_items [of "pset_into_iter s"] iter_items_index_list [OF assms] by simp
    moreover have "length (index_list s) = sum_list (map (count_ones \<circ> (!) s) [0..<4])"
      by (simp add: index_list_def length_concat comp_def count_ones_def word_bits_def)
    moreover have "map (count_ones \<circ> (!) s) [0..<4] = map count_ones s"
      using assms map_nth [of s] by (metis map_map pset_wf_def SET_LEN_def)
    ultimately show ?thesis by (simp add: pset_len_def)
  qed
  ultimately show ?thesis using rs(2) distinct_card by metis
qed

lemma add_up_to_members:
  assumes "pset_wf s"
  shows "\<exists>s'. pset_add_up_to s r = Some s' \<and> pset_wf s' \<and>
    members s' = {q. preg_index q < preg_index r} \<union> {q \<in> members s. preg_index r div 64 < preg_index q div 64}"
proof -
  let ?i = "preg_index r div 64" and ?b = "preg_index r mod 64"
  let ?m = "map (\<lambda>i. if i < ?i then - 1 else s ! i) [0..<length s]"
  let ?s = "?m[?i := 2 ^ ?b - 1]"
  have e: "pset_add_up_to s r = Some ?s" using assms index_split(1) [of r]
    by (simp add: pset_add_up_to_def split_index_def Let_def SET_BITS_def vec_set_def pset_wf_def SET_LEN_def)
  have "(q \<in> members ?s) = (preg_index q < preg_index r \<or> q \<in> members s \<and> ?i < preg_index q div 64)" for q
  proof -
    let ?j = "preg_index q div 64" and ?c = "preg_index q mod 64"
    have lt: "?j < 4" "?c < 64" "?i < 4" "?b < 64" using index_split by simp_all
    have cmp: "preg_index q < preg_index r \<longleftrightarrow> ?j < ?i \<or> ?j = ?i \<and> ?c < ?b"
      using div_mult_mod_eq [of "preg_index q" 64] div_mult_mod_eq [of "preg_index r" 64] lt by linarith
    have low: "bit (2 ^ ?b - 1 :: u64) ?c = (?c < ?b)"
      using lt by (simp add: bit_mask_iff flip: mask_eq_exp_minus_1)
    have "?s ! ?j = (if ?j = ?i then 2 ^ ?b - 1 else if ?j < ?i then - 1 else s ! ?j)"
      using assms lt by (simp add: pset_wf_def SET_LEN_def nth_list_update)
    then show ?thesis using lt low unfolding cmp members_def by auto
  qed
  then have "members ?s = {q. preg_index q < preg_index r} \<union> {q \<in> members s. ?i < preg_index q div 64}" by blast
  then show ?thesis using e assms by (simp add: pset_wf_def)
qed

lemma is_empty_class:
  assumes "pset_wf s"
  shows "pset_is_empty s cls = Some (\<forall>r \<in> members s. preg_class r \<noteq> Some cls)"
proof -
  have v: "vec_get s (class_code cls) = Some (s ! class_code cls)"
    using assms class_code_lt [of cls] by (simp add: vec_get_def pset_wf_def SET_LEN_def)
  have cls: "preg_class r = Some cls \<longleftrightarrow> preg_index r div 64 = class_code cls" for r
  proof
    assume "preg_class r = Some cls"
    then show "preg_index r div 64 = class_code cls"
      using preg_index_class(1) [of r cls] by (simp add: preg_hw_enc_def unat_and_mask)
  next
    assume "preg_index r div 64 = class_code cls"
    then show "preg_class r = Some cls" using class_code_lt [of cls]
      by (simp add: preg_class_def PREG_MAX_BITS_def unat_and_mask unat_drop_bit preg_index_def)
  qed
  have "(s ! class_code cls = 0) = (\<forall>r \<in> members s. preg_class r \<noteq> Some cls)"
  proof
    assume "s ! class_code cls = 0"
    then show "\<forall>r \<in> members s. preg_class r \<noteq> Some cls" unfolding cls members_def by auto
  next
    assume none: "\<forall>r \<in> members s. preg_class r \<noteq> Some cls"
    show "s ! class_code cls = 0"
    proof (rule bit_eqI)
      fix n assume "possible_bit TYPE(64 word) n"
      then have n: "n < 64" by (simp add: possible_bit_word)
      let ?r = "preg_from_index (class_code cls * 64 + n)"
      have i: "preg_index ?r = class_code cls * 64 + n" using n class_code_lt [of cls] by (intro preg_index_from) simp
      then have "preg_class ?r = Some cls" using n unfolding cls by simp
      then have "?r \<notin> members s" using none by blast
      then show "bit (s ! class_code cls) n = bit 0 n" using i n by (simp add: members_def)
    qed
  qed
  then show ?thesis using v by (simp add: pset_is_empty_def)
qed

section \<open>Properties\<close>

text \<open>C24: on arrays of four words no operation of a register set panics, and each one is the
  corresponding operation on the set of its members.\<close>

theorem preg_set_refines:
  assumes "pset_wf s" and "pset_wf t"
  shows "pset_contains s r = Some (r \<in> members s) \<and>
    (\<exists>s'. pset_add s r = Some s' \<and> pset_wf s' \<and> members s' = insert r (members s)) \<and>
    (\<exists>s'. pset_remove s r = Some s' \<and> pset_wf s' \<and> members s' = members s - {r}) \<and>
    members (pset_bitor s t) = members s \<union> members t \<and>
    members (pset_bitand s t) = members s \<inter> members t \<and>
    members (pset_invert s) = - members s \<and>
    pset_len s = card (members s) \<and>
    pset_is_empty s cls = Some (\<forall>q \<in> members s. preg_class q \<noteq> Some cls)"
proof (intro conjI)
  show "members (pset_bitor s t) = members s \<union> members t" using union_members [OF assms] by (simp add: pset_bitor_def)
  show "members (pset_bitand s t) = members s \<inter> members t" using intersect_members [OF assms] by (simp add: pset_bitand_def)
  show "members (pset_invert s) = - members s" using invert_members [OF assms(1)] by simp
qed (fact contains_iff [OF assms(1)] add_members [OF assms(1)] remove_members [OF assms(1)]
    len_card [OF assms(1)] is_empty_class [OF assms(1)])+

theorem preg_set_refines_witness:
  "\<exists>s p. preg_new 5 FloatClass = Some p \<and> pset_add pset_empty p = Some s \<and> members s = {p}"
proof -
  obtain p where p: "preg_new 5 FloatClass = Some p" by (simp add: preg_new_def PREG_MAX_def)
  have w: "pset_wf pset_empty" by (simp add: pset_wf_def pset_empty_def)
  show ?thesis using p preg_set_refines [OF w w, of p IntClass] empty_members(2) by auto
qed

text \<open>iterating over a register set ends after yielding every member exactly once, in increasing
  order of index, and \<open>max_preg\<close> is the member with the largest index.\<close>

theorem preg_set_iteration:
  assumes "pset_wf s"
  shows "\<exists>rs. pset_collect (pset_into_iter s) = Some rs \<and> set rs = members s \<and> distinct rs \<and>
    sorted (map preg_index rs) \<and>
    pset_max_preg s = Some (if members s = {} then None else Some (last rs)) \<and>
    (\<forall>q \<in> members s. preg_index q \<le> preg_index (last rs))"
proof -
  obtain rs where rs: "pset_collect (pset_into_iter s) = Some rs" "set rs = members s"
    "sorted_wrt (\<lambda>p q. preg_index p < preg_index q) rs" using collect_spec [OF assms] by blast
  have st: "sorted_wrt (<) (map preg_index rs)" using rs(3) by (simp add: sorted_wrt_map)
  then have s: "sorted (map preg_index rs)" "distinct rs"
    by (simp_all add: strict_sorted_iff distinct_map)
  have "preg_index q \<le> preg_index (last rs)" if q: "q \<in> set rs" for q
  proof -
    obtain i where i: "i < length rs" "rs ! i = q" using q by (auto simp: in_set_conv_nth)
    then have "map preg_index rs ! i \<le> map preg_index rs ! (length rs - 1)"
      by (intro sorted_nth_mono [OF s(1)]) auto
    moreover have "rs \<noteq> []" using i by auto
    ultimately show ?thesis using i by (simp add: last_conv_nth)
  qed
  then show ?thesis using rs s by (auto simp: pset_max_preg_def)
qed

text \<open>collecting registers gives the set of those registers, and the set of a machine
  environment is the union of its preferred and non-preferred sets.\<close>

theorem preg_set_collections:
  assumes "\<forall>s \<in> set (preferred_regs_by_class env) \<union> set (non_preferred_regs_by_class env). pset_wf s"
  shows "(\<exists>s. pset_from_iter rs = Some s \<and> pset_wf s \<and> members s = set rs) \<and>
    members (pset_from_env env) =
      \<Union> (members ` (set (preferred_regs_by_class env) \<union> set (non_preferred_regs_by_class env)))"
proof -
  let ?s = "foldl pset_union_from pset_empty (preferred_regs_by_class env)"
  have s: "pset_wf ?s" "members ?s = \<Union> (members ` set (preferred_regs_by_class env))"
    using ps.fold_uni [OF empty_members(1)] assms empty_members(2) by simp_all
  then show ?thesis using ps.fold_uni [OF s(1), of "non_preferred_regs_by_class env"] assms ps.collect_list [of rs]
    by (auto simp: pset_from_env_def pset_from_iter_def)
qed

text \<open>C25: \<open>add_up_to\<close> adds every register below the given one and keeps the members of later words,
  but it overwrites the word of the given register: a member at or above it in that word is lost.\<close>

theorem add_up_to_overwrites:
  assumes "pset_wf s"
  shows "\<exists>s'. pset_add_up_to s r = Some s' \<and> pset_wf s' \<and>
    (\<forall>q. preg_index q < preg_index r \<longrightarrow> q \<in> members s') \<and>
    (\<forall>q \<in> members s. preg_index r div 64 < preg_index q div 64 \<longrightarrow> q \<in> members s') \<and>
    (\<forall>q \<in> members s. preg_index q div 64 = preg_index r div 64 \<longrightarrow> preg_index r \<le> preg_index q \<longrightarrow> q \<notin> members s')"
proof -
  obtain s' where "pset_add_up_to s r = Some s'" "pset_wf s'"
    "members s' = {q. preg_index q < preg_index r} \<union> {q \<in> members s. preg_index r div 64 < preg_index q div 64}"
    using add_up_to_members [OF assms] by blast
  then show ?thesis by auto
qed

theorem add_up_to_overwrites_witness:
  "\<exists>s p q s'. preg_new 5 IntClass = Some p \<and> preg_new 2 IntClass = Some q \<and> pset_add pset_empty p = Some s \<and>
     pset_add_up_to s q = Some s' \<and> p \<in> members s \<and> p \<notin> members s'"
proof -
  obtain p where p: "preg_new 5 IntClass = Some p" by (simp add: preg_new_def PREG_MAX_def)
  obtain q where q: "preg_new 2 IntClass = Some q" by (simp add: preg_new_def PREG_MAX_def)
  obtain s where s: "pset_add pset_empty p = Some s" "pset_wf s" "members s = {p}"
    using add_members [OF empty_members(1), of p] empty_members(2) by auto
  have "preg_index p = 5" "preg_index q = 2"
    using preg_index_class(1) preg_decode p q by fastforce+
  then show ?thesis using p q s add_up_to_overwrites [OF s(2), of q] by auto
qed

end
