(* ===== verification/VReg_Alias.thy ===== *)
theory VReg_Alias
  imports Reg_Encoding
begin

text \<open>
  \<open>VRegAllocator\<close> of \<^verbatim>\<open>taki_mir/src/register.rs\<close>: allocation of virtual registers with their
  lowered types, and the alias graph that lowering builds when a value is the same as another. The
  back end's \<open>rc_for_type\<close> and the invalid type are parameters. The alias hash map is an association
  list; the panics of the code (a repeated source, a cycle, a type mismatch, a register that is not
  virtual) are \<open>None\<close>.
\<close>

section \<open>Model\<close>

record 'ty vreg_allocator =
  vreg_types :: "'ty list"
  vreg_alias :: "(vreg \<times> vreg) list"

definition with_capacity :: "'ty \<Rightarrow> 'ty vreg_allocator" where
  "with_capacity invalid_ty = \<lparr>vreg_types = replicate PINNED_PREG invalid_ty, vreg_alias = []\<rparr>"

definition vreg_alloc ::
  "('ty \<Rightarrow> reg_class list \<times> 'ty list) \<Rightarrow> 'ty vreg_allocator \<Rightarrow> 'ty \<Rightarrow> (reg \<times> 'ty vreg_allocator) rust" where
  "vreg_alloc rc_for_type self ty0 =
     (let len = length (vreg_types self) in
      case rc_for_type ty0 of
        ([regclass], [ty]) \<Rightarrow> do {
          rassert (len < VREG_MAX);
          nv \<leftarrow> vreg_new len regclass;
          reg \<leftarrow> reg_from_virtual_reg nv;
          ov \<leftarrow> reg_to_virtual_reg reg;
          v \<leftarrow> ov;
          rassert (vreg_vreg v = len);
          Some (reg, self\<lparr>vreg_types := vreg_types self @ [ty]\<rparr>) }
      | _ \<Rightarrow> None)"

text \<open>The bounded loop of \<open>resolve_alias\<close>; running out of iterations is the panic of the code.\<close>

fun resolve_loop :: "(vreg \<times> vreg) list \<Rightarrow> nat \<Rightarrow> vreg \<Rightarrow> vreg rust" where
  "resolve_loop aliases 0 v = None"
| "resolve_loop aliases (Suc n) v = (case map_of aliases v of
      None \<Rightarrow> Some v
    | Some alias \<Rightarrow> resolve_loop aliases n alias)"

definition resolve_alias :: "'ty vreg_allocator \<Rightarrow> vreg \<Rightarrow> vreg rust" where
  "resolve_alias self v = resolve_loop (vreg_alias self) (length (vreg_alias self) + 1) v"

definition set_reg_alias :: "'ty vreg_allocator \<Rightarrow> reg \<Rightarrow> reg \<Rightarrow> 'ty vreg_allocator rust" where
  "set_reg_alias self from to = do {
     ofrom \<leftarrow> reg_to_virtual_reg from;
     from \<leftarrow> ofrom;
     oto \<leftarrow> reg_to_virtual_reg to;
     to \<leftarrow> oto;
     from_ty \<leftarrow> vec_get (vreg_types self) (vreg_vreg from);
     resolved_to \<leftarrow> resolve_alias self to;
     to_ty \<leftarrow> vec_get (vreg_types self) (vreg_vreg resolved_to);
     rassert (from \<noteq> resolved_to);
     rassert (from_ty = to_ty);
     rassert (map_of (vreg_alias self) from = None);
     Some (self\<lparr>vreg_alias := (from, resolved_to) # vreg_alias self\<rparr>) }"

definition assert_no_vreg_aliases :: "'ty vreg_allocator \<Rightarrow> vreg list \<Rightarrow> unit rust" where
  "assert_no_vreg_aliases self vs = rassert (list_all (\<lambda>v. map_of (vreg_alias self) v = None) vs)"

section \<open>The alias graph\<close>

abbreviation edges :: "(vreg \<times> vreg) list \<Rightarrow> (vreg \<times> vreg) set" where
  "edges aliases \<equiv> {(a, b). map_of aliases a = Some b}"

lemma exhausted_path:
  assumes "acyclic (edges al)"
  shows "resolve_loop al n v = None \<Longrightarrow>
    \<exists>xs. length xs = n \<and> distinct xs \<and> set xs \<subseteq> dom (map_of al) \<and> (\<forall>x \<in> set xs. (v, x) \<in> (edges al)\<^sup>*)"
proof (induction n arbitrary: v)
  case (Suc n)
  then obtain w where w: "map_of al v = Some w" "resolve_loop al n w = None" by (auto split: option.splits)
  obtain xs where xs: "length xs = n" "distinct xs" "set xs \<subseteq> dom (map_of al)" "\<forall>x \<in> set xs. (w, x) \<in> (edges al)\<^sup>*"
    using Suc.IH [OF w(2)] by blast
  have e: "(v, w) \<in> edges al" using w(1) by simp
  have "v \<notin> set xs"
  proof
    assume "v \<in> set xs"
    then have "(w, v) \<in> (edges al)\<^sup>*" using xs(4) by blast
    then have "(v, v) \<in> (edges al)\<^sup>+" using e by (meson rtrancl_into_trancl2)
    then show False using assms by (simp add: acyclic_def)
  qed
  moreover have "\<forall>x \<in> set xs. (v, x) \<in> (edges al)\<^sup>*" using xs(4) e by (meson converse_rtrancl_into_rtrancl)
  ultimately show ?case using xs w(1) by (intro exI [of _ "v # xs"]) auto
qed simp

lemma resolve_total:
  assumes "acyclic (edges al)"
  shows "\<exists>w. resolve_loop al (length al + 1) v = Some w"
proof (rule ccontr)
  assume "\<not> ?thesis"
  then have "resolve_loop al (length al + 1) v = None" by auto
  from exhausted_path [OF assms this] obtain xs where
    xs: "length xs = length al + 1" "distinct xs" "set xs \<subseteq> dom (map_of al)" by blast
  have "length xs \<le> card (dom (map_of al))" using xs(2,3) by (metis card_mono distinct_card finite_dom_map_of)
  also have "\<dots> \<le> length al" by (simp add: dom_map_of_conv_image_fst) (metis card_length length_map list.set_map)
  finally show False using xs(1) by simp
qed

lemma resolve_more: "resolve_loop al n v = Some w \<Longrightarrow> resolve_loop al (n + k) v = Some w"
  by (induction n arbitrary: v) (auto split: option.splits)

lemma resolve_sink: "resolve_loop al n v = Some w \<Longrightarrow> map_of al w = None \<and> (v, w) \<in> (edges al)\<^sup>*"
proof (induction n arbitrary: v)
  case (Suc n)
  then show ?case
    by (cases "map_of al v") (auto intro: converse_rtrancl_into_rtrancl)
qed simp

lemma resolve_path: "(v, w) \<in> (edges al)\<^sup>* \<Longrightarrow> map_of al w = None \<Longrightarrow> \<exists>n. resolve_loop al n v = Some w"
proof (induction rule: converse_rtrancl_induct)
  case base
  then have "resolve_loop al 1 w = Some w" by simp
  then show ?case by blast
next
  case (step v x)
  then obtain n where "resolve_loop al n x = Some w" by blast
  then have "resolve_loop al (Suc n) v = Some w" using step by simp
  then show ?case by blast
qed

lemma resolve_unique:
  assumes "acyclic (edges al)" "(v, w) \<in> (edges al)\<^sup>*" "map_of al w = None"
  shows "resolve_loop al (length al + 1) v = Some w"
proof -
  obtain n where n: "resolve_loop al n v = Some w" using resolve_path [OF assms(2,3)] by blast
  obtain u where u: "resolve_loop al (length al + 1) v = Some u" using resolve_total [OF assms(1)] by blast
  have "resolve_loop al (length al + 1 + n) v = Some u" "resolve_loop al (n + (length al + 1)) v = Some w"
    using resolve_more u n by blast+
  then show ?thesis using u by (simp add: add.commute)
qed

text \<open>The invariant: the graph is acyclic and connects registers of the same lowered type.\<close>

definition alias_inv :: "'ty vreg_allocator \<Rightarrow> bool" where
  "alias_inv self = (acyclic (edges (vreg_alias self)) \<and> PINNED_PREG \<le> length (vreg_types self) \<and>
     (\<forall>a b. map_of (vreg_alias self) a = Some b \<longrightarrow>
        (\<exists>t. vec_get (vreg_types self) (vreg_vreg a) = Some t \<and>
             vec_get (vreg_types self) (vreg_vreg b) = Some t)))"

lemma alias_inv_init: "alias_inv (with_capacity t)"
  by (simp add: alias_inv_def with_capacity_def acyclic_def)

lemma vec_get_append: "vec_get xs i = Some y \<Longrightarrow> vec_get (xs @ ys) i = Some y"
  by (auto simp: vec_get_def nth_append split: if_splits)

lemma vreg_alloc_Some:
  assumes "vreg_alloc rc self ty0 = Some (r, self')"
  shows "\<exists>cls ty v. rc ty0 = ([cls], [ty]) \<and> vreg_new (length (vreg_types self)) cls = Some v \<and>
    reg_from_virtual_reg v = Some r \<and> reg_to_virtual_reg r = Some (Some v) \<and>
    self' = self\<lparr>vreg_types := vreg_types self @ [ty]\<rparr>"
proof -
  obtain cls ty where rc: "rc ty0 = ([cls], [ty])"
    using assms by (auto simp: vreg_alloc_def Let_def split: prod.splits list.splits)
  obtain nv v where v: "vreg_new (length (vreg_types self)) cls = Some nv" "reg_from_virtual_reg nv = Some r"
    "reg_to_virtual_reg r = Some (Some v)" "self' = self\<lparr>vreg_types := vreg_types self @ [ty]\<rparr>"
    using assms rc by (auto simp: vreg_alloc_def Let_def)
  have "v = nv" using v(2,3)
    by (cases nv) (auto simp: reg_from_virtual_reg_def reg_to_virtual_reg_def vreg_from_bits_def split: if_splits)
  then show ?thesis using rc v by blast
qed

lemma alias_inv_alloc:
  assumes "alias_inv self" "vreg_alloc rc self ty0 = Some (r, self')"
  shows "alias_inv self'"
proof -
  obtain ty where s: "self' = self\<lparr>vreg_types := vreg_types self @ [ty]\<rparr>" using vreg_alloc_Some [OF assms(2)] by blast
  have "\<exists>t. vec_get (vreg_types self') (vreg_vreg a) = Some t \<and> vec_get (vreg_types self') (vreg_vreg b) = Some t"
    if "map_of (vreg_alias self) a = Some b" for a b
    using assms(1) that vec_get_append [of "vreg_types self"] unfolding alias_inv_def s by fastforce
  then show ?thesis using assms(1) s by (simp add: alias_inv_def)
qed

lemma set_reg_alias_Some:
  assumes "set_reg_alias self from to = Some self'"
  obtains f t rt ty where "reg_to_virtual_reg from = Some (Some f)" "reg_to_virtual_reg to = Some (Some t)"
    "resolve_alias self t = Some rt" "f \<noteq> rt" "map_of (vreg_alias self) f = None"
    "vec_get (vreg_types self) (vreg_vreg f) = Some ty" "vec_get (vreg_types self) (vreg_vreg rt) = Some ty"
    "self' = self\<lparr>vreg_alias := (f, rt) # vreg_alias self\<rparr>"
  using assms by (auto simp: set_reg_alias_def)

lemma edges_insert: "map_of al f = None \<Longrightarrow> edges ((f, rt) # al) = insert (f, rt) (edges al)"
  by (auto split: if_splits)

lemma sink_rtrancl: "map_of al w = None \<Longrightarrow> (w, x) \<in> (edges al)\<^sup>* \<Longrightarrow> x = w"
  by (auto elim: converse_rtranclE)

lemma alias_inv_set:
  assumes "alias_inv self" "set_reg_alias self from to = Some self'"
  shows "alias_inv self'"
  using assms(2)
proof (rule set_reg_alias_Some)
  fix f t rt ty
  assume *: "resolve_alias self t = Some rt" "f \<noteq> rt" "map_of (vreg_alias self) f = None"
    "vec_get (vreg_types self) (vreg_vreg f) = Some ty" "vec_get (vreg_types self) (vreg_vreg rt) = Some ty"
    "self' = self\<lparr>vreg_alias := (f, rt) # vreg_alias self\<rparr>"
  have "map_of (vreg_alias self) rt = None" using resolve_sink *(1) unfolding resolve_alias_def by blast
  then have "(rt, f) \<notin> (edges (vreg_alias self))\<^sup>*" using sink_rtrancl *(2) by blast
  then have "acyclic (edges (vreg_alias self'))"
    using assms(1) *(6) edges_insert [OF *(3), of rt] by (simp add: alias_inv_def acyclic_insert)
  then show "alias_inv self'" using assms(1) *(4-6) by (simp add: alias_inv_def)
qed

inductive allocator_reach :: "'ty \<Rightarrow> ('ty \<Rightarrow> reg_class list \<times> 'ty list) \<Rightarrow> 'ty vreg_allocator \<Rightarrow> bool"
  for invalid_ty rc where
  reach_init: "allocator_reach invalid_ty rc (with_capacity invalid_ty)"
| reach_alloc: "allocator_reach invalid_ty rc self \<Longrightarrow> vreg_alloc rc self ty = Some (r, self') \<Longrightarrow>
    allocator_reach invalid_ty rc self'"
| reach_alias: "allocator_reach invalid_ty rc self \<Longrightarrow> set_reg_alias self from to = Some self' \<Longrightarrow>
    allocator_reach invalid_ty rc self'"

lemma reach_inv: "allocator_reach invalid_ty rc self \<Longrightarrow> alias_inv self"
  by (induction rule: allocator_reach.induct) (auto intro: alias_inv_init alias_inv_alloc alias_inv_set)

lemma rtrancl_type:
  assumes "alias_inv self" "(v, w) \<in> (edges (vreg_alias self))\<^sup>*"
  shows "vec_get (vreg_types self) (vreg_vreg v) = vec_get (vreg_types self) (vreg_vreg w)"
  using assms(2) by (induction rule: rtrancl_induct) (use assms(1) in \<open>fastforce simp: alias_inv_def\<close>)+

lemma edges_mono: "map_of al f = None \<Longrightarrow> (a, b) \<in> (edges al)\<^sup>* \<Longrightarrow> (a, b) \<in> (edges ((f, rt) # al))\<^sup>*"
  unfolding edges_insert by (meson rtrancl_mono subset_insertI subsetD)

lemma resolve_after_set:
  assumes "alias_inv self" "map_of (vreg_alias self) f = None" "map_of (vreg_alias self) rt = None" "f \<noteq> rt"
    "resolve_alias self v = Some w" "acyclic (edges ((f, rt) # vreg_alias self))"
  shows "resolve_alias (self\<lparr>vreg_alias := (f, rt) # vreg_alias self\<rparr>) v = Some (if w = f then rt else w)"
proof -
  let ?al = "(f, rt) # vreg_alias self"
  have w: "map_of (vreg_alias self) w = None" "(v, w) \<in> (edges (vreg_alias self))\<^sup>*"
    using resolve_sink assms(5) unfolding resolve_alias_def by blast+
  have p: "(v, w) \<in> (edges ?al)\<^sup>*" using edges_mono [OF assms(2) w(2)] .
  show ?thesis
  proof (cases "w = f")
    case True
    then have "(v, rt) \<in> (edges ?al)\<^sup>*" using p by (auto intro: rtrancl_into_rtrancl)
    moreover have "map_of ?al rt = None" using assms(3,4) by simp
    ultimately show ?thesis using resolve_unique [OF assms(6)] True by (simp add: resolve_alias_def)
  next
    case False
    then have "map_of ?al w = None" using w(1) by simp
    then show ?thesis using resolve_unique [OF assms(6) p] False by (simp add: resolve_alias_def)
  qed
qed

section \<open>Properties\<close>

text \<open>C26: in every state the allocator can reach, alias resolution never panics and ends at a register
  without an alias that has the same lowered type.\<close>

theorem alias_resolution_total:
  assumes "allocator_reach invalid_ty rc self"
  shows "\<exists>w. resolve_alias self v = Some w \<and> map_of (vreg_alias self) w = None \<and>
    vec_get (vreg_types self) (vreg_vreg w) = vec_get (vreg_types self) (vreg_vreg v)"
proof -
  have i: "alias_inv self" using reach_inv [OF assms] .
  then obtain w where w: "resolve_alias self v = Some w"
    using resolve_total unfolding alias_inv_def resolve_alias_def by blast
  then have "map_of (vreg_alias self) w = None" "(v, w) \<in> (edges (vreg_alias self))\<^sup>*"
    using resolve_sink unfolding resolve_alias_def by blast+
  then show ?thesis using w rtrancl_type [OF i] by metis
qed

text \<open>Two registers of one type are allocated and the first is made an alias of the second: both resolve to the second.\<close>

theorem alias_resolution_total_witness:
  "\<exists>s1 s2 s3. vreg_alloc (\<lambda>t. ([IntClass], [t])) (with_capacity (0::nat)) 7 = Some (Reg 768, s1) \<and>
     vreg_alloc (\<lambda>t. ([IntClass], [t])) s1 7 = Some (Reg 772, s2) \<and>
     set_reg_alias s2 (Reg 768) (Reg 772) = Some s3 \<and> map_of (vreg_alias s3) (VReg 768) = Some (VReg 772) \<and>
     resolve_alias s3 (VReg 768) = Some (VReg 772) \<and>
     vec_get (vreg_types s3) (vreg_vreg (VReg 772)) = vec_get (vreg_types s3) (vreg_vreg (VReg 768))"
proof -
  let ?rc = "\<lambda>t :: nat. ([IntClass], [t])" and ?s0 = "with_capacity (0::nat)"
  let ?s1 = "?s0\<lparr>vreg_types := vreg_types ?s0 @ [7]\<rparr>" and ?s2 = "?s0\<lparr>vreg_types := vreg_types ?s0 @ [7, 7]\<rparr>"
  let ?s3 = "?s2\<lparr>vreg_alias := [(VReg 768, VReg 772)]\<rparr>"
  have v: "vreg_new 192 IntClass = Some (VReg 768)" "vreg_new 193 IntClass = Some (VReg 772)"
    by (simp_all add: vreg_new_def VREG_MAX_def)
  have d: "reg_to_virtual_reg (Reg 768) = Some (Some (VReg 768))" "reg_to_virtual_reg (Reg 772) = Some (Some (VReg 772))"
    by (simp_all add: reg_to_virtual_reg_def reg_to_spillslot_def SPILLSLOT_BIT_def pinned_vreg_to_preg_def
      vreg_from_bits_def PINNED_PREG_def vreg_vreg_def)
  have n: "vreg_vreg (VReg 768) = 192" "vreg_vreg (VReg 772) = 193" by (simp_all add: vreg_vreg_def)
  have a1: "vreg_alloc ?rc ?s0 7 = Some (Reg 768, ?s1)"
    using v d n by (simp add: vreg_alloc_def with_capacity_def PINNED_PREG_def VREG_MAX_def
      reg_from_virtual_reg_def SPILLSLOT_MASK_def SPILLSLOT_BIT_def)
  have a2: "vreg_alloc ?rc ?s1 7 = Some (Reg 772, ?s2)"
    using v d n by (simp add: vreg_alloc_def with_capacity_def PINNED_PREG_def VREG_MAX_def
      reg_from_virtual_reg_def SPILLSLOT_MASK_def SPILLSLOT_BIT_def)
  have a3: "set_reg_alias ?s2 (Reg 768) (Reg 772) = Some ?s3"
    using d n by (simp add: set_reg_alias_def with_capacity_def vec_get_def PINNED_PREG_def resolve_alias_def nth_append)
  have r: "allocator_reach 0 ?rc ?s3" using reach_alias [OF reach_alloc [OF reach_alloc [OF reach_init a1] a2] a3] .
  from alias_resolution_total [OF r, of "VReg 768"] obtain w where w: "resolve_alias ?s3 (VReg 768) = Some w"
    "map_of (vreg_alias ?s3) w = None" "vec_get (vreg_types ?s3) (vreg_vreg w) = vec_get (vreg_types ?s3) (vreg_vreg (VReg 768))"
    by blast
  moreover have "resolve_alias ?s3 (VReg 768) = Some (VReg 772)" by (simp add: resolve_alias_def)
  ultimately show ?thesis using a1 a2 a3 by auto
qed

text \<open>recording that one register is an alias of another redirects exactly the registers that
  resolved to the source: afterwards source and target resolve to the same register, and every other
  resolution is unchanged.\<close>

theorem set_reg_alias_effect:
  assumes "allocator_reach invalid_ty rc self" and "set_reg_alias self from to = Some self'"
  shows "\<exists>f t rt. reg_to_virtual_reg from = Some (Some f) \<and> reg_to_virtual_reg to = Some (Some t) \<and>
    resolve_alias self t = Some rt \<and> resolve_alias self' f = Some rt \<and> resolve_alias self' t = Some rt \<and>
    (\<forall>v w. resolve_alias self v = Some w \<longrightarrow> resolve_alias self' v = Some (if w = f then rt else w))"
  using assms(2)
proof (rule set_reg_alias_Some)
  fix f t rt ty
  assume *: "reg_to_virtual_reg from = Some (Some f)" "reg_to_virtual_reg to = Some (Some t)"
    "resolve_alias self t = Some rt" "f \<noteq> rt" "map_of (vreg_alias self) f = None"
    "self' = self\<lparr>vreg_alias := (f, rt) # vreg_alias self\<rparr>"
  have i: "alias_inv self" using reach_inv [OF assms(1)] .
  have rt: "map_of (vreg_alias self) rt = None" using resolve_sink *(3) unfolding resolve_alias_def by blast
  have a: "acyclic (edges ((f, rt) # vreg_alias self))"
    using alias_inv_set [OF i assms(2)] *(6) by (simp add: alias_inv_def)
  note r = resolve_after_set [OF i *(5) rt *(4) _ a, folded *(6)]
  have "resolve_alias self f = Some f" using *(5) by (simp add: resolve_alias_def)
  then show ?thesis using *(1-4) r by fastforce
qed

end
