(* ===== verification/Alloc_Output.thy ===== *)
theory Alloc_Output
  imports Reg_Encoding
begin

text \<open>
  The result of register allocation and how code emission walks it: instruction indices and ranges
  (\<^verbatim>\<open>taki_mir/src/reg_alloc/index.rs\<close>), \<open>Output\<close> with its per-instruction allocations, the cursor
  over the allocations of one instruction, and the iterator that interleaves the instructions of a
  block with the allocator's moves (\<^verbatim>\<open>taki_mir/src/reg_alloc/reg.rs\<close>).
\<close>

section \<open>Indices\<close>

datatype ix = Ix u32

fun ix_raw :: "ix \<Rightarrow> u32" where
  "ix_raw (Ix w) = w"

definition ix_new :: "usize \<Rightarrow> ix" where
  "ix_new i = Ix (u32_of_usize i)"

definition ix_invalid :: ix where
  "ix_invalid = Ix (- 1)"

definition ix_is_invalid :: "ix \<Rightarrow> bool" where
  "ix_is_invalid i = (i = ix_invalid)"

definition ix_is_valid :: "ix \<Rightarrow> bool" where
  "ix_is_valid i = (i \<noteq> ix_invalid)"

definition ix_index :: "ix \<Rightarrow> usize rust" where
  "ix_index i = do { rassert (ix_is_valid i); Some (unat (ix_raw i)) }"

definition ix_next :: "ix \<Rightarrow> ix rust" where
  "ix_next i = do { rassert (ix_is_valid i); w \<leftarrow> u32_add (ix_raw i) 1; Some (Ix w) }"

definition ix_prev :: "ix \<Rightarrow> ix rust" where
  "ix_prev i = do { rassert (ix_is_valid i); w \<leftarrow> u32_sub (ix_raw i) 1; Some (Ix w) }"

text \<open>The storage a two-argument \<open>define_index!\<close> generates.\<close>

definition storage_push :: "'a list \<Rightarrow> 'a \<Rightarrow> ix \<times> 'a list" where
  "storage_push xs x = (Ix (u32_of_usize (length xs)), xs @ [x])"

definition storage_get :: "'a list \<Rightarrow> ix \<Rightarrow> 'a rust" where
  "storage_get xs i = do { k \<leftarrow> ix_index i; vec_get xs k }"

definition storage_set :: "'a list \<Rightarrow> ix \<Rightarrow> 'a \<Rightarrow> 'a list rust" where
  "storage_set xs i x = do { k \<leftarrow> ix_index i; vec_set xs k x }"

type_synonym inst_range = "ix \<times> ix"

definition inst_range_new :: "ix \<Rightarrow> ix \<Rightarrow> inst_range rust" where
  "inst_range_new from to = do {
     a \<leftarrow> ix_index from; b \<leftarrow> ix_index to;
     rassert (a \<le> b);
     Some (from, to) }"

definition inst_range_len :: "inst_range \<Rightarrow> usize rust" where
  "inst_range_len r = do { b \<leftarrow> ix_index (snd r); a \<leftarrow> ix_index (fst r); usize_sub b a }"

definition inst_range_first :: "inst_range \<Rightarrow> ix rust" where
  "inst_range_first r = do { n \<leftarrow> inst_range_len r; rassert (n > 0); Some (fst r) }"

definition inst_range_last :: "inst_range \<Rightarrow> ix rust" where
  "inst_range_last r = do { n \<leftarrow> inst_range_len r; rassert (n > 0); ix_prev (snd r) }"

definition inst_range_rest :: "inst_range \<Rightarrow> inst_range rust" where
  "inst_range_rest r = do {
     n \<leftarrow> inst_range_len r; rassert (n > 0);
     i \<leftarrow> ix_next (fst r);
     inst_range_new i (snd r) }"

definition inst_range_iter :: "inst_range \<Rightarrow> ix list rust" where
  "inst_range_iter r = do {
     a \<leftarrow> ix_index (fst r); b \<leftarrow> ix_index (snd r);
     Some (map ix_new [a..<b]) }"

section \<open>The allocation of one instruction\<close>

record allocation_cursor =
  allocations :: "allocation list"
  cursor_next_pos :: usize

definition cursor_new :: "allocation list \<Rightarrow> allocation_cursor" where
  "cursor_new allocs = \<lparr>allocations = allocs, cursor_next_pos = 0\<rparr>"

text \<open>The two error messages, with the numbers and names they mention.\<close>

datatype cursor_error = OmittedLocation usize string | UnusedLocations usize string

definition cursor_next ::
  "allocation_cursor \<Rightarrow> string \<Rightarrow> (cursor_error + allocation) \<times> allocation_cursor" where
  "cursor_next self operand = (case vec_get (allocations self) (cursor_next_pos self) of
      Some a \<Rightarrow> (Inr a, self\<lparr>cursor_next_pos := cursor_next_pos self + 1\<rparr>)
    | None \<Rightarrow> (Inl (OmittedLocation (cursor_next_pos self) operand), self))"

definition cursor_finish :: "allocation_cursor \<Rightarrow> string \<Rightarrow> (cursor_error + unit) rust" where
  "cursor_finish self inst =
     (if cursor_next_pos self = length (allocations self) then Some (Inr ())
      else do {
        n \<leftarrow> usize_sub (length (allocations self)) (cursor_next_pos self);
        Some (Inl (UnusedLocations n inst)) })"

section \<open>The whole output\<close>

datatype edit = Move allocation allocation reg_class "u32 option"

record ra_output =
  num_spillslots :: usize
  out_edits :: "(prog_point \<times> edit) list"
  out_allocs :: "allocation list"
  inst_alloc_offsets :: "u32 list"

definition slice :: "'a list \<Rightarrow> usize \<Rightarrow> usize \<Rightarrow> 'a list rust" where
  "slice xs a b = (if a \<le> b \<and> b \<le> length xs then Some (take (b - a) (drop a xs)) else None)"

definition inst_allocs :: "ra_output \<Rightarrow> u32 \<Rightarrow> allocation list rust" where
  "inst_allocs self inst = do {
     start \<leftarrow> vec_get (inst_alloc_offsets self) (unat inst);
     stop \<leftarrow> (if unat inst + 1 = length (inst_alloc_offsets self)
             then Some (length (out_allocs self))
             else do { e \<leftarrow> vec_get (inst_alloc_offsets self) (unat inst + 1); Some (unat e) });
     slice (out_allocs self) (unat start) stop }"

datatype inst_or_edit = InstItem ix | EditItem edit

record output_iter =
  oi_range :: inst_range
  oi_edits :: "(prog_point \<times> edit) list"

text \<open>\<open>binary_search_by\<close> with a comparison that is never \<open>Equal\<close> returns, on a sorted slice, the
  number of elements before the sought point.\<close>

definition block_insts_and_edits :: "ra_output \<Rightarrow> inst_range \<Rightarrow> output_iter rust" where
  "block_insts_and_edits self insts = do {
     i \<leftarrow> inst_range_first insts;
     let first_pp = point_before (ix_raw i);
     let edit_start = length (takeWhile (\<lambda>e. fst e < first_pp) (out_edits self));
     Some \<lparr>oi_range = insts, oi_edits = drop edit_start (out_edits self)\<rparr> }"

definition output_iter_next :: "output_iter \<Rightarrow> (inst_or_edit \<times> output_iter) option rust" where
  "output_iter_next self = do {
     n \<leftarrow> inst_range_len (oi_range self);
     if n = 0 then Some None
     else do {
       i \<leftarrow> inst_range_first (oi_range self);
       let emit_inst = do {
         rest \<leftarrow> inst_range_rest (oi_range self);
         Some (Some (InstItem i, self\<lparr>oi_range := rest\<rparr>)) };
       (case oi_edits self of
          first_edit # rest \<Rightarrow>
            if fst first_edit \<le> point_before (ix_raw i)
            then Some (Some (EditItem (snd first_edit), self\<lparr>oi_edits := rest\<rparr>))
            else emit_inst
        | [] \<Rightarrow> emit_inst) } }"

partial_function (option) output_iter_collect :: "output_iter \<Rightarrow> inst_or_edit list option" where
  "output_iter_collect self = do {
     item \<leftarrow> output_iter_next self;
     (case item of
        None \<Rightarrow> Some []
      | Some (x, self') \<Rightarrow> do { xs \<leftarrow> output_iter_collect self'; Some (x # xs) }) }"

declare output_iter_collect.simps [code]

section \<open>Instruction ranges\<close>

lemma ix_valid_iff: "ix_is_valid (Ix w) = (unat w < 2 ^ 32 - 1)"
proof -
  have "(- 1 :: u32) = 0xFFFFFFFF" by simp
  then have "(w = - 1) = (unat w = 2 ^ 32 - 1)" by (simp only: word_unat_eq_iff) simp
  then show ?thesis using unat_lt [of w] by (auto simp: ix_is_valid_def ix_invalid_def)
qed

lemma ix_new_props:
  assumes "i < 2 ^ 32 - 1"
  shows "ix_index (ix_new i) = Some i" "unat (ix_raw (ix_new i)) = i"
proof -
  have u: "unat (word_of_nat i :: u32) = i" using assms by (intro unat_of_nat_lt) simp
  show "ix_index (ix_new i) = Some i" "unat (ix_raw (ix_new i)) = i"
    using assms by (simp_all add: ix_index_def ix_new_def u32_of_usize_def ix_valid_iff u)
qed

lemma ix_new_next: "i + 1 < 2 ^ 32 - 1 \<Longrightarrow> ix_next (ix_new i) = Some (ix_new (i + 1))"
proof -
  assume i: "i + 1 < 2 ^ 32 - 1"
  then have u: "unat (word_of_nat i :: u32) = i" by (intro unat_of_nat_lt) simp
  then have "u32_add (word_of_nat i) 1 = Some (word_of_nat (i + 1))"
    using i by (simp add: u32_add_eq_Some ac_simps)
  then show ?thesis using i u by (simp add: ix_next_def ix_new_def u32_of_usize_def ix_valid_iff)
qed

lemma range_ops:
  assumes "a < b" "b < 2 ^ 32 - 1"
  shows "inst_range_len (ix_new a, ix_new b) = Some (b - a)" "inst_range_first (ix_new a, ix_new b) = Some (ix_new a)"
    "inst_range_rest (ix_new a, ix_new b) = Some (ix_new (a + 1), ix_new b)"
  using assms ix_new_next [of a] ix_new_props
  by (simp_all add: inst_range_len_def inst_range_first_def inst_range_rest_def inst_range_new_def usize_sub_def)

lemma range_empty: "b < 2 ^ 32 - 1 \<Longrightarrow> inst_range_len (ix_new b, ix_new b) = Some 0"
  using ix_new_props by (simp add: inst_range_len_def usize_sub_def)

section \<open>Walking a block\<close>

abbreviation before_nat :: "nat \<Rightarrow> prog_point" where
  "before_nat i \<equiv> point_before (ix_raw (ix_new i))"

lemma before_nat_value: "i < 2 ^ 31 \<Longrightarrow> unat (point_bits (before_nat i)) = 2 * i"
  using point_unat(1) [of "ix_raw (ix_new i)"] ix_new_props(2) [of i] by simp

text \<open>The walk, one instruction at a time.\<close>

function block_items :: "nat \<Rightarrow> nat \<Rightarrow> (prog_point \<times> edit) list \<Rightarrow> inst_or_edit list" where
  "block_items a b es =
    (if a < b then
       map (EditItem \<circ> snd) (takeWhile (\<lambda>e. fst e \<le> before_nat a) es) @ InstItem (ix_new a) #
       block_items (a + 1) b (dropWhile (\<lambda>e. fst e \<le> before_nat a) es)
     else [])"
  by pat_completeness auto
termination
  by (relation "measure (\<lambda>(a, b, es). b - a)") auto

declare block_items.simps [simp del]

lemma collect_step_edit:
  assumes "a < b" "b < 2 ^ 32 - 1" "fst e \<le> before_nat a"
    "output_iter_collect \<lparr>oi_range = (ix_new a, ix_new b), oi_edits = es\<rparr> = Some xs"
  shows "output_iter_collect \<lparr>oi_range = (ix_new a, ix_new b), oi_edits = e # es\<rparr> = Some (EditItem (snd e) # xs)"
  using assms by (subst output_iter_collect.simps) (simp add: output_iter_next_def range_ops Let_def)

lemma collect_step_inst:
  assumes "a < b" "b < 2 ^ 32 - 1" "es = [] \<or> \<not> fst (hd es) \<le> before_nat a"
    "output_iter_collect \<lparr>oi_range = (ix_new (a + 1), ix_new b), oi_edits = es\<rparr> = Some xs"
  shows "output_iter_collect \<lparr>oi_range = (ix_new a, ix_new b), oi_edits = es\<rparr> = Some (InstItem (ix_new a) # xs)"
  using assms by (cases es; subst output_iter_collect.simps) (simp_all add: output_iter_next_def range_ops Let_def)

lemma collect_edits:
  assumes "a < b" "b < 2 ^ 32 - 1"
    "output_iter_collect \<lparr>oi_range = (ix_new (a + 1), ix_new b), oi_edits = dropWhile (\<lambda>e. fst e \<le> before_nat a) es\<rparr> = Some xs"
  shows "output_iter_collect \<lparr>oi_range = (ix_new a, ix_new b), oi_edits = es\<rparr> =
    Some (map (EditItem \<circ> snd) (takeWhile (\<lambda>e. fst e \<le> before_nat a) es) @ InstItem (ix_new a) # xs)"
  using assms(3)
proof (induction es)
  case Nil
  then show ?case using collect_step_inst [OF assms(1,2)] by simp
next
  case (Cons e es)
  then show ?case using collect_step_edit [OF assms(1,2), of e es] collect_step_inst [OF assms(1,2), of "e # es" xs]
    by (cases "fst e \<le> before_nat a") simp_all
qed

lemma collect_block_items:
  assumes "a \<le> b" "b < 2 ^ 32 - 1"
  shows "output_iter_collect \<lparr>oi_range = (ix_new a, ix_new b), oi_edits = es\<rparr> = Some (block_items a b es)"
  using assms
proof (induction a b es rule: block_items.induct)
  case (1 a b es)
  show ?case
  proof (cases "a < b")
    case True
    then show ?thesis using 1 collect_edits [OF True] by (simp add: block_items.simps [of a])
  next
    case False
    then have "a = b" using 1 by simp
    then show ?thesis using range_empty [of b] 1
      by (subst output_iter_collect.simps) (simp add: output_iter_next_def block_items.simps)
  qed
qed

text \<open>On sorted edits the prefixes are the edits of an interval of program points.\<close>

lemma sorted_takeWhile_filter:
  "sorted (map fst es) \<Longrightarrow> takeWhile (\<lambda>e. fst e \<le> p) es = filter (\<lambda>e. fst e \<le> p) es" for p :: "'b::linorder"
  by (induction es) (fastforce intro!: filter_False [symmetric])+

lemma sorted_dropWhile_filter:
  "sorted (map fst es) \<Longrightarrow> dropWhile (\<lambda>e. fst e \<le> p) es = filter (\<lambda>e. p < fst e) es" for p :: "'b::linorder"
  by (induction es) (fastforce intro!: filter_True [symmetric])+

lemma sorted_drop_less:
  "sorted (map fst es) \<Longrightarrow> drop (length (takeWhile (\<lambda>e. fst e < p) es)) es = filter (\<lambda>e. p \<le> fst e) es" for p :: "'b::linorder"
  by (induction es) (fastforce intro!: filter_True [symmetric])+

definition edits_before :: "(prog_point \<times> edit) list \<Rightarrow> nat \<Rightarrow> nat \<Rightarrow> (prog_point \<times> edit) list" where
  "edits_before es a i = filter (\<lambda>e. (if i = a then before_nat a \<le> fst e else before_nat (i - 1) < fst e) \<and> fst e \<le> before_nat i) es"

lemma block_items_sorted:
  assumes "b \<le> 2 ^ 31" "sorted (map fst es)" "a \<le> i" "a < i \<longrightarrow> es' = filter (\<lambda>e. before_nat (i - 1) < fst e) es"
    "a = i \<longrightarrow> es' = filter (\<lambda>e. before_nat a \<le> fst e) es"
  shows "block_items i b es' =
    concat (map (\<lambda>k. map (EditItem \<circ> snd) (edits_before es a k) @ [InstItem (ix_new k)]) [i..<b])"
  using assms
proof (induction "b - i" arbitrary: i es')
  case 0
  then show ?case by (simp add: block_items.simps)
next
  case (Suc n)
  then have i: "i < b" by simp
  have s: "sorted (map fst es')" using Suc.prems(2,4,5) sorted_filter [of fst es] by (cases "a = i") (use Suc.prems(3) in auto)
  have le: "before_nat a \<le> before_nat i \<and> (a < i \<longrightarrow> before_nat (i - 1) < before_nat i)"
    using i Suc.prems(1,3) before_nat_value by (auto simp: prog_point_le prog_point_less)
  have tw: "takeWhile (\<lambda>e. fst e \<le> before_nat i) es' = edits_before es a i"
    using Suc.prems(3-5) unfolding sorted_takeWhile_filter [OF s] edits_before_def
    by (cases "a = i") (auto simp: conj_commute)
  have dw: "dropWhile (\<lambda>e. fst e \<le> before_nat i) es' = filter (\<lambda>e. before_nat i < fst e) es"
    using Suc.prems(3-5) le unfolding sorted_dropWhile_filter [OF s]
    by (cases "a = i") (auto intro!: filter_cong)
  have "block_items (i + 1) b (dropWhile (\<lambda>e. fst e \<le> before_nat i) es') =
      concat (map (\<lambda>k. map (EditItem \<circ> snd) (edits_before es a k) @ [InstItem (ix_new k)]) [i + 1..<b])"
    using Suc.hyps Suc.prems(1-3) dw by (intro Suc.hyps(1)) auto
  then show ?case using i tw by (simp add: block_items.simps [of i] upt_conv_Cons)
qed

section \<open>Properties\<close>

text \<open>C27: walking a block yields each of its instructions once, in order, and directly before each
  one, in stored order, exactly the moves placed between the previous instruction and it (for the
  first instruction: the moves at the point before it).\<close>

theorem block_walk_order:
  assumes "a < b" and "b < 2 ^ 31" and "sorted (map fst (out_edits out))"
  shows "\<exists>it. block_insts_and_edits out (ix_new a, ix_new b) = Some it \<and>
    output_iter_collect it = Some (concat (map
      (\<lambda>i. map (EditItem \<circ> snd) (filter (\<lambda>e.
               (if i = a then point_before (ix_raw (ix_new a)) \<le> fst e
                else point_before (ix_raw (ix_new (i - 1))) < fst e) \<and>
               fst e \<le> point_before (ix_raw (ix_new i))) (out_edits out)) @ [InstItem (ix_new i)])
      [a..<b]))"
proof -
  let ?es = "filter (\<lambda>e. before_nat a \<le> fst e) (out_edits out)"
  have "block_insts_and_edits out (ix_new a, ix_new b) = Some \<lparr>oi_range = (ix_new a, ix_new b), oi_edits = ?es\<rparr>"
    using assms range_ops(2) [of a b] sorted_drop_less [OF assms(3)] by (simp add: block_insts_and_edits_def Let_def)
  moreover have "output_iter_collect \<lparr>oi_range = (ix_new a, ix_new b), oi_edits = ?es\<rparr> = Some (block_items a b ?es)"
    using assms by (intro collect_block_items) auto
  moreover have "block_items a b ?es = concat (map (\<lambda>k. map (EditItem \<circ> snd) (edits_before (out_edits out) a k) @ [InstItem (ix_new k)]) [a..<b])"
    using assms by (intro block_items_sorted) auto
  ultimately show ?thesis by (simp add: edits_before_def)
qed

theorem block_walk_order_witness:
  "\<exists>it xs. block_insts_and_edits \<lparr>num_spillslots = 0, out_edits = [(point_after 3, Move (Allocation 0) (Allocation 1) IntClass None)],
       out_allocs = [], inst_alloc_offsets = []\<rparr> (ix_new 3, ix_new 5) = Some it \<and>
     output_iter_collect it = Some xs \<and> length (filter (\<lambda>x. \<exists>i. x = InstItem i) xs) = 2"
proof -
  let ?o = "\<lparr>num_spillslots = 0, out_edits = [(point_after 3, Move (Allocation 0) (Allocation 1) IntClass None)],
       out_allocs = [], inst_alloc_offsets = []\<rparr>"
  have "sorted (map fst (out_edits ?o))" by simp
  from block_walk_order [OF _ _ this, of 3 5] show ?thesis
    by (auto simp: upt_rec filter_concat comp_def)
qed

text \<open>A sequence of requests, as an emitter makes them.\<close>

fun cursor_take :: "allocation_cursor \<Rightarrow> string list \<Rightarrow> (cursor_error + allocation list) \<times> allocation_cursor" where
  "cursor_take c [] = (Inr [], c)"
| "cursor_take c (n # ns) = (case cursor_next c n of
      (Inl e, c') \<Rightarrow> (Inl e, c')
    | (Inr a, c') \<Rightarrow> (case cursor_take c' ns of
          (Inl e, c'') \<Rightarrow> (Inl e, c'')
        | (Inr as, c'') \<Rightarrow> (Inr (a # as), c'')))"

lemma cursor_take_from:
  "k + length ns \<le> length xs \<Longrightarrow>
   cursor_take \<lparr>allocations = xs, cursor_next_pos = k\<rparr> ns =
     (Inr (take (length ns) (drop k xs)), \<lparr>allocations = xs, cursor_next_pos = k + length ns\<rparr>)"
proof (induction ns arbitrary: k)
  case (Cons n ns)
  then have "drop k xs = xs ! k # drop (Suc k) xs" by (simp add: Cons_nth_drop_Suc)
  then show ?case using Cons by (simp add: cursor_next_def vec_get_def)
qed simp

text \<open>the cursor over an instruction's allocations hands them out in order and exactly once: \<open>n\<close>
  requests return the first \<open>n\<close> allocations, a further request fails when none is left, and finishing
  succeeds exactly when all were consumed, reporting the number left over otherwise.\<close>

theorem cursor_consumes_all:
  assumes "length ns \<le> length xs"
  shows "\<exists>c. cursor_take (cursor_new xs) ns = (Inr (take (length ns) xs), c) \<and>
    cursor_finish c inst =
      Some (if length ns = length xs then Inr () else Inl (UnusedLocations (length xs - length ns) inst)) \<and>
    (length ns = length xs \<longrightarrow> cursor_next c operand = (Inl (OmittedLocation (length xs) operand), c))"
  using assms cursor_take_from [of 0 ns xs]
  by (simp add: cursor_new_def cursor_finish_def usize_sub_def cursor_next_def vec_get_def)

text \<open>when the offsets are non-decreasing and bounded, the allocation lists of consecutive
  instructions are consecutive slices: together they are the whole allocation array.\<close>

theorem inst_allocs_partition:
  assumes "inst_alloc_offsets out = off" and "off \<noteq> []" and "hd off = 0" and "sorted (map unat off)"
    and "unat (last off) \<le> length (out_allocs out)" and "length off < 2 ^ 32"
  shows "\<exists>parts. length parts = length off \<and> concat parts = out_allocs out \<and>
    (\<forall>i < length off. inst_allocs out (word_of_nat i) = Some (parts ! i))"
proof -
  let ?n = "length off" and ?A = "out_allocs out"
  define stop where "stop i = (if i + 1 = ?n then length ?A else unat (off ! (i + 1)))" for i
  define part where "part i = take (stop i - unat (off ! i)) (drop (unat (off ! i)) ?A)" for i
  have mono: "unat (off ! i) \<le> unat (off ! j)" if "i \<le> j" "j < ?n" for i j
    using sorted_nth_mono [OF assms(4), of i j] that by simp
  have last: "unat (off ! j) \<le> length ?A" if "j < ?n" for j
  proof -
    have "unat (off ! j) \<le> unat (off ! (?n - 1))" using that by (intro mono) auto
    then show ?thesis using assms(2,5) by (simp add: last_conv_nth)
  qed
  have bnd: "unat (off ! i) \<le> stop i \<and> stop i \<le> length ?A" if "i < ?n" for i
    using that mono [of i "i + 1"] last [of "i + 1"] last [of i] by (auto simp: stop_def)
  have get: "inst_allocs out (word_of_nat i) = Some (part i)" if "i < ?n" for i
  proof -
    have "unat (word_of_nat i :: u32) = i" using that assms(6) by (intro unat_of_nat_lt) simp
    then show ?thesis using that assms(1) bnd [OF that]
      by (simp add: inst_allocs_def vec_get_def slice_def part_def stop_def split: if_splits)
  qed
  have pre: "concat (map part [0..<k]) = take (unat (off ! k)) ?A" if "k < ?n" for k
    using that
  proof (induction k)
    case 0
    then show ?case using assms(2,3) by (simp add: hd_conv_nth)
  next
    case (Suc k)
    then have st: "stop k = unat (off ! Suc k)" by (simp add: stop_def)
    have "take (unat (off ! Suc k)) ?A = take (unat (off ! k)) ?A @ part k"
      using mono [of k "Suc k"] Suc.prems by (simp add: part_def st take_add [symmetric])
    then show ?case using Suc by simp
  qed
  have "concat (map part [0..<?n]) = concat (map part [0..<?n - 1]) @ part (?n - 1)"
    using assms(2) by (cases off rule: rev_cases) simp_all
  also have "\<dots> = take (unat (off ! (?n - 1))) ?A @ part (?n - 1)" using pre [of "?n - 1"] assms(2) by simp
  also have "\<dots> = ?A" using assms(2) by (simp add: part_def stop_def)
  finally show ?thesis using get by (intro exI [of _ "map part [0..<?n]"]) simp
qed

end
