(* ===== verification/Reg_Operands.thy ===== *)
theory Reg_Operands
  imports PReg_Sets
begin

text \<open>
  How an instruction's registers become operands for the allocator and how the allocation is written
  back (\<^verbatim>\<open>taki_mir/src/reg_alloc/reg.rs\<close>): the \<open>OperandVisitor\<close> trait, here a record of its
  methods, the methods \<open>OperandVisitorImpl\<close> derives from it, and the two visitors of the code, the
  \<open>OperandCollector\<close> that records operands and the \<open>OperandWriter\<close> that replaces registers by their
  allocations. An instruction's \<open>get_operands\<close> is a sequence of visitor calls on its registers; the
  same sequence is run once with each visitor.
\<close>

section \<open>Model\<close>

record 'v operand_visitor =
  add_operand :: "'v \<Rightarrow> reg \<Rightarrow> operand_constraint \<Rightarrow> operand_kind \<Rightarrow> operand_pos \<Rightarrow> (reg \<times> 'v) rust"
  assert_allocatable :: "'v \<Rightarrow> preg \<Rightarrow> bool \<Rightarrow> unit rust"
  reg_clobbers :: "'v \<Rightarrow> preg_set \<Rightarrow> 'v"

definition visit_fixed_nonallocatable :: "'v operand_visitor \<Rightarrow> 'v \<Rightarrow> preg \<Rightarrow> 'v rust" where
  "visit_fixed_nonallocatable V v r = do { _ \<leftarrow> assert_allocatable V v r False; Some v }"

definition visit_fixed ::
  "'v operand_visitor \<Rightarrow> 'v \<Rightarrow> reg \<Rightarrow> reg \<Rightarrow> operand_kind \<Rightarrow> operand_pos \<Rightarrow> (reg \<times> 'v) rust" where
  "visit_fixed V v r rreg kind pos = do {
     virt \<leftarrow> reg_is_virtual r;
     rassert virt;
     p \<leftarrow> reg_to_physical_reg rreg;
     _ \<leftarrow> assert_allocatable V v p True;
     add_operand V v r (FixedReg p) kind pos }"

definition visit_maybe_fixed ::
  "'v operand_visitor \<Rightarrow> 'v \<Rightarrow> reg \<Rightarrow> operand_kind \<Rightarrow> operand_pos \<Rightarrow> (reg \<times> 'v) rust" where
  "visit_maybe_fixed V v r kind pos = (case reg_to_physical_reg r of
      Some p \<Rightarrow> do { v' \<leftarrow> visit_fixed_nonallocatable V v p; Some (r, v') }
    | None \<Rightarrow> do {
        virt \<leftarrow> reg_is_virtual r;
        rassert virt;
        add_operand V v r RegLoc kind pos })"

definition visit_reg_use :: "'v operand_visitor \<Rightarrow> 'v \<Rightarrow> reg \<Rightarrow> (reg \<times> 'v) rust" where
  "visit_reg_use V v r = visit_maybe_fixed V v r Use Early"

definition visit_reg_late_use :: "'v operand_visitor \<Rightarrow> 'v \<Rightarrow> reg \<Rightarrow> (reg \<times> 'v) rust" where
  "visit_reg_late_use V v r = visit_maybe_fixed V v r Use Late"

definition visit_reg_def :: "'v operand_visitor \<Rightarrow> 'v \<Rightarrow> reg \<Rightarrow> (reg \<times> 'v) rust" where
  "visit_reg_def V v r = visit_maybe_fixed V v r Def Late"

definition visit_reg_def_reg :: "'v operand_visitor \<Rightarrow> 'v \<Rightarrow> reg \<Rightarrow> (reg \<times> 'v) rust" where
  "visit_reg_def_reg V v r = visit_maybe_fixed V v r Def Late"

definition visit_reg_early_def :: "'v operand_visitor \<Rightarrow> 'v \<Rightarrow> reg \<Rightarrow> (reg \<times> 'v) rust" where
  "visit_reg_early_def V v r = visit_maybe_fixed V v r Def Early"

definition visit_reg_fixed_late_use :: "'v operand_visitor \<Rightarrow> 'v \<Rightarrow> reg \<Rightarrow> reg \<Rightarrow> (reg \<times> 'v) rust" where
  "visit_reg_fixed_late_use V v r rreg = visit_fixed V v r rreg Use Late"

definition visit_reg_fixed_use :: "'v operand_visitor \<Rightarrow> 'v \<Rightarrow> reg \<Rightarrow> reg \<Rightarrow> (reg \<times> 'v) rust" where
  "visit_reg_fixed_use V v r rreg = visit_fixed V v r rreg Use Early"

definition visit_reg_fixed_def :: "'v operand_visitor \<Rightarrow> 'v \<Rightarrow> reg \<Rightarrow> reg \<Rightarrow> (reg \<times> 'v) rust" where
  "visit_reg_fixed_def V v r rreg = visit_fixed V v r rreg Def Late"

definition visit_reg_fixed_def_reg :: "'v operand_visitor \<Rightarrow> 'v \<Rightarrow> reg \<Rightarrow> reg \<Rightarrow> (reg \<times> 'v) rust" where
  "visit_reg_fixed_def_reg V v r rreg = visit_fixed V v r rreg Def Late"

definition visit_reg_reuse_def :: "'v operand_visitor \<Rightarrow> 'v \<Rightarrow> reg \<Rightarrow> usize \<Rightarrow> (reg \<times> 'v) rust" where
  "visit_reg_reuse_def V v r idx = (case reg_to_physical_reg r of
      Some p \<Rightarrow> do { v' \<leftarrow> visit_fixed_nonallocatable V v p; Some (r, v') }
    | None \<Rightarrow> do {
        virt \<leftarrow> reg_is_virtual r;
        rassert virt;
        add_operand V v r (Reuse idx) Def Late })"

definition visit_reg_reuse_def_reg :: "'v operand_visitor \<Rightarrow> 'v \<Rightarrow> reg \<Rightarrow> usize \<Rightarrow> (reg \<times> 'v) rust" where
  "visit_reg_reuse_def_reg V v r idx = (case reg_to_physical_reg r of
      Some p \<Rightarrow> do { v' \<leftarrow> visit_fixed_nonallocatable V v p; Some (r, v') }
    | None \<Rightarrow> do {
        virt \<leftarrow> reg_is_virtual r;
        rassert virt;
        add_operand V v r (Reuse idx) Def Late })"

definition visit_any_def :: "'v operand_visitor \<Rightarrow> 'v \<Rightarrow> reg \<Rightarrow> (reg \<times> 'v) rust" where
  "visit_any_def V v r = add_operand V v r AnyLoc Def Late"

definition visit_any_late_use :: "'v operand_visitor \<Rightarrow> 'v \<Rightarrow> reg \<Rightarrow> (reg \<times> 'v) rust" where
  "visit_any_late_use V v r = add_operand V v r AnyLoc Use Late"

section \<open>The collector and the writer\<close>

record operand_collector =
  operands :: "operand list"
  clobbers :: preg_set
  allocatable :: preg_set

definition collector_new :: "operand list \<Rightarrow> preg_set \<Rightarrow> operand_collector" where
  "collector_new ops alloc = \<lparr>operands = ops, clobbers = pset_empty, allocatable = alloc\<rparr>"

definition collector_finish :: "operand_collector \<Rightarrow> usize \<times> preg_set" where
  "collector_finish c = (length (operands c), clobbers c)"

definition collector_add_operand ::
  "(vreg \<Rightarrow> vreg) \<Rightarrow> operand_collector \<Rightarrow> reg \<Rightarrow> operand_constraint \<Rightarrow> operand_kind \<Rightarrow> operand_pos \<Rightarrow>
   (reg \<times> operand_collector) rust" where
  "collector_add_operand renamer self r constraint kind pos = do {
     spill \<leftarrow> reg_is_spillslot r;
     rassert (\<not> spill);
     let r' = Reg (vreg_repr (renamer (vreg_from_bits (reg_bits r))));
     op \<leftarrow> operand_new (vreg_from_bits (reg_bits r')) constraint kind pos;
     Some (r', self\<lparr>operands := operands self @ [op]\<rparr>) }"

definition collector_assert_allocatable :: "operand_collector \<Rightarrow> preg \<Rightarrow> bool \<Rightarrow> unit rust" where
  "collector_assert_allocatable self r expected = do {
     c \<leftarrow> pset_contains (allocatable self) r;
     rassert (c = expected) }"

definition collector_reg_clobbers :: "operand_collector \<Rightarrow> preg_set \<Rightarrow> operand_collector" where
  "collector_reg_clobbers self regs = self\<lparr>clobbers := pset_union_from (clobbers self) regs\<rparr>"

definition collector_visitor :: "(vreg \<Rightarrow> vreg) \<Rightarrow> operand_collector operand_visitor" where
  "collector_visitor renamer = \<lparr>add_operand = collector_add_operand renamer,
     assert_allocatable = collector_assert_allocatable, reg_clobbers = collector_reg_clobbers\<rparr>"

record operand_writer =
  writer_allocs :: "allocation list"
  writer_pos :: usize

definition writer_new :: "allocation list \<Rightarrow> operand_writer" where
  "writer_new allocs = \<lparr>writer_allocs = allocs, writer_pos = 0\<rparr>"

definition writer_add_operand ::
  "operand_writer \<Rightarrow> reg \<Rightarrow> operand_constraint \<Rightarrow> operand_kind \<Rightarrow> operand_pos \<Rightarrow> (reg \<times> operand_writer) rust" where
  "writer_add_operand self r constraint kind pos = do {
     alloc \<leftarrow> vec_get (writer_allocs self) (writer_pos self);
     let self' = self\<lparr>writer_pos := writer_pos self + 1\<rparr>;
     k \<leftarrow> allocation_get_kind alloc;
     (case k of
        KindReg \<Rightarrow> do { op \<leftarrow> allocation_as_reg alloc; p \<leftarrow> op; r' \<leftarrow> reg_from_physical_reg p; Some (r', self') }
      | KindStack \<Rightarrow> do { os \<leftarrow> allocation_as_stack alloc; s \<leftarrow> os; Some (reg_from_spillslot s, self') }
      | KindNone \<Rightarrow> Some (r, self')) }"

text \<open>The writer keeps the trait's default methods.\<close>

definition writer_visitor :: "operand_writer operand_visitor" where
  "writer_visitor = \<lparr>add_operand = writer_add_operand,
     assert_allocatable = (\<lambda>_ _ _. Some ()), reg_clobbers = (\<lambda>v _. v)\<rparr>"

section \<open>Sequences of visitor calls\<close>

datatype visit = VUse | VLateUse | VDef | VDefReg | VEarlyDef | VFixedLateUse reg | VFixedUse reg
  | VFixedDef reg | VFixedDefReg reg | VReuseDef usize | VReuseDefReg usize | VAnyDef | VAnyLateUse

fun run_visit :: "'v operand_visitor \<Rightarrow> 'v \<Rightarrow> visit \<Rightarrow> reg \<Rightarrow> (reg \<times> 'v) rust" where
  "run_visit V v VUse r = visit_reg_use V v r"
| "run_visit V v VLateUse r = visit_reg_late_use V v r"
| "run_visit V v VDef r = visit_reg_def V v r"
| "run_visit V v VDefReg r = visit_reg_def_reg V v r"
| "run_visit V v VEarlyDef r = visit_reg_early_def V v r"
| "run_visit V v (VFixedLateUse rreg) r = visit_reg_fixed_late_use V v r rreg"
| "run_visit V v (VFixedUse rreg) r = visit_reg_fixed_use V v r rreg"
| "run_visit V v (VFixedDef rreg) r = visit_reg_fixed_def V v r rreg"
| "run_visit V v (VFixedDefReg rreg) r = visit_reg_fixed_def_reg V v r rreg"
| "run_visit V v (VReuseDef i) r = visit_reg_reuse_def V v r i"
| "run_visit V v (VReuseDefReg i) r = visit_reg_reuse_def_reg V v r i"
| "run_visit V v VAnyDef r = visit_any_def V v r"
| "run_visit V v VAnyLateUse r = visit_any_late_use V v r"

fun run_visits :: "'v operand_visitor \<Rightarrow> 'v \<Rightarrow> (visit \<times> reg) list \<Rightarrow> (reg list \<times> 'v) rust" where
  "run_visits V v [] = Some ([], v)"
| "run_visits V v ((c, r) # calls) = do {
     (r', v') \<leftarrow> run_visit V v c r;
     (rs, v'') \<leftarrow> run_visits V v' calls;
     Some (r' # rs, v'') }"

text \<open>The operand a call adds, if it adds one: physical registers are skipped by all but the fixed
  and the unconstrained calls.\<close>

definition maybe_operand :: "reg \<Rightarrow> 'a \<Rightarrow> 'a option" where
  "maybe_operand r x = (if reg_to_physical_reg r = None then Some x else None)"

fun visit_operand :: "visit \<Rightarrow> reg \<Rightarrow> (operand_constraint \<times> operand_kind \<times> operand_pos) option" where
  "visit_operand VUse r = maybe_operand r (RegLoc, Use, Early)"
| "visit_operand VLateUse r = maybe_operand r (RegLoc, Use, Late)"
| "visit_operand VDef r = maybe_operand r (RegLoc, Def, Late)"
| "visit_operand VDefReg r = maybe_operand r (RegLoc, Def, Late)"
| "visit_operand VEarlyDef r = maybe_operand r (RegLoc, Def, Early)"
| "visit_operand (VFixedLateUse rreg) r = map_option (\<lambda>p. (FixedReg p, Use, Late)) (reg_to_physical_reg rreg)"
| "visit_operand (VFixedUse rreg) r = map_option (\<lambda>p. (FixedReg p, Use, Early)) (reg_to_physical_reg rreg)"
| "visit_operand (VFixedDef rreg) r = map_option (\<lambda>p. (FixedReg p, Def, Late)) (reg_to_physical_reg rreg)"
| "visit_operand (VFixedDefReg rreg) r = map_option (\<lambda>p. (FixedReg p, Def, Late)) (reg_to_physical_reg rreg)"
| "visit_operand (VReuseDef i) r = maybe_operand r (Reuse i, Def, Late)"
| "visit_operand (VReuseDefReg i) r = maybe_operand r (Reuse i, Def, Late)"
| "visit_operand VAnyDef r = Some (AnyLoc, Def, Late)"
| "visit_operand VAnyLateUse r = Some (AnyLoc, Use, Late)"

lemmas visit_defs = visit_reg_use_def visit_reg_late_use_def visit_reg_def_def visit_reg_def_reg_def
  visit_reg_early_def_def visit_reg_fixed_late_use_def visit_reg_fixed_use_def visit_reg_fixed_def_def
  visit_reg_fixed_def_reg_def visit_reg_reuse_def_def visit_reg_reuse_def_reg_def visit_any_def_def
  visit_any_late_use_def visit_maybe_fixed_def visit_fixed_def visit_fixed_nonallocatable_def

lemma run_visit_cases:
  assumes "run_visit V v c r = Some (r', v')"
  shows "case visit_operand c r of
      None \<Rightarrow> r' = r \<and> v' = v \<and> reg_to_physical_reg r \<noteq> None
    | Some (constraint, kind, pos) \<Rightarrow> add_operand V v r constraint kind pos = Some (r', v')"
  using assms
  by (cases c) (auto simp: visit_defs maybe_operand_def split: option.splits if_splits)

section \<open>The contract of a visitor\<close>

text \<open>Both visitors advance by one for every operand.\<close>

locale counting_visitor =
  fixes V :: "'v operand_visitor"
    and cnt :: "'v \<Rightarrow> nat"
  assumes add_counts: "add_operand V v r constraint kind pos = Some (r', v') \<Longrightarrow> cnt v' = cnt v + 1"
begin

lemma run_visit_counts:
  "run_visit V v c r = Some (r', v') \<Longrightarrow> cnt v' = cnt v + (if visit_operand c r = None then 0 else 1)"
  using run_visit_cases [of V v c r r' v'] by (auto split: option.splits prod.splits dest: add_counts)

lemma run_visits_counts:
  "run_visits V v calls = Some (rs, v') \<Longrightarrow>
     cnt v' = cnt v + length (filter (\<lambda>(c, r). visit_operand c r \<noteq> None) calls) \<and> length rs = length calls"
proof (induction calls arbitrary: v rs)
  case (Cons call calls)
  obtain c r where cr: "call = (c, r)" by fastforce
  obtain r1 v1 rs1 where s: "run_visit V v c r = Some (r1, v1)" "run_visits V v1 calls = Some (rs1, v')" "rs = r1 # rs1"
    using Cons.prems cr by auto
  show ?case using Cons.IH [OF s(2)] run_visit_counts [OF s(1)] s(3) cr by auto
qed simp

end

lemma collector_counts:
  "collector_add_operand ren c r constraint kind pos = Some (r', c') \<Longrightarrow> length (operands c') = length (operands c) + 1"
  by (auto simp: collector_add_operand_def Let_def)

lemma writer_counts:
  "writer_add_operand w r constraint kind pos = Some (r', w') \<Longrightarrow> writer_pos w' = writer_pos w + 1"
  by (auto simp: writer_add_operand_def Let_def split: allocation_kind.splits)
     (metis allocation_kind.exhaust)

interpretation collector: counting_visitor "collector_visitor ren" "\<lambda>c. length (operands c)" for ren
  by unfold_locales (simp add: collector_visitor_def collector_counts)

interpretation writer: counting_visitor writer_visitor writer_pos
  by unfold_locales (simp add: writer_visitor_def writer_counts)

section \<open>Writing allocations back\<close>

definition virtual_reg :: "reg \<Rightarrow> bool" where
  "virtual_reg r = (reg_to_virtual_reg r = Some (Some (vreg_from_bits (reg_bits r))))"

text \<open>An allocation the allocator produces: a physical register or a spill slot.\<close>

definition located :: "allocation \<Rightarrow> bool" where
  "located a = ((\<exists>p c. preg_class p = Some c \<and> allocation_reg p = Some a) \<or>
     (\<exists>i s. spill_new i = Some s \<and> allocation_stack s = Some a))"

lemma virtual_not_physical: "virtual_reg r \<Longrightarrow> reg_to_physical_reg r = None"
  by (auto simp: virtual_reg_def reg_to_virtual_reg_def reg_to_physical_reg_def split: if_splits)

lemma virtual_is_virtual: "virtual_reg r \<Longrightarrow> reg_is_virtual r = Some True"
  by (simp add: virtual_reg_def reg_is_virtual_def)

lemma is_virtual_virtual: "reg_is_virtual r = Some True \<Longrightarrow> virtual_reg r"
  by (auto simp: virtual_reg_def reg_is_virtual_def reg_to_virtual_reg_def split: if_splits)

lemma not_virtual_real: "reg_to_physical_reg r \<noteq> None \<Longrightarrow> \<not> virtual_reg r"
  using virtual_not_physical [of r] by auto

lemma allocation_kind_reg: "allocation_reg p = Some a \<Longrightarrow> allocation_get_kind a = Some KindReg"
  using allocation_decode by (simp add: allocation_reg_def)

lemma allocation_kind_stack: "allocation_stack s = Some a \<Longrightarrow> allocation_get_kind a = Some KindStack"
  using allocation_decode by (simp add: allocation_stack_def)

lemma writer_located:
  assumes "writer_pos w < length (writer_allocs w)" "located (writer_allocs w ! writer_pos w)"
  shows "\<exists>r'. writer_add_operand w r constraint kind pos = Some (r', w\<lparr>writer_pos := writer_pos w + 1\<rparr>) \<and>
    \<not> virtual_reg r'"
proof -
  let ?a = "writer_allocs w ! writer_pos w"
  have g: "vec_get (writer_allocs w) (writer_pos w) = Some ?a" using assms(1) by (simp add: vec_get_def)
  from assms(2) consider (reg) p c where "preg_class p = Some c" "allocation_reg p = Some ?a"
    | (stack) i s where "spill_new i = Some s" "allocation_stack s = Some ?a" unfolding located_def by blast
  then show ?thesis
  proof cases
    case reg
    obtain r' where r': "reg_from_physical_reg p = Some r'" "reg_to_physical_reg r' = Some p"
      using reg_physical_decode [OF reg(1)] by blast
    have "allocation_as_reg ?a = Some (Some p)" using allocation_reg_decode [of p] reg(2) by auto
    then show ?thesis using g r' allocation_kind_reg [OF reg(2)] not_virtual_real [of r']
      by (simp add: writer_add_operand_def Let_def)
  next
    case stack
    have "allocation_as_stack ?a = Some (Some s)" using allocation_stack_decode [OF stack(1)] stack(2) by auto
    moreover have "\<not> virtual_reg (reg_from_spillslot s)"
      using reg_spill_decode [OF stack(1)] by (simp add: virtual_reg_def)
    ultimately show ?thesis using g allocation_kind_stack [OF stack(2)]
      by (simp add: writer_add_operand_def Let_def)
  qed
qed

lemma collected_call:
  assumes "run_visit (collector_visitor ren) v c r = Some (r', v')"
    and "c \<in> {VAnyDef, VAnyLateUse} \<longrightarrow> virtual_reg r"
    and "\<And>r. virtual_reg r \<Longrightarrow> virtual_reg (Reg (vreg_repr (ren (vreg_from_bits (reg_bits r)))))"
  shows "visit_operand c r' = visit_operand c r \<and> (if visit_operand c r = None then reg_to_physical_reg r' \<noteq> None else virtual_reg r')"
proof (cases "visit_operand c r")
  case None
  then show ?thesis using run_visit_cases [OF assms(1)] by auto
next
  case (Some spec)
  have "virtual_reg r"
    using assms(1,2) Some
    by (cases c) (auto simp: visit_defs maybe_operand_def intro!: is_virtual_virtual split: option.splits if_splits)
  moreover obtain constraint kind pos where "spec = (constraint, kind, pos)" by (cases spec)
  moreover then have "collector_add_operand ren v r constraint kind pos = Some (r', v')"
    using run_visit_cases [OF assms(1)] Some by (simp add: collector_visitor_def)
  ultimately have v: "virtual_reg r'" using assms(3) by (auto simp: collector_add_operand_def Let_def)
  then show ?thesis using Some \<open>virtual_reg r\<close> virtual_not_physical [of r] virtual_not_physical [of r']
    by (cases c) (auto simp: maybe_operand_def)
qed

lemma run_visit_writer_add:
  assumes "visit_operand c r = Some (constraint, kind, pos)" "virtual_reg r"
  shows "run_visit writer_visitor w c r = writer_add_operand w r constraint kind pos"
  using assms virtual_not_physical [OF assms(2)] virtual_is_virtual [OF assms(2)]
  by (cases c) (auto simp: visit_defs writer_visitor_def maybe_operand_def)

lemma run_visit_writer_skip:
  assumes "visit_operand c r = None" "reg_to_physical_reg r \<noteq> None"
    "run_visit (collector_visitor ren) v c r0 = Some (r, v')" "visit_operand c r0 = None"
  shows "run_visit writer_visitor w c r = Some (r, w)"
  using assms by (cases c) (auto simp: visit_defs writer_visitor_def maybe_operand_def)

lemma write_back:
  assumes "run_visits (collector_visitor ren) v calls = Some (rs, v')"
    and "\<forall>(c, r) \<in> set calls. c \<in> {VAnyDef, VAnyLateUse} \<longrightarrow> virtual_reg r"
    and "\<And>r. virtual_reg r \<Longrightarrow> virtual_reg (Reg (vreg_repr (ren (vreg_from_bits (reg_bits r)))))"
    and "length (writer_allocs w) = writer_pos w + (length (operands v') - length (operands v))"
    and "\<forall>a \<in> set (writer_allocs w). located a"
  shows "\<exists>rs' w'. run_visits writer_visitor w (zip (map fst calls) rs) = Some (rs', w') \<and>
    writer_pos w' = length (writer_allocs w) \<and> (\<forall>r \<in> set rs'. \<not> virtual_reg r)"
  using assms(1,2,4,5)
proof (induction calls arbitrary: v rs w)
  case (Cons call calls)
  obtain c r where cr: "call = (c, r)" by fastforce
  obtain r1 v1 rs1 where s: "run_visit (collector_visitor ren) v c r = Some (r1, v1)"
    "run_visits (collector_visitor ren) v1 calls = Some (rs1, v')" "rs = r1 # rs1"
    using Cons.prems(1) cr by auto
  have n: "length (operands v1) = length (operands v) + (if visit_operand c r = None then 0 else 1)"
    using collector.run_visit_counts [OF s(1)] .
  have le: "length (operands v1) \<le> length (operands v')" using collector.run_visits_counts [OF s(2)] by simp
  have pr: "c \<in> {VAnyDef, VAnyLateUse} \<longrightarrow> virtual_reg r" using Cons.prems(2) cr by auto
  note cc = collected_call [OF s(1) pr assms(3)]
  show ?case
  proof (cases "visit_operand c r = None")
    case True
    then have w1: "run_visit writer_visitor w c r1 = Some (r1, w)" and nv: "\<not> virtual_reg r1"
      using cc run_visit_writer_skip [OF _ _ s(1)] not_virtual_real by auto
    have "length (writer_allocs w) = writer_pos w + (length (operands v') - length (operands v1))"
      using Cons.prems(3) n True by simp
    from Cons.IH [OF s(2) _ this] show ?thesis using Cons.prems(2,4) w1 nv s(3) cr by auto
  next
    case False
    then obtain constraint kind pos where sp: "visit_operand c r1 = Some (constraint, kind, pos)" and vr: "virtual_reg r1"
      using cc by (cases "visit_operand c r") auto
    have lt: "writer_pos w < length (writer_allocs w)" using Cons.prems(3) n le False by simp
    then obtain r2 where r2: "writer_add_operand w r1 constraint kind pos = Some (r2, w\<lparr>writer_pos := writer_pos w + 1\<rparr>)"
      "\<not> virtual_reg r2"
      using writer_located [OF lt, of r1 constraint kind pos] Cons.prems(4) by auto
    let ?w = "w\<lparr>writer_pos := writer_pos w + 1\<rparr>"
    have "length (writer_allocs ?w) = writer_pos ?w + (length (operands v') - length (operands v1))"
      using Cons.prems(3) n le False by simp
    from Cons.IH [OF s(2) _ this] show ?thesis
      using Cons.prems(2,4) r2 run_visit_writer_add [OF sp vr, of w] s(3) cr by auto
  qed
qed simp

section \<open>Properties\<close>

text \<open>C28: running an instruction's operand calls with the collector and then, on the renamed
  registers, with the writer over as many allocations as operands were collected never panics,
  consumes every allocation, and leaves no virtual register in the instruction.\<close>

theorem operands_written_back:
  assumes "run_visits (collector_visitor renamer) (collector_new [] alloc) calls = Some (rs, col)"
    and "\<forall>(c, r) \<in> set calls. c \<in> {VAnyDef, VAnyLateUse} \<longrightarrow> virtual_reg r"
    and "\<And>r. virtual_reg r \<Longrightarrow> virtual_reg (Reg (vreg_repr (renamer (vreg_from_bits (reg_bits r)))))"
    and "length allocs = length (operands col)" and "\<forall>a \<in> set allocs. located a"
  shows "\<exists>rs' w. run_visits writer_visitor (writer_new allocs) (zip (map fst calls) rs) = Some (rs', w) \<and>
    writer_pos w = length allocs \<and> (\<forall>r \<in> set rs'. \<not> virtual_reg r)"
  using write_back [OF assms(1-3), of "writer_new allocs"] assms(4,5)
  by (simp add: writer_new_def collector_new_def)

theorem operands_written_back_witness:
  "\<exists>p a rs' w. preg_new 4 IntClass = Some p \<and> allocation_reg p = Some a \<and>
     run_visits writer_visitor (writer_new [a]) [(VUse, Reg 800)] = Some (rs', w) \<and> writer_pos w = 1 \<and>
     (\<forall>r \<in> set rs'. \<not> virtual_reg r)"
proof -
  obtain p where p: "preg_new 4 IntClass = Some p" by (simp add: preg_new_def PREG_MAX_def)
  obtain a where a: "allocation_reg p = Some a" using allocation_reg_decode by blast
  have loc: "\<forall>x \<in> set [a]. located x" using preg_decode(2) [OF p] a by (auto simp: located_def)
  have v: "reg_to_physical_reg (Reg 800) = None" "reg_to_spillslot (Reg 800) = Some None"
    "reg_to_virtual_reg (Reg 800) = Some (Some (VReg 800))"
    by (simp_all add: reg_to_physical_reg_def pinned_vreg_to_preg_def vreg_from_bits_def vreg_vreg_def PINNED_PREG_def
      reg_to_spillslot_def SPILLSLOT_BIT_def reg_to_virtual_reg_def)
  obtain op where op: "operand_new (VReg 800) RegLoc Use Early = Some op"
    by (simp add: operand_new_def vreg_class_def class_of_code_def unat_and_mask)
  have run: "run_visits (collector_visitor id) (collector_new [] pset_empty) [(VUse, Reg 800)] =
      Some ([Reg 800], \<lparr>operands = [op], clobbers = pset_empty, allocatable = pset_empty\<rparr>)"
    using v op by (simp add: visit_defs collector_visitor_def collector_add_operand_def collector_new_def
      reg_is_virtual_def reg_is_spillslot_def vreg_from_bits_def)
  have "virtual_reg (Reg (vreg_repr (id (vreg_from_bits (reg_bits r)))))" if "virtual_reg r" for r
    using that by (cases r) (simp add: vreg_from_bits_def)
  from operands_written_back [OF run _ this _ loc] show ?thesis using p a by auto
qed

text \<open>each call of a successful collection adds at most one operand, the one its kind prescribes,
  for the renamed register, at the end of the operand list.\<close>

theorem collected_operand:
  assumes "run_visit (collector_visitor renamer) v c r = Some (r', v')"
  shows "case visit_operand c r of
      None \<Rightarrow> r' = r \<and> v' = v
    | Some (constraint, kind, pos) \<Rightarrow>
        vreg_from_bits (reg_bits r') = renamer (vreg_from_bits (reg_bits r)) \<and>
        (\<exists>op. operand_new (vreg_from_bits (reg_bits r')) constraint kind pos = Some op \<and>
              v' = v\<lparr>operands := operands v @ [op]\<rparr>)"
proof -
  have "vreg_from_bits (vreg_repr x) = x" for x by (cases x) (simp add: vreg_from_bits_def)
  then show ?thesis using run_visit_cases [OF assms]
    by (auto simp: collector_visitor_def collector_add_operand_def Let_def split: option.splits prod.splits)
qed

end
