(* ===== verification/Parallel_Moves.thy ===== *)
theory Parallel_Moves
  imports Reg_Encoding
begin

unbundle bit_operations_syntax

text \<open>
  Sequentialisation of parallel moves (\<^verbatim>\<open>taki_mir/src/reg_alloc/moves.rs\<close>): \<open>ParallelMoves::resolve\<close>
  orders a set of moves that happen at once so that they can be executed one after the other, with
  the placeholder \<open>Allocation::none()\<close> for a scratch location where there is a cycle;
  \<open>with_scratch\<close> fills the placeholder in; \<open>MoveAndScratchResolver::compute\<close> removes moves between
  two stack slots. The closures of the resolver (finding a free register, taking a fresh stack
  slot) are parameters that thread their own state.
\<close>

section \<open>Model\<close>

type_synonym 't pmove = "allocation \<times> allocation \<times> 't"

definition move_src :: "'t pmove \<Rightarrow> allocation" where "move_src m = fst m"
definition move_dst :: "'t pmove \<Rightarrow> allocation" where "move_dst m = fst (snd m)"

datatype 't move_vec = NoScratch "'t pmove list" | Scratch "'t pmove list"

definition none_alloc :: allocation where
  "none_alloc = Allocation 0"

definition pm_add :: "'t pmove list \<Rightarrow> allocation \<Rightarrow> allocation \<Rightarrow> 't \<Rightarrow> 't pmove list" where
  "pm_add ms from to t = ms @ [(from, to, t)]"

definition u64_key :: "u32 \<Rightarrow> u32 \<Rightarrow> u64" where
  "u64_key b a = ucast a OR push_bit 32 (ucast b)"

text \<open>\<open>binary_search_by_key\<close> on the destinations, which are sorted and distinct where it is used:
  the index of the move into the given location.\<close>

fun find_index :: "('a \<Rightarrow> bool) \<Rightarrow> 'a list \<Rightarrow> nat option" where
  "find_index p [] = None"
| "find_index p (x # xs) = (if p x then Some 0 else map_option Suc (find_index p xs))"

definition dst_index :: "'t pmove list \<Rightarrow> allocation \<Rightarrow> nat option" where
  "dst_index ms a = find_index (\<lambda>m. move_dst m = a) ms"

definition sources_overlap_dests :: "'t pmove list \<Rightarrow> bool" where
  "sources_overlap_dests ms = list_ex (\<lambda>m. dst_index ms (move_src m) \<noteq> None) ms"

fun adjacent_dsts_differ :: "'t pmove list \<Rightarrow> bool" where
  "adjacent_dsts_differ (x # y # ms) = (move_dst x \<noteq> move_dst y \<and> adjacent_dsts_differ (y # ms))"
| "adjacent_dsts_differ _ = True"

datatype mstate = ToDo | Pending | Done

record 't resolver =
  ret :: "'t pmove list"
  stack :: "nat list"
  mstates :: "mstate list"
  scratch_used :: bool

text \<open>The stack is kept with its top at the head. The two loops that pop it are recursions over it.\<close>

fun pop_all :: "'t pmove list \<Rightarrow> 't resolver \<Rightarrow> nat list \<Rightarrow> 't resolver rust" where
  "pop_all ms r [] = Some (r\<lparr>stack := []\<rparr>)"
| "pop_all ms r (tp # rest) = do {
     mv \<leftarrow> vec_get ms tp;
     st \<leftarrow> vec_set (mstates r) tp Done;
     pop_all ms (r\<lparr>ret := ret r @ [mv], mstates := st, stack := rest\<rparr>) rest }"

fun pop_until :: "'t pmove list \<Rightarrow> nat \<Rightarrow> 't resolver \<Rightarrow> nat list \<Rightarrow> 't resolver rust" where
  "pop_until ms stop r [] = Some (r\<lparr>stack := []\<rparr>)"
| "pop_until ms stop r (idx # rest) = do {
     st \<leftarrow> vec_set (mstates r) idx Done;
     mv \<leftarrow> vec_get ms idx;
     let r' = r\<lparr>ret := ret r @ [mv], mstates := st, stack := rest\<rparr>;
     if idx = stop then Some r' else pop_until ms stop r' rest }"

definition resolve_step ::
  "'t::zero pmove list \<Rightarrow> nat option list \<Rightarrow> 't resolver \<Rightarrow> nat \<Rightarrow> nat list \<Rightarrow> 't resolver rust" where
  "resolve_step ms must r tp rest = do {
     s \<leftarrow> vec_get (mstates r) tp;
     rassert (s = Pending);
     next \<leftarrow> vec_get must tp;
     ns \<leftarrow> (case next of None \<Rightarrow> Some Done | Some nx \<Rightarrow> vec_get (mstates r) nx);
     (case (next, ns) of
        (None, _) \<Rightarrow> pop_all ms r (tp # rest)
      | (Some nx, Done) \<Rightarrow> pop_all ms r (tp # rest)
      | (Some nx, ToDo) \<Rightarrow> do {
          st \<leftarrow> vec_set (mstates r) nx Pending;
          Some (r\<lparr>stack := nx # tp # rest, mstates := st\<rparr>) }
      | (Some nx, Pending) \<Rightarrow> do {
          rassert (tp \<noteq> nx);
          st \<leftarrow> vec_set (mstates r) tp Done;
          (scratch_src, dst, dst_t) \<leftarrow> vec_get ms tp;
          r' \<leftarrow> pop_until ms nx (r\<lparr>mstates := st, stack := rest, scratch_used := True,
                   ret := ret r @ [(none_alloc, dst, dst_t)]\<rparr>) rest;
          Some (r'\<lparr>ret := ret r' @ [(scratch_src, none_alloc, 0)]\<rparr>) }) }"

partial_function (option) inner_loop ::
  "'t::zero pmove list \<Rightarrow> nat option list \<Rightarrow> 't resolver \<Rightarrow> 't resolver option" where
  "inner_loop ms must r = (case stack r of
      [] \<Rightarrow> Some r
    | tp # rest \<Rightarrow> do { r' \<leftarrow> resolve_step ms must r tp rest; inner_loop ms must r' })"

partial_function (option) outer_loop ::
  "'t::zero pmove list \<Rightarrow> nat option list \<Rightarrow> 't resolver \<Rightarrow> 't resolver option" where
  "outer_loop ms must r = (case find_index (\<lambda>s. s = ToDo) (mstates r) of
      None \<Rightarrow> Some r
    | Some next \<Rightarrow> do {
        r' \<leftarrow> inner_loop ms must (r\<lparr>stack := next # stack r, mstates := (mstates r)[next := Pending]\<rparr>);
        outer_loop ms must r' })"

declare inner_loop.simps [code] outer_loop.simps [code]

text \<open>\<open>T::default()\<close> is the zero of the move data.\<close>

definition resolve :: "'t::zero pmove list \<Rightarrow> 't move_vec rust" where
  "resolve moves =
    (if length moves \<le> 1 then Some (NoScratch moves)
     else do {
       let sorted = remdups_adj (sort_key (\<lambda>m. u64_key (allocation_bits (move_dst m)) (allocation_bits (move_src m))) moves);
       rassert (adjacent_dsts_differ sorted);
       let ms = filter (\<lambda>m. move_src m \<noteq> move_dst m) sorted;
       if \<not> sources_overlap_dests ms then Some (NoScratch ms)
       else do {
         let must = map (\<lambda>m. dst_index ms (move_src m)) ms;
         r \<leftarrow> outer_loop ms must \<lparr>ret = [], stack = [], mstates = replicate (length ms) ToDo, scratch_used = False\<rparr>;
         Some (if scratch_used r then Scratch (rev (ret r)) else NoScratch (rev (ret r))) } })"

fun move_vec_is_empty :: "'t move_vec \<Rightarrow> bool" where
  "move_vec_is_empty (NoScratch moves) = (moves = [])"
| "move_vec_is_empty (Scratch moves) = (moves = [])"

definition fill_scratch :: "allocation \<Rightarrow> 't pmove list \<Rightarrow> 't pmove \<Rightarrow> 't pmove list rust" where
  "fill_scratch scratch acc m = (case m of (src, dst, t) \<Rightarrow> do {
     rassert (src \<noteq> scratch \<and> dst \<noteq> scratch);
     sn \<leftarrow> allocation_is_none src;
     dn \<leftarrow> allocation_is_none dst;
     rassert (\<not> (sn \<and> dn));
     Some (acc @ [(if sn then scratch else src, if dn then scratch else dst, t)]) })"

fun with_scratch :: "'t move_vec \<Rightarrow> allocation \<Rightarrow> 't pmove list rust" where
  "with_scratch (NoScratch moves) scratch = Some moves"
| "with_scratch (Scratch moves) scratch = foldM (fill_scratch scratch) [] moves"

fun without_scratch :: "'t move_vec \<Rightarrow> 't pmove list option" where
  "without_scratch (NoScratch moves) = Some moves"
| "without_scratch (Scratch _) = None"

fun needs_scratch :: "'t move_vec \<Rightarrow> bool" where
  "needs_scratch (NoScratch _) = False"
| "needs_scratch (Scratch _) = True"

section \<open>The scratch resolver\<close>

record 'e scratch_resolver =
  find_free_reg :: "'e \<Rightarrow> allocation option \<times> 'e"
  get_stackslot :: "'e \<Rightarrow> allocation \<times> 'e"
  is_stack_alloc :: "allocation \<Rightarrow> bool"
  borrowed_scratch_reg :: preg

definition is_stack_to_stack_move :: "'e scratch_resolver \<Rightarrow> allocation \<Rightarrow> allocation \<Rightarrow> bool" where
  "is_stack_to_stack_move self src dst = (is_stack_alloc self src \<and> is_stack_alloc self dst)"

record 't rewrite =
  result :: "'t pmove list"
  scratch_dirty :: bool
  save_dirty :: bool

definition rewrite_move ::
  "'e scratch_resolver \<Rightarrow> allocation \<Rightarrow> allocation option \<Rightarrow> 't::zero rewrite \<Rightarrow> 't pmove \<Rightarrow> 't rewrite rust" where
  "rewrite_move self scratch_reg save_slot w m = (case m of (src, dst, data) \<Rightarrow>
     if is_stack_to_stack_move self src dst then do {
       w1 \<leftarrow> (case save_slot of
           Some save \<Rightarrow>
             if save_dirty w then do {
               rassert (\<not> scratch_dirty w);
               Some (w\<lparr>result := result w @ [(scratch_reg, save, 0)], save_dirty := False\<rparr>) }
             else Some w
         | None \<Rightarrow> Some w);
       Some (w1\<lparr>result := result w1 @ [(src, scratch_reg, data), (scratch_reg, dst, data)], scratch_dirty := True\<rparr>) }
     else do {
       w1 \<leftarrow> (if src = scratch_reg \<and> scratch_dirty w then do {
           rassert (\<not> save_dirty w);
           save \<leftarrow> save_slot;
           Some (w\<lparr>result := result w @ [(save, scratch_reg, 0)], scratch_dirty := False\<rparr>) }
         else Some w);
       let w2 = (if dst = scratch_reg then w1\<lparr>scratch_dirty := False, save_dirty := True\<rparr> else w1);
       Some (w2\<lparr>result := result w2 @ [(src, dst, data)]\<rparr>) })"

definition place_scratch ::
  "'e scratch_resolver \<Rightarrow> 'e \<Rightarrow> 't move_vec \<Rightarrow> ('t pmove list \<times> 'e) rust" where
  "place_scratch self e mv =
     (if needs_scratch mv then
        let (free, e1) = find_free_reg self e;
            (scratch, e2) = (case free of Some a \<Rightarrow> (a, e1) | None \<Rightarrow> get_stackslot self e1)
        in do { ms \<leftarrow> with_scratch mv scratch; Some (ms, e2) }
      else do { ms \<leftarrow> without_scratch mv; Some (ms, e) })"

definition choose_scratch ::
  "'e scratch_resolver \<Rightarrow> 'e \<Rightarrow> (allocation \<times> allocation option \<times> 'e) rust" where
  "choose_scratch self e =
     (let (free, e1) = find_free_reg self e
      in case free of
          Some r \<Rightarrow> Some (r, None, e1)
        | None \<Rightarrow> do {
            r \<leftarrow> allocation_reg (borrowed_scratch_reg self);
            (let (save, e2) = get_stackslot self e1 in Some (r, Some save, e2)) })"

definition restore_scratch ::
  "allocation \<Rightarrow> allocation option \<Rightarrow> 't::zero rewrite \<Rightarrow> 't pmove list rust" where
  "restore_scratch scratch_reg save_slot w = (case save_slot of
      Some save \<Rightarrow>
        if scratch_dirty w then do {
          rassert (\<not> save_dirty w);
          Some (result w @ [(save, scratch_reg, 0)]) }
        else Some (result w)
    | None \<Rightarrow> Some (result w))"

definition scratch_compute ::
  "'e scratch_resolver \<Rightarrow> 'e \<Rightarrow> 't::zero move_vec \<Rightarrow> ('t pmove list \<times> 'e) rust" where
  "scratch_compute self e mv = do {
     (moves, e1) \<leftarrow> place_scratch self e mv;
     if \<not> list_ex (\<lambda>m. is_stack_to_stack_move self (move_src m) (move_dst m)) moves then Some (moves, e1)
     else do {
       (scratch_reg, save_slot, e2) \<leftarrow> choose_scratch self e1;
       w \<leftarrow> foldM (rewrite_move self scratch_reg save_slot)
              \<lparr>result = [], scratch_dirty = False, save_dirty = True\<rparr> moves;
       out \<leftarrow> restore_scratch scratch_reg save_slot w;
       Some (out, e2) } }"

section \<open>Execution of a sequence of moves\<close>

definition exec_move :: "'t pmove \<Rightarrow> (allocation \<Rightarrow> 'v) \<Rightarrow> allocation \<Rightarrow> 'v" where
  "exec_move m \<sigma> = \<sigma>(move_dst m := \<sigma> (move_src m))"

definition exec_moves :: "'t pmove list \<Rightarrow> (allocation \<Rightarrow> 'v) \<Rightarrow> allocation \<Rightarrow> 'v" where
  "exec_moves ms \<sigma> = fold exec_move ms \<sigma>"

text \<open>The specification: every destination gets the value its source had at the start.\<close>

definition exec_parallel :: "'t pmove list \<Rightarrow> (allocation \<Rightarrow> 'v) \<Rightarrow> allocation \<Rightarrow> 'v" where
  "exec_parallel ms \<sigma> l = (case find (\<lambda>m. move_dst m = l) ms of Some m \<Rightarrow> \<sigma> (move_src m) | None \<Rightarrow> \<sigma> l)"

definition consistent_moves :: "'t pmove list \<Rightarrow> bool" where
  "consistent_moves ms = (\<forall>m \<in> set ms. \<forall>m' \<in> set ms. move_dst m = move_dst m' \<longrightarrow> m = m')"

lemma exec_moves_simps [simp]:
  "exec_moves [] \<sigma> = \<sigma>"
  "exec_moves (m # ms) \<sigma> = exec_moves ms (exec_move m \<sigma>)"
  "exec_moves (ms @ ms') \<sigma> = exec_moves ms' (exec_moves ms \<sigma>)"
  by (simp_all add: exec_moves_def)

lemma exec_parallel_dst:
  assumes "consistent_moves ms" "m \<in> set ms"
  shows "exec_parallel ms \<sigma> (move_dst m) = \<sigma> (move_src m)"
proof -
  obtain m' where m': "find (\<lambda>x. move_dst x = move_dst m) ms = Some m'"
    using assms(2) by (cases "find (\<lambda>x. move_dst x = move_dst m) ms") (simp_all only: find_None_iff, blast+)
  then have "m' \<in> set ms" "move_dst m' = move_dst m" by (auto simp: find_Some_iff)
  with assms have "m' = m" by (auto simp: consistent_moves_def)
  with m' show ?thesis by (simp add: exec_parallel_def)
qed

lemma exec_parallel_other: "l \<notin> move_dst ` set ms \<Longrightarrow> exec_parallel ms \<sigma> l = \<sigma> l"
  by (cases "find (\<lambda>x. move_dst x = l) ms") (auto simp: exec_parallel_def find_Some_iff)

lemma exec_parallel_cong:
  assumes "consistent_moves ms" "set ms' \<subseteq> set ms"
    and "\<And>m. m \<in> set ms \<Longrightarrow> m \<notin> set ms' \<Longrightarrow> move_src m = move_dst m"
  shows "exec_parallel ms' \<sigma> = exec_parallel ms \<sigma>"
proof
  fix l
  have c': "consistent_moves ms'" using assms(1,2) by (auto simp: consistent_moves_def)
  show "exec_parallel ms' \<sigma> l = exec_parallel ms \<sigma> l"
  proof (cases "l \<in> move_dst ` set ms'")
    case True
    then obtain m where "m \<in> set ms'" "l = move_dst m" by auto
    with c' assms(1,2) show ?thesis by (auto simp: exec_parallel_dst)
  next
    case False
    show ?thesis
    proof (cases "l \<in> move_dst ` set ms")
      case True
      then obtain m where m: "m \<in> set ms" "l = move_dst m" by auto
      with False have "m \<notin> set ms'" by auto
      with m assms(3) have "move_src m = l" by auto
      with m False show ?thesis using exec_parallel_dst [OF assms(1) m(1), of \<sigma>] by (simp add: exec_parallel_other)
    qed (use False in \<open>simp add: exec_parallel_other\<close>)
  qed
qed

section \<open>The ordering of the moves\<close>

lemma find_index_Some:
  "find_index p xs = Some i \<longleftrightarrow> i < length xs \<and> p (xs ! i) \<and> (\<forall>j<i. \<not> p (xs ! j))"
proof (induction xs arbitrary: i)
  case (Cons x xs)
  then show ?case by (cases i) (auto simp: less_Suc_eq_0_disj nth_Cons split: if_splits nat.splits)
qed simp

lemma find_index_None: "find_index p xs = None \<longleftrightarrow> (\<forall>x \<in> set xs. \<not> p x)"
  by (induction xs) auto

definition movable :: "'t pmove list \<Rightarrow> bool" where
  "movable ms = (distinct (map move_dst ms) \<and>
     (\<forall>m \<in> set ms. move_src m \<noteq> move_dst m \<and> move_src m \<noteq> none_alloc \<and> move_dst m \<noteq> none_alloc))"

lemma movable_nth:
  assumes "movable ms" "i < length ms"
  shows "move_src (ms ! i) \<noteq> move_dst (ms ! i)" "move_src (ms ! i) \<noteq> none_alloc" "move_dst (ms ! i) \<noteq> none_alloc"
  using assms nth_mem [of i ms] by (auto simp: movable_def)

lemma dst_index_Some:
  assumes "movable ms"
  shows "dst_index ms a = Some i \<longleftrightarrow> i < length ms \<and> move_dst (ms ! i) = a"
  using assms unfolding dst_index_def find_index_Some movable_def distinct_conv_nth by auto

lemma dst_index_dst [simp]: "movable ms \<Longrightarrow> i < length ms \<Longrightarrow> dst_index ms (move_dst (ms ! i)) = Some i"
  by (simp add: dst_index_Some)

text \<open>The moves that must come before: those into the location a move reads.\<close>

definition must_before :: "'t pmove list \<Rightarrow> nat option list" where
  "must_before ms = map (\<lambda>m. dst_index ms (move_src m)) ms"

lemma must_before_nth: "i < length ms \<Longrightarrow> must_before ms ! i = dst_index ms (move_src (ms ! i))"
  by (simp add: must_before_def)

text \<open>The sequence \<open>rev r\<close> copies into every location \<open>l\<close> with \<open>P l = Some s\<close> the initial value
  of \<open>s\<close> and keeps every other one, the placeholder apart.\<close>

definition represents :: "'t pmove list \<Rightarrow> (allocation \<rightharpoonup> allocation) \<Rightarrow> 'v itself \<Rightarrow> bool" where
  "represents r P _ = (\<forall>(\<sigma> :: allocation \<Rightarrow> 'v) l. l \<noteq> none_alloc \<longrightarrow>
     exec_moves (rev r) \<sigma> l = (case P l of Some s \<Rightarrow> \<sigma> s | None \<Rightarrow> \<sigma> l))"

lemma represents_Nil [simp]: "represents [] Map.empty TYPE('v)"
  by (simp add: represents_def)

lemma represents_add:
  assumes "represents r P TYPE('v)" "P (move_dst m) = None" "move_dst m \<notin> ran P"
  shows "represents (r @ [m]) (P(move_dst m \<mapsto> move_src m)) TYPE('v)"
  using assms unfolding represents_def exec_move_def
  by (auto simp: ran_def exec_move_def split: option.splits)

lemma represents_close:
  assumes "represents r P TYPE('v)"
  shows "represents (r @ [(s, none_alloc, t)]) (\<lambda>l. if P l = Some none_alloc then Some s else P l) TYPE('v)"
  using assms unfolding represents_def
  by (auto simp: exec_move_def move_src_def move_dst_def split: option.splits)

text \<open>What the moves marked \<open>Done\<close> copy; the one in \<open>ex\<close>, on whose cycle the loop is, reads the
  placeholder.\<close>

definition done_map :: "'t pmove list \<Rightarrow> nat option \<Rightarrow> mstate list \<Rightarrow> allocation \<rightharpoonup> allocation" where
  "done_map ms ex st l = (case dst_index ms l of
      Some i \<Rightarrow> if st ! i = Done then Some (if ex = Some i then none_alloc else move_src (ms ! i)) else None
    | None \<Rightarrow> None)"

definition done_closed :: "'t pmove list \<Rightarrow> nat option \<Rightarrow> mstate list \<Rightarrow> bool" where
  "done_closed ms ex st = (\<forall>i < length ms. st ! i = Done \<longrightarrow> ex \<noteq> Some i \<longrightarrow>
     (\<forall>j. must_before ms ! i = Some j \<longrightarrow> st ! j = Done))"

lemma done_map_fresh:
  assumes "movable ms" "done_closed ms ex st" "x < length ms" "st ! x \<noteq> Done"
  shows "done_map ms ex st (move_dst (ms ! x)) = None" "move_dst (ms ! x) \<notin> ran (done_map ms ex st)"
proof -
  show "done_map ms ex st (move_dst (ms ! x)) = None" using assms by (simp add: done_map_def)
  show "move_dst (ms ! x) \<notin> ran (done_map ms ex st)"
  proof
    assume "move_dst (ms ! x) \<in> ran (done_map ms ex st)"
    then obtain l where "done_map ms ex st l = Some (move_dst (ms ! x))" by (auto simp: ran_def)
    then obtain i where i: "dst_index ms l = Some i" "st ! i = Done" "ex \<noteq> Some i"
      "move_src (ms ! i) = move_dst (ms ! x)"
      using movable_nth [OF assms(1,3)] by (auto simp: done_map_def split: option.splits if_splits)
    have "i < length ms" using i(1) assms(1) by (simp add: dst_index_Some)
    moreover from this have "must_before ms ! i = Some x"
      using i(4) assms(1,3) by (simp add: must_before_nth)
    ultimately show False using assms(2,4) i(2,3) by (auto simp: done_closed_def)
  qed
qed

lemma done_map_mark:
  assumes "movable ms" "x < length ms" "length st = length ms" "ex \<noteq> Some x"
  shows "done_map ms ex (st[x := Done]) = (done_map ms ex st)(move_dst (ms ! x) \<mapsto> move_src (ms ! x))"
  using assms by (auto simp: done_map_def fun_eq_iff nth_list_update dst_index_Some split: option.splits)

lemma done_map_mark_ex:
  assumes "movable ms" "x < length ms" "length st = length ms"
  shows "done_map ms (Some x) (st[x := Done]) = (done_map ms None st)(move_dst (ms ! x) \<mapsto> none_alloc)"
  using assms by (auto simp: done_map_def fun_eq_iff nth_list_update dst_index_Some split: option.splits)

lemma done_map_close:
  assumes "movable ms" "x < length ms" "st ! x = Done"
  shows "done_map ms None st =
    (\<lambda>l. if done_map ms (Some x) st l = Some none_alloc then Some (move_src (ms ! x)) else done_map ms (Some x) st l)"
proof
  fix l
  show "done_map ms None st l =
    (if done_map ms (Some x) st l = Some none_alloc then Some (move_src (ms ! x)) else done_map ms (Some x) st l)"
    using movable_nth(2) [OF assms(1)] assms
    by (cases "dst_index ms l") (auto simp: done_map_def dst_index_Some split: if_splits)
qed

lemma done_closed_mark:
  assumes "done_closed ms ex st" "x < length ms" "length st = length ms"
    and "\<And>j. must_before ms ! x = Some j \<Longrightarrow> ex \<noteq> Some x \<Longrightarrow> st ! j = Done"
  shows "done_closed ms ex (st[x := Done])"
  unfolding done_closed_def
proof (intro allI impI)
  fix i j
  assume i: "i < length ms" "st[x := Done] ! i = Done" "ex \<noteq> Some i" "must_before ms ! i = Some j"
  have "st ! j = Done"
  proof (cases "i = x")
    case True
    then show ?thesis using assms(4) i by simp
  next
    case False
    then show ?thesis using assms(1) i unfolding done_closed_def by simp
  qed
  then show "st[x := Done] ! j = Done" using assms(2,3) by (cases "j = x") auto
qed

definition in_state :: "mstate \<Rightarrow> mstate list \<Rightarrow> nat set" where
  "in_state s st = {i. i < length st \<and> st ! i = s}"

lemma in_state_update:
  "x < length st \<Longrightarrow> in_state s (st[x := s']) = (if s = s' then insert x (in_state s st) else in_state s st - {x})"
  by (auto simp: in_state_def nth_list_update)

lemma finite_in_state [simp]: "finite (in_state s st)"
  by (simp add: in_state_def)

fun chain :: "'t pmove list \<Rightarrow> nat list \<Rightarrow> bool" where
  "chain ms (x # y # zs) = (must_before ms ! y = Some x \<and> chain ms (y # zs))"
| "chain ms _ = True"

lemma chain_Cons: "chain ms (x # xs) \<longleftrightarrow> chain ms xs \<and> (xs \<noteq> [] \<longrightarrow> must_before ms ! hd xs = Some x)"
  by (cases xs) auto

text \<open>Every collected move is one of the given moves or replaces one end of such a move by the
  placeholder, the latter only once the scratch flag is set.\<close>

definition ret_ok :: "'t pmove list \<Rightarrow> bool \<Rightarrow> 't pmove list \<Rightarrow> bool" where
  "ret_ok ms used r = (\<forall>m \<in> set r. m \<in> set ms \<or> used \<and> (\<exists>m' \<in> set ms.
     move_src m = none_alloc \<and> move_dst m = move_dst m' \<or> move_dst m = none_alloc \<and> move_src m = move_src m'))"

definition pop_inv :: "'t pmove list \<Rightarrow> nat option \<Rightarrow> 't resolver \<Rightarrow> nat list \<Rightarrow> 'v itself \<Rightarrow> bool" where
  "pop_inv ms ex r xs T = (
     length (mstates r) = length ms \<and> distinct xs \<and> set xs \<subseteq> in_state Pending (mstates r) \<and>
     chain ms xs \<and>
     (\<forall>j. xs \<noteq> [] \<longrightarrow> must_before ms ! hd xs = Some j \<longrightarrow> mstates r ! j = Done) \<and>
     (\<forall>x. ex = Some x \<longrightarrow> x < length ms \<and> mstates r ! x = Done) \<and>
     done_closed ms ex (mstates r) \<and> ret_ok ms (scratch_used r) (ret r) \<and>
     represents (ret r) (done_map ms ex (mstates r)) T)"

definition popped :: "'t pmove list \<Rightarrow> 't resolver \<Rightarrow> nat \<Rightarrow> nat list \<Rightarrow> 't resolver" where
  "popped ms r x rest = r\<lparr>ret := ret r @ [ms ! x], mstates := (mstates r)[x := Done], stack := rest\<rparr>"

lemma pop_inv_step:
  assumes "movable ms" "pop_inv ms ex r (x # xs) TYPE('v)"
  shows "pop_inv ms ex (popped ms r x xs) xs TYPE('v)"
proof -
  let ?st = "(mstates r)[x := Done]"
  have len: "length (mstates r) = length ms" and cl: "done_closed ms ex (mstates r)"
    and x: "x < length ms" "mstates r ! x = Pending" and dist: "distinct (x # xs)"
    and sub: "set xs \<subseteq> in_state Pending (mstates r)" and ch: "chain ms (x # xs)"
    and hd: "\<And>j. must_before ms ! x = Some j \<Longrightarrow> mstates r ! j = Done"
    and ex: "\<And>y. ex = Some y \<Longrightarrow> y < length ms \<and> mstates r ! y = Done"
    and rep: "represents (ret r) (done_map ms ex (mstates r)) TYPE('v)"
    and ok: "ret_ok ms (scratch_used r) (ret r)"
    using assms(2) unfolding pop_inv_def by (auto simp: in_state_def)
  have nex: "ex \<noteq> Some x" using ex x by auto
  have "represents (ret r @ [ms ! x]) (done_map ms ex ?st) TYPE('v)"
    using represents_add [OF rep] done_map_fresh [OF assms(1) cl x(1)] done_map_mark [OF assms(1) x(1) len nex] x
    by simp
  moreover have "done_closed ms ex ?st" using done_closed_mark [OF cl x(1) len] hd by blast
  moreover have "ret_ok ms (scratch_used r) (ret r @ [ms ! x])" using ok x(1) by (auto simp: ret_ok_def)
  moreover have "set xs \<subseteq> in_state Pending ?st" using sub dist x len by (auto simp: in_state_update)
  moreover have "\<forall>j. xs \<noteq> [] \<longrightarrow> must_before ms ! hd xs = Some j \<longrightarrow> ?st ! j = Done"
    using ch x(1) len by (simp add: chain_Cons)
  moreover have "\<forall>y. ex = Some y \<longrightarrow> y < length ms \<and> ?st ! y = Done"
    using ex nex by (metis nth_list_update_neq)
  ultimately show ?thesis using dist ch len by (simp add: pop_inv_def popped_def chain_Cons)
qed

lemma pop_inv_head: "pop_inv ms ex r (x # xs) T \<Longrightarrow>
    length (mstates r) = length ms \<and> x < length ms \<and> mstates r ! x = Pending"
  by (auto simp: pop_inv_def in_state_def)

lemma pop_all_correct:
  assumes "movable ms" "pop_inv ms ex r xs TYPE('v)"
  shows "\<exists>r'. pop_all ms r xs = Some r' \<and> pop_inv ms ex r' [] TYPE('v) \<and> stack r' = [] \<and>
    scratch_used r' = scratch_used r \<and> in_state ToDo (mstates r') = in_state ToDo (mstates r) \<and>
    in_state Pending (mstates r') = in_state Pending (mstates r) - set xs"
  using assms(2)
proof (induction xs arbitrary: r)
  case Nil
  then show ?case by (simp add: pop_inv_def)
next
  case (Cons x xs)
  let ?r = "popped ms r x xs"
  have x: "length (mstates r) = length ms" "x < length ms" "mstates r ! x = Pending"
    using pop_inv_head [OF Cons.prems] by auto
  then have "pop_all ms r (x # xs) = pop_all ms ?r xs" by (simp add: vec_get_def vec_set_def popped_def)
  moreover have "in_state ToDo (mstates ?r) = in_state ToDo (mstates r)"
    "in_state Pending (mstates ?r) = in_state Pending (mstates r) - {x}"
    using x by (auto simp: popped_def in_state_update) (auto simp: in_state_def)
  moreover have "scratch_used ?r = scratch_used r" by (simp add: popped_def)
  ultimately show ?case using Cons.IH [OF pop_inv_step [OF assms(1) Cons.prems]] by auto
qed

lemma pop_until_correct:
  assumes "movable ms" "pop_inv ms ex r (ys @ nx # zs) TYPE('v)"
  shows "\<exists>r'. pop_until ms nx r (ys @ nx # zs) = Some r' \<and> pop_inv ms ex r' zs TYPE('v) \<and> stack r' = zs \<and>
    scratch_used r' = scratch_used r \<and> in_state ToDo (mstates r') = in_state ToDo (mstates r) \<and>
    in_state Pending (mstates r') = in_state Pending (mstates r) - (set ys \<union> {nx}) \<and> mstates r' ! nx = Done"
  using assms(2)
proof (induction ys arbitrary: r)
  case Nil
  let ?r = "popped ms r nx zs"
  have x: "length (mstates r) = length ms" "nx < length ms" "mstates r ! nx = Pending"
    using pop_inv_head [OF Nil.prems [simplified]] by auto
  have "pop_inv ms ex ?r zs TYPE('v)" using pop_inv_step [OF assms(1)] Nil.prems by simp
  moreover have "pop_until ms nx r (nx # zs) = Some ?r" using x by (simp add: vec_get_def vec_set_def popped_def)
  moreover have "in_state ToDo (mstates ?r) = in_state ToDo (mstates r)"
    "in_state Pending (mstates ?r) = in_state Pending (mstates r) - {nx}" "mstates ?r ! nx = Done"
    using x by (auto simp: popped_def in_state_update) (auto simp: in_state_def)
  moreover have "scratch_used ?r = scratch_used r" "stack ?r = zs" by (simp_all add: popped_def)
  ultimately show ?case by (intro exI [of _ ?r]) (simp del: pop_until.simps)
next
  case (Cons x xs)
  let ?r = "popped ms r x (xs @ nx # zs)"
  have x: "length (mstates r) = length ms" "x < length ms" "mstates r ! x = Pending"
    using pop_inv_head [OF Cons.prems [simplified]] by auto
  have ne: "x \<noteq> nx" using Cons.prems by (auto simp: pop_inv_def)
  have i: "pop_inv ms ex ?r (xs @ nx # zs) TYPE('v)" using pop_inv_step [OF assms(1)] Cons.prems by simp
  have "pop_until ms nx r ((x # xs) @ nx # zs) = pop_until ms nx ?r (xs @ nx # zs)"
    using x ne by (simp add: vec_get_def vec_set_def popped_def)
  moreover have "in_state ToDo (mstates ?r) = in_state ToDo (mstates r)"
    "in_state Pending (mstates ?r) = in_state Pending (mstates r) - {x}"
    using x by (auto simp: popped_def in_state_update) (auto simp: in_state_def)
  moreover have "scratch_used ?r = scratch_used r" by (simp add: popped_def)
  ultimately show ?case using Cons.IH [OF i] by auto
qed

text \<open>The invariant of the two loops.\<close>

definition loop_inv :: "'t pmove list \<Rightarrow> 't resolver \<Rightarrow> 'v itself \<Rightarrow> bool" where
  "loop_inv ms r T = (
     length (mstates r) = length ms \<and> distinct (stack r) \<and> set (stack r) = in_state Pending (mstates r) \<and>
     chain ms (stack r) \<and> done_closed ms None (mstates r) \<and> ret_ok ms (scratch_used r) (ret r) \<and>
     represents (ret r) (done_map ms None (mstates r)) T)"

lemma loop_inv_pop:
  assumes "pop_inv ms None r xs T" "stack r = xs" "set xs = in_state Pending (mstates r)"
  shows "loop_inv ms r T"
  using assms by (simp add: loop_inv_def pop_inv_def)

lemma loop_inv_top:
  assumes "loop_inv ms r T" "stack r = tp # rest"
  shows "length (mstates r) = length ms" "tp < length ms" "mstates r ! tp = Pending"
proof -
  have "tp \<in> in_state Pending (mstates r)" using assms by (metis list.set_intros(1) loop_inv_def)
  with assms(1) show "length (mstates r) = length ms" "tp < length ms" "mstates r ! tp = Pending"
    by (simp_all add: loop_inv_def in_state_def)
qed

lemma done_closed_ex: "done_closed ms None st \<Longrightarrow> done_closed ms ex st"
  by (simp add: done_closed_def)

lemma must_before_lt: "movable ms \<Longrightarrow> i < length ms \<Longrightarrow> must_before ms ! i = Some j \<Longrightarrow> j < length ms \<and> j \<noteq> i"
  using movable_nth(1) [of ms i] by (auto simp: must_before_nth dst_index_Some)

definition loop_measure :: "'t resolver \<Rightarrow> nat" where
  "loop_measure r = 2 * card (in_state ToDo (mstates r)) + length (stack r)"

definition step_post :: "'t pmove list \<Rightarrow> 't resolver \<Rightarrow> 't resolver \<Rightarrow> 'v itself \<Rightarrow> bool" where
  "step_post ms r r' T = (loop_inv ms r' T \<and> loop_measure r' < loop_measure r \<and>
     card (in_state ToDo (mstates r')) \<le> card (in_state ToDo (mstates r)))"

lemma step_pop_all:
  assumes "movable ms" "loop_inv ms r TYPE('v)" "stack r = tp # rest"
    and "\<And>j. must_before ms ! tp = Some j \<Longrightarrow> mstates r ! j = Done"
  shows "\<exists>r'. pop_all ms r (tp # rest) = Some r' \<and> step_post ms r r' TYPE('v)"
proof -
  have "pop_inv ms None r (tp # rest) TYPE('v)"
    using assms(2-4) by (auto simp: loop_inv_def pop_inv_def)
  from pop_all_correct [OF assms(1) this] obtain r' where r': "pop_all ms r (tp # rest) = Some r'"
    "pop_inv ms None r' [] TYPE('v)" "stack r' = []" "in_state ToDo (mstates r') = in_state ToDo (mstates r)"
    "in_state Pending (mstates r') = in_state Pending (mstates r) - set (tp # rest)" by auto
  moreover have "in_state Pending (mstates r) = set (tp # rest)" using assms(2,3) by (simp add: loop_inv_def)
  ultimately have "loop_inv ms r' TYPE('v)" using loop_inv_pop [OF r'(2,3)] by simp
  then have "step_post ms r r' TYPE('v)" using r'(3,4) assms(3) by (simp add: step_post_def loop_measure_def)
  with r'(1) show ?thesis by blast
qed

text \<open>Pushing a move that has not been looked at, on top of the move that needs it or on the empty stack.\<close>

lemma loop_inv_push:
  assumes "loop_inv ms r TYPE('v)" "nx < length (mstates r)" "mstates r ! nx = ToDo"
    and "chain ms (nx # stack r)"
  shows "loop_inv ms (r\<lparr>stack := nx # stack r, mstates := (mstates r)[nx := Pending]\<rparr>) TYPE('v)"
proof -
  let ?st = "(mstates r)[nx := Pending]"
  have "?st ! i = Done \<longleftrightarrow> mstates r ! i = Done" for i
    using assms(2,3) by (cases "i = nx") auto
  then have "done_map ms None ?st = done_map ms None (mstates r)" "done_closed ms None ?st \<longleftrightarrow> done_closed ms None (mstates r)"
    by (auto simp: done_map_def done_closed_def fun_eq_iff split: option.splits)
  moreover have "nx \<notin> in_state Pending (mstates r)" using assms(3) by (simp add: in_state_def)
  ultimately show ?thesis using assms by (auto simp: loop_inv_def in_state_update)
qed

lemma card_todo_push:
  assumes "nx < length st" "st ! nx = ToDo"
  shows "card (in_state ToDo st) = Suc (card (in_state ToDo (st[nx := Pending])))"
proof -
  have "nx \<in> in_state ToDo st" using assms by (simp add: in_state_def)
  from card.remove [OF finite_in_state this] show ?thesis using assms(1) by (simp add: in_state_update)
qed

lemma step_push:
  assumes "loop_inv ms r TYPE('v)" "stack r = tp # rest"
    and "must_before ms ! tp = Some nx" "mstates r ! nx = ToDo" "nx < length ms"
  shows "step_post ms r (r\<lparr>stack := nx # tp # rest, mstates := (mstates r)[nx := Pending]\<rparr>) TYPE('v)"
proof -
  have nx: "nx < length (mstates r)" and "chain ms (stack r)" using assms(1,5) by (simp_all add: loop_inv_def)
  then have "chain ms (nx # stack r)" using assms(2,3) by simp
  with loop_inv_push [OF assms(1) nx assms(4)] card_todo_push [OF nx assms(4)] assms(2) show ?thesis
    by (simp add: step_post_def loop_measure_def)
qed

lemma step_cycle:
  fixes dt t0 :: 't
  assumes "movable ms" "loop_inv ms r TYPE('v)" "stack r = tp # rest"
    and must: "must_before ms ! tp = Some nx" and nxp: "mstates r ! nx = Pending"
  defines "r0 \<equiv> r\<lparr>mstates := (mstates r)[tp := Done], stack := rest, scratch_used := True,
                   ret := ret r @ [(none_alloc, move_dst (ms ! tp), dt)]\<rparr>"
  shows "\<exists>r'. pop_until ms nx r0 rest = Some r' \<and>
    step_post ms r (r'\<lparr>ret := ret r' @ [(move_src (ms ! tp), none_alloc, t0)]\<rparr>) TYPE('v)"
proof -
  let ?st = "(mstates r)[tp := Done]"
  have len: "length (mstates r) = length ms" and cl: "done_closed ms None (mstates r)"
    and rep: "represents (ret r) (done_map ms None (mstates r)) TYPE('v)"
    and pend: "set (tp # rest) = in_state Pending (mstates r)"
    using assms(2,3) by (auto simp: loop_inv_def)
  have tp: "tp < length ms" "mstates r ! tp = Pending" using loop_inv_top [OF assms(2,3)] by simp_all
  have nx: "nx < length ms" "nx \<noteq> tp" using must_before_lt [OF assms(1) tp(1) must] by auto
  with nxp len pend have "nx \<in> set rest" by (auto simp: in_state_def)
  then obtain ys zs where split: "rest = ys @ nx # zs" by (auto dest: split_list)
  have "represents (ret r @ [(none_alloc, move_dst (ms ! tp), dt)]) (done_map ms (Some tp) ?st) TYPE('v)"
    using represents_add [OF rep, of "(none_alloc, move_dst (ms ! tp), dt)"]
      done_map_fresh [OF assms(1) cl tp(1)] done_map_mark_ex [OF assms(1) tp(1) len] tp
    by (simp add: move_src_def move_dst_def)
  moreover have "done_closed ms (Some tp) ?st"
    using done_closed_mark [OF done_closed_ex [OF cl] tp(1) len, where ex = "Some tp"] by simp
  moreover have "ret_ok ms True (ret r @ [(none_alloc, move_dst (ms ! tp), dt)])"
    using assms(2) nth_mem [OF tp(1)] unfolding loop_inv_def ret_ok_def
    by (auto simp: move_src_def move_dst_def)
  moreover have "chain ms rest" "must_before ms ! hd rest = Some tp" "distinct (tp # rest)"
    using assms(2,3) split by (auto simp: loop_inv_def chain_Cons)
  moreover have "set rest \<subseteq> in_state Pending ?st"
    using pend \<open>distinct (tp # rest)\<close> tp len by (auto simp: in_state_update)
  ultimately have inv0: "pop_inv ms (Some tp) r0 (ys @ nx # zs) TYPE('v)"
    using tp len split by (simp add: pop_inv_def r0_def)
  have pend0: "in_state Pending (mstates r0) = set rest" "in_state ToDo (mstates r0) = in_state ToDo (mstates r)"
    using pend \<open>distinct (tp # rest)\<close> tp len by (auto simp: r0_def in_state_update) (auto simp: in_state_def)
  from pop_until_correct [OF assms(1) inv0] obtain r' where r': "pop_until ms nx r0 (ys @ nx # zs) = Some r'"
    "pop_inv ms (Some tp) r' zs TYPE('v)" "stack r' = zs" "scratch_used r' = scratch_used r0"
    "in_state ToDo (mstates r') = in_state ToDo (mstates r0)"
    "in_state Pending (mstates r') = in_state Pending (mstates r0) - (set ys \<union> {nx})" "mstates r' ! nx = Done"
    by blast
  have used: "scratch_used r' = True" using r'(4) by (simp add: r0_def)
  have pend': "in_state Pending (mstates r') = set zs"
    unfolding r'(6) pend0(1) using split \<open>distinct (tp # rest)\<close> by auto
  let ?r = "r'\<lparr>ret := ret r' @ [(move_src (ms ! tp), none_alloc, t0)]\<rparr>"
  have rep': "represents (ret r') (done_map ms (Some tp) (mstates r')) TYPE('v)" and dn': "mstates r' ! tp = Done"
    using r'(2) by (simp_all add: pop_inv_def)
  have "represents (ret ?r) (done_map ms None (mstates ?r)) TYPE('v)"
    using represents_close [OF rep', of "move_src (ms ! tp)" t0] done_map_close [OF assms(1) tp(1) dn'] by simp
  moreover have "done_closed ms None (mstates ?r)"
    unfolding done_closed_def
  proof (intro allI impI)
    fix i j
    assume "i < length ms" "mstates ?r ! i = Done" "must_before ms ! i = Some j"
    with r'(2,7) must show "mstates ?r ! j = Done"
      by (cases "i = tp") (simp_all add: pop_inv_def done_closed_def)
  qed
  moreover have "ret_ok ms True (ret ?r)"
    using r'(2) used nth_mem [OF tp(1)] unfolding pop_inv_def ret_ok_def
    by (auto simp: move_src_def move_dst_def)
  ultimately have "loop_inv ms ?r TYPE('v)" using r'(2,3) pend' used by (simp add: loop_inv_def pop_inv_def)
  then have "step_post ms r ?r TYPE('v)"
    using r'(3,5) pend0(2) assms(3) split by (simp add: step_post_def loop_measure_def)
  with r'(1) split show ?thesis by blast
qed

lemma resolve_step_correct:
  assumes "movable ms" "loop_inv ms r TYPE('v)" "stack r = tp # rest"
  shows "\<exists>r'. resolve_step ms (must_before ms) r tp rest = Some r' \<and> step_post ms r r' TYPE('v)"
proof -
  have len: "length (must_before ms) = length ms" by (simp add: must_before_def)
  note len = this loop_inv_top(1) [OF assms(2,3)] and tp = loop_inv_top(2,3) [OF assms(2,3)]
  show ?thesis
  proof (cases "must_before ms ! tp")
    case None
    with step_pop_all [OF assms] len tp show ?thesis by (auto simp: resolve_step_def vec_get_def)
  next
    case (Some nx)
    have nx: "nx < length ms" "nx \<noteq> tp" using must_before_lt [OF assms(1) tp(1) Some] by auto
    show ?thesis
    proof (cases "mstates r ! nx")
      case ToDo
      with step_push [OF assms(2,3) Some ToDo nx(1)] Some nx len tp show ?thesis
        by (auto simp: resolve_step_def vec_get_def vec_set_def)
    next
      case Pending
      have "ms ! tp = (move_src (ms ! tp), move_dst (ms ! tp), snd (snd (ms ! tp)))"
        by (simp add: move_src_def move_dst_def)
      with step_cycle [OF assms Some Pending, where dt = "snd (snd (ms ! tp))" and ?t0.0 = 0] Some Pending nx len tp show ?thesis
        by (cases "ms ! tp") (auto simp: resolve_step_def vec_get_def vec_set_def move_src_def move_dst_def)
    next
      case Done
      with step_pop_all [OF assms] Some len nx tp show ?thesis by (auto simp: resolve_step_def vec_get_def)
    qed
  qed
qed

lemma inner_loop_correct:
  assumes "movable ms" "loop_inv ms r TYPE('v)"
  shows "\<exists>r'. inner_loop ms (must_before ms) r = Some r' \<and> loop_inv ms r' TYPE('v) \<and> stack r' = [] \<and>
    card (in_state ToDo (mstates r')) \<le> card (in_state ToDo (mstates r))"
  using assms(2)
proof (induction "loop_measure r" arbitrary: r rule: less_induct)
  case less
  show ?case
  proof (cases "stack r")
    case Nil
    with less.prems show ?thesis by (simp add: inner_loop.simps)
  next
    case (Cons tp rest)
    from resolve_step_correct [OF assms(1) less.prems this] obtain r1 where
      r1: "resolve_step ms (must_before ms) r tp rest = Some r1" "step_post ms r r1 TYPE('v)" by blast
    then have m: "loop_measure r1 < loop_measure r" and i: "loop_inv ms r1 TYPE('v)"
      and c: "card (in_state ToDo (mstates r1)) \<le> card (in_state ToDo (mstates r))" by (simp_all add: step_post_def)
    have "inner_loop ms (must_before ms) r = inner_loop ms (must_before ms) r1"
      by (subst inner_loop.simps) (simp add: Cons r1(1))
    with less.hyps [OF m i] c show ?thesis by (metis order_trans)
  qed
qed

lemma outer_loop_correct:
  assumes "movable ms" "loop_inv ms r TYPE('v)" "stack r = []"
  shows "\<exists>r'. outer_loop ms (must_before ms) r = Some r' \<and> loop_inv ms r' TYPE('v) \<and> stack r' = [] \<and>
    in_state ToDo (mstates r') = {}"
  using assms(2,3)
proof (induction "card (in_state ToDo (mstates r))" arbitrary: r rule: less_induct)
  case less
  show ?case
  proof (cases "find_index (\<lambda>s. s = ToDo) (mstates r)")
    case None
    then have "in_state ToDo (mstates r) = {}" by (auto simp: find_index_None in_state_def)
    with None less.prems show ?thesis by (subst outer_loop.simps) simp
  next
    case (Some nx)
    then have nx: "nx < length (mstates r)" "mstates r ! nx = ToDo" by (auto simp: find_index_Some)
    let ?r = "r\<lparr>stack := [nx], mstates := (mstates r)[nx := Pending]\<rparr>"
    have "loop_inv ms ?r TYPE('v)" using loop_inv_push [OF less.prems(1) nx] less.prems(2) by simp
    from inner_loop_correct [OF assms(1) this] obtain r1 where
      r1: "inner_loop ms (must_before ms) ?r = Some r1" "loop_inv ms r1 TYPE('v)" "stack r1 = []"
        "card (in_state ToDo (mstates r1)) \<le> card (in_state ToDo (mstates ?r))" by blast
    then have lt: "card (in_state ToDo (mstates r1)) < card (in_state ToDo (mstates r))"
      using card_todo_push [OF nx] by simp
    have "outer_loop ms (must_before ms) r = outer_loop ms (must_before ms) r1"
      by (subst outer_loop.simps) (simp add: Some r1(1) less.prems(2))
    with less.hyps [OF lt r1(2,3)] show ?thesis by simp
  qed
qed

lemma must_before_map: "map (\<lambda>m. dst_index ms (move_src m)) ms = must_before ms"
  by (simp add: must_before_def)

lemma u64_key_inj:
  assumes "u64_key b a = u64_key b' a'"
  shows "b = b' \<and> a = a'"
proof -
  have lt: "n < 32" if "bit w n" for w :: u32 and n using bit_imp_le_length [OF that] by simp
  have k: "bit (u64_key b a) (32 + n) = bit b n" "bit (u64_key b a) n = bit a n" if "n < 32" for a b :: u32 and n
    using that by (auto simp: u64_key_def bit_simps dest: lt)
  have "bit b n = bit b' n" "bit a n = bit a' n" if "n < 32" for n using k [OF that] assms by metis+
  then show ?thesis by (auto intro!: bit_word_eqI)
qed

lemma allocation_bits_inj: "allocation_bits a = allocation_bits b \<Longrightarrow> a = b"
  by (cases a; cases b) simp

lemma distinct_remdups_adj_sorted:
  fixes f :: "'a \<Rightarrow> 'b::linorder"
  assumes "sorted (map f xs)" "inj_on f (set xs)"
  shows "distinct (remdups_adj xs)"
  using assms
proof (induction xs rule: remdups_adj.induct)
  case (3 x y xs)
  have inj: "inj_on f (set (y # xs))" using 3(4) by (auto intro: inj_on_subset)
  show ?case
  proof (cases "x = y")
    case True
    then show ?thesis using 3(1) [OF True] 3(3) inj by simp
  next
    case False
    have "x \<notin> set (y # xs)"
    proof
      assume "x \<in> set (y # xs)"
      with 3(3) have "f x = f y" by (auto intro!: antisym)
      with 3(4) False show False by (auto dest: inj_onD)
    qed
    then show ?thesis using 3(2) [OF False] 3(3) inj False by simp
  qed
qed simp_all

lemma find_dst_index: "find (\<lambda>m. move_dst m = l) ms = map_option ((!) ms) (dst_index ms l)"
  unfolding dst_index_def by (induction ms) (auto simp: option.map_comp comp_def)

lemma distinct_adjacent: "distinct (map move_dst ms) \<Longrightarrow> adjacent_dsts_differ ms"
  by (induction ms rule: adjacent_dsts_differ.induct) auto

definition sorted_moves :: "'t pmove list \<Rightarrow> 't pmove list" where
  "sorted_moves moves = remdups_adj (sort_key (\<lambda>m. u64_key (allocation_bits (move_dst m)) (allocation_bits (move_src m))) moves)"

lemma sorted_moves_props:
  assumes "consistent_moves moves"
  shows "set (sorted_moves moves) = set moves" "distinct (map move_dst (sorted_moves moves))"
proof -
  let ?f = "\<lambda>m :: 'a pmove. u64_key (allocation_bits (move_dst m)) (allocation_bits (move_src m))"
  show s: "set (sorted_moves moves) = set moves" by (simp add: sorted_moves_def)
  have "inj_on ?f (set (sort_key ?f moves))"
    using assms by (auto simp: inj_on_def consistent_moves_def dest!: u64_key_inj allocation_bits_inj)
  then have "distinct (sorted_moves moves)"
    using distinct_remdups_adj_sorted [of ?f "sort_key ?f moves"] by (simp add: sorted_moves_def)
  moreover have "inj_on move_dst (set (sorted_moves moves))"
    using assms s by (auto simp: inj_on_def consistent_moves_def)
  ultimately show "distinct (map move_dst (sorted_moves moves))" by (simp add: distinct_map)
qed

lemma movable_filter:
  assumes "consistent_moves moves"
    and "\<And>m. m \<in> set moves \<Longrightarrow> move_src m \<noteq> none_alloc \<and> move_dst m \<noteq> none_alloc"
  shows "movable (filter (\<lambda>m. move_src m \<noteq> move_dst m) (sorted_moves moves))"
  using sorted_moves_props [OF assms(1)] assms(2) unfolding movable_def
  by (auto intro: distinct_map_filter)

lemma resolve_order:
  fixes moves :: "'t::zero pmove list"
  assumes "consistent_moves moves" "1 < length moves"
    and "\<And>m. m \<in> set moves \<Longrightarrow> move_src m \<noteq> none_alloc \<and> move_dst m \<noteq> none_alloc"
  defines "ms \<equiv> filter (\<lambda>m. move_src m \<noteq> move_dst m) (sorted_moves moves)"
  assumes "sources_overlap_dests ms"
  shows "\<exists>out used. resolve moves = Some (if used then Scratch (rev out) else NoScratch (rev out)) \<and>
    ret_ok ms used out \<and> (\<forall>(\<sigma> :: allocation \<Rightarrow> 'v) l. l \<noteq> none_alloc \<longrightarrow> exec_moves (rev out) \<sigma> l = exec_parallel ms \<sigma> l)"
proof -
  let ?r = "\<lparr>ret = [], stack = [], mstates = replicate (length ms) ToDo, scratch_used = False\<rparr> :: 't resolver"
  have mv: "movable ms" using movable_filter [OF assms(1,3)] by (simp add: ms_def)
  have "done_map ms None (replicate (length ms) ToDo) = Map.empty"
    using mv by (auto simp: done_map_def dst_index_Some fun_eq_iff split: option.splits)
  then have "loop_inv ms ?r TYPE('v)"
    by (auto simp: loop_inv_def in_state_def done_closed_def ret_ok_def)
  from outer_loop_correct [OF mv this] obtain r where r: "outer_loop ms (must_before ms) ?r = Some r"
    "loop_inv ms r TYPE('v)" "stack r = []" "in_state ToDo (mstates r) = {}" by auto
  have "adjacent_dsts_differ (sorted_moves moves)"
    by (rule distinct_adjacent [OF sorted_moves_props(2) [OF assms(1)]])
  then have res: "resolve moves = Some (if scratch_used r then Scratch (rev (ret r)) else NoScratch (rev (ret r)))"
    using assms(2,5) r(1) unfolding resolve_def sorted_moves_def [symmetric] must_before_map [symmetric] ms_def [symmetric]
    by (simp add: Let_def ms_def [symmetric] must_before_map)
  have "mstates r ! i = Done" if "i < length ms" for i
    using that r by (cases "mstates r ! i") (auto simp: loop_inv_def in_state_def)
  then have dm: "done_map ms None (mstates r) l = map_option move_src (find (\<lambda>m. move_dst m = l) ms)" for l
    using mv by (auto simp: done_map_def find_dst_index dst_index_Some split: option.splits)
  have "exec_moves (rev (ret r)) \<sigma> l = exec_parallel ms \<sigma> l" if "l \<noteq> none_alloc" for \<sigma> :: "allocation \<Rightarrow> 'v" and l
    using r(2) that by (auto simp: loop_inv_def represents_def dm exec_parallel_def split: option.splits)
  with res r(2) show ?thesis unfolding loop_inv_def by blast
qed

lemma exec_moves_other: "l \<notin> move_dst ` set ms \<Longrightarrow> exec_moves ms \<sigma> l = \<sigma> l"
  by (induction ms arbitrary: \<sigma>) (auto simp: exec_move_def)

lemma exec_no_overlap:
  assumes "distinct (map move_dst ms)" "\<And>m m'. m \<in> set ms \<Longrightarrow> m' \<in> set ms \<Longrightarrow> move_src m \<noteq> move_dst m'"
  shows "exec_moves ms \<sigma> l = exec_parallel ms \<sigma> l"
  using assms
proof (induction ms arbitrary: \<sigma>)
  case (Cons m ms)
  have "exec_moves ms (exec_move m \<sigma>) l = exec_parallel ms (exec_move m \<sigma>) l"
    using Cons by (metis distinct.simps(2) list.set_intros(2) list.simps(9))
  also have "\<dots> = exec_parallel (m # ms) \<sigma> l"
  proof (cases "find (\<lambda>m. move_dst m = l) ms")
    case None
    then show ?thesis by (auto simp: exec_parallel_def exec_move_def)
  next
    case (Some m')
    then have m': "m' \<in> set ms" "move_dst m' = l" by (auto simp: find_Some_iff)
    then have "move_src m' \<noteq> move_dst m" "move_dst m \<noteq> l"
      using Cons.prems by (auto simp: image_iff)
    then show ?thesis using Some by (simp add: exec_parallel_def exec_move_def)
  qed
  finally show ?case by simp
qed (simp add: exec_parallel_def)

lemma no_overlap_dst:
  assumes "\<not> sources_overlap_dests ms" "m \<in> set ms" "m' \<in> set ms"
  shows "move_src m \<noteq> move_dst m'"
  using assms unfolding sources_overlap_dests_def list_ex_iff dst_index_def
  by (simp add: find_index_None) metis

text \<open>Filling in the scratch location renames the placeholder.\<close>

definition place :: "allocation \<Rightarrow> allocation \<Rightarrow> allocation" where
  "place scratch a = (if a = none_alloc then scratch else a)"

definition place_move :: "allocation \<Rightarrow> 't pmove \<Rightarrow> 't pmove" where
  "place_move scratch m = (place scratch (move_src m), place scratch (move_dst m), snd (snd m))"

definition fillable :: "allocation \<Rightarrow> 't pmove \<Rightarrow> bool" where
  "fillable scratch m = (move_src m \<noteq> scratch \<and> move_dst m \<noteq> scratch \<and>
     allocation_is_none (move_src m) = Some (move_src m = none_alloc) \<and>
     allocation_is_none (move_dst m) = Some (move_dst m = none_alloc) \<and>
     \<not> (move_src m = none_alloc \<and> move_dst m = none_alloc))"

lemma fold_fill_scratch:
  "list_all (fillable scratch) ms \<Longrightarrow> foldM (fill_scratch scratch) acc ms = Some (acc @ map (place_move scratch) ms)"
proof (induction ms arbitrary: acc)
  case (Cons m ms)
  then have "fill_scratch scratch acc m = Some (acc @ [place_move scratch m])"
    by (cases m) (auto simp: fill_scratch_def fillable_def place_move_def place_def move_src_def move_dst_def)
  with Cons show ?case by simp
qed simp

lemma exec_place_moves:
  assumes "list_all (fillable scratch) ms" "\<sigma> none_alloc = \<tau> scratch"
    and "\<And>l. l \<noteq> none_alloc \<Longrightarrow> l \<noteq> scratch \<Longrightarrow> \<sigma> l = \<tau> l" "l \<noteq> none_alloc" "l \<noteq> scratch"
  shows "exec_moves (map (place_move scratch) ms) \<tau> l = exec_moves ms \<sigma> l"
  using assms
proof (induction ms arbitrary: \<sigma> \<tau>)
  case (Cons m ms)
  have "exec_move m \<sigma> none_alloc = exec_move (place_move scratch m) \<tau> scratch"
    "\<And>l. l \<noteq> none_alloc \<Longrightarrow> l \<noteq> scratch \<Longrightarrow> exec_move m \<sigma> l = exec_move (place_move scratch m) \<tau> l"
    using Cons.prems
    by (auto simp: exec_move_def place_move_def place_def fillable_def move_src_def move_dst_def)
  with Cons show ?case by simp
qed simp

lemma allocation_is_none_none [simp]: "allocation_is_none none_alloc = Some True"
  by (simp add: allocation_is_none_def allocation_get_kind_def none_alloc_def)

text \<open>The moves the resolver takes: one source per destination, no empty allocations.\<close>

definition resolvable :: "'t pmove list \<Rightarrow> bool" where
  "resolvable moves = (consistent_moves moves \<and>
     list_all (\<lambda>m. allocation_is_none (move_src m) = Some False \<and> allocation_is_none (move_dst m) = Some False) moves)"

lemma resolvable_none:
  assumes "resolvable moves" "m \<in> set moves"
  shows "move_src m \<noteq> none_alloc \<and> move_dst m \<noteq> none_alloc"
  using assms by (auto simp: resolvable_def list_all_iff)

definition unused :: "allocation \<Rightarrow> 't pmove list \<Rightarrow> bool" where
  "unused a moves = list_all (\<lambda>m. move_src m \<noteq> a \<and> move_dst m \<noteq> a) moves"

lemma ret_ok_fillable:
  assumes "resolvable moves" "ret_ok ms used out" "set ms \<subseteq> set moves" "unused scratch moves" "scratch \<noteq> none_alloc"
  shows "list_all (fillable scratch) out"
  unfolding list_all_iff
proof
  fix m assume "m \<in> set out"
  with assms(2) consider (own) "m \<in> set moves" | (reads) m' where "m' \<in> set moves" "move_src m = none_alloc" "move_dst m = move_dst m'"
    | (writes) m' where "m' \<in> set moves" "move_dst m = none_alloc" "move_src m = move_src m'"
    using assms(3) unfolding ret_ok_def by blast
  then show "fillable scratch m"
    using assms(1,4,5) resolvable_none [OF assms(1)]
    by cases (auto simp: fillable_def resolvable_def unused_def list_all_iff)
qed

lemma find_mem: "find P xs = Some x \<Longrightarrow> x \<in> set xs"
  by (auto simp: find_Some_iff)

lemma place_move_dst: "scratch \<noteq> none_alloc \<Longrightarrow> move_dst (place_move scratch m) \<noteq> none_alloc"
  by (simp add: place_move_def place_def move_dst_def)

lemma exec_parallel_agree:
  assumes "\<And>m. m \<in> set ms \<Longrightarrow> \<sigma> (move_src m) = \<tau> (move_src m)" "\<sigma> l = \<tau> l"
  shows "exec_parallel ms \<sigma> l = exec_parallel ms \<tau> l"
  using assms by (cases "find (\<lambda>m. move_dst m = l) ms") (simp_all add: exec_parallel_def find_mem)

lemma exec_filled:
  assumes "movable ms" "list_all (fillable scratch) out" "scratch \<noteq> none_alloc"
    and ex: "\<And>(\<tau> :: allocation \<Rightarrow> 'v) l. l \<noteq> none_alloc \<Longrightarrow> exec_moves out \<tau> l = exec_parallel ms \<tau> l"
    and l: "l \<noteq> scratch"
  shows "exec_moves (map (place_move scratch) out) \<sigma> l = exec_parallel ms (\<sigma> :: allocation \<Rightarrow> 'v) l"
proof (cases "l = none_alloc")
  case True
  have "l \<notin> move_dst ` set (map (place_move scratch) out)" "l \<notin> move_dst ` set ms"
    using True assms(1) place_move_dst [OF assms(3)] unfolding movable_def set_map image_image by (blast, blast)
  then show ?thesis using exec_moves_other exec_parallel_other by metis
next
  case False
  let ?\<sigma> = "\<sigma>(none_alloc := \<sigma> scratch)"
  have "exec_moves (map (place_move scratch) out) \<sigma> l = exec_moves out ?\<sigma> l"
    using False l by (intro exec_place_moves [OF assms(2)]) auto
  also have "\<dots> = exec_parallel ms ?\<sigma> l" by (rule ex [OF False])
  also have "\<dots> = exec_parallel ms \<sigma> l"
    using False assms(1) by (intro exec_parallel_agree) (auto simp: movable_def)
  finally show ?thesis .
qed

definition locs :: "'t pmove list \<Rightarrow> allocation set" where
  "locs ms = move_src ` set ms \<union> move_dst ` set ms"

lemma locs_place:
  assumes "ret_ok ms used out"
  shows "locs (map (place_move scratch) out) \<subseteq> insert scratch (locs ms)"
proof -
  have "{move_src (place_move scratch m), move_dst (place_move scratch m)} \<subseteq> insert scratch (locs ms)"
    if "m \<in> set out" for m
  proof -
    have "m \<in> set ms \<or> (\<exists>m' \<in> set ms. move_src m = none_alloc \<and> move_dst m = move_dst m' \<or>
        move_dst m = none_alloc \<and> move_src m = move_src m')"
      using assms that by (auto simp only: ret_ok_def)
    then show ?thesis
      by (auto simp: place_move_def place_def move_src_def move_dst_def locs_def image_iff) 
  qed
  then show ?thesis by (subst locs_def, unfold set_map image_image) blast
qed

text \<open>What the resolver promises for a result \<open>mv\<close> and the moves \<open>ms\<close>.\<close>

definition implements :: "'t move_vec \<Rightarrow> allocation \<Rightarrow> 't pmove list \<Rightarrow> (allocation \<Rightarrow> 'v) \<Rightarrow> bool" where
  "implements mv scratch ms \<sigma> = (\<exists>out. with_scratch mv scratch = Some out \<and>
     locs out \<subseteq> locs ms \<union> (if needs_scratch mv then {scratch} else {}) \<and>
     (\<forall>l. l \<noteq> scratch \<or> \<not> needs_scratch mv \<longrightarrow> exec_moves out \<sigma> l = exec_parallel ms \<sigma> l))"

lemma ordered_implements:
  assumes "movable ms" "list_all (fillable scratch) out" "scratch \<noteq> none_alloc" "ret_ok ms used out"
    and ex: "\<And>(\<tau> :: allocation \<Rightarrow> 'v) l. l \<noteq> none_alloc \<Longrightarrow> exec_moves (rev out) \<tau> l = exec_parallel ms \<tau> l"
  shows "implements (if used then Scratch (rev out) else NoScratch (rev out)) scratch ms (\<sigma> :: allocation \<Rightarrow> 'v)"
proof (cases used)
  case True
  have f: "list_all (fillable scratch) (rev out)" using assms(2) by simp
  show ?thesis
    using exec_filled [OF assms(1) f assms(3) ex, where \<sigma> = \<sigma>] fold_fill_scratch [OF f, of "[]"] True
      locs_place [of ms used "rev out" scratch] assms(4)
    by (simp add: implements_def ret_ok_def)
next
  case False
  have "exec_moves (rev out) \<sigma> l = exec_parallel ms \<sigma> l" for l
  proof (cases "l = none_alloc")
    case True
    then have "l \<notin> move_dst ` set (rev out)" "l \<notin> move_dst ` set ms"
      using assms(1,4) False unfolding ret_ok_def movable_def set_rev by (blast, blast)
    then show ?thesis using exec_moves_other exec_parallel_other by metis
  qed (rule ex)
  moreover have "locs (rev out) \<subseteq> locs ms" using assms(4) False by (auto simp: ret_ok_def locs_def)
  ultimately show ?thesis using False by (simp add: implements_def)
qed

lemma resolve_implements:
  fixes moves :: "'t::zero pmove list"
  assumes "resolvable moves" "unused scratch moves" "scratch \<noteq> none_alloc"
  shows "\<exists>mv. resolve moves = Some mv \<and> implements mv scratch moves (\<sigma> :: allocation \<Rightarrow> 'v)"
proof (cases "length moves \<le> 1")
  case True
  then have "moves = [] \<or> (\<exists>m. moves = [m])" by (cases moves) auto
  then show ?thesis using True by (auto simp: resolve_def implements_def exec_parallel_def exec_move_def)
next
  case False
  define ms where "ms = filter (\<lambda>m. move_src m \<noteq> move_dst m) (sorted_moves moves)"
  have c: "consistent_moves moves" using assms(1) by (simp add: resolvable_def)
  have mv: "movable ms" unfolding ms_def by (rule movable_filter [OF c resolvable_none [OF assms(1)]])
  have sub: "set ms \<subseteq> set moves" using sorted_moves_props(1) [OF c] by (auto simp: ms_def)
  have "exec_parallel ms \<sigma> = exec_parallel moves \<sigma>"
    using sorted_moves_props(1) [OF c] by (intro exec_parallel_cong [OF c sub]) (auto simp: ms_def)
  moreover have "locs ms \<subseteq> locs moves" using sub by (auto simp: locs_def)
  ultimately have par: "implements mv scratch ms \<sigma> \<Longrightarrow> implements mv scratch moves \<sigma>" for mv :: "'t move_vec"
    by (auto simp: implements_def split: if_splits)
  show ?thesis
  proof (cases "sources_overlap_dests ms")
    case True
    with resolve_order [OF c _ resolvable_none [OF assms(1)]] False
    obtain out used where res: "resolve moves = Some (if used then Scratch (rev out) else NoScratch (rev out))"
      and ok: "ret_ok ms used out"
      and ex: "\<And>(\<tau> :: allocation \<Rightarrow> 'v) l. l \<noteq> none_alloc \<Longrightarrow> exec_moves (rev out) \<tau> l = exec_parallel ms \<tau> l"
      unfolding ms_def by (auto simp: not_le)
    have "implements (if used then Scratch (rev out) else NoScratch (rev out)) scratch ms \<sigma>"
      by (rule ordered_implements [OF mv ret_ok_fillable [OF assms(1) ok sub assms(2,3)] assms(3) ok ex])
    with res par show ?thesis by blast
  next
    case apart: False
    have "exec_moves ms \<sigma> l = exec_parallel ms \<sigma> l" for l
      using mv no_overlap_dst [OF apart] by (intro exec_no_overlap) (simp_all add: movable_def)
    then have "implements (NoScratch ms) scratch ms \<sigma>" by (auto simp add: implements_def)
    moreover have "resolve moves = Some (NoScratch ms)"
      using False apart distinct_adjacent [OF sorted_moves_props(2) [OF c]]
      unfolding resolve_def sorted_moves_def [symmetric] by (simp add: ms_def)
    ultimately show ?thesis using par by blast
  qed
qed

text \<open>C29: For moves with one source per destination and a scratch location none of them names, \<open>resolve\<close>
  returns and \<open>with_scratch\<close> does not panic, and executing the resulting moves one after the other has
  the effect of executing all given moves at once, on every location but the scratch one, which is
  changed only when the result asks for it.\<close>

theorem resolve_parallel:
  fixes moves :: "'t::zero pmove list" and \<sigma> :: "allocation \<Rightarrow> 'v"
  assumes "resolvable moves" "unused scratch moves" "scratch \<noteq> none_alloc"
  shows "\<exists>mv out. resolve moves = Some mv \<and> with_scratch mv scratch = Some out \<and>
    (\<forall>l. l \<noteq> scratch \<or> \<not> needs_scratch mv \<longrightarrow> exec_moves out \<sigma> l = exec_parallel moves \<sigma> l)"
  using resolve_implements [OF assms, of \<sigma>] by (auto simp: implements_def)

section \<open>Removing moves between stack slots\<close>

definition no_stack_to_stack :: "'e scratch_resolver \<Rightarrow> 't pmove list \<Rightarrow> bool" where
  "no_stack_to_stack self ms = list_all (\<lambda>m. \<not> is_stack_to_stack_move self (move_src m) (move_dst m)) ms"

text \<open>The store \<open>\<omega>\<close> of the rewritten moves against the store \<open>\<tau>\<close> of the original ones: they agree outside
  of the scratch register and the save slot; the register has its own value unless it is dirty, and
  the save slot has the register's value unless it is dirty.\<close>

definition rewrite_inv :: "'e scratch_resolver \<Rightarrow> allocation \<Rightarrow> allocation option \<Rightarrow> 't rewrite \<Rightarrow>
    (allocation \<Rightarrow> 'v) \<Rightarrow> (allocation \<Rightarrow> 'v) \<Rightarrow> bool" where
  "rewrite_inv self r save w \<tau> \<omega> = (no_stack_to_stack self (result w) \<and>
     (\<forall>l. l \<noteq> r \<longrightarrow> save \<noteq> Some l \<longrightarrow> \<omega> l = \<tau> l) \<and>
     (\<forall>sv. save = Some sv \<longrightarrow> (scratch_dirty w \<longrightarrow> \<not> save_dirty w) \<and>
        (\<not> scratch_dirty w \<longrightarrow> \<omega> r = \<tau> r) \<and> (\<not> save_dirty w \<longrightarrow> \<omega> sv = \<tau> r)))"

definition rewritable :: "'e scratch_resolver \<Rightarrow> allocation \<Rightarrow> allocation option \<Rightarrow> 't pmove \<Rightarrow> bool" where
  "rewritable self r save m = (save \<noteq> Some (move_src m) \<and> save \<noteq> Some (move_dst m) \<and>
     (save = None \<longrightarrow> move_src m \<noteq> r \<and> move_dst m \<noteq> r))"

lemma rewrite_move_stack:
  assumes "is_stack_to_stack_move self src dst" "\<not> is_stack_alloc self r" "save \<noteq> Some r"
    and "rewritable self r save (src, dst, d)" "rewrite_inv self r save w \<tau> (exec_moves (result w) \<sigma>)"
  shows "\<exists>w'. rewrite_move self r save w (src, dst, d) = Some w' \<and>
    rewrite_inv self r save w' (exec_move (src, dst, d) \<tau>) (exec_moves (result w') \<sigma>)"
proof -
  have "src \<noteq> r" "dst \<noteq> r" using assms(1,2) by (auto simp: is_stack_to_stack_move_def)
  then show ?thesis
    using assms
    by (cases save) (auto simp: rewrite_move_def rewrite_inv_def no_stack_to_stack_def rewritable_def
        is_stack_to_stack_move_def exec_move_def move_src_def move_dst_def)
qed

lemma rewrite_move_other:
  assumes "\<not> is_stack_to_stack_move self src dst" "\<not> is_stack_alloc self r" "save \<noteq> Some r"
    and "rewritable self r save (src, dst, d)" "rewrite_inv self r save w \<tau> (exec_moves (result w) \<sigma>)"
  shows "\<exists>w'. rewrite_move self r save w (src, dst, d) = Some w' \<and>
    rewrite_inv self r save w' (exec_move (src, dst, d) \<tau>) (exec_moves (result w') \<sigma>)"
proof (cases "src = r \<and> scratch_dirty w")
  case True
  then obtain sv where "save = Some sv" using assms(4) by (cases save) (auto simp: rewritable_def move_src_def)
  with True assms show ?thesis
    by (auto simp: rewrite_move_def rewrite_inv_def no_stack_to_stack_def rewritable_def
        is_stack_to_stack_move_def exec_move_def move_src_def move_dst_def Let_def)
next
  case False
  with assms show ?thesis
    by (cases save) (auto simp: rewrite_move_def rewrite_inv_def no_stack_to_stack_def rewritable_def
        exec_move_def move_src_def move_dst_def Let_def)
qed

lemma rewrite_moves_correct:
  assumes "\<not> is_stack_alloc self r" "save \<noteq> Some r" "list_all (rewritable self r save) ms"
    and "rewrite_inv self r save w \<tau> (exec_moves (result w) \<sigma>)"
  shows "\<exists>w'. foldM (rewrite_move self r save) w ms = Some w' \<and>
    rewrite_inv self r save w' (exec_moves ms \<tau>) (exec_moves (result w') \<sigma>)"
  using assms(3,4)
proof (induction ms arbitrary: w \<tau>)
  case (Cons m ms)
  obtain src dst d where m: "m = (src, dst, d)" by (cases m) auto
  from Cons.prems have rw: "rewritable self r save (src, dst, d)" by (simp add: m)
  obtain w1 where w1: "rewrite_move self r save w m = Some w1"
    "rewrite_inv self r save w1 (exec_move m \<tau>) (exec_moves (result w1) \<sigma>)"
    using rewrite_move_stack [OF _ assms(1,2) rw Cons.prems(2)] rewrite_move_other [OF _ assms(1,2) rw Cons.prems(2)]
    unfolding m by blast
  have "list_all (rewritable self r save) ms" using Cons.prems by simp
  from Cons.IH [OF this w1(2)] w1(1) show ?case by simp
qed auto

text \<open>What the resolver relies on of its closures, for \<open>n\<close> requests, each for a free register and, when
  there is none, for a stack slot: a location that is not among those in use, \<open>L\<close>, and a free register
  that is not on the stack. The register that may be borrowed is one of those in use.\<close>

fun fresh_supply :: "'e scratch_resolver \<Rightarrow> nat \<Rightarrow> allocation set \<Rightarrow> 'e \<Rightarrow> bool" where
  "fresh_supply self 0 L e = True"
| "fresh_supply self (Suc n) L e = (case find_free_reg self e of
      (Some a, e1) \<Rightarrow> a \<notin> L \<and> \<not> is_stack_alloc self a \<and> fresh_supply self n (insert a L) e1
    | (None, e1) \<Rightarrow> (case get_stackslot self e1 of (a, e2) \<Rightarrow> a \<notin> L \<and> fresh_supply self n (insert a L) e2))"

definition borrow_ok :: "'e scratch_resolver \<Rightarrow> allocation set \<Rightarrow> bool" where
  "borrow_ok self L = (case allocation_reg (borrowed_scratch_reg self) of
      Some r \<Rightarrow> \<not> is_stack_alloc self r \<and> r \<in> L | None \<Rightarrow> False)"

lemma fresh_supply_Suc: "fresh_supply self (Suc n) L e \<Longrightarrow> fresh_supply self n L e"
proof (induction n arbitrary: L e)
  case (Suc n)
  show ?case
    using Suc.prems Suc.IH unfolding fresh_supply.simps(2) [of self "Suc n" L e] fresh_supply.simps(2) [of self n L e]
    by (auto simp del: fresh_supply.simps split: option.splits prod.splits)
qed simp

lemma choose_scratch_fresh:
  assumes "fresh_supply self 1 L e" "borrow_ok self L"
  shows "\<exists>r save e'. choose_scratch self e = Some (r, save, e') \<and> \<not> is_stack_alloc self r \<and> save \<noteq> Some r \<and>
    (save = None \<longrightarrow> r \<notin> L) \<and> (\<forall>sv. save = Some sv \<longrightarrow> sv \<notin> L)"
  using assms by (auto simp: choose_scratch_def borrow_ok_def split: option.splits prod.splits)

lemma restore_scratch_correct:
  assumes "rewrite_inv self r save w \<tau> (exec_moves (result w) \<sigma>)" "\<not> is_stack_alloc self r"
  shows "\<exists>out. restore_scratch r save w = Some out \<and> no_stack_to_stack self out \<and>
    (\<forall>l. save \<noteq> Some l \<longrightarrow> (save = None \<longrightarrow> l \<noteq> r) \<longrightarrow> exec_moves out \<sigma> l = \<tau> l)"
  using assms
  by (cases save) (auto simp: restore_scratch_def rewrite_inv_def no_stack_to_stack_def
      is_stack_to_stack_move_def exec_move_def move_src_def move_dst_def)

lemma remove_stack_moves:
  fixes ms :: "'t::zero pmove list"
  assumes "fresh_supply self 1 L e" "borrow_ok self L" "locs ms \<subseteq> L"
  shows "\<exists>r save e' w out. choose_scratch self e = Some (r, save, e') \<and>
    foldM (rewrite_move self r save) \<lparr>result = [], scratch_dirty = False, save_dirty = True\<rparr> ms = Some w \<and>
    restore_scratch r save w = Some out \<and> no_stack_to_stack self out \<and>
    (\<forall>l \<in> L. exec_moves out \<sigma> l = exec_moves ms \<sigma> l)"
proof -
  obtain r save e' where c: "choose_scratch self e = Some (r, save, e')" "\<not> is_stack_alloc self r" "save \<noteq> Some r"
    "save = None \<longrightarrow> r \<notin> L" "\<forall>sv. save = Some sv \<longrightarrow> sv \<notin> L"
    using choose_scratch_fresh [OF assms(1,2)] by blast
  let ?w = "\<lparr>result = [], scratch_dirty = False, save_dirty = True\<rparr> :: 't rewrite"
  have "list_all (rewritable self r save) ms"
    using assms(3) c(4,5) unfolding list_all_iff rewritable_def locs_def by blast
  moreover have "rewrite_inv self r save ?w \<sigma> (exec_moves (result ?w) \<sigma>)"
    by (simp add: rewrite_inv_def no_stack_to_stack_def)
  ultimately obtain w where w: "foldM (rewrite_move self r save) ?w ms = Some w"
    "rewrite_inv self r save w (exec_moves ms \<sigma>) (exec_moves (result w) \<sigma>)"
    using rewrite_moves_correct [OF c(2,3)] by blast
  obtain out where out: "restore_scratch r save w = Some out" "no_stack_to_stack self out"
    "\<forall>l. save \<noteq> Some l \<longrightarrow> (save = None \<longrightarrow> l \<noteq> r) \<longrightarrow> exec_moves out \<sigma> l = exec_moves ms \<sigma> l"
    using restore_scratch_correct [OF w(2) c(2)] by blast
  have "\<forall>l \<in> L. exec_moves out \<sigma> l = exec_moves ms \<sigma> l" using out(3) c(4,5) by blast
  with c(1) w(1) out(1,2) show ?thesis by blast
qed

lemma place_scratch_correct:
  fixes moves :: "'t::zero pmove list"
  assumes "resolvable moves" "fresh_supply self 2 L e" "locs moves \<subseteq> L" "none_alloc \<in> L"
  shows "\<exists>mv ms e' L'. resolve moves = Some mv \<and> place_scratch self e mv = Some (ms, e') \<and>
    L \<subseteq> L' \<and> fresh_supply self 1 L' e' \<and> locs ms \<subseteq> L' \<and>
    (\<forall>l \<in> L. exec_moves ms \<sigma> l = exec_parallel moves \<sigma> l)"
proof -
  obtain free e1 where f: "find_free_reg self e = (free, e1)" by force
  define s where "s = (case free of Some a \<Rightarrow> (a, e1) | None \<Rightarrow> get_stackslot self e1)"
  obtain scr e2 where s: "s = (scr, e2)" by force
  have scr: "scr \<notin> L" "fresh_supply self 1 (insert scr L) e2"
    using assms(2) f s by (auto simp: numeral_2_eq_2 s_def split: option.splits prod.splits)
  have "unused scr moves" "scr \<noteq> none_alloc"
    using scr(1) assms(3,4) by (auto simp: unused_def list_all_iff locs_def)
  with resolve_implements [OF assms(1)] obtain mv where mv: "resolve moves = Some mv" "implements mv scr moves \<sigma>"
    by blast
  then obtain ms where ms: "with_scratch mv scr = Some ms"
    "locs ms \<subseteq> locs moves \<union> (if needs_scratch mv then {scr} else {})"
    "\<And>l. l \<noteq> scr \<or> \<not> needs_scratch mv \<Longrightarrow> exec_moves ms \<sigma> l = exec_parallel moves \<sigma> l"
    by (auto simp: implements_def)
  have ex: "\<forall>l \<in> L. exec_moves ms \<sigma> l = exec_parallel moves \<sigma> l" using ms(3) scr(1) by metis
  show ?thesis
  proof (cases mv)
    case (NoScratch x)
    then have "place_scratch self e mv = Some (ms, e)" using ms(1) by (simp add: place_scratch_def)
    moreover have "fresh_supply self 1 L e" using fresh_supply_Suc [of self 1 L e] assms(2) by (simp add: numeral_2_eq_2)
    moreover have "locs ms \<subseteq> L" using ms(2) assms(3) NoScratch by auto
    ultimately show ?thesis using mv(1) ex by blast
  next
    case (Scratch x)
    then have "place_scratch self e mv = Some (ms, e2)" using ms(1) f s by (simp add: place_scratch_def s_def)
    moreover have "locs ms \<subseteq> insert scr L" using ms(2) assms(3) Scratch by auto
    ultimately show ?thesis using mv(1) scr(2) ex by blast
  qed
qed

text \<open>C30: With closures that hand out unused locations, resolving the moves and removing the moves between
  stack slots returns without a panic, leaves no move between two stack slots, and executing the
  result has the effect of executing the given moves at once on every location in use, the borrowed
  scratch register included.\<close>

theorem scratch_compute_correct:
  fixes moves :: "'t::zero pmove list" and \<sigma> :: "allocation \<Rightarrow> 'v"
  assumes "resolvable moves" "fresh_supply self 2 L e" "borrow_ok self L" "locs moves \<subseteq> L" "none_alloc \<in> L"
  shows "\<exists>mv out e'. resolve moves = Some mv \<and> scratch_compute self e mv = Some (out, e') \<and>
    no_stack_to_stack self out \<and> (\<forall>l \<in> L. exec_moves out \<sigma> l = exec_parallel moves \<sigma> l)"
proof -
  from place_scratch_correct [OF assms(1,2,4,5), of \<sigma>] obtain mv ms e1 L' where
    p: "resolve moves = Some mv" "place_scratch self e mv = Some (ms, e1)" "L \<subseteq> L'" "fresh_supply self 1 L' e1"
       "locs ms \<subseteq> L'" "\<forall>l \<in> L. exec_moves ms \<sigma> l = exec_parallel moves \<sigma> l" by blast
  show ?thesis
  proof (cases "list_ex (\<lambda>m. is_stack_to_stack_move self (move_src m) (move_dst m)) ms")
    case False
    then have "no_stack_to_stack self ms" by (auto simp: no_stack_to_stack_def list_ex_iff list_all_iff)
    with p False show ?thesis by (auto simp: scratch_compute_def)
  next
    case True
    have "borrow_ok self L'" using assms(3) p(3) by (auto simp: borrow_ok_def split: option.splits)
    from remove_stack_moves [OF p(4) this p(5), of \<sigma>] obtain r save e' w out where
      q: "choose_scratch self e1 = Some (r, save, e')"
      "foldM (rewrite_move self r save) \<lparr>result = [], scratch_dirty = False, save_dirty = True\<rparr> ms = Some w"
      "restore_scratch r save w = Some out" "no_stack_to_stack self out"
      "\<forall>l \<in> L'. exec_moves out \<sigma> l = exec_moves ms \<sigma> l" by blast
    then have "scratch_compute self e mv = Some (out, e')" using p(2) True by (simp add: scratch_compute_def)
    moreover have "\<forall>l \<in> L. exec_moves out \<sigma> l = exec_parallel moves \<sigma> l" using q(5) p(3,6) by auto
    ultimately show ?thesis using p(1) q(4) by blast
  qed
qed

text \<open>Examples: swapping two registers, and two stack slots with no free register.\<close>

definition swap_regs :: "nat pmove list" where
  "swap_regs = [(Allocation 0x20000000, Allocation 0x20000001, 5), (Allocation 0x20000001, Allocation 0x20000000, 5)]"

definition swap_slots :: "nat pmove list" where
  "swap_slots = [(Allocation 0x40000000, Allocation 0x40000001, 5), (Allocation 0x40000001, Allocation 0x40000000, 5)]"

definition slot_supply :: "allocation list scratch_resolver" where
  "slot_supply = \<lparr>find_free_reg = \<lambda>e. (None, e), get_stackslot = \<lambda>e. (hd e, tl e),
     is_stack_alloc = \<lambda>a. allocation_get_kind a = Some KindStack, borrowed_scratch_reg = PReg 0\<rparr>"



lemma kind_r0 [simp]: "allocation_get_kind (Allocation 0x20000000) = Some KindReg"
  by code_simp

lemma reg_r0 [simp]: "allocation_reg (PReg 0) = Some (Allocation 0x20000000)"
  by (simp add: allocation_reg_def allocation_new_def preg_index_def)

theorem resolve_parallel_witness:
  "resolvable swap_regs \<and> unused (Allocation 0x20000002) swap_regs \<and> Allocation 0x20000002 \<noteq> none_alloc \<and>
   (\<exists>mv out. resolve swap_regs = Some mv \<and> with_scratch mv (Allocation 0x20000002) = Some out \<and>
     (\<forall>l. l \<noteq> Allocation 0x20000002 \<or> \<not> needs_scratch mv \<longrightarrow>
        exec_moves out allocation_bits l = exec_parallel swap_regs allocation_bits l))"
proof -
  have "resolvable swap_regs" "unused (Allocation 0x20000002) swap_regs" "Allocation 0x20000002 \<noteq> none_alloc"
    by code_simp+
  then show ?thesis using resolve_parallel [of swap_regs "Allocation 0x20000002" allocation_bits] by blast
qed

theorem scratch_compute_correct_witness:
  "\<exists>mv out e'. resolve swap_slots = Some mv \<and>
    scratch_compute slot_supply [Allocation 0x40000002, Allocation 0x40000003] mv = Some (out, e') \<and>
    no_stack_to_stack slot_supply out \<and>
    (\<forall>l \<in> {none_alloc, Allocation 0x20000000, Allocation 0x40000000, Allocation 0x40000001}.
       exec_moves out allocation_bits l = exec_parallel swap_slots allocation_bits l)"
proof (rule scratch_compute_correct)
  show "resolvable swap_slots" by code_simp
  show "borrow_ok slot_supply {none_alloc, Allocation 0x20000000, Allocation 0x40000000, Allocation 0x40000001}"
    by (simp add: borrow_ok_def slot_supply_def)
  show "fresh_supply slot_supply 2 {none_alloc, Allocation 0x20000000, Allocation 0x40000000, Allocation 0x40000001}
      [Allocation 0x40000002, Allocation 0x40000003]"
    unfolding numeral_2_eq_2 by (simp add: slot_supply_def none_alloc_def)
qed (simp_all add: locs_def swap_slots_def move_src_def move_dst_def)

end
