(* ===== verification/Index_Ranges.thy ===== *)
theory Index_Ranges
  imports Rust_Prelude
begin

text \<open>
  Lists of contiguous index ranges (\<^verbatim>\<open>tomori_utils/src/ranges.rs\<close>), used by the code buffer to find the
  instructions of a block and the operands of an instruction: the ends of the ranges in ascending order with an explicit first 0,
  and a flag that makes the indices count from the end. Building the lists backwards and then
  reversing what they refer to is what the lemmas at the end are about.
\<close>

section \<open>Model\<close>

record index_ranges =
  rs_ends :: "u32 list"
  rs_reverse :: bool

definition ranges_default :: index_ranges where
  "ranges_default = \<lparr>rs_ends = [], rs_reverse = False\<rparr>"

definition push_end :: "index_ranges \<Rightarrow> usize \<Rightarrow> index_ranges rust" where
  "push_end self end = do {
     rassert (\<not> rs_reverse self);
     let ends = (if rs_ends self = [] then [0] else rs_ends self);
     e \<leftarrow> try_u32 end;
     Some (self\<lparr>rs_ends := ends @ [e]\<rparr>) }"

definition ranges_len :: "index_ranges \<Rightarrow> usize" where
  "ranges_len self = length (rs_ends self) - 1"

definition ranges_is_empty :: "index_ranges \<Rightarrow> bool" where
  "ranges_is_empty self = (ranges_len self = 0)"

definition map_index :: "index_ranges \<Rightarrow> usize \<Rightarrow> usize rust" where
  "map_index self index =
    (if rs_reverse self then do { a \<leftarrow> usize_sub (ranges_len self) 1; usize_sub a index } else Some index)"

definition ranges_get :: "index_ranges \<Rightarrow> usize \<Rightarrow> (usize \<times> usize) rust" where
  "ranges_get self index = do {
     rassert (index < ranges_len self);
     i \<leftarrow> map_index self index;
     a \<leftarrow> vec_get (rs_ends self) i;
     b \<leftarrow> vec_get (rs_ends self) (i + 1);
     Some (unat a, unat b) }"

fun windows2 :: "'a list \<Rightarrow> ('a \<times> 'a) list" where
  "windows2 (x # y # xs) = (x, y) # windows2 (y # xs)"
| "windows2 _ = []"

definition ranges_iter :: "index_ranges \<Rightarrow> (usize \<times> usize \<times> usize) list rust" where
  "ranges_iter self = those (map (\<lambda>(index, a, b). do { i \<leftarrow> map_index self index; Some (i, unat a, unat b) })
     (List.enumerate 0 (windows2 (rs_ends self))))"

definition ranges_to_vec :: "index_ranges \<Rightarrow> (usize \<times> usize) list rust" where
  "ranges_to_vec self = those (map (ranges_get self) [0..<ranges_len self])"

definition reverse_index :: "index_ranges \<Rightarrow> index_ranges" where
  "reverse_index self = self\<lparr>rs_reverse := \<not> rs_reverse self\<rparr>"

definition reverse_target :: "index_ranges \<Rightarrow> usize \<Rightarrow> index_ranges rust" where
  "reverse_target self target_len = do {
     tl \<leftarrow> try_u32 target_len;
     rassert (tl = (if rs_ends self = [] then 0 else last (rs_ends self)));
     ends \<leftarrow> those (map (u32_sub tl) (rs_ends self));
     Some (reverse_index (self\<lparr>rs_ends := rev ends\<rparr>)) }"

section \<open>Lemmas\<close>

text \<open>The index into the stored ends at which the range with the given index starts.\<close>

definition start_at :: "index_ranges \<Rightarrow> usize \<Rightarrow> usize" where
  "start_at self i = (if rs_reverse self then ranges_len self - 1 - i else i)"

definition well_formed :: "index_ranges \<Rightarrow> bool" where
  "well_formed self = (sorted (rs_ends self) \<and> (rs_ends self \<noteq> [] \<longrightarrow> hd (rs_ends self) = 0))"

lemma map_index_start: "i < ranges_len self \<Longrightarrow> map_index self i = Some (start_at self i)"
  by (auto simp: map_index_def start_at_def usize_sub_def)

lemma start_at_lt: "i < ranges_len self \<Longrightarrow> start_at self i < ranges_len self"
  by (simp add: start_at_def)

lemma ranges_get_eq:
  "ranges_get self i = (if i < ranges_len self
     then Some (unat (rs_ends self ! start_at self i), unat (rs_ends self ! Suc (start_at self i))) else None)"
  using start_at_lt [of i self]
  by (auto simp: ranges_get_def map_index_start vec_get_def rassert_def ranges_len_def)

lemma reverse_index_simps [simp]:
  "ranges_len (reverse_index self) = ranges_len self" "rs_ends (reverse_index self) = rs_ends self"
  "reverse_index (reverse_index self) = self"
  by (simp_all add: ranges_len_def reverse_index_def)

lemma start_at_reverse_index:
  "i < ranges_len self \<Longrightarrow> start_at (reverse_index self) i = start_at self (ranges_len self - 1 - i)"
  by (simp add: start_at_def) (simp add: reverse_index_def)

lemma ranges_get_reverse_index:
  "i < ranges_len self \<Longrightarrow> ranges_get (reverse_index self) i = ranges_get self (ranges_len self - 1 - i)"
  by (simp add: ranges_get_eq start_at_reverse_index)

lemma those_map_Some: "(\<And>x. x \<in> set xs \<Longrightarrow> f x = Some (g x)) \<Longrightarrow> those (map f xs) = Some (map g xs)"
  by (induction xs) auto

lemma ranges_to_vec_eq:
  "ranges_to_vec self = Some (map (\<lambda>i. the (ranges_get self i)) [0..<ranges_len self])"
  unfolding ranges_to_vec_def by (rule those_map_Some) (simp add: ranges_get_eq)

lemma windows2_conv: "windows2 xs = map (\<lambda>i. (xs ! i, xs ! Suc i)) [0..<length xs - 1]"
proof (induction xs rule: windows2.induct)
  case (1 x y xs)
  have "[0..<length (x # y # xs) - 1] = 0 # map Suc [0..<length (y # xs) - 1]"
    by (simp add: map_Suc_upt upt_conv_Cons del: upt_Suc)
  then show ?case using 1 by (simp add: comp_def)
qed simp_all

lemma enumerate_map_upt: "List.enumerate 0 (map f [0..<n]) = map (\<lambda>i. (i, f i)) [0..<n]"
  by (simp add: enumerate_eq_zip zip_map2 zip_same_conv_map)

lemma ranges_iter_eq:
  "ranges_iter self = Some (map (\<lambda>i. (start_at self i, unat (rs_ends self ! i), unat (rs_ends self ! Suc i))) [0..<ranges_len self])"
  unfolding ranges_iter_def windows2_conv enumerate_map_upt map_map
  unfolding comp_def ranges_len_def [symmetric]
  by (rule those_map_Some) (simp add: map_index_start)

lemma start_at_involutive [simp]: "i < ranges_len self \<Longrightarrow> start_at self (start_at self i) = i"
  by (simp add: start_at_def)

text \<open>The ranges of a list built by \<open>push_end\<close>.\<close>

lemma push_end_eq:
  "\<not> rs_reverse self \<Longrightarrow> e < 2 ^ 32 \<Longrightarrow> push_end self e =
     Some (self\<lparr>rs_ends := (if rs_ends self = [] then [0] else rs_ends self) @ [word_of_nat e]\<rparr>)"
  by (simp add: push_end_def try_u32_def)

lemma push_ends:
  assumes "\<not> rs_reverse self" "list_all (\<lambda>e. e < 2 ^ 32) es" "rs_ends self \<noteq> []"
  shows "foldM push_end self es = Some (self\<lparr>rs_ends := rs_ends self @ map word_of_nat es\<rparr>)"
  using assms by (induction es arbitrary: self) (simp_all add: push_end_eq)

lemma reverse_target_eq:
  assumes "well_formed self" "n < 2 ^ 32" "n = (if rs_ends self = [] then 0 else unat (last (rs_ends self)))"
  shows "reverse_target self n =
    Some (reverse_index (self\<lparr>rs_ends := rev (map (\<lambda>e. word_of_nat n - e) (rs_ends self))\<rparr>))"
proof -
  have n: "word_of_nat n = (if rs_ends self = [] then 0 else last (rs_ends self))" using assms(3) by simp
  have "e \<le> last (rs_ends self)" if "e \<in> set (rs_ends self)" for e
    using assms(1) that length_pos_if_in_set [OF that]
    by (auto simp: well_formed_def in_set_conv_nth last_conv_nth sorted_iff_nth_mono)
  then have "those (map (u32_sub (word_of_nat n)) (rs_ends self)) = Some (map (\<lambda>e. word_of_nat n - e) (rs_ends self))"
    using n by (intro those_map_Some) (auto simp: u32_sub_def)
  then show ?thesis using assms(2) n by (simp add: reverse_target_def try_u32_def)
qed

lemma reverse_target_get:
  assumes "well_formed self" "n < 2 ^ 32" "n = (if rs_ends self = [] then 0 else unat (last (rs_ends self)))"
    and "i < ranges_len self"
  shows "\<exists>r a b. reverse_target self n = Some r \<and> ranges_len r = ranges_len self \<and>
    ranges_get self i = Some (a, b) \<and> a \<le> b \<and> b \<le> n \<and> ranges_get r i = Some (n - b, n - a)"
proof -
  let ?ends = "rs_ends self" and ?j = "start_at self i"
  define r where "r = reverse_index (self\<lparr>rs_ends := rev (map (\<lambda>e. word_of_nat n - e) ?ends)\<rparr>)"
  have L: "length ?ends = Suc (ranges_len self)" "?ends \<noteq> []" using assms(4) by (auto simp: ranges_len_def)
  have j: "?j < ranges_len self" by (rule start_at_lt [OF assms(4)])
  have lenr: "ranges_len r = ranges_len self" by (simp add: r_def) (simp add: ranges_len_def)
  have jr: "start_at r i = ranges_len self - 1 - ?j"
    using assms(4) lenr by (auto simp: start_at_def r_def reverse_index_def)
  have ord: "?ends ! ?j \<le> ?ends ! Suc ?j" "?ends ! Suc ?j \<le> last ?ends"
    using assms(1) j L by (auto simp: well_formed_def sorted_iff_nth_mono last_conv_nth)
  have last: "last ?ends = word_of_nat n" "unat (last ?ends) = n" using assms(3) L(2) by simp_all
  have u: "unat (word_of_nat n - e) = n - unat e" if "e \<le> last ?ends" for e
    using that unfolding last(1) [symmetric] by (simp add: unat_sub last(2))
  have nth: "rs_ends r ! k = word_of_nat n - ?ends ! (ranges_len self - k)" if "k < length ?ends" for k
    using that L by (simp add: r_def rev_nth)
  have g: "ranges_get r i = Some (n - unat (?ends ! Suc ?j), n - unat (?ends ! ?j))"
    using assms(4) lenr jr j L ord by (simp add: ranges_get_eq nth u Suc_diff_Suc)
  show ?thesis
    using reverse_target_eq [OF assms(1-3)] g assms(4) ord lenr last(2)
    by (intro exI [of _ r]) (auto simp: r_def [symmetric] ranges_get_eq word_le_nat_alt)
qed

lemma rev_slice:
  assumes "a \<le> b" "b \<le> length xs"
  shows "take (b - a) (drop (length xs - b) (rev xs)) = rev (take (b - a) (drop a xs))"
  using assms by (intro nth_equalityI) (simp_all add: rev_nth)

text \<open>Building the ends of the ranges one by one gives consecutive ranges; iteration yields every
  range once, with the index under which \<open>get\<close> returns it, and reversing the indices reverses the
  materialised list.\<close>

theorem ranges_indexing:
  assumes "ends \<noteq> []" "list_all (\<lambda>e. e < 2 ^ 32) ends"
  shows "\<exists>r it. foldM push_end ranges_default ends = Some r \<and> ranges_len r = length ends \<and>
    ranges_to_vec r = Some (zip (0 # ends) ends) \<and>
    ranges_to_vec (reverse_index r) = Some (rev (zip (0 # ends) ends)) \<and>
    ranges_iter r = Some it \<and> map fst it = [0..<length ends] \<and>
    list_all (\<lambda>(i, a, b). ranges_get r i = Some (a, b)) it"
proof -
  obtain e es where e: "ends = e # es" using assms(1) by (cases ends) auto
  define r where "r = \<lparr>rs_ends = 0 # map word_of_nat ends, rs_reverse = False\<rparr>"
  have r: "foldM push_end ranges_default ends = Some r"
    using assms(2) by (simp add: e push_end_eq ranges_default_def push_ends r_def)
  have len: "ranges_len r = length ends" by (simp add: ranges_len_def r_def)
  have w: "unat (word_of_nat (ends ! i) :: u32) = ends ! i" if "i < length ends" for i
    using assms(2) that by (simp add: list_all_length unat_of_nat_lt)
  have get: "ranges_get r i = Some ((0 # ends) ! i, ends ! i)" if "i < length ends" for i
    using that w by (cases i) (simp_all add: ranges_get_eq start_at_def r_def ranges_len_def)
  then have v: "ranges_to_vec r = Some (zip (0 # ends) ends)"
    unfolding ranges_to_vec_eq len by (auto intro!: nth_equalityI)
  have "ranges_to_vec (reverse_index r) = Some (rev (zip (0 # ends) ends))"
    unfolding ranges_to_vec_eq reverse_index_simps len using get
    by (auto intro!: nth_equalityI simp: ranges_get_reverse_index len rev_nth)
  moreover have "list_all (\<lambda>(i, a, b). ranges_get r i = Some (a, b)) (the (ranges_iter r))"
    by (auto simp: ranges_iter_eq list_all_iff ranges_get_eq start_at_def r_def ranges_len_def)
  moreover have "map fst (the (ranges_iter r)) = [0..<length ends]"
    by (simp add: ranges_iter_eq comp_def start_at_def r_def ranges_len_def)
  ultimately show ?thesis using r len v by (auto simp: ranges_iter_eq)
qed

text \<open>When the list the ranges refer to has been reversed, \<open>reverse_target\<close> returns ranges with the same
  indices that select the same elements of it, in reverse order.\<close>

theorem reverse_target_slices:
  assumes "well_formed self" "length xs < 2 ^ 32"
    and "length xs = (if rs_ends self = [] then 0 else unat (last (rs_ends self)))" "i < ranges_len self"
  shows "\<exists>r a b a' b'. reverse_target self (length xs) = Some r \<and> ranges_len r = ranges_len self \<and>
    ranges_get self i = Some (a, b) \<and> ranges_get r i = Some (a', b') \<and> b' \<le> length xs \<and>
    take (b' - a') (drop a' (rev xs)) = rev (take (b - a) (drop a xs))"
proof -
  obtain r a b where r: "reverse_target self (length xs) = Some r" "ranges_len r = ranges_len self"
    "ranges_get self i = Some (a, b)" "a \<le> b" "b \<le> length xs" "ranges_get r i = Some (length xs - b, length xs - a)"
    using reverse_target_get [OF assms] by auto
  have "(length xs - a) - (length xs - b) = b - a" using r(4,5) by simp
  then show ?thesis using r rev_slice [OF r(4,5)] by auto
qed

definition two_ranges :: index_ranges where
  "two_ranges = \<lparr>rs_ends = [0, 4, 6], rs_reverse = False\<rparr>"

end
