(* ===== verification/Entities.thy ===== *)
theory Entities
  imports Rust_Prelude
begin

text \<open>
  Entity references and packed options (\<^verbatim>\<open>tomori_utils/src/entity.rs\<close>,
  \<^verbatim>\<open>tomori_utils/src/packed_option.rs\<close>): the 32-bit references that the macro \<open>entity_impl!\<close> generates, one
  bit pattern of which is reserved, and options stored in the space of a reference. The trait
  \<open>ReservedValue\<close> is a record of its two functions; what an implementation promises is the locale
  \<open>reserved_type\<close>.
\<close>

section \<open>Model\<close>

datatype entity = Entity u32

fun as_u32 :: "entity \<Rightarrow> u32" where
  "as_u32 (Entity x) = x"

definition u32_MAX :: u32 where
  "u32_MAX = 0xFFFFFFFF"

definition entity_new :: "usize \<Rightarrow> entity rust" where
  "entity_new index = do {
     rassert (index < unat u32_MAX);
     Some (Entity (word_of_nat index)) }"

definition entity_index :: "entity \<Rightarrow> usize" where
  "entity_index self = unat (as_u32 self)"

definition entity_reserved_value :: entity where
  "entity_reserved_value = Entity u32_MAX"

definition entity_is_reserved_value :: "entity \<Rightarrow> bool" where
  "entity_is_reserved_value self = (as_u32 self = u32_MAX)"

definition from_u32 :: "u32 \<Rightarrow> entity rust" where
  "from_u32 x = do {
     rassert (x < u32_MAX);
     Some (Entity x) }"

definition as_bits :: "entity \<Rightarrow> u32" where
  "as_bits self = as_u32 self"

definition from_bits :: "u32 \<Rightarrow> entity" where
  "from_bits x = Entity x"

text \<open>The second form of the macro, for types built by an expression: here the reserved value is made
  with the checked \<open>from_u32\<close>.\<close>

definition alt_reserved_value :: "entity rust" where
  "alt_reserved_value = from_u32 u32_MAX"

record 'a reserved_value =
  reserved_value :: 'a
  is_reserved_value :: "'a \<Rightarrow> bool"

definition entity_reserved :: "entity reserved_value" where
  "entity_reserved = \<lparr>reserved_value = entity_reserved_value, is_reserved_value = entity_is_reserved_value\<rparr>"

datatype 'a packed_option = Packed (packed: 'a)

definition packed_is_none :: "'a reserved_value \<Rightarrow> 'a packed_option \<Rightarrow> bool" where
  "packed_is_none R self = is_reserved_value R (packed self)"

definition packed_is_some :: "'a reserved_value \<Rightarrow> 'a packed_option \<Rightarrow> bool" where
  "packed_is_some R self = (\<not> is_reserved_value R (packed self))"

definition expand :: "'a reserved_value \<Rightarrow> 'a packed_option \<Rightarrow> 'a option" where
  "expand R self = (if packed_is_none R self then None else Some (packed self))"

definition packed_map :: "'a reserved_value \<Rightarrow> 'a packed_option \<Rightarrow> ('a \<Rightarrow> 'b) \<Rightarrow> 'b option" where
  "packed_map R self f = map_option f (expand R self)"

definition packed_unwrap :: "'a reserved_value \<Rightarrow> 'a packed_option \<Rightarrow> 'a rust" where
  "packed_unwrap R self = expand R self"

definition packed_expect :: "'a reserved_value \<Rightarrow> 'a packed_option \<Rightarrow> 'a rust" where
  "packed_expect R self = expand R self"

definition packed_default :: "'a reserved_value \<Rightarrow> 'a packed_option" where
  "packed_default R = Packed (reserved_value R)"

definition packed_from :: "'a reserved_value \<Rightarrow> 'a \<Rightarrow> 'a packed_option rust" where
  "packed_from R t = do {
     rassert (\<not> is_reserved_value R t);
     Some (Packed t) }"

fun packed_from_option :: "'a reserved_value \<Rightarrow> 'a option \<Rightarrow> 'a packed_option rust" where
  "packed_from_option R None = Some (packed_default R)"
| "packed_from_option R (Some t) = packed_from R t"

definition packed_take :: "'a reserved_value \<Rightarrow> 'a packed_option \<Rightarrow> ('a option \<times> 'a packed_option) rust" where
  "packed_take R self = do {
     new \<leftarrow> packed_from_option R None;
     Some (expand R self, new) }"

section \<open>The contract of a reserved value\<close>

locale reserved_type =
  fixes R :: "'a reserved_value"
  assumes reserved_iff: "is_reserved_value R x \<longleftrightarrow> x = reserved_value R"
begin

lemma expand_default: "expand R (packed_default R) = None"
  by (simp add: expand_def packed_is_none_def packed_default_def reserved_iff)

lemma expand_None: "expand R p = None \<longleftrightarrow> p = packed_default R"
  by (cases p) (simp add: expand_def packed_is_none_def packed_default_def reserved_iff)

lemma expand_Some: "expand R p = Some x \<longleftrightarrow> p = Packed x \<and> x \<noteq> reserved_value R"
  by (cases p) (auto simp: expand_def packed_is_none_def reserved_iff)

lemma pack_expand: "packed_from_option R (expand R p) = Some p"
  by (cases p) (auto simp: expand_def packed_is_none_def packed_from_def packed_default_def reserved_iff)

lemma expand_pack: "packed_from_option R opt = Some p \<Longrightarrow> expand R p = opt"
  by (cases opt) (auto simp: expand_default expand_Some packed_from_def reserved_iff)

lemma pack_fails: "packed_from_option R opt = None \<longleftrightarrow> opt = Some (reserved_value R)"
  by (cases opt) (auto simp: packed_from_def reserved_iff rassert_def)

lemma take_replaces: "packed_take R p = Some (expand R p, packed_default R)"
  by (simp add: packed_take_def)

end

lemma unat_u32_MAX [simp]: "unat u32_MAX = 2 ^ 32 - 1"
  by (simp add: u32_MAX_def)

lemma reserved_value_entity [simp]: "reserved_value entity_reserved = Entity u32_MAX"
  by (simp add: entity_reserved_def entity_reserved_value_def)

lemma is_reserved_value_entity [simp]: "is_reserved_value entity_reserved e \<longleftrightarrow> e = Entity u32_MAX"
  by (cases e) (simp add: entity_reserved_def entity_is_reserved_value_def)

interpretation er: reserved_type entity_reserved
  by unfold_locales simp

lemma u32_ne_MAX: "(x < u32_MAX) \<longleftrightarrow> x \<noteq> u32_MAX" for x :: u32
proof -
  have "unat x < 2 ^ 32" using unat_lt [of x] by simp
  then show ?thesis by (auto simp: word_less_nat_alt) (simp add: word_unat_eq_iff)
qed

lemma entity_new_Some: "(entity_new i = Some e) = (i = entity_index e \<and> e \<noteq> entity_reserved_value)"
proof (cases e)
  case (Entity x)
  have "i < 2 ^ 32 - 1 \<and> word_of_nat i = x \<longleftrightarrow> i = unat x \<and> x \<noteq> u32_MAX"
  proof
    assume i: "i < 2 ^ 32 - 1 \<and> word_of_nat i = x"
    then have "unat x = i" by (auto simp: unat_of_nat_lt)
    with i show "i = unat x \<and> x \<noteq> u32_MAX" by auto
  next
    assume "i = unat x \<and> x \<noteq> u32_MAX"
    then show "i < 2 ^ 32 - 1 \<and> word_of_nat i = x" using u32_ne_MAX [of x] by (simp add: word_less_nat_alt)
  qed
  then show ?thesis by (auto simp: Entity entity_new_def entity_index_def entity_reserved_value_def)
qed

lemma from_u32_Some: "(from_u32 x = Some e) = (x = as_bits e \<and> e \<noteq> entity_reserved_value)"
  by (cases e) (auto simp: from_u32_def u32_ne_MAX as_bits_def entity_reserved_value_def)

lemma from_as_bits: "from_bits (as_bits e) = e"
  by (cases e) (simp add: from_bits_def as_bits_def)

lemma pack_entity:
  "(packed_from_option entity_reserved opt = Some p) =
     (expand entity_reserved p = opt \<and> opt \<noteq> Some entity_reserved_value)"
  using er.pack_expand [of p] er.expand_pack [of opt p] er.pack_fails [of opt]
  by (auto simp: entity_reserved_value_def)

text \<open>C31: Entity references are in bijection with the indices below \<open>u32::MAX\<close>, the reserved value is not
  one of them, and packing an option loses nothing: \<open>expand\<close> undoes the packing of every option of a
  proper reference, every packed value is the packing of what it expands to, and \<open>take\<close> leaves the
  packed \<open>None\<close>.\<close>

theorem packed_option_roundtrip:
  "(entity_new i = Some e) = (i = entity_index e \<and> e \<noteq> entity_reserved_value) \<and>
   (from_u32 x = Some e) = (x = as_bits e \<and> e \<noteq> entity_reserved_value) \<and>
   from_bits (as_bits e) = e \<and>
   packed_from_option entity_reserved (expand entity_reserved p) = Some p \<and>
   (packed_from_option entity_reserved opt = Some p) =
     (expand entity_reserved p = opt \<and> opt \<noteq> Some entity_reserved_value) \<and>
   packed_take entity_reserved p = Some (expand entity_reserved p, packed_default entity_reserved)"
  by (simp only: entity_new_Some from_u32_Some from_as_bits er.pack_expand pack_entity er.take_replaces simp_thms)

text \<open>The form of the macro for types built by an expression cannot make its reserved value: the
  assertion of \<open>from_u32\<close> rejects exactly that bit pattern.\<close>

theorem alt_reserved_value_panics: "alt_reserved_value = None \<and> (from_u32 x = None) = (x = u32_MAX)"
  by (auto simp: alt_reserved_value_def from_u32_def rassert_def u32_ne_MAX)

end
