(* ===== verification/List_Pool.thy ===== *)
theory List_Pool
  imports Entities
begin

unbundle bit_operations_syntax

text \<open>
  Lists of entity references in a shared pool (\<^verbatim>\<open>tomori_utils/src/list.rs\<close>). The pool is one vector that is
  divided into blocks of \<open>4 << sclass\<close> elements: the length, the elements, unused space. Free blocks
  of a size class are linked through their second element. A list is the index of its first element,
  or 0 when it is empty; it is moved to another block when its length leaves its size class.

  A \<open>&mut\<close> slice of the pool is the list of its elements, written back at its position; a list handle
  that an operation changes is returned along with the pool.
\<close>

section \<open>Model\<close>

subsection \<open>Size classes\<close>

type_synonym size_class = nat

definition sclass_size :: "size_class \<Rightarrow> usize" where
  "sclass_size sclass = 4 * 2 ^ sclass"

definition leading_zeros :: "u32 \<Rightarrow> nat" where
  "leading_zeros w = length (takeWhile (\<lambda>i. \<not> bit w i) (rev [0..<32]))"

definition sclass_for_length :: "usize \<Rightarrow> size_class" where
  "sclass_for_length len = 30 - leading_zeros (u32_of_usize len OR 3)"

definition is_sclass_min_length :: "usize \<Rightarrow> bool" where
  "is_sclass_min_length len = (len > 3 \<and> usize_is_power_of_two len)"

subsection \<open>Slices\<close>

definition write_at :: "'a list \<Rightarrow> usize \<Rightarrow> 'a list \<Rightarrow> 'a list" where
  "write_at ds i xs = take i ds @ xs @ drop (i + length xs) ds"

definition slice_get :: "'a list \<Rightarrow> usize \<Rightarrow> usize \<Rightarrow> 'a list rust" where
  "slice_get ds a b = (if a \<le> b \<and> b \<le> length ds then Some (take (b - a) (drop a ds)) else None)"

definition slice_set :: "'a list \<Rightarrow> usize \<Rightarrow> 'a list \<Rightarrow> 'a list rust" where
  "slice_set ds i xs = (if i + length xs \<le> length ds then Some (write_at ds i xs) else None)"

subsection \<open>The pool\<close>

datatype entity_list = EntityList u32

fun list_index :: "entity_list \<Rightarrow> usize" where
  "list_index (EntityList index) = unat index"

definition list_at :: "usize \<Rightarrow> entity_list" where
  "list_at n = EntityList (u32_of_usize n)"

record list_pool =
  pool_data :: "entity list"
  pool_free :: "usize list"

definition pool_new :: list_pool where
  "pool_new = \<lparr>pool_data = [], pool_free = []\<rparr>"

definition pool_clear :: "list_pool \<Rightarrow> list_pool" where
  "pool_clear self = self\<lparr>pool_data := [], pool_free := []\<rparr>"

definition pool_eq :: "list_pool \<Rightarrow> list_pool \<Rightarrow> bool" where
  "pool_eq self other = (pool_data self = pool_data other)"

text \<open>\<open>wrapping_sub\<close> makes the index of the length field of the empty list one that no vector has.\<close>

definition pool_len_of :: "list_pool \<Rightarrow> entity_list \<Rightarrow> usize option" where
  "pool_len_of self list = (if list_index list = 0 then None
     else map_option entity_index (vec_get (pool_data self) (list_index list - 1)))"

definition pool_alloc :: "list_pool \<Rightarrow> size_class \<Rightarrow> (usize \<times> list_pool) rust" where
  "pool_alloc self sclass = (case vec_get (pool_free self) sclass of
      Some head \<Rightarrow>
        if head > 0 then do {
          next \<leftarrow> vec_get (pool_data self) head;
          Some (head - 1, self\<lparr>pool_free := (pool_free self)[sclass := entity_index next]\<rparr>) }
        else Some (length (pool_data self),
          self\<lparr>pool_data := pool_data self @ replicate (sclass_size sclass) entity_reserved_value\<rparr>)
    | None \<Rightarrow> Some (length (pool_data self),
        self\<lparr>pool_data := pool_data self @ replicate (sclass_size sclass) entity_reserved_value\<rparr>))"

definition pool_free_block :: "list_pool \<Rightarrow> usize \<Rightarrow> size_class \<Rightarrow> list_pool rust" where
  "pool_free_block self block sclass = do {
     let heads = (if length (pool_free self) \<le> sclass
       then pool_free self @ replicate (sclass + 1 - length (pool_free self)) 0 else pool_free self);
     zero \<leftarrow> entity_new 0;
     d1 \<leftarrow> vec_set (pool_data self) block zero;
     next \<leftarrow> entity_new (heads ! sclass);
     d2 \<leftarrow> vec_set d1 (block + 1) next;
     Some (self\<lparr>pool_data := d2, pool_free := heads[sclass := block + 1]\<rparr>) }"

text \<open>The two slices as their positions and lengths.\<close>

definition mut_slices :: "list_pool \<Rightarrow> usize \<Rightarrow> usize \<Rightarrow> ((usize \<times> usize) \<times> (usize \<times> usize)) rust" where
  "mut_slices self block0 block1 = (let n = length (pool_data self) in
     if block0 < block1 then do {
       rassert (block1 \<le> n);
       Some ((block0, block1 - block0), (block1, n - block1)) }
     else do {
       rassert (block0 \<le> n);
       Some ((block0, n - block0), (block1, block0 - block1)) })"

definition pool_realloc ::
  "list_pool \<Rightarrow> usize \<Rightarrow> size_class \<Rightarrow> size_class \<Rightarrow> usize \<Rightarrow> (usize \<times> list_pool) rust" where
  "pool_realloc self block from_sclass to_sclass elems_to_copy = do {
     rassert (elems_to_copy \<le> sclass_size from_sclass);
     rassert (elems_to_copy \<le> sclass_size to_sclass);
     (new_block, p1) \<leftarrow> pool_alloc self to_sclass;
     p2 \<leftarrow> (if elems_to_copy > 0 then do {
         ((old, old_len), (new, new_len)) \<leftarrow> mut_slices p1 block new_block;
         rassert (elems_to_copy \<le> new_len);
         rassert (elems_to_copy \<le> old_len);
         elems \<leftarrow> slice_get (pool_data p1) old (old + elems_to_copy);
         ds \<leftarrow> slice_set (pool_data p1) new elems;
         Some (p1\<lparr>pool_data := ds\<rparr>) }
       else Some p1);
     p3 \<leftarrow> pool_free_block p2 block from_sclass;
     Some (new_block, p3) }"

subsection \<open>Entity lists\<close>

definition list_new :: entity_list where
  "list_new = EntityList 0"

definition from_slice :: "entity list \<Rightarrow> list_pool \<Rightarrow> (entity_list \<times> list_pool) rust" where
  "from_slice elems pool = (let len = length elems in
     if len = 0 then Some (list_new, pool)
     else do {
       (block, p1) \<leftarrow> pool_alloc pool (sclass_for_length len);
       l \<leftarrow> entity_new len;
       d1 \<leftarrow> vec_set (pool_data p1) block l;
       d2 \<leftarrow> slice_set d1 (block + 1) elems;
       Some (list_at (block + 1), p1\<lparr>pool_data := d2\<rparr>) })"

definition list_is_empty :: "entity_list \<Rightarrow> bool" where
  "list_is_empty self = (list_index self = 0)"

definition list_len :: "entity_list \<Rightarrow> list_pool \<Rightarrow> usize" where
  "list_len self pool = (case pool_len_of pool self of Some n \<Rightarrow> n | None \<Rightarrow> 0)"

definition list_is_valid :: "entity_list \<Rightarrow> list_pool \<Rightarrow> bool" where
  "list_is_valid self pool = (list_is_empty self \<or> pool_len_of pool self \<noteq> None)"

definition as_slice :: "entity_list \<Rightarrow> list_pool \<Rightarrow> entity list rust" where
  "as_slice self pool = (let idx = list_index self in
     case pool_len_of pool self of
       None \<Rightarrow> Some []
     | Some len \<Rightarrow> slice_get (pool_data pool) idx (idx + len))"

definition list_get :: "entity_list \<Rightarrow> usize \<Rightarrow> list_pool \<Rightarrow> entity option rust" where
  "list_get self index pool = do { s \<leftarrow> as_slice self pool; Some (vec_get s index) }"

definition list_first :: "entity_list \<Rightarrow> list_pool \<Rightarrow> entity option rust" where
  "list_first self pool = (if list_is_empty self then Some None
     else do { e \<leftarrow> vec_get (pool_data pool) (list_index self); Some (Some e) })"

text \<open>Writing the slice that \<open>as_mut_slice\<close> returns, and the element that \<open>get_mut\<close> returns.\<close>

definition write_slice :: "entity_list \<Rightarrow> list_pool \<Rightarrow> entity list \<Rightarrow> list_pool rust" where
  "write_slice self pool seq = do {
     d \<leftarrow> slice_set (pool_data pool) (list_index self) seq;
     Some (pool\<lparr>pool_data := d\<rparr>) }"

definition write_mut :: "entity_list \<Rightarrow> usize \<Rightarrow> list_pool \<Rightarrow> entity \<Rightarrow> list_pool option rust" where
  "write_mut self index pool e = do {
     s \<leftarrow> as_slice self pool;
     case vec_set s index e of
       None \<Rightarrow> Some None
     | Some s' \<Rightarrow> do { p \<leftarrow> write_slice self pool s'; Some (Some p) } }"

definition deep_clone :: "entity_list \<Rightarrow> list_pool \<Rightarrow> (entity_list \<times> list_pool) rust" where
  "deep_clone self pool = (case pool_len_of pool self of
      None \<Rightarrow> Some (list_new, pool)
    | Some len \<Rightarrow> do {
        let src = list_index self;
        (block, p1) \<leftarrow> pool_alloc pool (sclass_for_length len);
        l \<leftarrow> entity_new len;
        d1 \<leftarrow> vec_set (pool_data p1) block l;
        elems \<leftarrow> slice_get d1 src (src + len);
        d2 \<leftarrow> slice_set d1 (block + 1) elems;
        Some (list_at (block + 1), p1\<lparr>pool_data := d2\<rparr>) })"

definition list_clear :: "entity_list \<Rightarrow> list_pool \<Rightarrow> (entity_list \<times> list_pool) rust" where
  "list_clear self pool = do {
     let idx = list_index self;
     p \<leftarrow> (case pool_len_of pool self of
         None \<Rightarrow> do { rassert (idx = 0); Some pool }
       | Some len \<Rightarrow> do { block \<leftarrow> usize_sub idx 1; pool_free_block pool block (sclass_for_length len) });
     Some (EntityList 0, p) }"

definition list_take :: "entity_list \<Rightarrow> entity_list \<times> entity_list" where
  "list_take self = (self, list_new)"

definition list_push :: "entity_list \<Rightarrow> entity \<Rightarrow> list_pool \<Rightarrow> (usize \<times> entity_list \<times> list_pool) rust" where
  "list_push self element pool = (let idx = list_index self in
     case pool_len_of pool self of
       None \<Rightarrow> do {
         rassert (idx = 0);
         (block, p1) \<leftarrow> pool_alloc pool (sclass_for_length 1);
         l \<leftarrow> entity_new 1;
         d1 \<leftarrow> vec_set (pool_data p1) block l;
         d2 \<leftarrow> vec_set d1 (block + 1) element;
         Some (0, list_at (block + 1), p1\<lparr>pool_data := d2\<rparr>) }
     | Some len \<Rightarrow> do {
         let new_len = len + 1;
         (block, self', p1) \<leftarrow>
           (if is_sclass_min_length new_len then do {
              let sclass = sclass_for_length len;
              (block, p1) \<leftarrow> pool_realloc pool (idx - 1) sclass (sclass + 1) (len + 1);
              Some (block, list_at (block + 1), p1) }
            else Some (idx - 1, self, pool));
         d1 \<leftarrow> vec_set (pool_data p1) (block + new_len) element;
         l \<leftarrow> entity_new new_len;
         d2 \<leftarrow> vec_set d1 block l;
         Some (len, self', p1\<lparr>pool_data := d2\<rparr>) })"

text \<open>The slice \<open>grow\<close> returns is the whole list, empty when there is nothing to add to an empty one.\<close>

definition grow :: "entity_list \<Rightarrow> usize \<Rightarrow> list_pool \<Rightarrow> (entity list \<times> entity_list \<times> list_pool) rust" where
  "grow self count pool = (let idx = list_index self in
     case pool_len_of pool self of
       None \<Rightarrow> do {
         rassert (idx = 0);
         if count = 0 then Some ([], self, pool)
         else do {
           (block, p1) \<leftarrow> pool_alloc pool (sclass_for_length count);
           l \<leftarrow> entity_new count;
           d1 \<leftarrow> vec_set (pool_data p1) block l;
           seq \<leftarrow> slice_get d1 (block + 1) (block + 1 + count);
           Some (seq, list_at (block + 1), p1\<lparr>pool_data := d1\<rparr>) } }
     | Some len \<Rightarrow> do {
         let sclass = sclass_for_length len;
         let new_len = len + count;
         let new_sclass = sclass_for_length new_len;
         (block, self', p1) \<leftarrow>
           (if new_sclass \<noteq> sclass then do {
              (block, p1) \<leftarrow> pool_realloc pool (idx - 1) sclass new_sclass (len + 1);
              Some (block, list_at (block + 1), p1) }
            else Some (idx - 1, self, pool));
         l \<leftarrow> entity_new new_len;
         d1 \<leftarrow> vec_set (pool_data p1) block l;
         seq \<leftarrow> slice_get d1 (block + 1) (block + 1 + new_len);
         Some (seq, self', p1\<lparr>pool_data := d1\<rparr>) })"

text \<open>The loops that move elements: \<open>seq[i] = seq[i - by]\<close> for descending \<open>i\<close>, and
  \<open>seq[i] = seq[i + 1]\<close> for ascending \<open>i\<close>.\<close>

definition copy_up :: "'a list \<Rightarrow> usize \<Rightarrow> usize \<Rightarrow> usize \<Rightarrow> 'a list rust" where
  "copy_up seq by lo hi = foldM (\<lambda>s i. do { j \<leftarrow> usize_sub i by; v \<leftarrow> vec_get s j; vec_set s i v }) seq (rev [lo..<hi])"

definition copy_down :: "'a list \<Rightarrow> usize \<Rightarrow> usize \<Rightarrow> 'a list rust" where
  "copy_down seq lo hi = foldM (\<lambda>s i. do { v \<leftarrow> vec_get s (i + 1); vec_set s i v }) seq [lo..<hi]"

definition grow_at :: "entity_list \<Rightarrow> usize \<Rightarrow> usize \<Rightarrow> list_pool \<Rightarrow> (entity_list \<times> list_pool) rust" where
  "grow_at self index count pool = do {
     (seq, self', p1) \<leftarrow> grow self count pool;
     seq' \<leftarrow> copy_up seq count (index + count) (length seq);
     p2 \<leftarrow> (if seq = [] then Some p1 else write_slice self' p1 seq');
     Some (self', p2) }"

text \<open>The argument \<open>exact\<close> says whether the size hint of the iterator is exact; then it is the number of elements.\<close>

definition extend :: "bool \<Rightarrow> entity_list \<Rightarrow> entity list \<Rightarrow> list_pool \<Rightarrow> (entity_list \<times> list_pool) rust" where
  "extend exact self elements pool = (if exact then do {
       let len = length elements;
       (seq, self', p1) \<leftarrow> grow self len pool;
       offset \<leftarrow> usize_sub (length seq) len;
       p2 \<leftarrow> (if seq = [] then Some p1 else write_slice self' p1 (take offset seq @ elements));
       Some (self', p2) }
     else foldM (\<lambda>(l, p) x. do { (_, l', p') \<leftarrow> list_push l x p; Some (l', p') }) (self, pool) elements)"

definition list_from_iter :: "bool \<Rightarrow> entity list \<Rightarrow> list_pool \<Rightarrow> (entity_list \<times> list_pool) rust" where
  "list_from_iter exact elements pool = extend exact list_new elements pool"

datatype bound = Included usize | Excluded usize | Unbounded

definition copy_from ::
  "entity_list \<Rightarrow> entity_list \<Rightarrow> bound \<Rightarrow> bound \<Rightarrow> usize \<Rightarrow> list_pool \<Rightarrow> (entity_list \<times> list_pool) rust" where
  "copy_from self other start_bound end_bound index pool = do {
     rassert (index \<le> list_len self pool);
     rassert (list_index self \<noteq> list_index other);
     let other_index = list_index other;
     let other_len = list_len other pool;
     let start = (case start_bound of Included x \<Rightarrow> x | Excluded x \<Rightarrow> x + 1 | Unbounded \<Rightarrow> 0) + other_index;
     let end = (case end_bound of Included x \<Rightarrow> x + 1 | Excluded x \<Rightarrow> x | Unbounded \<Rightarrow> other_len) + other_index;
     count \<leftarrow> usize_sub end start;
     rassert (count \<le> other_len);
     (self', p1) \<leftarrow> grow_at self index count pool;
     elems \<leftarrow> slice_get (pool_data p1) start end;
     d \<leftarrow> slice_set (pool_data p1) (index + list_index self') elems;
     Some (self', p1\<lparr>pool_data := d\<rparr>) }"

definition list_insert :: "entity_list \<Rightarrow> usize \<Rightarrow> entity \<Rightarrow> list_pool \<Rightarrow> (entity_list \<times> list_pool) rust" where
  "list_insert self index element pool = do {
     (_, self', p1) \<leftarrow> list_push self element pool;
     seq \<leftarrow> as_slice self' p1;
     if index < length seq then do {
       let tail = drop index seq;
       tail1 \<leftarrow> copy_up tail 1 1 (length tail);
       tail2 \<leftarrow> vec_set tail1 0 element;
       p2 \<leftarrow> write_slice self' p1 (take index seq @ tail2);
       Some (self', p2) }
     else do {
       rassert (index = length seq);
       Some (self', p1) } }"

definition remove_last :: "entity_list \<Rightarrow> usize \<Rightarrow> list_pool \<Rightarrow> (entity_list \<times> list_pool) rust" where
  "remove_last self len pool = (if len = 1 then list_clear self pool
     else do {
       block \<leftarrow> usize_sub (list_index self) 1;
       (block', self', p1) \<leftarrow>
         (if is_sclass_min_length len then do {
            let sclass = sclass_for_length len;
            to \<leftarrow> usize_sub sclass 1;
            (b, p1) \<leftarrow> pool_realloc pool block sclass to len;
            Some (b, list_at (b + 1), p1) }
          else Some (block, self, pool));
       n \<leftarrow> usize_sub len 1;
       l \<leftarrow> entity_new n;
       d \<leftarrow> vec_set (pool_data p1) block' l;
       Some (self', p1\<lparr>pool_data := d\<rparr>) })"

definition list_remove :: "entity_list \<Rightarrow> usize \<Rightarrow> list_pool \<Rightarrow> (entity_list \<times> list_pool) rust" where
  "list_remove self index pool = do {
     seq \<leftarrow> as_slice self pool;
     let len = length seq;
     rassert (index < len);
     seq' \<leftarrow> copy_down seq index (len - 1);
     p1 \<leftarrow> write_slice self pool seq';
     remove_last self len p1 }"

definition swap_remove :: "entity_list \<Rightarrow> usize \<Rightarrow> list_pool \<Rightarrow> (entity_list \<times> list_pool) rust" where
  "swap_remove self index pool = do {
     seq \<leftarrow> as_slice self pool;
     let len = length seq;
     rassert (index < len);
     p1 \<leftarrow> (if index \<noteq> len - 1
       then write_slice self pool (seq[index := seq ! (len - 1), len - 1 := seq ! index]) else Some pool);
     remove_last self len p1 }"

definition truncate :: "entity_list \<Rightarrow> usize \<Rightarrow> list_pool \<Rightarrow> (entity_list \<times> list_pool) rust" where
  "truncate self new_len pool = (if new_len = 0 then list_clear self pool
     else case pool_len_of pool self of
       None \<Rightarrow> Some (self, pool)
     | Some len \<Rightarrow>
         if len \<le> new_len then Some (self, pool)
         else do {
           let idx = list_index self;
           let sclass = sclass_for_length len;
           let new_sclass = sclass_for_length new_len;
           (block, self', p1) \<leftarrow>
             (if sclass \<noteq> new_sclass then do {
                (b, p1) \<leftarrow> pool_realloc pool (idx - 1) sclass new_sclass (new_len + 1);
                Some (b, list_at (b + 1), p1) }
              else Some (idx - 1, self, pool));
           l \<leftarrow> entity_new new_len;
           d \<leftarrow> vec_set (pool_data p1) block l;
           Some (self', p1\<lparr>pool_data := d\<rparr>) })"

section \<open>Size classes\<close>

lemma ilog2_eq: "2 ^ k \<le> n \<Longrightarrow> n < 2 ^ Suc k \<Longrightarrow> usize_ilog2 n = k"
proof -
  assume n: "2 ^ k \<le> n" "n < 2 ^ Suc k"
  then have "0 < n" by (metis not_less_zero not_gr_zero power_not_zero le_zero_eq zero_neq_numeral)
  note b = ilog2_bounds [OF this]
  have "(2 :: nat) ^ k < 2 ^ Suc (usize_ilog2 n)" "(2 :: nat) ^ usize_ilog2 n < 2 ^ Suc k" using n b by linarith+
  then show ?thesis by (simp add: power_strict_increasing_iff del: power_Suc)
qed

lemma leading_zeros_ilog2:
  assumes "w \<noteq> 0"
  shows "leading_zeros w = 31 - usize_ilog2 (unat w) \<and> usize_ilog2 (unat w) < 32"
proof -
  let ?k = "usize_ilog2 (unat w)"
  have b: "2 ^ ?k \<le> unat w" "unat w < 2 ^ Suc ?k"
    using ilog2_bounds [of "unat w"] assms by (auto simp: unat_gt_0)
  have "(2 :: nat) ^ ?k < 2 ^ 32" using b(1) unat_lt [of w] by simp
  then have k: "?k < 32" by (rule power_less_imp_less_exp [rotated]) simp
  have bit: "bit w j \<longleftrightarrow> odd (unat w div 2 ^ j)" for j
    using bit_unsigned_iff [of w j, where ?'a = nat] bit_iff_odd [of "unat w" j] by simp
  have "unat w div 2 ^ ?k = 1" using b by (auto intro!: div_nat_eqI)
  then have at: "bit w ?k" by (simp add: bit)
  have above: "\<not> bit w j" if "?k < j" for j
  proof -
    have "(2 :: nat) ^ Suc ?k \<le> 2 ^ j" using that by (simp add: power_increasing del: power_Suc)
    then have "unat w div 2 ^ j = 0" using b(2) by simp
    then show ?thesis by (simp add: bit)
  qed
  have "[0..<32] = [0..<?k] @ ?k # [Suc ?k..<32]" using k by (metis less_imp_le upt_add_eq_append upt_conv_Cons le_add_diff_inverse zero_le)
  then have "takeWhile (\<lambda>i. \<not> bit w i) (rev [0..<32]) = rev [Suc ?k..<32]"
    using at above by (simp add: takeWhile_append)
  then show ?thesis using k by (simp add: leading_zeros_def)
qed

lemma or_3_div: "unat ((w :: u32) OR 3) div 4 = unat w div 4"
proof -
  have "drop_bit 2 (w OR 3) = drop_bit 2 w" by (simp add: drop_bit_or)
  then have "unat (drop_bit 2 (w OR 3)) = unat (drop_bit 2 w)" by (rule arg_cong)
  then show ?thesis unfolding unat_drop_bit by simp
qed

lemma ilog2_div4: "4 \<le> n \<Longrightarrow> usize_ilog2 n = usize_ilog2 (n div 4) + 2"
proof -
  assume "4 \<le> n"
  moreover have "n div 2 div 2 = n div 4" by (simp add: div_mult2_eq [symmetric])
  ultimately show ?thesis by (simp add: usize_ilog2.simps [of n] usize_ilog2.simps [of "n div 2"])
qed

lemma sclass_for_length_eq:
  assumes "len < 2 ^ 32"
  shows "sclass_for_length len = (if len < 4 then 0 else usize_ilog2 len - 1) \<and>
    leading_zeros (u32_of_usize len OR 3) \<le> 30"
proof -
  let ?w = "u32_of_usize len OR 3 :: u32"
  have d: "unat ?w div 4 = len div 4" using assms by (simp add: or_3_div u32_of_usize_def unat_of_nat_lt)
  have "?w AND mask 2 = 3" by (rule bit_word_eqI) (auto simp: mask_eq_exp_minus_1 bit_and_iff bit_or_iff)
  then have "unat (?w AND mask 2) = 3" by simp
  then have "unat ?w mod 4 = 3" unfolding unat_and_mask by simp
  then have w: "3 \<le> unat ?w" "?w \<noteq> 0" by (metis mod_less_eq_dividend, auto)
  have l: "leading_zeros ?w = 31 - usize_ilog2 (unat ?w)" "usize_ilog2 (unat ?w) < 32"
    using leading_zeros_ilog2 [OF w(2)] by auto
  show ?thesis
  proof (cases "len < 4")
    case True
    then have "unat ?w < 4" using d by simp
    then have "unat ?w = 3" using w(1) by simp
    then have "usize_ilog2 (unat ?w) = 1" by (simp add: usize_ilog2.simps)
    with l True show ?thesis by (simp add: sclass_for_length_def)
  next
    case False
    then have "4 \<le> unat ?w" using d by (metis div_greater_zero_iff not_less zero_less_numeral)
    then have "usize_ilog2 (unat ?w) = usize_ilog2 len" "2 \<le> usize_ilog2 len"
      using False d ilog2_div4 [of "unat ?w"] ilog2_div4 [of len] by simp_all
    with l False show ?thesis by (simp add: sclass_for_length_def)
  qed
qed

lemma sclass_bounds:
  assumes "len < 2 ^ 32"
  shows "len < sclass_size (sclass_for_length len)" "sclass_for_length len \<le> 30"
    and "4 \<le> len \<Longrightarrow> sclass_size (sclass_for_length len) \<le> 2 * len"
proof -
  have s: "sclass_for_length len = (if len < 4 then 0 else usize_ilog2 len - 1)"
    using sclass_for_length_eq [OF assms] by simp
  show "sclass_for_length len \<le> 30" unfolding sclass_for_length_def by simp
  have big: "2 ^ usize_ilog2 len \<le> len \<and> len < 2 ^ Suc (usize_ilog2 len) \<and>
      sclass_size (sclass_for_length len) = 2 ^ Suc (usize_ilog2 len)" if "4 \<le> len"
  proof -
    from ilog2_div4 [OF that] obtain k where "usize_ilog2 len = Suc (Suc k)" by auto
    with that show ?thesis using ilog2_bounds [of len] s by (simp add: sclass_size_def)
  qed
  show "len < sclass_size (sclass_for_length len)"
    using big s by (cases "len < 4") (auto simp: sclass_size_def)
  show "4 \<le> len \<Longrightarrow> sclass_size (sclass_for_length len) \<le> 2 * len" using big by simp
qed

lemma sclass_step:
  assumes "Suc len < 2 ^ 32" "0 < len"
  shows "sclass_for_length (Suc len) = sclass_for_length len + (if is_sclass_min_length (Suc len) then 1 else 0)"
proof -
  have s: "sclass_for_length n = (if n < 4 then 0 else usize_ilog2 n - 1)" if "n \<le> Suc len" for n
    using sclass_for_length_eq [of n] assms that by simp
  show ?thesis
  proof (cases "Suc len < 4")
    case True
    then show ?thesis by (simp add: s is_sclass_min_length_def)
  next
    case big: False
    have l: "2 ^ usize_ilog2 len \<le> len" "len < 2 ^ Suc (usize_ilog2 len)" using ilog2_bounds [of len] assms by auto
    have m: "2 ^ usize_ilog2 (Suc len) \<le> Suc len" using ilog2_bounds [of "Suc len"] by auto
    show ?thesis
    proof (cases "Suc len = 2 ^ Suc (usize_ilog2 len)")
      case True
      then have e: "usize_ilog2 (Suc len) = Suc (usize_ilog2 len)" by (intro ilog2_eq) simp_all
      have "len \<noteq> 3 \<Longrightarrow> usize_ilog2 len \<noteq> 0" using big ilog2_div4 [of len] by linarith
      moreover have "usize_ilog2 len = 1" if "len < 4"
      proof -
        have "len = 3" using that big by simp
        then show ?thesis by (simp add: usize_ilog2.simps)
      qed
      ultimately show ?thesis using True e big by (auto simp: s is_sclass_min_length_def usize_is_power_of_two_def)
    next
      case False
      then have e: "usize_ilog2 (Suc len) = usize_ilog2 len" using l by (intro ilog2_eq) simp_all
      have "len \<noteq> 3" using False by (auto simp: usize_ilog2.simps)
      moreover have "\<not> usize_is_power_of_two (Suc len)" using e l(1) by (auto simp: usize_is_power_of_two_def)
      ultimately show ?thesis using big e by (simp add: s is_sclass_min_length_def)
    qed
  qed
qed

text \<open>C34: For every length a list can have, the block of its size class has room for the length field and the
  elements, is at most twice as large as needed from length 4 on, its class is at most 30, the
  subtraction that computes it does not underflow, and \<open>is_sclass_min_length\<close> holds exactly where the
  class changes.\<close>

theorem size_class_bounds:
  assumes "len < 2 ^ 32"
  shows "len + 1 \<le> sclass_size (sclass_for_length len) \<and> sclass_for_length len \<le> 30 \<and>
    leading_zeros (u32_of_usize len OR 3) \<le> 30 \<and>
    (4 \<le> len \<longrightarrow> sclass_size (sclass_for_length len) \<le> 2 * len) \<and>
    (1 < len \<longrightarrow> is_sclass_min_length len = (sclass_for_length len \<noteq> sclass_for_length (len - 1)))"
  using sclass_bounds [OF assms] sclass_for_length_eq [OF assms] sclass_step [of "len - 1"] assms by auto

theorem size_class_bounds_witness:
  "5 + 1 \<le> sclass_size (sclass_for_length 5) \<and> sclass_for_length 5 \<le> 30 \<and>
    leading_zeros (u32_of_usize 5 OR 3) \<le> 30 \<and> sclass_size (sclass_for_length 5) \<le> 2 * 5 \<and>
    is_sclass_min_length 5 = (sclass_for_length 5 \<noteq> sclass_for_length (5 - 1))"
  using size_class_bounds [of 5] by simp

section \<open>The invariant of the pool\<close>

text \<open>The free list of a class: \<open>p\<close> is 0 at the end, else one more than the start of the next block.\<close>

fun free_chain :: "entity list \<Rightarrow> nat \<Rightarrow> nat list \<Rightarrow> bool" where
  "free_chain ds p [] = (p = 0)"
| "free_chain ds p (b # bs) = (p = b + 1 \<and> free_chain ds (entity_index (ds ! (b + 1))) bs)"

definition free_blocks :: "nat list list \<Rightarrow> nat set" where
  "free_blocks F = (\<Union>bs \<in> set F. set bs)"

text \<open>Blocks are owned by \<open>own\<close>, with their size class; they do not overlap. The free lists are \<open>F\<close>, and
  \<open>L\<close> maps the blocks of lists to their elements. A block may be neither free nor hold a list,
  between being taken and being filled.\<close>

definition blocks_ok :: "list_pool \<Rightarrow> (nat \<rightharpoonup> nat) \<Rightarrow> bool" where
  "blocks_ok P own = (length (pool_data P) < 2 ^ 32 - 1 \<and>
     (\<forall>b c. own b = Some c \<longrightarrow> b + sclass_size c \<le> length (pool_data P)) \<and>
     (\<forall>b c b' c'. own b = Some c \<longrightarrow> own b' = Some c' \<longrightarrow> b < b' \<longrightarrow> b + sclass_size c \<le> b'))"

definition free_ok :: "list_pool \<Rightarrow> (nat \<rightharpoonup> nat) \<Rightarrow> nat list list \<Rightarrow> bool" where
  "free_ok P own F = (length F = length (pool_free P) \<and>
     (\<forall>c < length F. free_chain (pool_data P) (pool_free P ! c) (F ! c) \<and> distinct (F ! c) \<and>
        (\<forall>b \<in> set (F ! c). own b = Some c)))"

definition list_ok :: "entity list \<Rightarrow> (nat \<rightharpoonup> nat) \<Rightarrow> nat \<Rightarrow> entity list \<Rightarrow> bool" where
  "list_ok ds own b xs = (xs \<noteq> [] \<and> length xs < 2 ^ 32 - 1 \<and> own b = Some (sclass_for_length (length xs)) \<and>
     ds ! b = Entity (word_of_nat (length xs)) \<and> take (length xs) (drop (b + 1) ds) = xs)"

definition pool_inv :: "list_pool \<Rightarrow> (nat \<rightharpoonup> nat) \<Rightarrow> nat list list \<Rightarrow> (nat \<rightharpoonup> entity list) \<Rightarrow> bool" where
  "pool_inv P own F L = (blocks_ok P own \<and> free_ok P own F \<and>
     (\<forall>b xs. L b = Some xs \<longrightarrow> list_ok (pool_data P) own b xs \<and> b \<notin> free_blocks F))"

definition held :: "(nat \<rightharpoonup> nat) \<Rightarrow> nat list list \<Rightarrow> nat \<Rightarrow> nat \<Rightarrow> bool" where
  "held own F b c = (own b = Some c \<and> b \<notin> free_blocks F)"

lemma sclass_size_ge: "4 \<le> sclass_size c"
  by (simp add: sclass_size_def)

lemma free_blocks_nth: "b \<in> free_blocks F \<longleftrightarrow> (\<exists>c < length F. b \<in> set (F ! c))"
  unfolding free_blocks_def by (simp add: set_conv_nth [of F]) blast

lemma free_blocks_own:
  assumes "free_ok P own F" "b \<in> free_blocks F"
  obtains c where "c < length F" "b \<in> set (F ! c)" "own b = Some c"
  using assms that by (auto simp: free_blocks_nth free_ok_def)

lemma blocks_apart:
  assumes "blocks_ok P own" "own b = Some c" "own b' = Some c'" "b \<noteq> b'"
    and "b \<le> j" "j < b + sclass_size c"
  shows "\<not> (b' \<le> j \<and> j < b' + sclass_size c')"
  using assms unfolding blocks_ok_def by (metis linorder_neqE_nat not_less order_less_le_trans)

lemma blocks_bound: "blocks_ok P own \<Longrightarrow> own b = Some c \<Longrightarrow> b + sclass_size c \<le> length (pool_data P)"
  by (simp add: blocks_ok_def)

lemma free_chain_cong:
  "free_chain ds p bs \<Longrightarrow> (\<And>b. b \<in> set bs \<Longrightarrow> ds' ! (b + 1) = ds ! (b + 1)) \<Longrightarrow> free_chain ds' p bs"
  by (induction bs arbitrary: p) auto

lemma list_ok_room:
  assumes "list_ok ds own b xs"
  shows "length xs + 1 \<le> sclass_size (sclass_for_length (length xs))"
proof -
  have "length xs < 2 ^ 32" using assms by (simp add: list_ok_def)
  from sclass_bounds(1) [OF this] show ?thesis by simp
qed

lemma list_ok_cong:
  assumes "list_ok ds own b xs" "length xs + 1 \<le> sclass_size c" "b + sclass_size c \<le> length ds" "length ds \<le> length ds'"
    and "\<And>j. b \<le> j \<Longrightarrow> j < b + sclass_size c \<Longrightarrow> ds' ! j = ds ! j"
    and "own' b = own b"
  shows "list_ok ds' own' b xs"
proof -
  have "take (length xs) (drop (b + 1) ds') = take (length xs) (drop (b + 1) ds)"
    using assms(2-5) by (intro nth_equalityI) auto
  moreover have "ds' ! b = ds ! b" using assms(2,5) by simp
  ultimately show ?thesis using assms(1,6) by (simp add: list_ok_def)
qed

text \<open>Writing inside of a block that is not free forgets the list it holds and keeps everything else.\<close>

lemma write_inv:
  assumes "pool_inv P own F L" "held own F b c" "length ds = length (pool_data P)"
    and same: "\<And>j. j < length ds \<Longrightarrow> j < b \<or> b + sclass_size c \<le> j \<Longrightarrow> ds ! j = pool_data P ! j"
  shows "pool_inv (P\<lparr>pool_data := ds\<rparr>) own F (L(b := None))"
proof -
  have bo: "blocks_ok P own" and fo: "free_ok P own F" using assms(1) by (auto simp: pool_inv_def)
  have b: "own b = Some c" "b \<notin> free_blocks F" using assms(2) by (auto simp: held_def)
  have other: "ds ! j = pool_data P ! j" if "own b' = Some c'" "b' \<noteq> b" "b' \<le> j" "j < b' + sclass_size c'" for b' c' j
    using same [of j] blocks_apart [OF bo that(1) b(1) that(2-4)] blocks_bound [OF bo that(1)] that(4) assms(3) by linarith
  have "free_ok (P\<lparr>pool_data := ds\<rparr>) own F"
    unfolding free_ok_def
  proof (intro conjI allI impI)
    fix k assume k: "k < length F"
    have f: "free_chain (pool_data P) (pool_free P ! k) (F ! k)" "\<forall>x \<in> set (F ! k). own x = Some k" "distinct (F ! k)"
      using fo k by (simp_all add: free_ok_def)
    show "free_chain (pool_data (P\<lparr>pool_data := ds\<rparr>)) (pool_free (P\<lparr>pool_data := ds\<rparr>) ! k) (F ! k)"
    proof (simp, rule free_chain_cong [OF f(1)])
      fix x assume x: "x \<in> set (F ! k)"
      then have "x \<noteq> b" using b(2) k by (auto simp: free_blocks_def)
      with f(2) x show "ds ! (x + 1) = pool_data P ! (x + 1)"
        using other [of x k "x + 1"] sclass_size_ge [of k] by simp
    qed
  qed (use fo in \<open>simp_all add: free_ok_def\<close>)
  moreover have "list_ok ds own b' xs \<and> b' \<notin> free_blocks F" if L: "(L(b := None)) b' = Some xs" for b' xs
  proof -
    have l: "list_ok (pool_data P) own b' xs" "b' \<noteq> b" "b' \<notin> free_blocks F"
      using L assms(1) by (auto simp: pool_inv_def split: if_splits)
    then have o: "own b' = Some (sclass_for_length (length xs))" by (simp add: list_ok_def)
    show ?thesis
      using list_ok_cong [OF l(1) list_ok_room [OF l(1)] blocks_bound [OF bo o]] other [OF o l(2)] assms(3) l(3) by simp
  qed
  moreover have "blocks_ok (P\<lparr>pool_data := ds\<rparr>) own" using bo assms(3) by (simp add: blocks_ok_def)
  ultimately show ?thesis by (simp add: pool_inv_def)
qed

lemma adopt_inv:
  assumes "pool_inv P own F L" "held own F b c" "list_ok (pool_data P) own b xs"
  shows "pool_inv P own F (L(b \<mapsto> xs))"
  using assms by (auto simp: pool_inv_def held_def)

lemma forget_inv: "pool_inv P own F L \<Longrightarrow> pool_inv P own F (L(b := None))"
  by (auto simp: pool_inv_def)

lemma inv_live:
  assumes "pool_inv P own F L" "L b = Some xs"
  shows "list_ok (pool_data P) own b xs" "held own F b (sclass_for_length (length xs))"
  using assms by (auto simp: pool_inv_def held_def list_ok_def)

section \<open>Taking and freeing blocks\<close>

lemma entity_new_lt: "i < 2 ^ 32 - 1 \<Longrightarrow> entity_new i = Some (Entity (word_of_nat i))"
  by (simp add: entity_new_def)

lemma entity_index_of_nat: "i < 2 ^ 32 \<Longrightarrow> entity_index (Entity (word_of_nat i)) = i"
  by (simp add: entity_index_def unat_of_nat_lt)

definition alloc_post ::
  "list_pool \<Rightarrow> (nat \<rightharpoonup> nat) \<Rightarrow> nat list list \<Rightarrow> (nat \<rightharpoonup> entity list) \<Rightarrow> nat \<Rightarrow>
   nat \<Rightarrow> list_pool \<Rightarrow> (nat \<rightharpoonup> nat) \<Rightarrow> nat list list \<Rightarrow> bool" where
  "alloc_post P own F L c b P' own' F' = (pool_inv P' own' F' L \<and> held own' F' b c \<and> L b = None \<and>
     (\<forall>b0 c0. held own F b0 c0 \<longrightarrow> b0 \<noteq> b \<and> held own' F' b0 c0) \<and>
     (\<exists>ext. pool_data P' = pool_data P @ ext))"

lemma inv_no_list: "pool_inv P own F L \<Longrightarrow> own b = None \<or> b \<in> free_blocks F \<Longrightarrow> L b = None"
  by (cases "L b") (auto simp: pool_inv_def list_ok_def)

lemma alloc_extend:
  assumes "pool_inv P own F L" "length (pool_data P) + sclass_size c < 2 ^ 32 - 1"
  defines "b \<equiv> length (pool_data P)"
  shows "alloc_post P own F L c b
    (P\<lparr>pool_data := pool_data P @ replicate (sclass_size c) e\<rparr>) (own(b \<mapsto> c)) F"
proof -
  let ?P = "P\<lparr>pool_data := pool_data P @ replicate (sclass_size c) e\<rparr>" and ?own = "own(b \<mapsto> c)"
  have bo: "blocks_ok P own" and fo: "free_ok P own F" using assms(1) by (auto simp: pool_inv_def)
  have lt: "b' < b" if "own b' = Some c'" for b' c'
    using blocks_bound [OF bo that] sclass_size_ge [of c'] by (simp add: b_def)
  have none: "own b = None" using lt [of b] by (cases "own b") auto
  have nf: "b \<notin> free_blocks F" using free_blocks_own [OF fo] none by (metis option.distinct(1))
  have "blocks_ok ?P ?own"
    unfolding blocks_ok_def
  proof (intro conjI allI impI)
    show "length (pool_data ?P) < 2 ^ 32 - 1" using assms(2) by simp
  next
    fix x k assume "?own x = Some k"
    then show "x + sclass_size k \<le> length (pool_data ?P)"
      using blocks_bound [OF bo] by (auto simp: b_def split: if_splits intro: trans_le_add1)
  next
    fix x k y m assume a: "?own x = Some k" "?own y = Some m" "x < y"
    show "x + sclass_size k \<le> y"
    proof (cases "y = b")
      case True
      then show ?thesis using a blocks_bound [OF bo, of x k] by (auto simp: b_def split: if_splits)
    next
      case False
      then have "x \<noteq> b" using a lt [of y m] by auto
      then show ?thesis using False a bo by (auto simp: blocks_ok_def)
    qed
  qed
  moreover have "free_ok ?P ?own F"
    unfolding free_ok_def
  proof (intro conjI allI impI)
    fix k assume k: "k < length F"
    have f: "free_chain (pool_data P) (pool_free P ! k) (F ! k)" "\<forall>x \<in> set (F ! k). own x = Some k" "distinct (F ! k)"
      using fo k by (simp_all add: free_ok_def)
    show "\<forall>x \<in> set (F ! k). ?own x = Some k" using f(2) none by auto
    show "distinct (F ! k)" by (rule f(3))
    show "free_chain (pool_data ?P) (pool_free ?P ! k) (F ! k)"
    proof (simp, rule free_chain_cong [OF f(1)])
      fix x assume "x \<in> set (F ! k)"
      then have "x + sclass_size k \<le> length (pool_data P)" using blocks_bound [OF bo] f(2) by blast
      then show "(pool_data P @ replicate (sclass_size c) e) ! (x + 1) = pool_data P ! (x + 1)"
        using sclass_size_ge [of k] by (simp add: nth_append)
    qed
  qed (use fo in \<open>simp add: free_ok_def\<close>)
  moreover have "list_ok (pool_data ?P) ?own b' xs \<and> b' \<notin> free_blocks F" if "L b' = Some xs" for b' xs
  proof -
    note l = inv_live [OF assms(1) that]
    have o: "own b' = Some (sclass_for_length (length xs))" using l(2) by (simp add: held_def)
    note bd = blocks_bound [OF bo o]
    have "list_ok (pool_data ?P) ?own b' xs"
      using bd lt [OF o] by (intro list_ok_cong [OF l(1) list_ok_room [OF l(1)] bd]) (auto simp: nth_append)
    with l(2) show ?thesis by (simp add: held_def)
  qed
  ultimately have "pool_inv ?P ?own F L" by (simp add: pool_inv_def)
  then show ?thesis
    using nf none lt inv_no_list [OF assms(1), of b] by (auto simp: alloc_post_def held_def)
qed

definition other_blocks :: "nat list list \<Rightarrow> nat \<Rightarrow> nat set" where
  "other_blocks F c = (\<Union>k \<in> {..<length F} - {c}. set (F ! k))"

lemma free_blocks_update: "c < length F \<Longrightarrow> free_blocks (F[c := bs]) = set bs \<union> other_blocks F c"
  by (auto simp: free_blocks_nth other_blocks_def nth_list_update split: if_splits)

lemma free_blocks_split: "c < length F \<Longrightarrow> free_blocks F = set (F ! c) \<union> other_blocks F c"
  using free_blocks_update [of c F "F ! c"] by simp

lemma alloc_reuse:
  assumes "pool_inv P own F L" "c < length (pool_free P)" "0 < pool_free P ! c"
  shows "\<exists>b bs e. pool_free P ! c = b + 1 \<and> b + 1 < length (pool_data P) \<and> pool_data P ! (b + 1) = e \<and>
    alloc_post P own F L c b (P\<lparr>pool_free := (pool_free P)[c := entity_index e]\<rparr>) own (F[c := bs])"
proof -
  have bo: "blocks_ok P own" and fo: "free_ok P own F" using assms(1) by (auto simp: pool_inv_def)
  have c: "c < length F" using fo assms(2) by (simp add: free_ok_def)
  have f: "free_chain (pool_data P) (pool_free P ! c) (F ! c)" "\<forall>x \<in> set (F ! c). own x = Some c" "distinct (F ! c)"
    using fo c by (simp_all add: free_ok_def)
  obtain b bs where F: "F ! c = b # bs" using f(1) assms(3) by (cases "F ! c") auto
  let ?P = "P\<lparr>pool_free := (pool_free P)[c := entity_index (pool_data P ! (b + 1))]\<rparr>" and ?F = "F[c := bs]"
  have b: "own b = Some c" "b + 1 < length (pool_data P)" "b \<in> free_blocks F"
    using f(2) F c blocks_bound [OF bo, of b c] sclass_size_ge [of c] by (auto simp: free_blocks_nth)
  have sub: "free_blocks ?F = free_blocks F - {b}"
  proof -
    have "b \<notin> other_blocks F c" using fo b(1) unfolding free_ok_def other_blocks_def by force
    then show ?thesis using F f(3) c by (auto simp: free_blocks_update free_blocks_split [OF c])
  qed
  have "free_ok ?P own ?F"
    using fo F c f by (auto simp: free_ok_def nth_list_update)
  moreover have "blocks_ok ?P own" using bo by (simp add: blocks_ok_def)
  ultimately have "pool_inv ?P own ?F L" using assms(1) sub by (auto simp: pool_inv_def)
  then have "alloc_post P own F L c b ?P own ?F"
    using b inv_no_list [OF assms(1), of b] sub by (auto simp: alloc_post_def held_def)
  then show ?thesis using f(1) F b(2) by auto
qed

lemma pool_alloc_correct:
  assumes "pool_inv P own F L" "length (pool_data P) + sclass_size c < 2 ^ 32 - 1"
  shows "\<exists>b P' own' F'. pool_alloc P c = Some (b, P') \<and> alloc_post P own F L c b P' own' F'"
proof (cases "c < length (pool_free P) \<and> 0 < pool_free P ! c")
  case True
  then show ?thesis using alloc_reuse [OF assms(1), of c] by (fastforce simp: pool_alloc_def vec_get_def)
next
  case False
  then show ?thesis
    using alloc_extend [OF assms, where e = entity_reserved_value] by (auto simp: pool_alloc_def vec_get_def)
qed

lemma nth_write_at:
  assumes "i + length xs \<le> length ds" "j < length ds"
  shows "write_at ds i xs ! j = (if i \<le> j \<and> j < i + length xs then xs ! (j - i) else ds ! j)"
  using assms by (auto simp: write_at_def nth_append min_def)

lemma length_write_at: "i + length xs \<le> length ds \<Longrightarrow> length (write_at ds i xs) = length ds"
  by (simp add: write_at_def)

lemma pad_inv:
  assumes "pool_inv P own F L"
  shows "pool_inv (P\<lparr>pool_free := pool_free P @ replicate k 0\<rparr>) own (F @ replicate k []) L"
    and "free_blocks (F @ replicate k []) = free_blocks F"
proof -
  show f: "free_blocks (F @ replicate k []) = free_blocks F" by (auto simp: free_blocks_def)
  have "free_ok (P\<lparr>pool_free := pool_free P @ replicate k 0\<rparr>) own (F @ replicate k [])"
    using assms by (auto simp: pool_inv_def free_ok_def nth_append)
  moreover have "blocks_ok (P\<lparr>pool_free := pool_free P @ replicate k 0\<rparr>) own"
    using assms by (simp add: pool_inv_def blocks_ok_def)
  ultimately show "pool_inv (P\<lparr>pool_free := pool_free P @ replicate k 0\<rparr>) own (F @ replicate k []) L"
    using assms f by (simp add: pool_inv_def)
qed

lemma free_head_bound:
  assumes "pool_inv P own F L" "c < length F"
  shows "pool_free P ! c < 2 ^ 32 - 1"
proof -
  have bo: "blocks_ok P own" and f: "free_chain (pool_data P) (pool_free P ! c) (F ! c)" "\<forall>b \<in> set (F ! c). own b = Some c"
    using assms by (auto simp: pool_inv_def free_ok_def)
  show ?thesis
  proof (cases "F ! c")
    case (Cons b bs)
    then have "own b = Some c" using f(2) by simp
    from blocks_bound [OF bo this] sclass_size_ge [of c] bo f(1) Cons show ?thesis by (simp add: blocks_ok_def)
  qed (use f(1) in simp)
qed

lemma link_inv:
  assumes "pool_inv P own F L" "held own F b c" "L b = None" "c < length F"
  shows "pool_inv (P\<lparr>pool_data := (pool_data P)[b := e, b + 1 := Entity (word_of_nat (pool_free P ! c))],
      pool_free := (pool_free P)[c := b + 1]\<rparr>) own (F[c := b # F ! c]) L"
    and "free_blocks (F[c := b # F ! c]) = insert b (free_blocks F)"
proof -
  let ?ds = "(pool_data P)[b := e, b + 1 := Entity (word_of_nat (pool_free P ! c))]"
  let ?P = "P\<lparr>pool_data := ?ds\<rparr>" and ?Q = "P\<lparr>pool_data := ?ds, pool_free := (pool_free P)[c := b + 1]\<rparr>"
  have own: "own b = Some c" "b \<notin> free_blocks F" using assms(2) by (auto simp: held_def)
  have bo: "blocks_ok P own" using assms(1) by (simp add: pool_inv_def)
  have bb: "b + 1 < length (pool_data P)" using blocks_bound [OF bo own(1)] sclass_size_ge [of c] by simp
  have "?ds ! j = pool_data P ! j" if "j < b \<or> b + sclass_size c \<le> j" for j
    using that sclass_size_ge [of c] by auto
  then have "pool_inv ?P own F (L(b := None))" by (intro write_inv [OF assms(1,2)]) simp_all
  moreover have "L(b := None) = L" using assms(3) by auto
  ultimately have inv: "pool_inv ?P own F L" by simp
  show fb: "free_blocks (F[c := b # F ! c]) = insert b (free_blocks F)"
    using free_blocks_update [OF assms(4)] free_blocks_split [OF assms(4)] by auto
  have idx: "entity_index (?ds ! (b + 1)) = pool_free P ! c"
    using bb free_head_bound [OF assms(1,4)] by (simp add: entity_index_of_nat)
  have nb: "b \<notin> set (F ! c)" using own(2) assms(4) by (auto simp: free_blocks_nth)
  have "free_ok ?Q own (F[c := b # F ! c])"
    using inv own(1) nb idx assms(4) unfolding pool_inv_def free_ok_def by (auto simp: nth_list_update)
  moreover have "blocks_ok ?Q own" using inv by (simp add: pool_inv_def blocks_ok_def)
  ultimately show "pool_inv ?Q own (F[c := b # F ! c]) L"
    using inv fb assms(3) by (auto simp: pool_inv_def)
qed

lemma pool_free_correct:
  assumes "pool_inv P own F L" "held own F b c" "L b = None"
  shows "\<exists>P' F'. pool_free_block P b c = Some P' \<and> pool_inv P' own F' L \<and>
    free_blocks F' = insert b (free_blocks F) \<and> length (pool_data P') = length (pool_data P) \<and>
    (\<forall>j. j < b \<or> b + sclass_size c \<le> j \<longrightarrow> pool_data P' ! j = pool_data P ! j)"
proof -
  let ?k = "c + 1 - length (pool_free P)"
  let ?P = "P\<lparr>pool_free := pool_free P @ replicate ?k 0\<rparr>" and ?F = "F @ replicate ?k []"
  note pad = pad_inv [OF assms(1), of ?k]
  have h: "held own ?F b c" using assms(2) pad(2) by (simp add: held_def)
  have lF: "length F = length (pool_free P)" using assms(1) by (simp add: pool_inv_def free_ok_def)
  then have c: "c < length ?F" by simp
  have bo: "blocks_ok P own" using assms(1) by (simp add: pool_inv_def)
  have bb: "b + 1 < length (pool_data P)"
    using blocks_bound [OF bo] assms(2) sclass_size_ge [of c] by (fastforce simp: held_def)
  have "(if length (pool_free P) \<le> c then pool_free P @ replicate ?k 0 else pool_free P) = pool_free ?P" by simp
  moreover have "entity_new (pool_free ?P ! c) = Some (Entity (word_of_nat (pool_free ?P ! c)))"
    by (rule entity_new_lt [OF free_head_bound [OF pad(1) c]])
  ultimately have "pool_free_block P b c = Some (?P\<lparr>pool_data := (pool_data ?P)[b := Entity 0, b + 1 := Entity (word_of_nat (pool_free ?P ! c))],
      pool_free := (pool_free ?P)[c := b + 1]\<rparr>)"
    using bb by (simp add: pool_free_block_def vec_set_def entity_new_lt Let_def)
  moreover note link_inv(1) [OF pad(1) h assms(3) c, where e = "Entity 0"] link_inv(2) [OF pad(1) h assms(3) c]
  ultimately show ?thesis using pad(2) sclass_size_ge [of c] by auto
qed

lemma pool_realloc_correct:
  assumes inv: "pool_inv P own F L" and live: "L b = Some xs"
    and n: "0 < n" "n \<le> sclass_size (sclass_for_length (length xs))" "n \<le> sclass_size to"
    and room: "length (pool_data P) + sclass_size to < 2 ^ 32 - 1"
  shows "\<exists>nb P' own' F'. pool_realloc P b (sclass_for_length (length xs)) to n = Some (nb, P') \<and>
    pool_inv P' own' F' (L(b := None)) \<and> held own' F' nb to \<and> nb \<noteq> b \<and> L nb = None \<and>
    (\<forall>j < n. pool_data P' ! (nb + j) = pool_data P ! (b + j))"
proof -
  let ?c = "sclass_for_length (length xs)"
  obtain nb P1 own' F' where al: "pool_alloc P to = Some (nb, P1)" "alloc_post P own F L to nb P1 own' F'"
    using pool_alloc_correct [OF inv room] by blast
  have h0: "held own F b ?c" by (rule inv_live(2) [OF inv live])
  have h: "held own' F' b ?c" "b \<noteq> nb" "held own' F' nb to" "L nb = None" and i1: "pool_inv P1 own' F' L"
    and ext: "\<exists>ext. pool_data P1 = pool_data P @ ext"
    using al(2) h0 by (auto simp: alloc_post_def)
  have bo: "blocks_ok P own" "blocks_ok P1 own'" using inv i1 by (auto simp: pool_inv_def)
  have bd: "b + sclass_size ?c \<le> length (pool_data P1)" "nb + sclass_size to \<le> length (pool_data P1)"
    "b + sclass_size ?c \<le> length (pool_data P)"
    using h h0 blocks_bound [OF bo(2)] blocks_bound [OF bo(1)] by (auto simp: held_def)
  have ap: "b + sclass_size ?c \<le> nb \<or> nb + sclass_size to \<le> b"
    using bo(2) h unfolding blocks_ok_def held_def by (metis linorder_neqE_nat)
  let ?el = "take n (drop b (pool_data P1))"
  let ?ds = "write_at (pool_data P1) nb ?el"
  have len: "length ?el = n" using bd(1) n by simp
  have lds: "length ?ds = length (pool_data P1)" using len bd(2) n by (simp add: length_write_at)
  have nth: "?ds ! j = (if nb \<le> j \<and> j < nb + n then ?el ! (j - nb) else pool_data P1 ! j)" if "j < length (pool_data P1)" for j
    using that len bd(2) n by (simp add: nth_write_at)
  have "pool_inv (P1\<lparr>pool_data := ?ds\<rparr>) own' F' (L(nb := None))"
    using lds nth n(3) by (intro write_inv [OF i1 h(3)]) auto
  moreover have "L(nb := None) = L" using h(4) by auto
  ultimately have i2: "pool_inv (P1\<lparr>pool_data := ?ds\<rparr>) own' F' (L(b := None))" using forget_inv by metis
  obtain P' F'' where fr: "pool_free_block (P1\<lparr>pool_data := ?ds\<rparr>) b ?c = Some P'" "pool_inv P' own' F'' (L(b := None))"
    "free_blocks F'' = insert b (free_blocks F')"
    "\<forall>j. j < b \<or> b + sclass_size ?c \<le> j \<longrightarrow> pool_data P' ! j = ?ds ! j"
    using pool_free_correct [OF i2 h(1)] by auto
  obtain ol nl where ms: "mut_slices P1 b nb = Some ((b, ol), (nb, nl))" "n \<le> ol" "n \<le> nl"
    using ap bd n h(2) by (auto simp: mut_slices_def rassert_def Let_def)
  have "pool_realloc P b ?c to n = Some (nb, P')"
    using ms n al(1) bd fr(1) len by (simp add: pool_realloc_def slice_get_def slice_set_def del: bind_eq_Some)
  moreover have "pool_data P' ! (nb + j) = pool_data P ! (b + j)" if "j < n" for j
  proof -
    have "pool_data P' ! (nb + j) = ?ds ! (nb + j)" using fr(4) ap that n by auto
    also have "\<dots> = pool_data P1 ! (b + j)" using nth [of "nb + j"] that bd n by simp
    also have "\<dots> = pool_data P ! (b + j)" using ext that bd n by (auto simp: nth_append)
    finally show ?thesis .
  qed
  moreover have "held own' F'' nb to" using h fr(3) by (simp add: held_def)
  ultimately show ?thesis using fr(2) h by blast
qed

section \<open>Lists in the pool\<close>

text \<open>The pool holds the lists \<open>L\<close>, by the start of their blocks; \<open>has_list\<close> reads a handle.\<close>

definition pool_holds :: "list_pool \<Rightarrow> (nat \<rightharpoonup> entity list) \<Rightarrow> bool" where
  "pool_holds P L = (\<exists>own F. pool_inv P own F L)"

lemma pool_holdsI: "pool_inv P own F L \<Longrightarrow> pool_holds P L"
  unfolding pool_holds_def by blast

definition has_list :: "(nat \<rightharpoonup> entity list) \<Rightarrow> entity_list \<Rightarrow> entity list \<Rightarrow> bool" where
  "has_list L self xs = (if list_index self = 0 then xs = [] else L (list_index self - 1) = Some xs)"

definition pool_room :: "list_pool \<Rightarrow> nat \<Rightarrow> bool" where
  "pool_room P len = (len < 2 ^ 32 \<and> length (pool_data P) + sclass_size (sclass_for_length len) < 2 ^ 32 - 1)"

text \<open>The lists after the list of the handle \<open>self\<close> was replaced by \<open>ys\<close> under the handle \<open>self'\<close>.\<close>

definition relist :: "(nat \<rightharpoonup> entity list) \<Rightarrow> entity_list \<Rightarrow> entity_list \<Rightarrow> entity list \<Rightarrow> nat \<rightharpoonup> entity list" where
  "relist L self self' ys =
    (let L0 = (if list_index self = 0 then L else L(list_index self - 1 := None))
     in if list_index self' = 0 then L0 else L0(list_index self' - 1 \<mapsto> ys))"

definition list_post :: "(nat \<rightharpoonup> entity list) \<Rightarrow> entity_list \<Rightarrow> entity list \<Rightarrow> entity_list \<Rightarrow> list_pool \<Rightarrow> bool" where
  "list_post L self ys self' P' = (pool_holds P' (relist L self self' ys) \<and> (list_index self' = 0 \<longleftrightarrow> ys = []) \<and>
     (list_index self' \<noteq> 0 \<longrightarrow> list_index self' = list_index self \<or> L (list_index self' - 1) = None))"

lemma list_index_at: "n < 2 ^ 32 \<Longrightarrow> list_index (list_at n) = n"
  by (simp add: list_at_def u32_of_usize_def unat_of_nat_lt)

lemma list_at_index [simp]: "list_at (list_index l) = l"
  by (cases l) (simp add: list_at_def u32_of_usize_def)

lemma list_post_self: "list_post L self ys self' P' \<Longrightarrow> has_list (relist L self self' ys) self' ys"
  by (auto simp: list_post_def has_list_def relist_def Let_def)

lemma list_post_other:
  assumes "list_post L self ys self' P'" "has_list L other zs" "list_index other \<noteq> list_index self"
  shows "has_list (relist L self self' ys) other zs"
  using assms by (auto simp: list_post_def has_list_def relist_def Let_def) 

lemma settle:
  assumes inv: "pool_inv P own F L" and h: "held own F b (sclass_for_length (length ys))"
    and ys: "ys \<noteq> []" "length ys < 2 ^ 32 - 1" and len: "length ds = length (pool_data P)"
    and same: "\<And>j. j < length ds \<Longrightarrow> j < b \<or> b + sclass_size (sclass_for_length (length ys)) \<le> j \<Longrightarrow> ds ! j = pool_data P ! j"
    and hd: "ds ! b = Entity (word_of_nat (length ys))" and el: "\<And>j. j < length ys \<Longrightarrow> ds ! (b + 1 + j) = ys ! j"
  shows "pool_inv (P\<lparr>pool_data := ds\<rparr>) own F (L(b \<mapsto> ys))"
proof -
  have i: "pool_inv (P\<lparr>pool_data := ds\<rparr>) own F (L(b := None))" by (rule write_inv [OF inv h len same])
  have bo: "blocks_ok P own" and o: "own b = Some (sclass_for_length (length ys))"
    using inv h by (auto simp: pool_inv_def held_def)
  have "length ys < sclass_size (sclass_for_length (length ys))" using sclass_bounds(1) [of "length ys"] ys by simp
  with blocks_bound [OF bo o] len el have "take (length ys) (drop (b + 1) ds) = ys" by (intro nth_equalityI) auto
  then have "list_ok ds own b ys" using ys hd o by (simp add: list_ok_def)
  with adopt_inv [OF i h] show ?thesis by simp
qed

lemma block_lt:
  assumes "pool_inv P own F L" "held own F b c"
  shows "b + sclass_size c \<le> length (pool_data P)" "b + 1 < 2 ^ 32" "list_index (list_at (b + 1)) = b + 1"
proof -
  have bo: "blocks_ok P own" and o: "own b = Some c" using assms by (auto simp: pool_inv_def held_def)
  show b: "b + sclass_size c \<le> length (pool_data P)" by (rule blocks_bound [OF bo o])
  then show b1: "b + 1 < 2 ^ 32" using bo sclass_size_ge [of c] by (simp add: blocks_ok_def)
  show "list_index (list_at (b + 1)) = b + 1" by (rule list_index_at [OF b1])
qed

lemma settle_post:
  assumes "pool_inv P own F (if list_index self = 0 then L else L(list_index self - 1 := None))"
    and h: "held own F b (sclass_for_length (length ys))"
    and "ys \<noteq> []" "length ys < 2 ^ 32 - 1" "length ds = length (pool_data P)"
    and "\<And>j. j < length ds \<Longrightarrow> j < b \<or> b + sclass_size (sclass_for_length (length ys)) \<le> j \<Longrightarrow> ds ! j = pool_data P ! j"
    and "ds ! b = Entity (word_of_nat (length ys))" "\<And>j. j < length ys \<Longrightarrow> ds ! (b + 1 + j) = ys ! j"
    and "b + 1 = list_index self \<or> L b = None"
  shows "list_post L self ys (list_at (b + 1)) (P\<lparr>pool_data := ds\<rparr>)"
proof -
  have "pool_holds (P\<lparr>pool_data := ds\<rparr>)
      ((if list_index self = 0 then L else L(list_index self - 1 := None))(b \<mapsto> ys))"
    unfolding pool_holds_def using settle [OF assms(1-8)] by blast
  then show ?thesis
    using block_lt(3) [OF assms(1) h] assms(3,9) by (simp add: list_post_def relist_def Let_def)
qed

lemma handle_block:
  assumes "pool_inv P own F L" "L b = Some xs" "list_index self = b + 1"
  shows "pool_len_of P self = Some (length xs)" "as_slice self P = Some xs"
    "b + length xs + 1 \<le> length (pool_data P)" "length xs < 2 ^ 32 - 1" "xs \<noteq> []"
proof -
  note l = inv_live [OF assms(1,2)]
  have r: "length xs + 1 \<le> sclass_size (sclass_for_length (length xs))" by (rule list_ok_room [OF l(1)])
  show b: "b + length xs + 1 \<le> length (pool_data P)" using block_lt(1) [OF assms(1) l(2)] r by simp
  show x: "length xs < 2 ^ 32 - 1" "xs \<noteq> []" using l(1) by (auto simp: list_ok_def)
  show n: "pool_len_of P self = Some (length xs)"
    using l(1) b x assms(3) by (auto simp: pool_len_of_def vec_get_def list_ok_def entity_index_of_nat)
  show "as_slice self P = Some xs"
    using l(1) n b assms(3) by (simp add: as_slice_def slice_get_def list_ok_def Let_def)
qed

lemma pool_new_holds: "pool_holds pool_new Map.empty"
proof -
  have "pool_inv pool_new Map.empty [] Map.empty" by (simp add: pool_inv_def blocks_ok_def free_ok_def pool_new_def)
  then show ?thesis by (auto simp: pool_holds_def)
qed

lemma read_list:
  assumes "pool_holds P L" "has_list L self xs"
  shows "as_slice self P = Some xs" "list_len self P = length xs" "list_is_empty self \<longleftrightarrow> xs = []"
    "list_is_valid self P"
proof -
  obtain own F where inv: "pool_inv P own F L" using assms(1) by (auto simp: pool_holds_def)
  have *: "as_slice self P = Some xs \<and> list_len self P = length xs \<and> (list_is_empty self \<longleftrightarrow> xs = []) \<and> list_is_valid self P"
  proof (cases "list_index self = 0")
    case True
    then show ?thesis using assms(2) by (simp add: as_slice_def list_len_def pool_len_of_def has_list_def list_is_empty_def list_is_valid_def)
  next
    case False
    then obtain b where b: "list_index self = b + 1" by (metis Suc_eq_plus1 not0_implies_Suc)
    then have "L b = Some xs" using assms(2) by (simp add: has_list_def)
    from handle_block [OF inv this b] b show ?thesis by (simp add: list_len_def list_is_empty_def list_is_valid_def)
  qed
  then show "as_slice self P = Some xs" "list_len self P = length xs" "list_is_empty self \<longleftrightarrow> xs = []" "list_is_valid self P"
    by auto
qed

lemma move_block:
  assumes inv: "pool_inv P own F L" and live: "L b = Some xs"
    and n: "0 < n" "n \<le> sclass_size (sclass_for_length (length xs))" "n \<le> sclass_size to"
    and room: "to \<noteq> sclass_for_length (length xs) \<Longrightarrow> length (pool_data P) + sclass_size to < 2 ^ 32 - 1"
  shows "\<exists>nb P1 own' F'. (if to \<noteq> sclass_for_length (length xs)
      then pool_realloc P b (sclass_for_length (length xs)) to n else Some (b, P)) = Some (nb, P1) \<and>
    pool_inv P1 own' F' (L(b := None)) \<and> held own' F' nb to \<and> (nb = b \<or> L nb = None) \<and>
    (\<forall>j < n. pool_data P1 ! (nb + j) = pool_data P ! (b + j)) \<and>
    (to = sclass_for_length (length xs) \<longrightarrow> nb = b \<and> P1 = P)"
proof (cases "to = sclass_for_length (length xs)")
  case True
  then show ?thesis using forget_inv [OF inv] inv_live(2) [OF inv live] by auto
next
  case False
  then show ?thesis using pool_realloc_correct [OF inv live n room] by auto
qed

lemma block_of_handle:
  assumes "pool_holds P L" "has_list L self xs" "list_index self \<noteq> 0"
  obtains own F b where "pool_inv P own F L" "L b = Some xs" "list_index self = b + 1" "list_at (b + 1) = self"
proof -
  obtain own F where inv: "pool_inv P own F L" using assms(1) by (auto simp: pool_holds_def)
  obtain b where b: "list_index self = b + 1" using assms(3) by (metis Suc_eq_plus1 not0_implies_Suc)
  moreover from b have "L b = Some xs" using assms(2) by (simp add: has_list_def)
  moreover from b have "list_at (b + 1) = self" by (metis list_at_index)
  ultimately show ?thesis using inv that by blast
qed

lemma has_list_empty: "list_index self = 0 \<Longrightarrow> pool_len_of P self = None \<and> (has_list L self xs \<longleftrightarrow> xs = [])"
  by (simp add: pool_len_of_def has_list_def)

lemma room_len: "pool_room P len \<Longrightarrow> len < 2 ^ 32 - 1"
  using sclass_bounds(1) [of len] by (simp add: pool_room_def)

text \<open>A block for a new list.\<close>

lemma alloc_for_list:
  assumes "pool_holds P L" "pool_room P len"
  shows "\<exists>b P1 own F. pool_alloc P (sclass_for_length len) = Some (b, P1) \<and> pool_inv P1 own F L \<and>
    held own F b (sclass_for_length len) \<and> L b = None \<and> b + len + 1 \<le> length (pool_data P1) \<and>
    (\<exists>ext. pool_data P1 = pool_data P @ ext)"
proof -
  obtain own0 F0 where "pool_inv P own0 F0 L" using assms(1) by (auto simp: pool_holds_def)
  from pool_alloc_correct [OF this] assms(2) obtain b P1 own F where
    a: "pool_alloc P (sclass_for_length len) = Some (b, P1)" "alloc_post P own0 F0 L (sclass_for_length len) b P1 own F"
    unfolding pool_room_def by blast
  have "len < sclass_size (sclass_for_length len)" using sclass_bounds(1) assms(2) by (simp add: pool_room_def)
  with a block_lt(1) [of P1 own F L b "sclass_for_length len"] show ?thesis by (auto simp: alloc_post_def)
qed

lemma from_slice_correct:
  assumes "pool_holds P L" "pool_room P (length xs)"
  shows "\<exists>self' P'. from_slice xs P = Some (self', P') \<and> list_post L list_new xs self' P'"
proof (cases "xs = []")
  case True
  then show ?thesis using assms(1) by (simp add: from_slice_def list_post_def relist_def list_new_def)
next
  case False
  obtain b P1 own F where a: "pool_alloc P (sclass_for_length (length xs)) = Some (b, P1)" "pool_inv P1 own F L"
    "held own F b (sclass_for_length (length xs))" "L b = None" "b + length xs + 1 \<le> length (pool_data P1)"
    using alloc_for_list [OF assms] by blast
  let ?ds = "write_at ((pool_data P1)[b := Entity (word_of_nat (length xs))]) (b + 1) xs"
  have len: "length ?ds = length (pool_data P1)" using a(5) by (simp add: length_write_at)
  have nth: "?ds ! j = (if b + 1 \<le> j \<and> j < b + 1 + length xs then xs ! (j - (b + 1))
      else (pool_data P1)[b := Entity (word_of_nat (length xs))] ! j)" if "j < length (pool_data P1)" for j
    using that a(5) by (simp add: nth_write_at)
  have fit: "length xs < sclass_size (sclass_for_length (length xs))"
    using sclass_bounds(1) assms(2) by (simp add: pool_room_def)
  have "list_post L list_new xs (list_at (b + 1)) (P1\<lparr>pool_data := ?ds\<rparr>)"
  proof (rule settle_post [OF _ a(3) False room_len [OF assms(2)] len])
    fix j assume "j < length ?ds" "j < b \<or> b + sclass_size (sclass_for_length (length xs)) \<le> j"
    with fit show "?ds ! j = pool_data P1 ! j" using len nth [of j] by auto
  qed (use a nth in \<open>auto simp: list_new_def\<close>)
  moreover have "from_slice xs P = Some (list_at (b + 1), P1\<lparr>pool_data := ?ds\<rparr>)"
    using a False room_len [OF assms(2)]
    by (simp add: from_slice_def Let_def entity_new_lt vec_set_def slice_set_def)
  ultimately show ?thesis by blast
qed

lemma deep_clone_correct:
  assumes "pool_holds P L" "has_list L self xs" "pool_room P (length xs)"
  shows "\<exists>self' P'. deep_clone self P = Some (self', P') \<and> list_post L list_new xs self' P'"
proof (cases "list_index self = 0")
  case True
  then show ?thesis using assms(1,2) has_list_empty [OF True]
    by (simp add: deep_clone_def list_post_def relist_def list_new_def has_list_def)
next
  case False
  then obtain own0 F0 s where s: "pool_inv P own0 F0 L" "L s = Some xs" "list_index self = s + 1"
    using block_of_handle [OF assms(1,2)] by metis
  note hb = handle_block [OF s]
  obtain b P1 own F where a: "pool_alloc P (sclass_for_length (length xs)) = Some (b, P1)" "pool_inv P1 own F L"
    "held own F b (sclass_for_length (length xs))" "L b = None" "b + length xs + 1 \<le> length (pool_data P1)"
    using alloc_for_list [OF assms(1,3)] by blast
  have "b \<noteq> s" using a(4) s(2) by auto
  then have "pool_inv (P1\<lparr>pool_data := (pool_data P1)[b := Entity (word_of_nat (length xs))]\<rparr>) own F (L(b := None))"
    using sclass_size_ge [of "sclass_for_length (length xs)"] by (intro write_inv [OF a(2,3)]) (auto simp: nth_list_update)
  moreover have "L(b := None) = L" using a(4) by auto
  ultimately have i: "pool_inv (P1\<lparr>pool_data := (pool_data P1)[b := Entity (word_of_nat (length xs))]\<rparr>) own F L" by simp
  note sl = handle_block(2,1) [OF i s(2,3)]
  have "deep_clone self P = from_slice xs P"
    using hb(1,5) a sl room_len [OF assms(3)] s(3)
    by (simp add: deep_clone_def from_slice_def Let_def entity_new_lt vec_set_def as_slice_def)
  then show ?thesis using from_slice_correct [OF assms(1,3)] by simp
qed

lemma list_clear_correct:
  assumes "pool_holds P L" "has_list L self xs"
  shows "\<exists>self' P'. list_clear self P = Some (self', P') \<and> list_post L self [] self' P'"
proof (cases "list_index self = 0")
  case True
  then show ?thesis using assms(1) has_list_empty [OF True]
    by (simp add: list_clear_def list_post_def relist_def)
next
  case False
  then obtain own F b where b: "pool_inv P own F L" "L b = Some xs" "list_index self = b + 1"
    using block_of_handle [OF assms] by metis
  have "pool_inv P own F (L(b := None))" by (rule forget_inv [OF b(1)])
  from pool_free_correct [OF this inv_live(2) [OF b(1,2)]] obtain P' F' where
    "pool_free_block P b (sclass_for_length (length xs)) = Some P'" "pool_inv P' own F' (L(b := None))" by auto
  then show ?thesis using handle_block(1) [OF b] b(3)
    by (auto simp: list_clear_def usize_sub_def list_post_def relist_def pool_holds_def)
qed

text \<open>Changing the length of a list: its block is kept or moved, and holds the common part of the elements.\<close>

lemma resize_block:
  assumes "pool_inv P own F L" "L b = Some xs" "list_index self = b + 1"
    and "n \<le> length xs" "n \<le> m" "0 < m" "pool_room P m"
  shows "\<exists>nb P1 own' F'. (if sclass_for_length m \<noteq> sclass_for_length (length xs)
      then pool_realloc P b (sclass_for_length (length xs)) (sclass_for_length m) (n + 1) else Some (b, P)) = Some (nb, P1) \<and>
    pool_inv P1 own' F' (L(b := None)) \<and> held own' F' nb (sclass_for_length m) \<and> (nb = b \<or> L nb = None) \<and>
    nb + m + 1 \<le> length (pool_data P1) \<and> (\<forall>j < n. pool_data P1 ! (nb + 1 + j) = xs ! j) \<and>
    (sclass_for_length m = sclass_for_length (length xs) \<longrightarrow> nb = b)"
proof -
  note l = inv_live(1) [OF assms(1,2)]
  have fit: "m < sclass_size (sclass_for_length m)" using sclass_bounds(1) assms(7) by (simp add: pool_room_def)
  have n: "0 < n + 1" "n + 1 \<le> sclass_size (sclass_for_length (length xs))" "n + 1 \<le> sclass_size (sclass_for_length m)"
    using list_ok_room [OF l] assms(4,5) fit by simp_all
  have rm: "length (pool_data P) + sclass_size (sclass_for_length m) < 2 ^ 32 - 1"
    using assms(7) by (simp add: pool_room_def)
  obtain nb P1 own' F' where mb: "(if sclass_for_length m \<noteq> sclass_for_length (length xs)
      then pool_realloc P b (sclass_for_length (length xs)) (sclass_for_length m) (n + 1) else Some (b, P)) = Some (nb, P1)"
    "pool_inv P1 own' F' (L(b := None))" "held own' F' nb (sclass_for_length m)" "nb = b \<or> L nb = None"
    "\<forall>j < n + 1. pool_data P1 ! (nb + j) = pool_data P ! (b + j)"
    "sclass_for_length m = sclass_for_length (length xs) \<longrightarrow> nb = b \<and> P1 = P"
    using move_block [OF assms(1,2) n] rm by blast
  have "pool_data P1 ! (nb + 1 + j) = xs ! j" if "j < n" for j
  proof -
    have "pool_data P1 ! (nb + (1 + j)) = pool_data P ! (b + (1 + j))" using mb(5) [rule_format, of "1 + j"] that by simp
    also have "\<dots> = take (length xs) (drop (b + 1) (pool_data P)) ! j"
      using that assms(4) handle_block(3) [OF assms(1-3)] by (simp add: add.assoc)
    also have "\<dots> = xs ! j" using l by (simp add: list_ok_def)
    finally show ?thesis by (simp add: add.assoc)
  qed
  moreover have "nb + m + 1 \<le> length (pool_data P1)" using block_lt(1) [OF mb(2,3)] fit by simp
  ultimately show ?thesis using mb by blast
qed

lemma list_push_correct:
  assumes "pool_holds P L" "has_list L self xs" "pool_room P (length xs + 1)"
  shows "\<exists>self' P'. list_push self e P = Some (length xs, self', P') \<and> list_post L self (xs @ [e]) self' P'"
proof (cases "list_index self = 0")
  case True
  then have xs: "xs = []" using assms(2) by (simp add: has_list_def)
  have "list_push self e P = map_option (\<lambda>(l, p). (0, l, p)) (from_slice [e] P)"
    using has_list_empty [OF True] True
    by (cases "pool_alloc P (sclass_for_length 1)")
      (auto simp: list_push_def from_slice_def Let_def entity_new_lt vec_set_def slice_set_def write_at_def upd_conv_take_nth_drop list_update_append)
  then show ?thesis
    using from_slice_correct [OF assms(1), of "[e]"] assms(3) xs True
    by (auto simp: list_post_def relist_def list_new_def)
next
  case False
  then obtain own F b where b: "pool_inv P own F L" "L b = Some xs" "list_index self = b + 1" "list_at (b + 1) = self"
    using block_of_handle [OF assms(1,2)] by metis
  note hb = handle_block [OF b(1-3)]
  let ?m = "length xs + 1"
  obtain nb P1 own' F' where r: "(if sclass_for_length ?m \<noteq> sclass_for_length (length xs)
      then pool_realloc P b (sclass_for_length (length xs)) (sclass_for_length ?m) ?m else Some (b, P)) = Some (nb, P1)"
    "pool_inv P1 own' F' (L(b := None))" "held own' F' nb (sclass_for_length ?m)" "nb = b \<or> L nb = None"
    "nb + ?m + 1 \<le> length (pool_data P1)" "\<forall>j < length xs. pool_data P1 ! (nb + 1 + j) = xs ! j"
    "sclass_for_length ?m = sclass_for_length (length xs) \<longrightarrow> nb = b"
    using resize_block [OF b(1-3) order_refl _ _ assms(3)] by auto
  have st: "sclass_for_length ?m = sclass_for_length (length xs) + (if is_sclass_min_length ?m then 1 else 0)"
    using sclass_step [of "length xs"] hb(4,5) by simp
  let ?ds = "(pool_data P1)[nb + ?m := e, nb := Entity (word_of_nat ?m)]"
  have "list_push self e P = Some (length xs, list_at (nb + 1), P1\<lparr>pool_data := ?ds\<rparr>)"
    using r(1,5,7) st hb(1) b(3,4) room_len [OF assms(3)]
    by (cases "is_sclass_min_length ?m") (simp_all add: list_push_def Let_def vec_set_def entity_new_lt del: bind_eq_Some)
  moreover have "list_post L self (xs @ [e]) (list_at (nb + 1)) (P1\<lparr>pool_data := ?ds\<rparr>)"
  proof (rule settle_post)
    show "pool_inv P1 own' F' (if list_index self = 0 then L else L(list_index self - 1 := None))"
      using r(2) b(3) by simp
    show "?ds ! j = pool_data P1 ! j" if "j < nb \<or> nb + sclass_size (sclass_for_length (length (xs @ [e]))) \<le> j" for j
      using that sclass_bounds(1) [of ?m] assms(3) by (auto simp: pool_room_def)
    show "?ds ! (nb + 1 + j) = (xs @ [e]) ! j" if "j < length (xs @ [e])" for j
      using that r(5,6) by (cases "j = length xs") (auto simp: nth_append nth_list_update)
  qed (use r b(3) room_len [OF assms(3)] in auto)
  ultimately show ?thesis by blast
qed

lemma grow_correct:
  assumes "pool_holds P L" "has_list L self xs" "pool_room P (length xs + count)"
  shows "\<exists>zs self' P'. grow self count P = Some (xs @ zs, self', P') \<and> length zs = count \<and>
    list_post L self (xs @ zs) self' P'"
proof (cases "list_index self = 0")
  case True
  then have xs: "xs = []" using assms(2) by (simp add: has_list_def)
  show ?thesis
  proof (cases "count = 0")
    case z: True
    have "grow self count P = Some ([], self, P)" using True z has_list_empty [OF True] by (simp add: grow_def)
    then show ?thesis using assms(1) True z xs by (simp add: list_post_def relist_def)
  next
    case False
    have rm: "pool_room P count" using assms(3) xs by simp
    obtain b P1 own F where a: "pool_alloc P (sclass_for_length count) = Some (b, P1)" "pool_inv P1 own F L"
      "held own F b (sclass_for_length count)" "L b = None" "b + count + 1 \<le> length (pool_data P1)"
      using alloc_for_list [OF assms(1) rm] by blast
    let ?ds = "(pool_data P1)[b := Entity (word_of_nat count)]"
    let ?zs = "take count (drop (b + 1) ?ds)"
    have z: "length ?zs = count" using a(5) by simp
    have "grow self count P = Some (?zs, list_at (b + 1), P1\<lparr>pool_data := ?ds\<rparr>)"
      using True False a has_list_empty [OF True] room_len [OF rm]
      by (simp add: grow_def Let_def entity_new_lt vec_set_def slice_get_def)
    moreover have "list_post L self ?zs (list_at (b + 1)) (P1\<lparr>pool_data := ?ds\<rparr>)"
    proof (rule settle_post)
      show "?ds ! j = pool_data P1 ! j" if "j < b \<or> b + sclass_size (sclass_for_length (length ?zs)) \<le> j" for j
        using that sclass_size_ge [of "sclass_for_length (length ?zs)"] by (auto simp: nth_list_update)
    qed (use a True False z room_len [OF rm] in \<open>auto simp: nth_list_update\<close>)
    ultimately show ?thesis using xs z by (intro exI [of _ ?zs]) simp
  qed
next
  case False
  then obtain own F b where b: "pool_inv P own F L" "L b = Some xs" "list_index self = b + 1" "list_at (b + 1) = self"
    using block_of_handle [OF assms(1,2)] by metis
  note hb = handle_block [OF b(1-3)]
  let ?m = "length xs + count"
  obtain nb P1 own' F' where r: "(if sclass_for_length ?m \<noteq> sclass_for_length (length xs)
      then pool_realloc P b (sclass_for_length (length xs)) (sclass_for_length ?m) (length xs + 1) else Some (b, P)) = Some (nb, P1)"
    "pool_inv P1 own' F' (L(b := None))" "held own' F' nb (sclass_for_length ?m)" "nb = b \<or> L nb = None"
    "nb + ?m + 1 \<le> length (pool_data P1)" "\<forall>j < length xs. pool_data P1 ! (nb + 1 + j) = xs ! j"
    "sclass_for_length ?m = sclass_for_length (length xs) \<longrightarrow> nb = b"
    using resize_block [OF b(1-3) order_refl _ _ assms(3)] hb(5) by auto
  let ?ds = "(pool_data P1)[nb := Entity (word_of_nat ?m)]"
  let ?ys = "take ?m (drop (nb + 1) ?ds)"
  define zs where "zs = drop (length xs) ?ys"
  have ys: "?ys = xs @ zs"
  proof -
    have "take (length xs) ?ys = xs" using r(5,6) by (intro nth_equalityI) (auto simp: nth_list_update)
    then show ?thesis unfolding zs_def by (metis append_take_drop_id)
  qed
  have z: "length zs = count" using r(5) by (simp add: zs_def)
  have "grow self count P = Some (xs @ zs, list_at (nb + 1), P1\<lparr>pool_data := ?ds\<rparr>)"
    using r(1,5,7) hb(1) b(3,4) room_len [OF assms(3)] ys
    by (cases "sclass_for_length ?m = sclass_for_length (length xs)")
      (simp_all add: grow_def Let_def vec_set_def entity_new_lt slice_get_def del: bind_eq_Some)
  moreover have "list_post L self (xs @ zs) (list_at (nb + 1)) (P1\<lparr>pool_data := ?ds\<rparr>)"
  proof (rule settle_post)
    show "pool_inv P1 own' F' (if list_index self = 0 then L else L(list_index self - 1 := None))"
      using r(2) b(3) by simp
    show "?ds ! j = pool_data P1 ! j" if "j < nb \<or> nb + sclass_size (sclass_for_length (length (xs @ zs))) \<le> j" for j
      using that sclass_size_ge [of "sclass_for_length (length (xs @ zs))"] by (auto simp: nth_list_update)
    show "?ds ! (nb + 1 + j) = (xs @ zs) ! j" if "j < length (xs @ zs)" for j
      using that r(5) z unfolding ys [symmetric] by simp
  qed (use r b(3) hb(5) z room_len [OF assms(3)] in auto)
  ultimately show ?thesis using z by blast
qed

lemma copy_up_eq:
  assumes "k \<le> lo" "hi \<le> length s"
  shows "copy_up s k lo hi = Some (map (\<lambda>j. if lo \<le> j \<and> j < hi then s ! (j - k) else s ! j) [0..<length s])"
  using assms(2)
proof (induction hi arbitrary: s)
  case 0
  then show ?case by (simp add: copy_up_def map_nth)
next
  case (Suc hi)
  show ?case
  proof (cases "lo \<le> hi")
    case True
    let ?s = "s[hi := s ! (hi - k)]"
    have "copy_up s k lo (Suc hi) = copy_up ?s k lo hi"
      using True Suc.prems assms(1) by (simp add: copy_up_def vec_get_def vec_set_def usize_sub_def)
    also have "\<dots> = Some (map (\<lambda>j. if lo \<le> j \<and> j < hi then ?s ! (j - k) else ?s ! j) [0..<length ?s])"
      using Suc by simp
    finally show ?thesis using Suc.prems True by (auto simp: nth_list_update less_Suc_eq)
  next
    case False
    then have e: "[lo..<Suc hi] = []" by simp
    show ?thesis using False by (auto simp: copy_up_def e simp del: upt_Suc intro!: nth_equalityI)
  qed
qed

lemma copy_down_eq:
  assumes "hi < length s"
  shows "copy_down s lo hi = Some (map (\<lambda>j. if lo \<le> j \<and> j < hi then s ! (j + 1) else s ! j) [0..<length s])"
  using assms
proof (induction "hi - lo" arbitrary: lo s)
  case 0
  then show ?case by (auto simp: copy_down_def intro!: nth_equalityI)
next
  case (Suc n)
  then have lt: "lo < hi" by simp
  let ?s = "s[lo := s ! (lo + 1)]"
  have "copy_down s lo hi = copy_down ?s (Suc lo) hi"
    using lt Suc.prems by (simp add: copy_down_def upt_conv_Cons vec_get_def vec_set_def)
  also have "\<dots> = Some (map (\<lambda>j. if Suc lo \<le> j \<and> j < hi then ?s ! (j + 1) else ?s ! j) [0..<length ?s])"
    using Suc.hyps(1) [of "Suc lo" ?s] Suc.hyps(2) Suc.prems by simp
  finally show ?case using Suc.prems lt by (auto simp: nth_list_update)
qed

lemma write_slice_correct:
  assumes "pool_inv P own F L" "L b = Some xs" "list_index self = b + 1" "length ys = length xs"
  shows "\<exists>P'. write_slice self P ys = Some P' \<and> pool_inv P' own F (L(b \<mapsto> ys)) \<and>
    length (pool_data P') = length (pool_data P)"
proof -
  note hb = handle_block [OF assms(1-3)] and l = inv_live [OF assms(1,2)]
  let ?ds = "write_at (pool_data P) (b + 1) ys"
  have len: "length ?ds = length (pool_data P)" using hb(3) assms(4) by (simp add: length_write_at)
  have nth: "?ds ! j = (if b + 1 \<le> j \<and> j < b + 1 + length ys then ys ! (j - (b + 1)) else pool_data P ! j)"
    if "j < length (pool_data P)" for j
    using that hb(3) assms(4) by (simp add: nth_write_at)
  have "pool_inv (P\<lparr>pool_data := ?ds\<rparr>) own F (L(b \<mapsto> ys))"
  proof (rule settle [OF assms(1) _ _ _ len])
    show "held own F b (sclass_for_length (length ys))" using l(2) assms(4) by simp
    show "?ds ! j = pool_data P ! j" if "j < length ?ds" "j < b \<or> b + sclass_size (sclass_for_length (length ys)) \<le> j" for j
      using that nth [of j] len list_ok_room [OF l(1)] assms(4) by auto
    show "?ds ! b = Entity (word_of_nat (length ys))"
      using nth [of b] hb(3) l(1) assms(4) by (simp add: list_ok_def)
  qed (use hb assms(4) nth in auto)
  moreover have "write_slice self P ys = Some (P\<lparr>pool_data := ?ds\<rparr>)"
    using hb(3) assms(3,4) by (simp add: write_slice_def slice_set_def)
  ultimately show ?thesis using len by auto
qed

lemma write_post:
  assumes "list_post L self xs self' P1" "length ys = length xs" "xs \<noteq> []"
  shows "\<exists>P'. write_slice self' P1 ys = Some P' \<and> list_post L self ys self' P'"
proof -
  have nz: "list_index self' \<noteq> 0" using assms(1,3) by (simp add: list_post_def)
  then obtain b where b: "list_index self' = b + 1" by (metis Suc_eq_plus1 not0_implies_Suc)
  obtain own F where inv: "pool_inv P1 own F (relist L self self' xs)"
    using assms(1) by (auto simp: list_post_def pool_holds_def)
  have at: "relist L self self' xs b = Some xs" using b by (simp add: relist_def Let_def)
  have upd: "(relist L self self' xs)(b \<mapsto> ys) = relist L self self' ys" using b by (simp add: relist_def Let_def)
  obtain P' where w: "write_slice self' P1 ys = Some P'" "pool_inv P' own F (relist L self self' ys)"
    using write_slice_correct [OF inv at b assms(2)] unfolding upd by blast
  have "list_post L self ys self' P'" using assms pool_holdsI [OF w(2)] by (auto simp: list_post_def)
  with w(1) show ?thesis by blast
qed

lemma post_read:
  assumes "list_post L self xs self' P1"
  shows "as_slice self' P1 = Some xs"
  using assms read_list(1) list_post_self [OF assms] by (auto simp: list_post_def)

lemma list_insert_correct:
  assumes "pool_holds P L" "has_list L self xs" "pool_room P (length xs + 1)" "i \<le> length xs"
  shows "\<exists>self' P'. list_insert self i e P = Some (self', P') \<and> list_post L self (take i xs @ e # drop i xs) self' P'"
proof -
  obtain self' P1 where p: "list_push self e P = Some (length xs, self', P1)" "list_post L self (xs @ [e]) self' P1"
    using list_push_correct [OF assms(1-3)] by blast
  let ?ys = "take i xs @ e # drop i xs" and ?t = "drop i (xs @ [e])"
  have up: "copy_up ?t 1 1 (length ?t) = Some (map (\<lambda>j. if 1 \<le> j \<and> j < length ?t then ?t ! (j - 1) else ?t ! j) [0..<length ?t])"
    by (rule copy_up_eq) simp_all
  have "(map (\<lambda>j. if 1 \<le> j \<and> j < length ?t then ?t ! (j - 1) else ?t ! j) [0..<length ?t])[0 := e] = e # drop i xs"
    using assms(4) by (intro nth_equalityI) (auto simp: nth_list_update nth_Cons nth_append split: nat.splits intro!: arg_cong [where f = "(!) xs"])
  moreover obtain P' where w: "write_slice self' P1 ?ys = Some P'" "list_post L self ?ys self' P'"
    using write_post [OF p(2), of ?ys] assms(4) by auto
  ultimately have "list_insert self i e P = Some (self', P')"
    using p(1) post_read [OF p(2)] up assms(4)
    by (simp add: list_insert_def Let_def vec_set_def del: bind_eq_Some upt_Suc)
  with w(2) show ?thesis by blast
qed

text \<open>Setting a shorter length, after the block was kept or moved.\<close>

lemma shrink_post:
  assumes "pool_inv P own F L" "L b = Some xs" "list_index self = b + 1" "0 < n" "n \<le> length xs" "pool_room P n"
  shows "\<exists>nb P1. (if sclass_for_length n \<noteq> sclass_for_length (length xs)
      then pool_realloc P b (sclass_for_length (length xs)) (sclass_for_length n) (n + 1) else Some (b, P)) = Some (nb, P1) \<and>
    nb < length (pool_data P1) \<and> (sclass_for_length n = sclass_for_length (length xs) \<longrightarrow> nb = b) \<and>
    list_post L self (take n xs) (list_at (nb + 1))
      (P1\<lparr>pool_data := (pool_data P1)[nb := Entity (word_of_nat n)]\<rparr>)"
proof -
  obtain nb P1 own' F' where r: "(if sclass_for_length n \<noteq> sclass_for_length (length xs)
      then pool_realloc P b (sclass_for_length (length xs)) (sclass_for_length n) (n + 1) else Some (b, P)) = Some (nb, P1)"
    "pool_inv P1 own' F' (L(b := None))" "held own' F' nb (sclass_for_length n)" "nb = b \<or> L nb = None"
    "nb + n + 1 \<le> length (pool_data P1)" "\<forall>j < n. pool_data P1 ! (nb + 1 + j) = xs ! j"
    "sclass_for_length n = sclass_for_length (length xs) \<longrightarrow> nb = b"
    using resize_block [OF assms(1-3) assms(5) order_refl assms(4,6)] by blast
  let ?ds = "(pool_data P1)[nb := Entity (word_of_nat n)]"
  have tk: "length (take n xs) = n" using assms(5) by simp
  have "list_post L self (take n xs) (list_at (nb + 1)) (P1\<lparr>pool_data := ?ds\<rparr>)"
  proof (rule settle_post)
    show "pool_inv P1 own' F' (if list_index self = 0 then L else L(list_index self - 1 := None))"
      using r(2) assms(3) by simp
    show "held own' F' nb (sclass_for_length (length (take n xs)))" using r(3) tk by simp
    show "?ds ! j = pool_data P1 ! j" if "j < nb \<or> nb + sclass_size (sclass_for_length (length (take n xs))) \<le> j" for j
      using that sclass_size_ge [of "sclass_for_length (length (take n xs))"] by (auto simp: nth_list_update)
    show "?ds ! (nb + 1 + j) = take n xs ! j" if "j < length (take n xs)" for j
      using that r(6) by simp
    show "nb + 1 = list_index self \<or> L nb = None" using r(4) assms(3) by auto
  qed (use r(5) assms(4,5) room_len [OF assms(6)] tk in auto)
  then show ?thesis using r(1,5,7) by (intro exI conjI) auto
qed

lemma truncate_correct:
  assumes "pool_holds P L" "has_list L self xs" "n < length xs \<Longrightarrow> pool_room P n"
  shows "\<exists>self' P'. truncate self n P = Some (self', P') \<and> list_post L self (take n xs) self' P'"
proof -
  consider (clear) "n = 0" | (empty) "n \<noteq> 0" "list_index self = 0" | (block) "n \<noteq> 0" "list_index self \<noteq> 0" by blast
  then show ?thesis
  proof cases
    case clear
    then show ?thesis using list_clear_correct [OF assms(1,2)] by (simp add: truncate_def)
  next
    case empty
    then show ?thesis using assms(1,2) has_list_empty [OF empty(2)]
      by (auto simp: truncate_def list_post_def relist_def has_list_def)
  next
    case block
    then obtain own F b where b: "pool_inv P own F L" "L b = Some xs" "list_index self = b + 1" "list_at (b + 1) = self"
      using block_of_handle [OF assms(1,2)] by metis
    note hb = handle_block [OF b(1-3)]
    show ?thesis
    proof (cases "length xs \<le> n")
      case True
      have "relist L self self xs = L" using b(2,3) by (auto simp: relist_def)
      then have "list_post L self xs self P" using assms(1) hb(5) b(3) by (simp add: list_post_def)
      then show ?thesis using True block hb(1) by (simp add: truncate_def)
    next
      case False
      from shrink_post [OF b(1-3), of n] False block assms(3) obtain nb P1 where
        s: "(if sclass_for_length n \<noteq> sclass_for_length (length xs)
          then pool_realloc P b (sclass_for_length (length xs)) (sclass_for_length n) (n + 1) else Some (b, P)) = Some (nb, P1)"
        "nb < length (pool_data P1)" "sclass_for_length n = sclass_for_length (length xs) \<longrightarrow> nb = b"
        "list_post L self (take n xs) (list_at (nb + 1)) (P1\<lparr>pool_data := (pool_data P1)[nb := Entity (word_of_nat n)]\<rparr>)"
        by auto
      have "truncate self n P = Some (list_at (nb + 1), P1\<lparr>pool_data := (pool_data P1)[nb := Entity (word_of_nat n)]\<rparr>)"
        using s(1-3) hb(1,4) b(3,4) False block
        by (cases "sclass_for_length n = sclass_for_length (length xs)")
          (simp_all add: truncate_def Let_def vec_set_def entity_new_lt del: bind_eq_Some)
      with s(4) show ?thesis by blast
    qed
  qed
qed

lemma remove_last_correct:
  assumes "pool_inv P own F L" "L b = Some xs" "list_index self = b + 1" "pool_room P (length xs - 1)"
  shows "\<exists>self' P'. remove_last self (length xs) P = Some (self', P') \<and> list_post L self (butlast xs) self' P'"
proof (cases "length xs = 1")
  case True
  have "has_list L self xs" using assms(2,3) by (simp add: has_list_def)
  from list_clear_correct [OF pool_holdsI [OF assms(1)] this] True show ?thesis
    by (auto simp: remove_last_def butlast_conv_take)
next
  case False
  note hb = handle_block [OF assms(1-3)]
  obtain n where n: "length xs = Suc n" "0 < n" using hb(5) False by (cases "length xs") auto
  have at: "list_at (b + 1) = self" using assms(3) by (metis list_at_index)
  have st: "sclass_for_length (length xs) = sclass_for_length n + (if is_sclass_min_length (length xs) then 1 else 0)"
    using sclass_step [of n] n hb(4) by simp
  have "n \<le> length xs" "pool_room P n" using n assms(4) by simp_all
  from shrink_post [OF assms(1-3) n(2) this] obtain nb P1 where
    s: "(if sclass_for_length n \<noteq> sclass_for_length (length xs)
        then pool_realloc P b (sclass_for_length (length xs)) (sclass_for_length n) (n + 1) else Some (b, P)) = Some (nb, P1)"
    "nb < length (pool_data P1)" "sclass_for_length n = sclass_for_length (length xs) \<longrightarrow> nb = b"
    "list_post L self (take n xs) (list_at (nb + 1)) (P1\<lparr>pool_data := (pool_data P1)[nb := Entity (word_of_nat n)]\<rparr>)"
    by blast
  have "remove_last self (length xs) P = Some (list_at (nb + 1), P1\<lparr>pool_data := (pool_data P1)[nb := Entity (word_of_nat n)]\<rparr>)"
    using s(1-3) n st hb(4) assms(3) at
    by (cases "is_sclass_min_length (length xs)")
      (simp_all add: remove_last_def Let_def usize_sub_def vec_set_def entity_new_lt del: bind_eq_Some)
  moreover have "take n xs = butlast xs" using n(1) by (simp add: butlast_conv_take)
  ultimately show ?thesis using s(4) by auto
qed

text \<open>Overwriting the elements and then dropping the last one.\<close>

lemma overwrite_remove_last:
  assumes "pool_inv P own F L" "L b = Some xs" "list_index self = b + 1" "length ys = length xs"
    and "pool_room P (length xs - 1)"
  shows "\<exists>P1 self' P'. write_slice self P ys = Some P1 \<and> remove_last self (length xs) P1 = Some (self', P') \<and>
    list_post L self (butlast ys) self' P'"
proof -
  obtain P1 where w: "write_slice self P ys = Some P1" "pool_inv P1 own F (L(b \<mapsto> ys))"
    "length (pool_data P1) = length (pool_data P)" using write_slice_correct [OF assms(1-4)] by blast
  have "pool_room P1 (length ys - 1)" using assms(4,5) w(3) by (simp add: pool_room_def)
  from remove_last_correct [OF w(2) _ assms(3) this] obtain self' P' where
    r: "remove_last self (length ys) P1 = Some (self', P')" "list_post (L(b \<mapsto> ys)) self (butlast ys) self' P'" by auto
  have "relist (L(b \<mapsto> ys)) self self' zs = relist L self self' zs" for zs using assms(3) by (simp add: relist_def)
  then have "list_post L self (butlast ys) self' P'"
    using r(2) assms(3) by (auto simp: list_post_def split: if_splits)
  with w(1) r(1) assms(4) show ?thesis by auto
qed

lemma has_list_nonempty: "has_list L self xs \<Longrightarrow> xs \<noteq> [] \<Longrightarrow> list_index self \<noteq> 0"
  by (auto simp: has_list_def split: if_splits)

lemma list_remove_correct:
  assumes "pool_holds P L" "has_list L self xs" "i < length xs" "pool_room P (length xs - 1)"
  shows "\<exists>self' P'. list_remove self i P = Some (self', P') \<and> list_post L self (take i xs @ drop (i + 1) xs) self' P'"
proof -
  have "xs \<noteq> []" using assms(3) by auto
  then obtain own F b where b: "pool_inv P own F L" "L b = Some xs" "list_index self = b + 1"
    using block_of_handle [OF assms(1,2) has_list_nonempty [OF assms(2)]] by metis
  let ?ys = "map (\<lambda>j. if i \<le> j \<and> j < length xs - 1 then xs ! (j + 1) else xs ! j) [0..<length xs]"
  have cd: "copy_down xs i (length xs - 1) = Some ?ys" using assms(3) by (intro copy_down_eq) simp
  obtain P1 self' P' where w: "write_slice self P ?ys = Some P1" "remove_last self (length xs) P1 = Some (self', P')"
    "list_post L self (butlast ?ys) self' P'"
    using overwrite_remove_last [OF b _ assms(4), of ?ys] by auto
  have "butlast ?ys = take i xs @ drop (i + 1) xs"
    using assms(3) by (intro nth_equalityI) (auto simp: nth_butlast nth_append)
  moreover have "list_remove self i P = Some (self', P')"
    using handle_block(2) [OF b] cd w(1,2) assms(3) by (simp add: list_remove_def Let_def del: bind_eq_Some)
  ultimately show ?thesis using w(3) by auto
qed

lemma swap_remove_correct:
  assumes "pool_holds P L" "has_list L self xs" "i < length xs" "pool_room P (length xs - 1)"
  shows "\<exists>self' P'. swap_remove self i P = Some (self', P') \<and> list_post L self (butlast (xs[i := last xs])) self' P'"
proof -
  have "xs \<noteq> []" using assms(3) by auto
  then obtain own F b where b: "pool_inv P own F L" "L b = Some xs" "list_index self = b + 1"
    using block_of_handle [OF assms(1,2) has_list_nonempty [OF assms(2)]] by metis
  show ?thesis
  proof (cases "i = length xs - 1")
    case True
    obtain self' P' where "remove_last self (length xs) P = Some (self', P')" "list_post L self (butlast xs) self' P'"
      using remove_last_correct [OF b assms(4)] by blast
    moreover have "xs[i := last xs] = xs" using True \<open>xs \<noteq> []\<close> by (metis last_conv_nth list_update_id)
    ultimately show ?thesis using handle_block(2) [OF b] True assms(3) by (simp add: swap_remove_def Let_def)
  next
    case False
    let ?ys = "xs[i := xs ! (length xs - 1), length xs - 1 := xs ! i]"
    obtain P1 self' P' where w: "write_slice self P ?ys = Some P1" "remove_last self (length xs) P1 = Some (self', P')"
      "list_post L self (butlast ?ys) self' P'"
      using overwrite_remove_last [OF b _ assms(4), of ?ys] by auto
    have "butlast ?ys = butlast (xs[i := last xs])"
      using \<open>xs \<noteq> []\<close> by (intro nth_equalityI) (auto simp: nth_butlast last_conv_nth)
    moreover have "swap_remove self i P = Some (self', P')"
      using handle_block(2) [OF b] w(1,2) assms(3) False by (simp add: swap_remove_def Let_def del: bind_eq_Some)
    ultimately show ?thesis using w(3) by auto
  qed
qed

lemma extend_correct:
  assumes "pool_holds P L" "has_list L self xs" "pool_room P (length xs + length es)"
  shows "\<exists>self' P'. extend True self es P = Some (self', P') \<and> list_post L self (xs @ es) self' P'"
proof -
  obtain zs self' P1 where g: "grow self (length es) P = Some (xs @ zs, self', P1)" "length zs = length es"
    "list_post L self (xs @ zs) self' P1" using grow_correct [OF assms] by blast
  show ?thesis
  proof (cases "xs @ zs = []")
    case True
    then have "zs = []" "xs = []" "es = []" using g(2) by auto
    then show ?thesis using g by (simp add: extend_def usize_sub_def)
  next
    case False
    obtain P' where "write_slice self' P1 (xs @ es) = Some P'" "list_post L self (xs @ es) self' P'"
      using write_post [OF g(3), of "xs @ es"] g(2) False by auto
    then show ?thesis using g(1,2) False by (auto simp: extend_def usize_sub_def)
  qed
qed

lemma grow_at_correct:
  assumes "pool_holds P L" "has_list L self xs" "pool_room P (length xs + n)" "i \<le> length xs"
  shows "\<exists>mid self' P'. grow_at self i n P = Some (self', P') \<and> length mid = n \<and>
    list_post L self (take i xs @ mid @ drop i xs) self' P'"
proof -
  obtain zs self' P1 where g: "grow self n P = Some (xs @ zs, self', P1)" "length zs = n"
    "list_post L self (xs @ zs) self' P1" using grow_correct [OF assms(1-3)] by blast
  let ?s = "xs @ zs"
  define mid where "mid = take n (drop i (xs @ zs))"
  have "copy_up ?s n (i + n) (length ?s) =
      Some (map (\<lambda>j. if i + n \<le> j \<and> j < length ?s then ?s ! (j - n) else ?s ! j) [0..<length ?s])"
    by (rule copy_up_eq) simp_all
  also have "map (\<lambda>j. if i + n \<le> j \<and> j < length ?s then ?s ! (j - n) else ?s ! j) [0..<length ?s] =
      take (i + n) ?s @ drop i xs" (is "?l = ?r")
  proof (rule nth_equalityI)
    show "length ?l = length ?r" using assms(4) g(2) by simp
    fix j assume "j < length ?l"
    then have j: "j < length xs + n" using g(2) by simp
    have lt: "length (take (i + n) ?s) = i + n" using assms(4) g(2) by simp
    show "?l ! j = ?r ! j"
    proof (cases "j < i + n")
      case True
      then show ?thesis using j g(2) by (simp add: nth_append [of "take (i + n) ?s"] lt del: take_append append_assoc length_take)
    next
      case False
      then have "?r ! j = xs ! (j - n)" using j assms(4)
        by (simp add: nth_append [of "take (i + n) ?s"] lt del: take_append append_assoc length_take)
      also have "j - n < length xs" using False j by linarith
      then have "xs ! (j - n) = ?s ! (j - n)" by (simp add: nth_append)
      finally show ?thesis using False j g(2) by simp
    qed
  qed
  also have "take (i + n) ?s = take i xs @ mid" using assms(4) unfolding mid_def by (simp add: take_add add.commute)
  also have "(take i xs @ mid) @ drop i xs = take i xs @ mid @ drop i xs" by simp
  finally have cu: "copy_up ?s n (i + n) (length ?s) = Some (take i xs @ mid @ drop i xs)" .
  have lm: "length mid = n" using assms(4) g(2) by (simp add: mid_def)
  show ?thesis
  proof (cases "?s = []")
    case True
    then have "zs = []" "xs = []" "n = 0" using g(2) by auto
    then show ?thesis using g cu by (auto simp: grow_at_def mid_def)
  next
    case False
    obtain P' where w: "write_slice self' P1 (take i xs @ mid @ drop i xs) = Some P'"
      "list_post L self (take i xs @ mid @ drop i xs) self' P'"
      using write_post [OF g(3), of "take i xs @ mid @ drop i xs"] g(2) assms(4) False lm by auto
    have "grow_at self i n P = Some (self', P')" using g(1) cu w(1) False by (auto simp: grow_at_def)
    with w(2) lm show ?thesis by blast
  qed
qed

lemma write_at_inside:
  assumes "i + length el \<le> n" "p + n \<le> length ds"
  shows "write_at ds (p + i) el = write_at ds p (write_at (take n (drop p ds)) i el)"
proof -
  have l: "length (write_at (take n (drop p ds)) i el) = n" using assms by (simp add: length_write_at)
  show ?thesis
  proof (rule nth_equalityI)
    show "length (write_at ds (p + i) el) = length (write_at ds p (write_at (take n (drop p ds)) i el))"
      using assms l by (simp add: length_write_at)
    fix j assume "j < length (write_at ds (p + i) el)"
    then have "j < length ds" using assms by (simp add: length_write_at)
    then show "write_at ds (p + i) el ! j = write_at ds p (write_at (take n (drop p ds)) i el) ! j"
      using assms l by (auto simp: nth_write_at)
  qed
qed

lemma as_slice_data:
  assumes "as_slice self P = Some ys" "ys \<noteq> []"
  shows "take (length ys) (drop (list_index self) (pool_data P)) = ys \<and> list_index self + length ys \<le> length (pool_data P)"
  using assms by (cases "pool_len_of P self") (auto simp: as_slice_def slice_get_def Let_def min_def split: if_splits)

text \<open>The bounds of a range, as positions in a list of length \<open>n\<close>.\<close>

definition range_start :: "bound \<Rightarrow> nat" where
  "range_start b = (case b of Included x \<Rightarrow> x | Excluded x \<Rightarrow> x + 1 | Unbounded \<Rightarrow> 0)"

definition range_end :: "bound \<Rightarrow> nat \<Rightarrow> nat" where
  "range_end b n = (case b of Included x \<Rightarrow> x + 1 | Excluded x \<Rightarrow> x | Unbounded \<Rightarrow> n)"

lemma slice_of_list:
  assumes "pool_holds P L" "has_list L self xs" "a \<le> b" "b \<le> length xs"
  shows "slice_get (pool_data P) (a + list_index self) (b + list_index self) = Some (take (b - a) (drop a xs))"
proof (cases "list_index self = 0")
  case True
  then show ?thesis using assms by (simp add: has_list_def slice_get_def)
next
  case False
  then obtain own F k where k: "pool_inv P own F L" "L k = Some xs" "list_index self = k + 1"
    using block_of_handle [OF assms(1,2)] by metis
  have "take (length xs) (drop (k + 1) (pool_data P)) = xs" using inv_live(1) [OF k(1,2)] by (simp add: list_ok_def)
  then have "take (b - a) (drop a xs) = take (b - a) (drop a (take (length xs) (drop (k + 1) (pool_data P))))" by simp
  also have "\<dots> = take (b - a) (drop (a + (k + 1)) (pool_data P))"
    using assms(3,4) by (simp add: drop_take min_def)
  finally show ?thesis using handle_block(3) [OF k] assms(3,4) k(3) by (simp add: slice_get_def)
qed

lemma copy_from_correct:
  assumes "pool_holds P L" "has_list L self xs" "has_list L other zs" "list_index self \<noteq> list_index other"
    and "i \<le> length xs" "range_start s \<le> range_end e (length zs)" "range_end e (length zs) \<le> length zs"
    and "pool_room P (length xs + (range_end e (length zs) - range_start s))"
  defines "el \<equiv> take (range_end e (length zs) - range_start s) (drop (range_start s) zs)"
  shows "\<exists>self' P'. copy_from self other s e i P = Some (self', P') \<and> list_post L self (take i xs @ el @ drop i xs) self' P'"
proof -
  let ?a = "range_start s" and ?b = "range_end e (length zs)"
  let ?n = "?b - ?a"
  obtain mid self' P1 where g: "grow_at self i ?n P = Some (self', P1)" "length mid = ?n"
    "list_post L self (take i xs @ mid @ drop i xs) self' P1"
    using grow_at_correct [OF assms(1,2,8,5)] by blast
  let ?ys = "take i xs @ mid @ drop i xs" and ?L = "relist L self self' (take i xs @ mid @ drop i xs)"
  have h1: "pool_holds P1 ?L" using g(3) by (simp add: list_post_def)
  have len: "length el = ?n" using assms(7) by (simp add: el_def)
  have "has_list ?L other zs" using list_post_other [OF g(3) assms(3)] assms(4) by simp
  from slice_of_list [OF h1 this assms(6,7)]
  have sl: "slice_get (pool_data P1) (?a + list_index other) (?b + list_index other) = Some el" by (simp add: el_def)
  have new: "write_at ?ys i el = take i xs @ el @ drop i xs" using len g(2) assms(5) by (simp add: write_at_def)
  have wr: "\<exists>P'. slice_set (pool_data P1) (i + list_index self') el = Some (pool_data P') \<and>
      P' = P1\<lparr>pool_data := pool_data P'\<rparr> \<and> list_post L self (take i xs @ el @ drop i xs) self' P'"
  proof (cases "?ys = []")
    case True
    then have "list_index self' = 0" "i = 0" "el = []" using g(3) len g(2) assms(5) by (auto simp: list_post_def)
    then show ?thesis using True g(3) by (intro exI [of _ P1]) (simp add: slice_set_def write_at_def)
  next
    case False
    have sl': "as_slice self' P1 = Some ?ys" by (rule post_read [OF g(3)])
    obtain P' where P': "write_slice self' P1 (write_at ?ys i el) = Some P'" "list_post L self (write_at ?ys i el) self' P'"
      using write_post [OF g(3) _ False, of "write_at ?ys i el"] len g(2) assms(5) by (auto simp: length_write_at)
    note y = as_slice_data [OF sl' False]
    have "write_at (pool_data P1) (i + list_index self') el = write_at (pool_data P1) (list_index self') (write_at ?ys i el)"
      using write_at_inside [of i el "length ?ys" "list_index self'" "pool_data P1"] y len g(2) assms(5) by (simp add: add.commute del: take_append)
    moreover have "P' = P1\<lparr>pool_data := write_at (pool_data P1) (list_index self') (write_at ?ys i el)\<rparr>"
      using P'(1) by (auto simp: write_slice_def slice_set_def split: if_splits)
    ultimately show ?thesis using P'(2) y len g(2) assms(5) unfolding new
      by (intro exI [of _ P']) (simp add: slice_set_def)
  qed
  then obtain P' where w: "slice_set (pool_data P1) (i + list_index self') el = Some (pool_data P')"
    "P' = P1\<lparr>pool_data := pool_data P'\<rparr>" "list_post L self (take i xs @ el @ drop i xs) self' P'" by blast
  have "?n \<le> length zs" using assms(7) by simp
  then have "copy_from self other s e i P = Some (self', P')"
    using read_list(2) [OF assms(1,2)] read_list(2) [OF assms(1,3)] assms(4-7) g(1) sl w(1,2)
    by (simp add: copy_from_def Let_def usize_sub_def range_start_def [symmetric] range_end_def [symmetric] del: bind_eq_Some)
  with w(3) show ?thesis by blast
qed

section \<open>Operations on lists of entities as operations on lists\<close>

text \<open>What a client sees of an edit of one list: it is returned, reads as the new elements, and every other
  list of the pool is unchanged.\<close>

definition edited :: "(nat \<rightharpoonup> entity list) \<Rightarrow> entity_list \<Rightarrow> entity list \<Rightarrow> (entity_list \<times> list_pool) rust \<Rightarrow> bool" where
  "edited L self ys r = (\<exists>self' P' L'. r = Some (self', P') \<and> pool_holds P' L' \<and> has_list L' self' ys \<and>
     as_slice self' P' = Some ys \<and>
     (\<forall>other zs. has_list L other zs \<longrightarrow> list_index other \<noteq> list_index self \<longrightarrow>
        has_list L' other zs \<and> as_slice other P' = Some zs))"

lemma edited_post:
  assumes "list_post L self ys self' P'"
  shows "edited L self ys (Some (self', P'))"
proof -
  let ?L = "relist L self self' ys"
  have h: "pool_holds P' ?L" using assms by (simp add: list_post_def)
  show ?thesis
    unfolding edited_def
    using h list_post_self [OF assms] post_read [OF assms] list_post_other [OF assms] read_list(1) [OF h] by blast
qed

text \<open>The contract of an operation that edits a list in place, with the function on lists it implements and
  its precondition.\<close>

locale pool_edit =
  fixes op :: "entity_list \<Rightarrow> list_pool \<Rightarrow> (entity_list \<times> list_pool) rust"
    and spec :: "entity list \<Rightarrow> entity list"
    and pre :: "list_pool \<Rightarrow> entity list \<Rightarrow> bool"
  assumes post: "pool_holds P L \<Longrightarrow> has_list L self xs \<Longrightarrow> pre P xs \<Longrightarrow>
    \<exists>self' P'. op self P = Some (self', P') \<and> list_post L self (spec xs) self' P'"
begin

lemma edits: "pool_holds P L \<Longrightarrow> has_list L self xs \<Longrightarrow> pre P xs \<Longrightarrow> edited L self (spec xs) (op self P)"
  using post [of P L self xs] edited_post by fastforce

end

interpretation push: pool_edit
  "\<lambda>self P. map_option snd (list_push self e P)" "\<lambda>xs. xs @ [e]" "\<lambda>P xs. pool_room P (length xs + 1)" for e
  by unfold_locales (use list_push_correct in fastforce)

interpretation insert: pool_edit "\<lambda>self. list_insert self i e" "\<lambda>xs. take i xs @ e # drop i xs"
  "\<lambda>P xs. i \<le> length xs \<and> pool_room P (length xs + 1)" for i e
  by unfold_locales (use list_insert_correct in blast)

interpretation remove: pool_edit "\<lambda>self. list_remove self i" "\<lambda>xs. take i xs @ drop (i + 1) xs"
  "\<lambda>P xs. i < length xs \<and> pool_room P (length xs - 1)" for i
  by unfold_locales (use list_remove_correct in blast)

interpretation swap_remove: pool_edit "\<lambda>self. swap_remove self i" "\<lambda>xs. butlast (xs[i := last xs])"
  "\<lambda>P xs. i < length xs \<and> pool_room P (length xs - 1)" for i
  by unfold_locales (use swap_remove_correct in blast)

interpretation truncate: pool_edit "\<lambda>self. truncate self n" "take n"
  "\<lambda>P xs. n < length xs \<longrightarrow> pool_room P n" for n
  by unfold_locales (use truncate_correct in blast)

interpretation clear: pool_edit list_clear "\<lambda>_. []" "\<lambda>_ _. True"
  by unfold_locales (use list_clear_correct in blast)

interpretation extend: pool_edit "\<lambda>self. extend True self es" "\<lambda>xs. xs @ es"
  "\<lambda>P xs. pool_room P (length xs + length es)" for es
  by unfold_locales (use extend_correct in blast)

text \<open>C32: In a pool that holds the lists \<open>L\<close>, every operation that edits the list of a handle returns (while
  the pool has room), the new handle reads as the edited list, and all other lists are unchanged:
  \<open>push\<close> and \<open>extend\<close> (of an iterator with an exact size hint) append, \<open>insert\<close> and \<open>remove\<close> shift the rest, \<open>swap_remove\<close> moves the last
  element into the hole, \<open>truncate\<close> keeps a prefix, \<open>clear\<close> empties the list.\<close>

theorem list_edits_refine:
  assumes "pool_holds P L" "has_list L self xs"
  shows "(pool_room P (length xs + 1) \<longrightarrow>
      (\<exists>r. list_push self e P = Some (length xs, r) \<and> edited L self (xs @ [e]) (Some r)) \<and>
      (i \<le> length xs \<longrightarrow> edited L self (take i xs @ e # drop i xs) (list_insert self i e P))) \<and>
    (i < length xs \<and> pool_room P (length xs - 1) \<longrightarrow>
      edited L self (take i xs @ drop (i + 1) xs) (list_remove self i P) \<and>
      edited L self (butlast (xs[i := last xs])) (swap_remove self i P)) \<and>
    ((i < length xs \<longrightarrow> pool_room P i) \<longrightarrow> edited L self (take i xs) (truncate self i P)) \<and>
    edited L self [] (list_clear self P) \<and>
    (pool_room P (length xs + length es) \<longrightarrow> edited L self (xs @ es) (extend True self es P))"
proof (intro conjI impI)
  assume r: "pool_room P (length xs + 1)"
  show "\<exists>r. list_push self e P = Some (length xs, r) \<and> edited L self (xs @ [e]) (Some r)"
    using list_push_correct [OF assms r] edited_post by blast
  show "edited L self (take i xs @ e # drop i xs) (list_insert self i e P)" if "i \<le> length xs"
    using insert.edits [OF assms] that r by blast
qed (use remove.edits [OF assms] swap_remove.edits [OF assms] truncate.edits [OF assms] clear.edits [OF assms]
    extend.edits [OF assms] in blast)+

text \<open>C33: The operations that make a list from elements (given as a slice or by an iterator with an exact size hint) or from another list return a list of their own, which
  reads as the copied elements, and leave every existing list, their source included, unchanged; \<open>copy_from\<close>
  splices a range of another list into the list of a handle.\<close>

theorem list_copies_independent:
  assumes "pool_holds P L" "has_list L self xs"
  shows "(pool_room P (length es) \<longrightarrow> edited L list_new es (from_slice es P) \<and> edited L list_new es (list_from_iter True es P)) \<and>
    (pool_room P (length xs) \<longrightarrow> edited L list_new xs (deep_clone self P)) \<and>
    (has_list L other zs \<and> list_index self \<noteq> list_index other \<and> i \<le> length xs \<and>
      range_start s \<le> range_end e (length zs) \<and> range_end e (length zs) \<le> length zs \<and>
      pool_room P (length xs + (range_end e (length zs) - range_start s)) \<longrightarrow>
      edited L self (take i xs @ take (range_end e (length zs) - range_start s) (drop (range_start s) zs) @ drop i xs)
        (copy_from self other s e i P))"
proof (intro conjI impI)
  assume r: "pool_room P (length es)"
  show "edited L list_new es (from_slice es P)" using from_slice_correct [OF assms(1) r] edited_post by force
  have "has_list L list_new []" by (simp add: has_list_def list_new_def)
  from extend.edits [OF assms(1) this] r show "edited L list_new es (list_from_iter True es P)"
    by (simp add: list_from_iter_def)
next
  assume "pool_room P (length xs)"
  from deep_clone_correct [OF assms this] show "edited L list_new xs (deep_clone self P)" using edited_post by force
next
  assume "has_list L other zs \<and> list_index self \<noteq> list_index other \<and> i \<le> length xs \<and>
      range_start s \<le> range_end e (length zs) \<and> range_end e (length zs) \<le> length zs \<and>
      pool_room P (length xs + (range_end e (length zs) - range_start s))"
  then obtain self' P' where "copy_from self other s e i P = Some (self', P')"
    "list_post L self (take i xs @ take (range_end e (length zs) - range_start s) (drop (range_start s) zs) @ drop i xs) self' P'"
    using copy_from_correct [OF assms] by blast
  then show "edited L self (take i xs @ take (range_end e (length zs) - range_start s) (drop (range_start s) zs) @ drop i xs)
        (copy_from self other s e i P)" using edited_post by simp
qed

definition sample_pool :: list_pool where
  "sample_pool = \<lparr>pool_data = [Entity 3, Entity 10, Entity 20, Entity 30], pool_free = []\<rparr>"

definition sample_lists :: "nat \<rightharpoonup> entity list" where
  "sample_lists = [0 \<mapsto> [Entity 10, Entity 20, Entity 30]]"

lemma sample_class: "sclass_for_length 3 = 0" "pool_room sample_pool 3" "pool_room sample_pool 4" "pool_room sample_pool 2"
  using sclass_for_length_eq [of 3] sclass_for_length_eq [of 4] sclass_for_length_eq [of 2]
  by (simp_all add: pool_room_def sample_pool_def sclass_size_def usize_ilog2.simps)

lemma sample_pool_holds:
  "pool_holds sample_pool sample_lists"
  "has_list sample_lists (EntityList 1) [Entity 10, Entity 20, Entity 30]"
proof -
  have "pool_inv sample_pool [0 \<mapsto> 0] [] sample_lists"
    using sample_class(1)
    by (auto simp: pool_inv_def blocks_ok_def free_ok_def list_ok_def free_blocks_def sample_pool_def sample_lists_def sclass_size_def numeral_3_eq_3 split: if_splits)
  then show "pool_holds sample_pool sample_lists" by (rule pool_holdsI)
qed (simp add: has_list_def sample_lists_def)

lemmas pool_exec = Let_def pool_new_def from_slice_def pool_alloc_def list_clear_def pool_free_block_def grow_def
  pool_len_of_def vec_get_def vec_set_def slice_get_def slice_set_def write_at_def list_at_def u32_of_usize_def
  entity_new_def entity_index_def usize_sub_def sclass_size_def list_new_def entity_reserved_value_def

text \<open>A block that is taken from a free list still has its old contents, so the elements that \<open>grow\<close> adds are
  not reserved values.\<close>

lemma grow_recycled:
  "do { (l, p) \<leftarrow> from_slice [Entity 1, Entity 2, Entity 3] pool_new; (_, p') \<leftarrow> list_clear l p;
        (s, _, _) \<leftarrow> grow list_new 3 p'; Some s } = Some [Entity 0, Entity 2, Entity 3]"
proof -
  have c: "sclass_for_length (Suc (Suc (Suc 0))) = 0" using sample_class(1) by (simp add: numeral_3_eq_3)
  have r: "replicate 4 x = [x, x, x, x]" for x :: entity by (simp add: numeral_eq_Suc)
  have 1: "from_slice [Entity 1, Entity 2, Entity 3] pool_new =
      Some (EntityList 1, \<lparr>pool_data = [Entity 3, Entity 1, Entity 2, Entity 3], pool_free = []\<rparr>)"
    using c r by (simp add: pool_exec)
  have 2: "list_clear (EntityList 1) \<lparr>pool_data = [Entity 3, Entity 1, Entity 2, Entity 3], pool_free = []\<rparr> =
      Some (EntityList 0, \<lparr>pool_data = [Entity 0, Entity 0, Entity 2, Entity 3], pool_free = [1]\<rparr>)"
    using sample_class(1) by (simp add: pool_exec)
  show ?thesis unfolding 1 using 2 sample_class(1) by (simp add: pool_exec)
qed

text \<open>C35: The assertion of \<open>copy_from\<close> bounds the number of elements and not the range: two elements from index 1 of a
  list of two are copied without a panic, the second of them from beyond the end of the list.\<close>

theorem copy_from_beyond:
  "do { (l, p) \<leftarrow> copy_from (EntityList 5) (EntityList 1) (Included 1) (Excluded 3) 1
          \<lparr>pool_data = [Entity 2, Entity 7, Entity 8, Entity 66, Entity 1, Entity 9, Entity 0, Entity 0], pool_free = []\<rparr>;
        as_slice l p } = Some [Entity 9, Entity 8, Entity 66]"
proof -
  have c: "sclass_for_length 3 = 0" "sclass_for_length 1 = 0"
    using sclass_for_length_eq [of 3] sclass_for_length_eq [of 1] by simp_all
  show ?thesis
    using c by (simp add: copy_from_def grow_at_def copy_up_def write_slice_def as_slice_def list_len_def pool_exec)
qed

theorem list_edits_refine_witness:
  "(\<exists>r. list_push (EntityList 1) (Entity 5) sample_pool = Some (3, r) \<and>
      edited sample_lists (EntityList 1) [Entity 10, Entity 20, Entity 30, Entity 5] (Some r)) \<and>
   edited sample_lists (EntityList 1) [Entity 10, Entity 5, Entity 20, Entity 30] (list_insert (EntityList 1) 1 (Entity 5) sample_pool) \<and>
   edited sample_lists (EntityList 1) [Entity 10, Entity 30] (list_remove (EntityList 1) 1 sample_pool) \<and>
   edited sample_lists (EntityList 1) [] (list_clear (EntityList 1) sample_pool)"
  using list_edits_refine [OF sample_pool_holds, where e = "Entity 5" and i = 1] sample_class
  by (simp add: numeral_3_eq_3 [symmetric] numeral_2_eq_2 [symmetric])

theorem list_copies_independent_witness:
  "edited sample_lists list_new [Entity 7, Entity 8] (from_slice [Entity 7, Entity 8] sample_pool) \<and>
   edited sample_lists list_new [Entity 10, Entity 20, Entity 30] (deep_clone (EntityList 1) sample_pool) \<and>
   edited sample_lists (EntityList 0) [Entity 20, Entity 30]
     (copy_from (EntityList 0) (EntityList 1) (Included 1) Unbounded 0 sample_pool)"
proof -
  have e: "has_list sample_lists (EntityList 0) []" by (simp add: has_list_def)
  have "edited sample_lists (EntityList 0) [Entity 20, Entity 30]
     (copy_from (EntityList 0) (EntityList 1) (Included 1) Unbounded 0 sample_pool)"
    using list_copies_independent [OF sample_pool_holds(1) e, where other = "EntityList 1" and s = "Included 1"
      and e = Unbounded and i = 0 and zs = "[Entity 10, Entity 20, Entity 30]"] sample_pool_holds(2) sample_class
    by (simp add: range_start_def range_end_def numeral_2_eq_2)
  moreover have "pool_room sample_pool (length [Entity 7, Entity 8])" "pool_room sample_pool (length [Entity 10, Entity 20, Entity 30])"
    using sample_class by (simp_all add: numeral_3_eq_3 numeral_2_eq_2)
  ultimately show ?thesis
    using list_copies_independent [OF sample_pool_holds, where es = "[Entity 7, Entity 8]"] by blast
qed

end
