(* ===== verification/Emit_Buffer.thy ===== *)
theory Emit_Buffer
  imports Rust_Prelude
begin

text \<open>
  The emission buffer (\<^verbatim>\<open>taki_mir/src/emit_buffer.rs\<close>, \<^verbatim>\<open>emit_buffer/label.rs\<close>): one slot per instruction, block labels
  bound to slot positions, branch simplification at the tail of the buffer, range checks with veneers, and
  rendering. A block index is a number, \<open>usize::MAX\<close> is the offset of an unbound label, vectors have their last
  element at the end. The lines of a veneer are a parameter (\<open>LowerBackend::veneer_lines\<close>).
\<close>

section \<open>Model\<close>

subsection \<open>Labels and slots\<close>

record label_kind =
  positive :: u32
  negative :: u32

definition BRANCH14 :: label_kind where
  "BRANCH14 = \<lparr>positive = 2 ^ 13 * 4, negative = 2 ^ 13 * 4\<rparr>"

definition BRANCH19 :: label_kind where
  "BRANCH19 = \<lparr>positive = 2 ^ 18 * 4, negative = 2 ^ 18 * 4\<rparr>"

definition BRANCH26 :: label_kind where
  "BRANCH26 = \<lparr>positive = 2 ^ 25 * 4, negative = 2 ^ 25 * 4\<rparr>"

definition RV_B :: label_kind where
  "RV_B = \<lparr>positive = 2 ^ 12 * 2, negative = 2 ^ 12 * 2\<rparr>"

definition RV_JAL :: label_kind where
  "RV_JAL = \<lparr>positive = 2 ^ 20 * 2, negative = 2 ^ 20 * 2\<rparr>"

text \<open>Offsets are far below the range of \<open>i64\<close>.\<close>

definition in_range :: "label_kind \<Rightarrow> usize \<Rightarrow> usize \<Rightarrow> bool" where
  "in_range self from to = (let distance = int to - int from in
     - uint (negative self) \<le> distance \<and> distance \<le> uint (positive self))"

type_synonym block = nat

datatype label_ref = LBlock block | LVeneer nat | LVeneerEnd nat

fun ref_block :: "label_ref \<Rightarrow> block option" where
  "ref_block (LBlock b) = Some b"
| "ref_block (LVeneer _) = None"
| "ref_block (LVeneerEnd _) = None"

record branch_ref =
  prefix :: string
  inv_prefix :: "string option"
  target :: label_ref
  kind :: label_kind

record veneer_rec =
  veneer_name :: string
  veneer_end_name :: string
  veneer_lines :: "string list"

datatype slot = Text string | Branch branch_ref | Veneer veneer_rec

fun slot_len :: "slot \<Rightarrow> usize" where
  "slot_len (Text _) = 1"
| "slot_len (Branch _) = 1"
| "slot_len (Veneer v) = max (length (veneer_lines v)) 1"

record branch_rec =
  start :: usize
  labels_at_this_branch :: "block list"

record branch_opt_stats =
  ran :: bool
  changed :: bool
  fallthrough_removed :: nat
  branches_inverted :: nat
  labels_threaded :: nat
  dead_jumps_removed :: nat
  veneers_inserted :: nat

subsection \<open>The buffer\<close>

record emit_buffer =
  slots :: "slot list"
  pending :: string
  block_labels :: "string list"
  label_offsets :: "usize list"
  label_aliases :: "block option list"
  latest_branches :: "branch_rec list"
  labels_at_tail :: "block list"
  labels_at_tail_off :: usize
  enable_branch_opt :: bool
  stats :: branch_opt_stats
  veneer_names :: "string list"
  veneer_end_names :: "string list"
  func_name :: string

definition LABEL_LIST_THRESHOLD :: usize where
  "LABEL_LIST_THRESHOLD = 100"

definition buffer_new :: "string \<Rightarrow> string list \<Rightarrow> bool \<Rightarrow> emit_buffer" where
  "buffer_new name labels opt = \<lparr>slots = [], pending = [], block_labels = labels,
     label_offsets = replicate (length labels) usize_MAX, label_aliases = replicate (length labels) None,
     latest_branches = [], labels_at_tail = [], labels_at_tail_off = 0, enable_branch_opt = opt,
     stats = \<lparr>ran = False, changed = False, fallthrough_removed = 0, branches_inverted = 0,
       labels_threaded = 0, dead_jumps_removed = 0, veneers_inserted = 0\<rparr>,
     veneer_names = [], veneer_end_names = [], func_name = name\<rparr>"

definition branch_stats :: "emit_buffer \<Rightarrow> branch_opt_stats" where
  "branch_stats self = (stats self)\<lparr>ran := enable_branch_opt self\<rparr>"

definition cur_slot :: "emit_buffer \<Rightarrow> usize" where
  "cur_slot self = length (slots self)"

fun resolve_hops :: "block option list \<Rightarrow> nat \<Rightarrow> block \<Rightarrow> block rust" where
  "resolve_hops aliases 0 label = None"
| "resolve_hops aliases (Suc n) label = do {
     a \<leftarrow> vec_get aliases label;
     case a of Some next \<Rightarrow> resolve_hops aliases n next | None \<Rightarrow> Some label }"

definition resolved :: "emit_buffer \<Rightarrow> block \<Rightarrow> block rust" where
  "resolved self label = resolve_hops (label_aliases self) (length (label_aliases self) + 1) label"

fun label_name :: "emit_buffer \<Rightarrow> label_ref \<Rightarrow> string rust" where
  "label_name self (LBlock b) = do { b' \<leftarrow> resolved self b; vec_get (block_labels self) b' }"
| "label_name self (LVeneer i) = vec_get (veneer_names self) i"
| "label_name self (LVeneerEnd i) = vec_get (veneer_end_names self) i"

definition lazily_clear_labels_at_tail :: "emit_buffer \<Rightarrow> emit_buffer" where
  "lazily_clear_labels_at_tail self =
    (if length (slots self) > labels_at_tail_off self
     then self\<lparr>labels_at_tail_off := length (slots self), labels_at_tail := []\<rparr> else self)"

definition resolve_label_offset :: "emit_buffer \<Rightarrow> block \<Rightarrow> usize rust" where
  "resolve_label_offset self label = do { r \<leftarrow> resolved self label; vec_get (label_offsets self) r }"

definition set_offsets :: "usize list \<Rightarrow> block list \<Rightarrow> usize \<Rightarrow> usize list rust" where
  "set_offsets offsets labels off = foldM (\<lambda>os l. vec_set os l off) offsets labels"

definition truncate_last_branch :: "emit_buffer \<Rightarrow> emit_buffer rust" where
  "truncate_last_branch self0 = do {
     let self = lazily_clear_labels_at_tail self0;
     b \<leftarrow> (if latest_branches self = [] then None else Some (last (latest_branches self)));
     rassert (start b + 1 = length (slots self));
     let ss = take (start b) (slots self);
     offs \<leftarrow> set_offsets (label_offsets self) (labels_at_tail self) (length ss);
     Some (self\<lparr>latest_branches := butlast (latest_branches self), slots := ss, labels_at_tail_off := length ss,
       label_offsets := offs, labels_at_tail := labels_at_tail self @ labels_at_this_branch b\<rparr>) }"

definition purge_latest_branches :: "emit_buffer \<Rightarrow> emit_buffer" where
  "purge_latest_branches self = (if latest_branches self = [] then self
     else if start (last (latest_branches self)) + 1 < length (slots self) then self\<lparr>latest_branches := []\<rparr> else self)"

definition branch_at :: "emit_buffer \<Rightarrow> usize \<Rightarrow> branch_ref rust" where
  "branch_at self i = (case vec_get (slots self) i of Some (Branch b) \<Rightarrow> Some b | _ \<Rightarrow> None)"

definition set_aliases :: "block option list \<Rightarrow> block list \<Rightarrow> block \<Rightarrow> block option list rust" where
  "set_aliases aliases labels t = foldM (\<lambda>as l. vec_set as l (Some t)) aliases labels"

text \<open>The part of the loop body that looks at the branch before the last one; \<open>Some (True, _)\<close> is \<open>continue\<close>.\<close>

definition optimize_pair :: "emit_buffer \<Rightarrow> branch_rec \<Rightarrow> branch_ref \<Rightarrow> usize \<Rightarrow> (bool \<times> emit_buffer) rust" where
  "optimize_pair self b branch cur_off =
    (if length (latest_branches self) > 1 then do {
       let prev_start = start (latest_branches self ! (length (latest_branches self) - 2));
       prev \<leftarrow> branch_at self prev_start;
       let prev_is_uncond = (inv_prefix prev = None);
       let prev_adjacent = (prev_start + 1 = start b);
       if prev_is_uncond \<and> prev_adjacent \<and> labels_at_this_branch (last (latest_branches self)) = [] then do {
         self' \<leftarrow> truncate_last_branch (self\<lparr>stats := (stats self)\<lparr>changed := True,
           dead_jumps_removed := dead_jumps_removed (stats self) + 1\<rparr>\<rparr>);
         Some (True, self') }
       else if \<not> prev_is_uncond \<and> prev_adjacent then do {
         pt \<leftarrow> ref_block (target prev);
         off \<leftarrow> resolve_label_offset self pt;
         if off = cur_off then do {
           self1 \<leftarrow> truncate_last_branch (self\<lparr>stats := (stats self)\<lparr>changed := True,
             branches_inverted := branches_inverted (stats self) + 1\<rparr>\<rparr>);
           prev1 \<leftarrow> branch_at self1 prev_start;
           inverted \<leftarrow> inv_prefix prev1;
           ss \<leftarrow> vec_set (slots self1) prev_start (Branch (prev1\<lparr>prefix := inverted,
             inv_prefix := Some (prefix prev1), target := target branch\<rparr>));
           Some (True, self1\<lparr>slots := ss\<rparr>) }
         else Some (False, self) }
       else Some (False, self) }
     else Some (False, self))"

definition optimize_step :: "emit_buffer \<Rightarrow> (bool \<times> emit_buffer) rust" where
  "optimize_step self = (if latest_branches self = [] then Some (False, self)
     else do {
       let b = last (latest_branches self);
       let cur_off = length (slots self);
       if start b + 1 < cur_off then Some (False, self)
       else if length (labels_at_this_branch b) > LABEL_LIST_THRESHOLD then Some (False, self)
       else do {
         branch \<leftarrow> branch_at self (start b);
         tgt \<leftarrow> ref_block (target branch);
         off \<leftarrow> resolve_label_offset self tgt;
         if off = cur_off then do {
           self' \<leftarrow> truncate_last_branch (self\<lparr>stats := (stats self)\<lparr>changed := True,
             fallthrough_removed := fallthrough_removed (stats self) + 1\<rparr>\<rparr>);
           Some (True, self') }
         else if inv_prefix branch = None then
           if off \<noteq> start b then do {
             let redirected = length (labels_at_this_branch b);
             aliases \<leftarrow> set_aliases (label_aliases self) (labels_at_this_branch b) tgt;
             let self1 = self\<lparr>label_aliases := aliases,
               latest_branches := butlast (latest_branches self) @ [b\<lparr>labels_at_this_branch := []\<rparr>]\<rparr>;
             if redirected > 0 then
               Some (True, self1\<lparr>stats := (stats self1)\<lparr>changed := True,
                 labels_threaded := labels_threaded (stats self1) + redirected\<rparr>\<rparr>)
             else optimize_pair self1 b branch cur_off }
           else Some (False, self)
         else Some (False, self) } })"

partial_function (option) optimize_loop :: "emit_buffer \<Rightarrow> emit_buffer option" where
  "optimize_loop self = do {
     (continue, self') \<leftarrow> optimize_step self;
     if continue then optimize_loop self' else Some self' }"

declare optimize_loop.simps [code]

definition optimize_branches :: "emit_buffer \<Rightarrow> emit_buffer rust" where
  "optimize_branches self = (if \<not> enable_branch_opt self then Some (lazily_clear_labels_at_tail self)
     else do { self' \<leftarrow> optimize_loop self; Some (purge_latest_branches self') })"

definition bind_label :: "emit_buffer \<Rightarrow> block \<Rightarrow> emit_buffer rust" where
  "bind_label self b = do {
     off \<leftarrow> vec_get (label_offsets self) b;
     rassert (off = usize_MAX);
     let self1 = lazily_clear_labels_at_tail
       (self\<lparr>label_offsets := (label_offsets self)[b := length (slots self)]\<rparr>);
     optimize_branches (self1\<lparr>labels_at_tail := labels_at_tail self1 @ [b]\<rparr>) }"

subsection \<open>Emitting instructions\<close>

definition write_str :: "emit_buffer \<Rightarrow> string \<Rightarrow> emit_buffer" where
  "write_str self text = self\<lparr>pending := pending self @ text\<rparr>"

definition end_inst :: "emit_buffer \<Rightarrow> emit_buffer" where
  "end_inst self = (if pending self \<noteq> [] then self\<lparr>pending := [], slots := slots self @ [Text (pending self)]\<rparr> else self)"

definition take_inst_text :: "emit_buffer \<Rightarrow> string \<times> emit_buffer" where
  "take_inst_text self = (pending self, self\<lparr>pending := []\<rparr>)"

definition put_branch :: "emit_buffer \<Rightarrow> string \<Rightarrow> string option \<Rightarrow> block \<Rightarrow> label_kind \<Rightarrow> emit_buffer rust" where
  "put_branch self pre ipre tgt knd = do {
     rassert (pending self = []);
     let self1 = lazily_clear_labels_at_tail self;
     Some (self1\<lparr>latest_branches := latest_branches self1 @
         [\<lparr>start = length (slots self1), labels_at_this_branch = labels_at_tail self1\<rparr>],
       slots := slots self1 @ [Branch \<lparr>prefix = pre, inv_prefix = ipre, target = LBlock tgt, kind = knd\<rparr>]\<rparr>) }"

definition put_uncond_branch :: "emit_buffer \<Rightarrow> string \<Rightarrow> block \<Rightarrow> label_kind \<Rightarrow> emit_buffer rust" where
  "put_uncond_branch self pre tgt knd = put_branch self pre None tgt knd"

definition write_label_ref :: "emit_buffer \<Rightarrow> block \<Rightarrow> emit_buffer rust" where
  "write_label_ref self b = do { name \<leftarrow> label_name self (LBlock b); Some (write_str self name) }"

subsection \<open>Range checks and veneers\<close>

fun byte_offsets :: "usize \<Rightarrow> slot list \<Rightarrow> usize list" where
  "byte_offsets bytes [] = [bytes]"
| "byte_offsets bytes (s # ss) = bytes # byte_offsets (bytes + slot_len s * 4) ss"

definition branch_ok :: "emit_buffer \<Rightarrow> usize list \<Rightarrow> usize \<Rightarrow> slot \<Rightarrow> bool rust" where
  "branch_ok self offsets i s = (case s of
      Branch branch \<Rightarrow>
        (case target branch of
           LBlock t \<Rightarrow> do {
             lo \<leftarrow> vec_get (label_offsets self) t;
             target_off \<leftarrow> vec_get offsets lo;
             from \<leftarrow> vec_get offsets i;
             Some (in_range (kind branch) from target_off) }
         | _ \<Rightarrow> Some True)
    | _ \<Rightarrow> Some True)"

definition to_veneer :: "emit_buffer \<Rightarrow> usize list rust" where
  "to_veneer self = foldM (\<lambda>acc (i, s). do {
       ok \<leftarrow> branch_ok self (byte_offsets 0 (slots self)) i s;
       Some (if ok then acc else acc @ [i]) }) [] (List.enumerate 0 (slots self))"

fun show_nat :: "nat \<Rightarrow> string" where
  "show_nat n = (if n < 10 then [char_of (48 + n)] else show_nat (n div 10) @ [char_of (48 + n mod 10)])"

declare show_nat.simps [simp del]

definition insert_veneer :: "(label_kind \<Rightarrow> string \<Rightarrow> string list) \<Rightarrow> emit_buffer \<Rightarrow> usize \<Rightarrow> nat \<Rightarrow> emit_buffer rust" where
  "insert_veneer lines_of self i veneer_id = do {
     branch \<leftarrow> branch_at self i;
     tgt \<leftarrow> ref_block (target branch);
     let name = ''.L_'' @ func_name self @ ''_veneer_'' @ show_nat veneer_id;
     let end_name = name @ ''_end'';
     target_name \<leftarrow> label_name self (LBlock tgt);
     let (new_prefix, new_target) = (case inv_prefix branch of
         Some ip \<Rightarrow> (ip, LVeneerEnd veneer_id)
       | None \<Rightarrow> (prefix branch, LVeneer veneer_id));
     let new_branch = Branch \<lparr>prefix = new_prefix, inv_prefix = None, target = new_target, kind = kind branch\<rparr>;
     let veneer = Veneer \<lparr>veneer_name = name, veneer_end_name = end_name, veneer_lines = lines_of (kind branch) target_name\<rparr>;
     Some (self\<lparr>veneer_names := veneer_names self @ [name], veneer_end_names := veneer_end_names self @ [end_name],
       slots := take i (slots self) @ [new_branch, veneer] @ drop (i + 1) (slots self),
       label_offsets := map (\<lambda>off. if off \<noteq> usize_MAX \<and> off > i then off + 1 else off) (label_offsets self),
       stats := (stats self)\<lparr>veneers_inserted := veneers_inserted (stats self) + 1\<rparr>\<rparr>) }"

fun relax_rounds :: "(label_kind \<Rightarrow> string \<Rightarrow> string list) \<Rightarrow> nat \<Rightarrow> emit_buffer \<Rightarrow> nat \<Rightarrow> emit_buffer rust" where
  "relax_rounds lines_of 0 self veneer_id = Some self"
| "relax_rounds lines_of (Suc n) self veneer_id = do {
     far \<leftarrow> to_veneer self;
     if far = [] then Some self
     else do {
       (self', veneer_id') \<leftarrow> foldM (\<lambda>(s, id) i. do { s' \<leftarrow> insert_veneer lines_of s i id; Some (s', id + 1) })
         (self, veneer_id) (rev far);
       relax_rounds lines_of n self' veneer_id' } }"

definition MAX_ROUNDS :: nat where
  "MAX_ROUNDS = 8"

definition buffer_resolve :: "(label_kind \<Rightarrow> string \<Rightarrow> string list) \<Rightarrow> emit_buffer \<Rightarrow> emit_buffer rust" where
  "buffer_resolve lines_of self = do {
     self' \<leftarrow> relax_rounds lines_of MAX_ROUNDS self 0;
     far \<leftarrow> to_veneer self';
     rassert (far = []);
     Some self' }"

subsection \<open>Rendering\<close>

text \<open>The pairs are built in the order of the blocks, so the stable sort by offset is the sort of the pairs.\<close>

definition label_events :: "emit_buffer \<Rightarrow> (usize \<times> usize) list" where
  "label_events self = sort_key fst (map (\<lambda>(index, offset). (offset, index))
     (filter (\<lambda>(_, offset). offset \<noteq> usize_MAX) (List.enumerate 0 (label_offsets self))))"

fun emit_labels :: "string list \<Rightarrow> usize \<Rightarrow> (usize \<times> usize) list \<Rightarrow> (string \<times> (usize \<times> usize) list) rust" where
  "emit_labels names at [] = Some ([], [])"
| "emit_labels names at (e # es) = (if fst e = at then do {
      n \<leftarrow> vec_get names (snd e);
      (out, rest) \<leftarrow> emit_labels names at es;
      Some (n @ '':'' @ [CHR 0x0A] @ out, rest) }
    else Some ([], e # es))"

fun emit_slot :: "emit_buffer \<Rightarrow> slot \<Rightarrow> string rust" where
  "emit_slot self (Text text) = Some (''    '' @ text @ [CHR 0x0A])"
| "emit_slot self (Branch branch) = do {
     name \<leftarrow> label_name self (target branch);
     Some (''    '' @ prefix branch @ name @ [CHR 0x0A]) }"
| "emit_slot self (Veneer v) = Some (veneer_name v @ '':'' @ [CHR 0x0A] @
     concat (map (\<lambda>line. ''    '' @ line @ [CHR 0x0A]) (veneer_lines v)) @
     veneer_end_name v @ '':'' @ [CHR 0x0A])"

fun emit_slots :: "emit_buffer \<Rightarrow> usize \<Rightarrow> slot list \<Rightarrow> (usize \<times> usize) list \<Rightarrow> string rust" where
  "emit_slots self index [] events = do {
     (out, _) \<leftarrow> emit_labels (block_labels self) index events;
     Some out }"
| "emit_slots self index (s # ss) events = do {
     (labels, events') \<leftarrow> emit_labels (block_labels self) index events;
     line \<leftarrow> emit_slot self s;
     rest \<leftarrow> emit_slots self (index + 1) ss events';
     Some (labels @ line @ rest) }"

definition finish :: "emit_buffer \<Rightarrow> string rust" where
  "finish self = emit_slots self 0 (slots self) (label_events self)"

subsection \<open>Emission of a function\<close>

text \<open>The calls an instruction makes on the buffer when it is emitted (\<open>EmitContext\<close>); \<open>BindLabel\<close> is made by the
  writer only.\<close>

datatype emit_call =
    Write string
  | EndInst
  | PutBranch string "string option" block label_kind
  | BindLabel block

fun run_call :: "emit_buffer \<Rightarrow> emit_call \<Rightarrow> emit_buffer rust" where
  "run_call self (Write text) = Some (write_str self text)"
| "run_call self EndInst = Some (end_inst self)"
| "run_call self (PutBranch pre ipre tgt knd) = put_branch self pre ipre tgt knd"
| "run_call self (BindLabel b) = bind_label self b"

definition inst_calls :: "emit_call list list \<Rightarrow> emit_call list" where
  "inst_calls insts = concat (map (\<lambda>calls. calls @ [EndInst]) insts)"

fun block_calls :: "nat \<Rightarrow> emit_call list list list \<Rightarrow> emit_call list" where
  "block_calls bi [] = []"
| "block_calls bi (insts # blocks) = BindLabel bi # inst_calls insts @ block_calls (bi + 1) blocks"

definition emit_function :: "string \<Rightarrow> string list \<Rightarrow> bool \<Rightarrow> emit_call list list \<Rightarrow> emit_call list list list \<Rightarrow> emit_buffer rust" where
  "emit_function name labels opt prologue blocks = do {
     self \<leftarrow> foldM run_call (buffer_new name labels opt) (inst_calls prologue @ block_calls 0 blocks);
     optimize_branches self }"

text \<open>The part of \<open>AsmWriter::write_function\<close> that goes through the buffer: the rendered code and the counters.\<close>

definition write_function ::
    "(label_kind \<Rightarrow> string \<Rightarrow> string list) \<Rightarrow> string \<Rightarrow> string list \<Rightarrow> bool \<Rightarrow> emit_call list list \<Rightarrow> emit_call list list list \<Rightarrow>
     (string \<times> branch_opt_stats) rust" where
  "write_function lines_of name labels opt prologue blocks = do {
     self \<leftarrow> emit_function name labels opt prologue blocks;
     self' \<leftarrow> buffer_resolve lines_of self;
     text \<leftarrow> finish self';
     Some (text, branch_stats self') }"

end
