(* ===== verification/Emit_Flow.thy ===== *)
theory Emit_Flow
  imports Emit_Buffer
begin

text \<open>
  The control flow of an emission buffer: alias chains of labels, the instruction that control reaches from a position
  or a label, the invariant of the buffer, and the rewritings of the tail that keep the control flow.
\<close>

section \<open>Alias chains\<close>

inductive root_in :: "block option list \<Rightarrow> block \<Rightarrow> nat \<Rightarrow> block \<Rightarrow> bool" for aliases where
  root_here: "l < length aliases \<Longrightarrow> aliases ! l = None \<Longrightarrow> root_in aliases l 0 l"
| root_step: "l < length aliases \<Longrightarrow> aliases ! l = Some t \<Longrightarrow> root_in aliases t k r \<Longrightarrow> root_in aliases l (Suc k) r"

inductive_cases root_inE: "root_in aliases l k r"

lemma root_in_target: "root_in aliases l k r \<Longrightarrow> l < length aliases \<and> r < length aliases \<and> aliases ! r = None"
  by (induction rule: root_in.induct) auto

lemma root_in_det: "root_in aliases l k r \<Longrightarrow> root_in aliases l k' r' \<Longrightarrow> k = k' \<and> r = r'"
proof (induction arbitrary: k' r' rule: root_in.induct)
  case (root_here l)
  from root_here(3) show ?case by cases (use root_here(2) in simp_all)
next
  case (root_step l t k r)
  from root_step.prems show ?case
  proof cases
    case (root_step t' j)
    then have "t' = t" using root_step.hyps(2) \<open>aliases ! l = Some t\<close> by simp
    then show ?thesis using root_step \<open>\<And>k' r'. root_in aliases t k' r' \<Longrightarrow> k = k' \<and> r = r'\<close> by blast
  qed (use root_step.hyps(2) in simp)
qed

lemma root_in_bound:
  assumes "root_in aliases l k r"
  shows "k \<le> length aliases"
proof -
  have "\<exists>X. X \<subseteq> {..<length aliases} \<and> card X = k \<and> (\<forall>x \<in> X. \<exists>j \<le> k. root_in aliases x j r)"
    using assms
  proof (induction rule: root_in.induct)
    case (root_here l)
    then show ?case by (intro exI [of _ "{}"]) simp
  next
    case (root_step l t k r)
    then obtain X where X: "X \<subseteq> {..<length aliases}" "card X = k" "\<forall>x \<in> X. \<exists>j \<le> k. root_in aliases x j r" by blast
    have l: "root_in aliases l (Suc k) r" using root_step.hyps by (rule root_in.root_step)
    have "l \<notin> X"
    proof
      assume "l \<in> X"
      then obtain j where "j \<le> k" "root_in aliases l j r" using X(3) by blast
      with root_in_det [OF l] show False by force
    qed
    moreover have "finite X" using X(1) finite_subset by blast
    moreover have "\<forall>x \<in> insert l X. \<exists>j \<le> Suc k. root_in aliases x j r" using X(3) l le_SucI by blast
    ultimately show ?case using X(1,2) root_step.hyps(1) by (intro exI [of _ "insert l X"]) simp
  qed
  then obtain X where "X \<subseteq> {..<length aliases}" "card X = k" by blast
  then show ?thesis using card_mono [of "{..<length aliases}" X] by simp
qed

lemma resolve_hops_root: "root_in aliases l k r \<Longrightarrow> k < n \<Longrightarrow> resolve_hops aliases n l = Some r"
proof (induction arbitrary: n rule: root_in.induct)
  case (root_here l)
  then show ?case by (cases n) (simp_all add: vec_get_def)
next
  case (root_step l t k r)
  then show ?case by (cases n) (simp_all add: vec_get_def)
qed

definition alias_root :: "block option list \<Rightarrow> block \<Rightarrow> block \<Rightarrow> bool" where
  "alias_root aliases l r = (\<exists>k. root_in aliases l k r)"

lemma resolved_root: "alias_root (label_aliases B) l r \<Longrightarrow> resolved B l = Some r"
  unfolding alias_root_def resolved_def
  using root_in_bound resolve_hops_root by (metis Suc_eq_plus1 le_imp_less_Suc)

lemma alias_root_det: "alias_root as l r \<Longrightarrow> alias_root as l r' \<Longrightarrow> r = r'"
  using root_in_det by (auto simp: alias_root_def)

lemma alias_root_lt: "alias_root as l r \<Longrightarrow> l < length as \<and> r < length as \<and> as ! r = None"
  using root_in_target by (auto simp: alias_root_def)

lemma alias_root_self: "l < length as \<Longrightarrow> as ! l = None \<Longrightarrow> alias_root as l l"
  by (auto simp: alias_root_def intro: root_here)

text \<open>Setting the entries of several labels.\<close>

definition mark :: "'a list \<Rightarrow> block list \<Rightarrow> 'a \<Rightarrow> 'a list" where
  "mark xs ls v = map (\<lambda>l. if l \<in> set ls then v else xs ! l) [0..<length xs]"

lemma mark_nth: "l < length xs \<Longrightarrow> mark xs ls v ! l = (if l \<in> set ls then v else xs ! l)"
  by (simp add: mark_def)

lemma length_mark [simp]: "length (mark xs ls v) = length xs"
  by (simp add: mark_def)

lemma mark_Nil [simp]: "mark xs [] v = xs"
  by (simp add: mark_def map_nth)

lemma foldM_mark: "\<forall>l \<in> set ls. l < length xs \<Longrightarrow> foldM (\<lambda>xs l. vec_set xs l v) xs ls = Some (mark xs ls v)"
proof (induction ls arbitrary: xs)
  case (Cons l ls)
  have "mark (xs[l := v]) ls v = mark xs (l # ls) v" by (auto simp: mark_def nth_list_update)
  with Cons show ?case by (simp add: vec_set_def)
qed simp

lemma set_aliases_eq: "\<forall>l \<in> set ls. l < length as \<Longrightarrow> set_aliases as ls t = Some (mark as ls (Some t))"
  by (simp add: set_aliases_def foldM_mark)

lemma set_offsets_eq: "\<forall>l \<in> set ls. l < length offs \<Longrightarrow> set_offsets offs ls k = Some (mark offs ls k)"
  by (simp add: set_offsets_def foldM_mark)

text \<open>Redirecting roots to a label with another root.\<close>

lemma redirect_root:
  assumes "alias_root as l r" "\<forall>x \<in> set ls. x < length as \<and> as ! x = None"
    and "alias_root as t rt" "rt \<notin> set ls"
  shows "alias_root (mark as ls (Some t)) l (if r \<in> set ls then rt else r)"
proof -
  have keep: "root_in (mark as ls (Some t)) x k y" if "root_in as x k y" "y \<notin> set ls" for x k y
    using that
  proof (induction rule: root_in.induct)
    case (root_here l)
    then show ?case by (intro root_in.root_here) (simp_all add: mark_nth)
  next
    case (root_step l t' k r)
    have "l \<notin> set ls" using root_step.hyps assms(2) by auto
    then show ?case using root_step by (intro root_in.root_step [where t = t']) (simp_all add: mark_nth)
  qed
  obtain kt where kt: "root_in (mark as ls (Some t)) t kt rt"
    using keep assms(3,4) by (auto simp: alias_root_def)
  obtain k where "root_in as l k r" using assms(1) by (auto simp: alias_root_def)
  then show ?thesis
  proof (induction rule: root_in.induct)
    case (root_here l)
    show ?case
    proof (cases "l \<in> set ls")
      case True
      then have "root_in (mark as ls (Some t)) l (Suc kt) rt"
        using root_here kt by (intro root_in.root_step [where t = t]) (simp_all add: mark_nth)
      with True show ?thesis by (auto simp: alias_root_def)
    next
      case False
      then show ?thesis using root_here by (auto simp: alias_root_def mark_nth intro!: exI [of _ 0] root_in.root_here)
    qed
  next
    case (root_step l t' k r)
    have "l \<notin> set ls" using root_step.hyps assms(2) by auto
    then have n: "mark as ls (Some t) ! l = Some t'" "l < length (mark as ls (Some t))" using root_step.hyps by (simp_all add: mark_nth)
    from root_step.IH obtain j where "root_in (mark as ls (Some t)) t' j (if r \<in> set ls then rt else r)"
      by (auto simp: alias_root_def)
    from root_in.root_step [OF n(2,1) this] show ?case unfolding alias_root_def by blast
  qed
qed

section \<open>Control flow of a buffer\<close>

text \<open>Branches are silent: from a position or a label, control reaches the next instruction that is not a branch
  (counted from the start of the buffer), the tail of the buffer, or a label that is not bound yet. The
  outcome of a conditional branch is given by its mnemonic and operands.\<close>

datatype loc = Pos nat | Lab block

datatype obs = AtInst nat | AtTail | Open block

fun is_branch :: "slot \<Rightarrow> bool" where
  "is_branch (Branch _) = True"
| "is_branch _ = False"

definition insts :: "slot list \<Rightarrow> nat" where
  "insts ss = length (filter (\<lambda>s. \<not> is_branch s) ss)"

inductive flow :: "(string \<Rightarrow> bool) \<Rightarrow> slot list \<Rightarrow> usize list \<Rightarrow> block option list \<Rightarrow> loc \<Rightarrow> obs \<Rightarrow> bool"
  for taken ss offs as where
  flow_tail: "flow taken ss offs as (Pos (length ss)) AtTail"
| flow_inst: "pc < length ss \<Longrightarrow> \<not> is_branch (ss ! pc) \<Longrightarrow> flow taken ss offs as (Pos pc) (AtInst (insts (take pc ss)))"
| flow_goto: "pc < length ss \<Longrightarrow> ss ! pc = Branch b \<Longrightarrow> target b = LBlock t \<Longrightarrow>
    inv_prefix b = None \<or> taken (prefix b) \<Longrightarrow> flow taken ss offs as (Lab t) ob \<Longrightarrow> flow taken ss offs as (Pos pc) ob"
| flow_skip: "pc < length ss \<Longrightarrow> ss ! pc = Branch b \<Longrightarrow> inv_prefix b \<noteq> None \<Longrightarrow> \<not> taken (prefix b) \<Longrightarrow>
    flow taken ss offs as (Pos (Suc pc)) ob \<Longrightarrow> flow taken ss offs as (Pos pc) ob"
| flow_bound: "alias_root as l r \<Longrightarrow> offs ! r \<noteq> usize_MAX \<Longrightarrow> flow taken ss offs as (Pos (offs ! r)) ob \<Longrightarrow>
    flow taken ss offs as (Lab l) ob"
| flow_open: "alias_root as l r \<Longrightarrow> offs ! r = usize_MAX \<Longrightarrow> flow taken ss offs as (Lab l) (Open r)"

inductive_cases flow_PosE: "flow taken ss offs as (Pos pc) ob"
inductive_cases flow_LabE: "flow taken ss offs as (Lab l) ob"

lemma flow_at_tail: "flow taken ss offs as (Pos (length ss)) ob \<longleftrightarrow> ob = AtTail"
  by (auto intro: flow_tail elim: flow_PosE)

lemma flow_goto_iff:
  assumes "pc < length ss" "ss ! pc = Branch b" "target b = LBlock t" "inv_prefix b = None \<or> taken (prefix b)"
  shows "flow taken ss offs as (Pos pc) ob \<longleftrightarrow> flow taken ss offs as (Lab t) ob"
proof
  assume "flow taken ss offs as (Pos pc) ob"
  then show "flow taken ss offs as (Lab t) ob" by cases (use assms in simp_all)
qed (rule flow_goto [where taken = taken, OF assms])

lemma flow_skip_iff:
  assumes "pc < length ss" "ss ! pc = Branch b" "inv_prefix b \<noteq> None" "\<not> taken (prefix b)"
  shows "flow taken ss offs as (Pos pc) ob \<longleftrightarrow> flow taken ss offs as (Pos (Suc pc)) ob"
proof
  assume "flow taken ss offs as (Pos pc) ob"
  then show "flow taken ss offs as (Pos (Suc pc)) ob" by cases (use assms in simp_all)
qed (rule flow_skip [where taken = taken, OF assms])

lemma flow_bound_iff:
  assumes "alias_root as l r" "offs ! r \<noteq> usize_MAX"
  shows "flow taken ss offs as (Lab l) ob \<longleftrightarrow> flow taken ss offs as (Pos (offs ! r)) ob"
proof
  assume "flow taken ss offs as (Lab l) ob"
  then show "flow taken ss offs as (Pos (offs ! r)) ob"
    by cases (use assms(2) alias_root_det [OF assms(1)] in blast)+
qed (rule flow_bound [where taken = taken, OF assms])

lemma flow_lab_cong:
  assumes "alias_root as l r" "alias_root as' l' r"
    and "offs ! r = usize_MAX \<longleftrightarrow> offs' ! r = usize_MAX"
    and "offs ! r \<noteq> usize_MAX \<Longrightarrow> flow taken ss offs as (Pos (offs ! r)) ob \<Longrightarrow> flow taken ss' offs' as' (Pos (offs' ! r)) ob"
    and "flow taken ss offs as (Lab l) ob"
  shows "flow taken ss' offs' as' (Lab l') ob"
  using assms(5)
proof cases
  case (flow_bound r')
  then have "r' = r" using alias_root_det [OF assms(1)] by blast
  with flow_bound assms(2-4) show ?thesis using flow.flow_bound [OF assms(2), where taken = taken] by blast
next
  case (flow_open r')
  then have "r' = r" using alias_root_det [OF assms(1)] by blast
  with flow_open assms(2,3) show ?thesis using flow.flow_open [OF assms(2), where taken = taken] by blast
qed

section \<open>The invariant of the buffer\<close>

definition live_at :: "emit_buffer \<Rightarrow> usize \<Rightarrow> block set" where
  "live_at B off = {l. l < length (label_offsets B) \<and> label_aliases B ! l = None \<and> label_offsets B ! l = off}"

definition labels_ok :: "emit_buffer \<Rightarrow> bool" where
  "labels_ok B = (length (label_aliases B) = length (label_offsets B) \<and> length (slots B) < usize_MAX \<and>
     (\<forall>l < length (label_offsets B). \<exists>r. alias_root (label_aliases B) l r) \<and>
     (\<forall>l < length (label_offsets B). label_aliases B ! l = None \<longrightarrow>
        label_offsets B ! l = usize_MAX \<or> label_offsets B ! l \<le> length (slots B)) \<and>
     (\<forall>l < length (label_offsets B). label_offsets B ! l = usize_MAX \<longrightarrow> label_aliases B ! l = None))"

text \<open>\<open>taken\<close> is consistent with the inverted forms of the branches.\<close>

definition slots_ok :: "(string \<Rightarrow> bool) \<Rightarrow> emit_buffer \<Rightarrow> bool" where
  "slots_ok taken B = (\<forall>b. Branch b \<in> set (slots B) \<longrightarrow>
     (\<exists>t < length (label_offsets B). target b = LBlock t) \<and>
     (\<forall>ip. inv_prefix b = Some ip \<longrightarrow> taken ip = (\<not> taken (prefix b))))"

definition branches_ok :: "emit_buffer \<Rightarrow> bool" where
  "branches_ok B = (sorted_wrt (<) (map start (latest_branches B)) \<and>
     (\<forall>b \<in> set (latest_branches B). start b < length (slots B) \<and> is_branch (slots B ! start b) \<and>
        set (labels_at_this_branch b) = live_at B (start b)))"

definition tail_ok :: "emit_buffer \<Rightarrow> bool" where
  "tail_ok B = (labels_at_tail_off B \<le> length (slots B) \<and>
     live_at B (length (slots B)) = (if labels_at_tail_off B = length (slots B) then set (labels_at_tail B) else {}))"

definition buffer_inv :: "(string \<Rightarrow> bool) \<Rightarrow> emit_buffer \<Rightarrow> bool" where
  "buffer_inv taken B = (labels_ok B \<and> slots_ok taken B \<and> branches_ok B \<and> tail_ok B)"

abbreviation bflow :: "(string \<Rightarrow> bool) \<Rightarrow> emit_buffer \<Rightarrow> loc \<Rightarrow> obs \<Rightarrow> bool" where
  "bflow taken B \<equiv> flow taken (slots B) (label_offsets B) (label_aliases B)"

lemma inv_root:
  assumes "labels_ok B" "l < length (label_offsets B)"
  obtains r where "alias_root (label_aliases B) l r" "resolved B l = Some r" "r < length (label_offsets B)"
    "label_aliases B ! r = None"
  using assms alias_root_lt resolved_root by (metis labels_ok_def)

lemma resolve_label_offset_eq:
  assumes "labels_ok B" "alias_root (label_aliases B) l r"
  shows "resolve_label_offset B l = Some (label_offsets B ! r)"
  using assms alias_root_lt [OF assms(2)] resolved_root [OF assms(2)]
  by (simp add: resolve_label_offset_def vec_get_def labels_ok_def)

lemma live_root: "labels_ok B \<Longrightarrow> l \<in> live_at B off \<Longrightarrow> alias_root (label_aliases B) l l"
  by (auto simp: live_at_def labels_ok_def intro: alias_root_self)

text \<open>Clearing the tail labels that do not apply any more.\<close>

lemma lazily_clear_simps [simp]:
  "slots (lazily_clear_labels_at_tail B) = slots B" "label_offsets (lazily_clear_labels_at_tail B) = label_offsets B"
  "label_aliases (lazily_clear_labels_at_tail B) = label_aliases B"
  "latest_branches (lazily_clear_labels_at_tail B) = latest_branches B"
  "pending (lazily_clear_labels_at_tail B) = pending B"
  "enable_branch_opt (lazily_clear_labels_at_tail B) = enable_branch_opt B"
  "live_at (lazily_clear_labels_at_tail B) off = live_at B off"
  by (simp_all add: lazily_clear_labels_at_tail_def live_at_def)

lemma lazily_clear_tail:
  "tail_ok B \<Longrightarrow> labels_at_tail_off (lazily_clear_labels_at_tail B) = length (slots B) \<and>
     set (labels_at_tail (lazily_clear_labels_at_tail B)) = live_at B (length (slots B))"
  by (auto simp: tail_ok_def lazily_clear_labels_at_tail_def)

lemma lazily_clear_inv: "buffer_inv taken B \<Longrightarrow> buffer_inv taken (lazily_clear_labels_at_tail B)"
  using lazily_clear_tail [of B]
  by (auto simp: buffer_inv_def labels_ok_def slots_ok_def branches_ok_def tail_ok_def)

section \<open>Removing the last branch\<close>

text \<open>The buffer after \<open>truncate_last_branch\<close> removed the branch at \<open>n\<close> with the labels \<open>ls\<close>.\<close>

definition truncated :: "emit_buffer \<Rightarrow> nat \<Rightarrow> block list \<Rightarrow> emit_buffer \<Rightarrow> bool" where
  "truncated B n ls B' = (slots B' = take n (slots B) \<and> label_aliases B' = label_aliases B \<and>
     latest_branches B' = butlast (latest_branches B) \<and> labels_at_tail_off B' = n \<and>
     (\<exists>tl. set tl = live_at B (Suc n) \<and> label_offsets B' = mark (label_offsets B) tl n \<and> labels_at_tail B' = tl @ ls) \<and>
     pending B' = pending B \<and> enable_branch_opt B' = enable_branch_opt B)"

lemma last_branch:
  assumes "buffer_inv taken B" "latest_branches B \<noteq> []" "start (last (latest_branches B)) + 1 = length (slots B)"
  defines "b \<equiv> last (latest_branches B)"
  obtains br where "slots B ! start b = Branch br" "start b < length (slots B)" "set (labels_at_this_branch b) = live_at B (start b)"
    "slots B = take (start b) (slots B) @ [Branch br]"
proof -
  have b: "b \<in> set (latest_branches B)" using assms(2) by (simp add: b_def)
  then have "is_branch (slots B ! start b)" "start b < length (slots B)" "set (labels_at_this_branch b) = live_at B (start b)"
    using assms(1) by (auto simp: buffer_inv_def branches_ok_def)
  moreover from this obtain br where br: "slots B ! start b = Branch br" by (cases "slots B ! start b") auto
  moreover have "slots B = take (start b) (slots B) @ [Branch br]"
    using br assms(3) by (metis b_def calculation(2) less_irrefl_nat linorder_neqE_nat lessI Suc_eq_plus1 take_Suc_conv_app_nth take_all le_refl)
  ultimately show ?thesis using that by blast
qed

lemma truncate_truncated:
  assumes "buffer_inv taken B" "latest_branches B \<noteq> []" "start (last (latest_branches B)) + 1 = length (slots B)"
  defines "b \<equiv> last (latest_branches B)"
  shows "\<exists>B'. truncate_last_branch B = Some B' \<and> truncated B (start b) (labels_at_this_branch b) B'"
proof -
  let ?C = "lazily_clear_labels_at_tail B"
  have tl: "set (labels_at_tail ?C) = live_at B (Suc (start b))"
    using lazily_clear_tail [of B] assms(1,3) by (simp add: buffer_inv_def b_def)
  then have "\<forall>l \<in> set (labels_at_tail ?C). l < length (label_offsets B)" by (auto simp: live_at_def)
  note so = set_offsets_eq [OF this, of "start b"]
  have ml: "length (take (start b) (slots B)) = start b" using assms(3) by (simp add: b_def)
  let ?B' = "?C\<lparr>latest_branches := butlast (latest_branches B), slots := take (start b) (slots B), labels_at_tail_off := start b,
    label_offsets := mark (label_offsets B) (labels_at_tail ?C) (start b),
    labels_at_tail := labels_at_tail ?C @ labels_at_this_branch b\<rparr>"
  have "truncate_last_branch B = Some ?B'"
    using assms(2,3) so ml by (simp add: truncate_last_branch_def Let_def b_def [symmetric] del: bind_eq_Some length_take)
  moreover have "truncated B (start b) (labels_at_this_branch b) ?B'"
    using tl unfolding truncated_def by simp
  ultimately show ?thesis by blast
qed

lemma truncated_live:
  assumes "labels_ok B" "truncated B n ls B'" "length (slots B) = Suc n"
  shows "live_at B' off = (if off = n then live_at B n \<union> live_at B (Suc n) else if off = Suc n then {} else live_at B off)"
proof -
  obtain tl where tl: "set tl = live_at B (Suc n)" "label_offsets B' = mark (label_offsets B) tl n"
    using assms(2) by (auto simp: truncated_def)
  have al: "label_aliases B' = label_aliases B" using assms(2) by (simp add: truncated_def)
  have "l \<in> live_at B' off \<longleftrightarrow> l \<in> (if off = n then live_at B n \<union> live_at B (Suc n) else if off = Suc n then {} else live_at B off)" for l
  proof (cases "l \<in> set tl")
    case True
    then have "l \<in> live_at B (Suc n)" using tl(1) by simp
    then show ?thesis using True tl(2) al by (simp add: live_at_def mark_nth)
  next
    case False
    then have "l \<notin> live_at B (Suc n)" using tl(1) by simp
    then show ?thesis using False tl(2) al by (auto simp: live_at_def mark_nth)
  qed
  then show ?thesis by blast
qed

lemma truncated_inv:
  assumes "buffer_inv taken B" "latest_branches B \<noteq> []" "start (last (latest_branches B)) + 1 = length (slots B)"
  defines "b \<equiv> last (latest_branches B)"
  assumes "truncated B (start b) (labels_at_this_branch b) B'"
  shows "buffer_inv taken B'"
proof -
  let ?n = "start b"
  have len: "length (slots B) = Suc ?n" using assms(3) by (simp add: b_def)
  have lo: "labels_ok B" and bo: "branches_ok B" and so: "slots_ok taken B" using assms(1) by (simp_all add: buffer_inv_def)
  obtain tl where tr: "slots B' = take ?n (slots B)" "label_aliases B' = label_aliases B"
    "latest_branches B' = butlast (latest_branches B)" "labels_at_tail_off B' = ?n"
    "set tl = live_at B (Suc ?n)" "label_offsets B' = mark (label_offsets B) tl ?n" "labels_at_tail B' = tl @ labels_at_this_branch b"
    using assms(5) by (auto simp: truncated_def)
  note live = truncated_live [OF lo assms(5) len]
  have lb: "set (labels_at_this_branch b) = live_at B ?n" using last_branch [OF assms(1-3)] by (metis b_def)
  have tailB: "label_offsets B ! l \<noteq> Suc ?n" if "l < length (label_offsets B)" "label_aliases B ! l = None" "l \<notin> set tl" for l
    using that tr(5) by (auto simp: live_at_def)
  have "labels_ok B'"
    using lo len tr(1,2,6) tailB unfolding labels_ok_def
    by (auto simp: mark_nth le_Suc_eq split: if_splits)
  moreover have "slots_ok taken B'"
    using so tr(1,6) unfolding slots_ok_def by (metis in_set_takeD length_mark)
  moreover have "branches_ok B'"
  proof -
    have lbr: "latest_branches B = latest_branches B' @ [b]" using assms(2) tr(3) by (simp add: b_def)
    have lt: "start x < ?n" if "x \<in> set (latest_branches B')" for x
      using bo that unfolding branches_ok_def lbr by (auto simp: sorted_wrt_append)
    show ?thesis
      using bo lt live tr(1) len unfolding branches_ok_def lbr by (auto simp: sorted_wrt_append dest: less_imp_neq)
  qed
  moreover have "tail_ok B'" using tr(1,4,5,7) len live lb by (auto simp: tail_ok_def)
  ultimately show ?thesis by (simp add: buffer_inv_def)
qed

section \<open>The simplifications keep the control flow\<close>

text \<open>Cutting the branch at \<open>n\<close> off the buffer moves the labels and positions at the tail back to \<open>n\<close>. It is sound
  when the branch only leads to the tail, or when nothing leads to the branch.\<close>

fun tail_back :: "nat \<Rightarrow> loc \<Rightarrow> loc" where
  "tail_back n (Pos p) = Pos (if p = Suc n then n else p)"
| "tail_back n (Lab l) = Lab l"

definition to_tail :: "(string \<Rightarrow> bool) \<Rightarrow> slot list \<Rightarrow> usize list \<Rightarrow> block option list \<Rightarrow> nat \<Rightarrow> bool" where
  "to_tail taken ss offs as n = (\<forall>ob. flow taken ss offs as (Pos n) ob \<longleftrightarrow> ob = AtTail)"

definition unreached :: "slot list \<Rightarrow> usize list \<Rightarrow> block option list \<Rightarrow> nat \<Rightarrow> bool" where
  "unreached ss offs as n = (0 < n \<and> (\<exists>b. ss ! (n - 1) = Branch b \<and> inv_prefix b = None) \<and>
     (\<forall>r < length as. as ! r = None \<longrightarrow> offs ! r \<noteq> n))"

definition moved_back :: "nat \<Rightarrow> block option list \<Rightarrow> usize list \<Rightarrow> usize list \<Rightarrow> bool" where
  "moved_back n as offs offs' = (\<forall>r < length as. as ! r = None \<longrightarrow> offs' ! r = (if offs ! r = Suc n then n else offs ! r))"

lemma moved_back_nth:
  "moved_back n as offs offs' \<Longrightarrow> alias_root as l r \<Longrightarrow> offs' ! r = (if offs ! r = Suc n then n else offs ! r)"
  using alias_root_lt by (auto simp: moved_back_def)

lemma cut_flow_fwd:
  assumes "length ss = Suc n" "is_branch (ss ! n)" "Suc n < usize_MAX" "moved_back n as offs offs'"
    and "to_tail taken ss offs as n \<or> unreached ss offs as n"
    and "flow taken ss offs as x ob" "x = Pos n \<Longrightarrow> to_tail taken ss offs as n"
  shows "flow taken (take n ss) offs' as (tail_back n x) ob"
  using assms(6,7)
proof (induction rule: flow.induct)
  case flow_tail
  then show ?case using assms(1) flow.flow_tail [where ss = "take n ss" and taken = taken] by simp
next
  case (flow_inst pc)
  then have "pc < n" using assms(1,2) by (metis less_SucE)
  then show ?case using flow_inst assms(1) flow.flow_inst [of pc "take n ss" taken] by (simp add: min_def)
next
  case (flow_goto pc b t ob)
  show ?case
  proof (cases "pc = n")
    case True
    have "flow taken ss offs as (Pos pc) ob" by (rule flow.flow_goto [where taken = taken, OF flow_goto.hyps])
    then have "ob = AtTail" using True flow_goto.prems by (simp add: to_tail_def)
    then show ?thesis using True assms(1) flow.flow_tail [where ss = "take n ss" and taken = taken] by simp
  next
    case False
    then have "pc < n" using flow_goto.hyps(1) assms(1) by simp
    then have pc: "pc < length (take n ss)" "take n ss ! pc = Branch b" "tail_back n (Pos pc) = Pos pc"
      using assms(1) flow_goto.hyps(2) by simp_all
    have "flow taken (take n ss) offs' as (Lab t) ob" using flow_goto.IH by simp
    then show ?thesis unfolding pc(3) by (rule flow.flow_goto [where taken = taken, OF pc(1,2) flow_goto.hyps(3,4)])
  qed
next
  case (flow_skip pc b ob)
  show ?case
  proof (cases "pc = n")
    case True
    have "flow taken ss offs as (Pos pc) ob" by (rule flow.flow_skip [where taken = taken, OF flow_skip.hyps])
    then have "ob = AtTail" using True flow_skip.prems by (simp add: to_tail_def)
    then show ?thesis using True assms(1) flow.flow_tail [where ss = "take n ss" and taken = taken] by simp
  next
    case False
    then have lt: "pc < n" using flow_skip.hyps(1) assms(1) by simp
    have "Suc pc = n \<Longrightarrow> to_tail taken ss offs as n"
      using assms(5) flow_skip.hyps(2,3) by (auto simp: unreached_def)
    then have step: "flow taken (take n ss) offs' as (Pos (Suc pc)) ob" using flow_skip.IH False by simp
    have pc: "pc < length (take n ss)" "take n ss ! pc = Branch b" "tail_back n (Pos pc) = Pos pc"
      using assms(1) flow_skip.hyps(2) lt by simp_all
    show ?thesis unfolding pc(3) by (rule flow.flow_skip [where taken = taken, OF pc(1,2) flow_skip.hyps(3,4) step])
  qed
next
  case (flow_bound l r ob)
  have "offs ! r = n \<Longrightarrow> to_tail taken ss offs as n"
    using assms(5) alias_root_lt [OF flow_bound.hyps(1)] by (auto simp: unreached_def)
  moreover have "offs' ! r = (if offs ! r = Suc n then n else offs ! r)" by (rule moved_back_nth [OF assms(4) flow_bound.hyps(1)])
  moreover have "offs' ! r \<noteq> usize_MAX" using calculation(2) flow_bound.hyps(2) assms(3) by auto
  ultimately show ?case using flow_bound flow.flow_bound [OF flow_bound.hyps(1), of offs' taken "take n ss"] by auto
next
  case (flow_open l r)
  then show ?case using moved_back_nth [OF assms(4) flow_open.hyps(1)] assms(3) by (auto intro: flow.flow_open)
qed

fun tail_forth :: "nat \<Rightarrow> loc \<Rightarrow> loc" where
  "tail_forth n (Pos p) = Pos (if p = n then Suc n else p)"
| "tail_forth n (Lab l) = Lab l"

lemma cut_flow_bwd:
  assumes "length ss = Suc n" "is_branch (ss ! n)" "Suc n < usize_MAX" "moved_back n as offs offs'"
    and "to_tail taken ss offs as n \<or> unreached ss offs as n"
    and "flow taken (take n ss) offs' as x ob"
  shows "flow taken ss offs as (tail_forth n x) ob"
  using assms(6)
proof (induction rule: flow.induct)
  case flow_tail
  then show ?case using assms(1) flow.flow_tail [where ss = ss and taken = taken] by simp
next
  case (flow_inst pc)
  then show ?case using assms(1) flow.flow_inst [of pc ss taken] by (simp add: min_def)
next
  case (flow_goto pc b t ob)
  then have pc: "pc < length ss" "ss ! pc = Branch b" "tail_forth n (Pos pc) = Pos pc" using assms(1) by simp_all
  have "flow taken ss offs as (Lab t) ob" using flow_goto.IH by simp
  then show ?case unfolding pc(3) by (rule flow.flow_goto [where taken = taken, OF pc(1,2) flow_goto.hyps(3,4)])
next
  case (flow_skip pc b ob)
  have "flow taken ss offs as (Pos (Suc pc)) ob"
  proof (cases "Suc pc = n")
    case True
    then have "to_tail taken ss offs as n" using assms(5) flow_skip.hyps by (auto simp: unreached_def)
    moreover have "ob = AtTail" using True flow_skip.IH assms(1) flow_at_tail [of taken ss] by simp
    ultimately show ?thesis using True by (simp add: to_tail_def)
  qed (use flow_skip.IH in simp)
  note step = this
  have pc: "pc < length ss" "ss ! pc = Branch b" "tail_forth n (Pos pc) = Pos pc" using assms(1) flow_skip.hyps(1,2) by simp_all
  show ?case unfolding pc(3) by (rule flow.flow_skip [where taken = taken, OF pc(1,2) flow_skip.hyps(3,4) step])
next
  case (flow_bound l r ob)
  have o: "offs' ! r = (if offs ! r = Suc n then n else offs ! r)" by (rule moved_back_nth [OF assms(4) flow_bound.hyps(1)])
  have "flow taken ss offs as (Pos (offs ! r)) ob"
  proof (cases "offs ! r = n")
    case True
    then have "to_tail taken ss offs as n"
      using assms(5) alias_root_lt [OF flow_bound.hyps(1)] by (auto simp: unreached_def)
    moreover have "ob = AtTail" using True o flow_bound.IH assms(1) flow_at_tail [of taken ss] by simp
    ultimately show ?thesis using True by (simp add: to_tail_def)
  qed (use flow_bound.IH o in \<open>simp split: if_splits\<close>)
  moreover have "offs ! r \<noteq> usize_MAX" using o flow_bound.hyps(2) assms(3) by auto
  ultimately show ?case using flow.flow_bound [OF flow_bound.hyps(1)] by simp
next
  case (flow_open l r)
  then show ?case using moved_back_nth [OF assms(4) flow_open.hyps(1)] assms(3) by (auto intro!: flow.flow_open split: if_splits)
qed

text \<open>A conditional branch over an unconditional one is the inverted branch with the two targets swapped.\<close>

definition pair_at :: "slot list \<Rightarrow> nat \<Rightarrow> branch_ref \<Rightarrow> block \<Rightarrow> block \<Rightarrow> bool" where
  "pair_at ss m br pt t = (length ss = Suc (Suc m) \<and> ss ! m = Branch br \<and> inv_prefix br \<noteq> None \<and> target br = LBlock pt \<and>
     (\<exists>b. ss ! Suc m = Branch b \<and> inv_prefix b = None \<and> target b = LBlock t))"

lemma pair_flow:
  assumes "pair_at ss m br pt t"
  shows "flow taken ss offs as (Pos m) ob \<longleftrightarrow> flow taken ss offs as (Lab (if taken (prefix br) then pt else t)) ob"
    and "flow taken ss offs as (Pos (Suc m)) ob \<longleftrightarrow> flow taken ss offs as (Lab t) ob"
proof -
  obtain b where p: "length ss = Suc (Suc m)" "ss ! m = Branch br" "inv_prefix br \<noteq> None" "target br = LBlock pt"
    "ss ! Suc m = Branch b" "inv_prefix b = None" "target b = LBlock t"
    using assms unfolding pair_at_def by blast
  have 1: "flow taken ss offs as (Pos (Suc m)) ob \<longleftrightarrow> flow taken ss offs as (Lab t) ob"
    using flow_goto_iff [of "Suc m" ss b t taken] p by simp
  then show "flow taken ss offs as (Pos (Suc m)) ob \<longleftrightarrow> flow taken ss offs as (Lab t) ob" .
  have "flow taken ss offs as (Pos m) ob \<longleftrightarrow> flow taken ss offs as (Lab pt) ob" if "taken (prefix br)"
    using flow_goto_iff [of m ss br pt taken] p that by simp
  moreover have "flow taken ss offs as (Pos m) ob \<longleftrightarrow> flow taken ss offs as (Pos (Suc m)) ob" if "\<not> taken (prefix br)"
    using flow_skip_iff [of m ss br taken] p that by simp
  ultimately show "flow taken ss offs as (Pos m) ob \<longleftrightarrow> flow taken ss offs as (Lab (if taken (prefix br) then pt else t)) ob"
    using 1 by simp
qed

lemma swap_flow:
  assumes "pair_at ss m br pt t" "pair_at ss' m br' t pt" "taken (prefix br') = (\<not> taken (prefix br))"
    and "take m ss' = take m ss" "\<forall>r < length as. as ! r = None \<longrightarrow> offs ! r \<noteq> Suc m"
    and "flow taken ss offs as x ob" "x \<noteq> Pos (Suc m)"
  shows "flow taken ss' offs as x ob"
proof -
  have len: "length ss = Suc (Suc m)" "length ss' = Suc (Suc m)" using assms(1,2) by (simp_all add: pair_at_def)
  have same: "ss' ! pc = ss ! pc" if "pc < m" for pc using assms(4) that by (metis nth_take)
  have brs: "is_branch (ss ! pc)" if "m \<le> pc" "pc < length ss" for pc
    using that assms(1) len(1) by (auto simp: pair_at_def le_Suc_eq less_Suc_eq)
  have "flow taken ss' offs as (if x = Pos (Suc m) then Lab t else x) ob"
    using assms(6)
  proof (induction rule: flow.induct)
    case flow_tail
    then show ?case using len flow.flow_tail [where ss = ss' and taken = taken] by simp
  next
    case (flow_inst pc)
    then have "pc < m" using brs not_le by blast
    moreover have "take pc ss' = take pc ss" using assms(4) calculation by (metis min.strict_order_iff take_take)
    ultimately show ?case using flow_inst len same [of pc] flow.flow_inst [of pc ss' taken] by simp
  next
    case (flow_goto pc b u ob)
    consider "pc < m" | "pc = m" | "pc = Suc m" using flow_goto.hyps(1) len by linarith
    then show ?case
    proof cases
      case 1
      then have pc: "pc < length ss'" "ss' ! pc = Branch b" using len same [of pc] flow_goto.hyps(2) by simp_all
      have "flow taken ss' offs as (Lab u) ob" using flow_goto.IH by simp
      from flow.flow_goto [where taken = taken, OF pc flow_goto.hyps(3,4) this] show ?thesis using 1 by simp
    next
      case 2
      then have "b = br" "u = pt" using flow_goto.hyps(2,3) assms(1) by (auto simp: pair_at_def)
      then have "taken (prefix br)" using flow_goto.hyps(4) assms(1) by (auto simp: pair_at_def)
      then show ?thesis using 2 flow_goto.IH \<open>u = pt\<close> pair_flow(1) [OF assms(2)] assms(3) by simp
    next
      case 3
      then have "u = t" using flow_goto.hyps(2,3) assms(1) by (auto simp: pair_at_def)
      then show ?thesis using 3 flow_goto.IH by simp
    qed
  next
    case (flow_skip pc b ob)
    consider "pc < m" | "pc = m" | "pc = Suc m" using flow_skip.hyps(1) len by linarith
    then show ?case
    proof cases
      case 1
      then have pc: "pc < length ss'" "ss' ! pc = Branch b" using len same [of pc] flow_skip.hyps(2) by simp_all
      have "flow taken ss' offs as (Pos (Suc pc)) ob" using flow_skip.IH 1 by simp
      from flow.flow_skip [where taken = taken, OF pc flow_skip.hyps(3,4) this] show ?thesis using 1 by simp
    next
      case 2
      then have "b = br" using flow_skip.hyps(2) assms(1) by (auto simp: pair_at_def)
      then show ?thesis using 2 flow_skip.IH flow_skip.hyps(4) pair_flow(1) [OF assms(2)] assms(3) by simp
    next
      case 3
      then show ?thesis using flow_skip.hyps(2,3) assms(1) by (auto simp: pair_at_def)
    qed
  next
    case (flow_bound l r ob)
    then have "offs ! r \<noteq> Suc m" using alias_root_lt assms(5) by blast
    then show ?case using flow_bound by (auto intro: flow.flow_bound [where taken = taken])
  next
    case (flow_open l r)
    then show ?case by (auto intro: flow.flow_open [where taken = taken])
  qed
  then show ?thesis using assms(7) by simp
qed

text \<open>Labels in front of an unconditional branch may take the target of the branch instead.\<close>

definition threads :: "slot list \<Rightarrow> usize list \<Rightarrow> block option list \<Rightarrow> nat \<Rightarrow> block list \<Rightarrow> block \<Rightarrow> block \<Rightarrow> bool" where
  "threads ss offs as n ls t rt = (n < length ss \<and> n \<noteq> usize_MAX \<and>
     (\<exists>b. ss ! n = Branch b \<and> inv_prefix b = None \<and> target b = LBlock t) \<and>
     (\<forall>l \<in> set ls. l < length as \<and> as ! l = None \<and> offs ! l = n) \<and>
     alias_root as t rt \<and> offs ! rt \<noteq> n)"

lemma threads_root:
  "threads ss offs as n ls t rt \<Longrightarrow> alias_root as l r \<Longrightarrow> alias_root (mark as ls (Some t)) l (if r \<in> set ls then rt else r)"
  unfolding threads_def by (metis redirect_root)

lemma threads_goto: "threads ss offs as n ls t rt \<Longrightarrow> flow taken ss offs as' (Pos n) ob \<longleftrightarrow> flow taken ss offs as' (Lab t) ob"
  unfolding threads_def using flow_goto_iff [where taken = taken] by blast

lemma thread_flow_fwd:
  assumes "threads ss offs as n ls t rt" "flow taken ss offs as x ob"
  shows "flow taken ss offs (mark as ls (Some t)) x ob"
  using assms(2)
proof (induction rule: flow.induct)
  case (flow_bound l r ob)
  note root = threads_root [OF assms(1) flow_bound.hyps(1)]
  show ?case
  proof (cases "r \<in> set ls")
    case True
    then have "offs ! r = n" using assms(1) by (simp add: threads_def)
    then have t: "flow taken ss offs (mark as ls (Some t)) (Lab t) ob" using flow_bound.IH threads_goto [OF assms(1)] by simp
    have "rt \<notin> set ls" "alias_root as t rt" using assms(1) by (auto simp: threads_def)
    then have "alias_root (mark as ls (Some t)) t rt" using threads_root [OF assms(1)] by fastforce
    from flow_lab_cong [OF this _ _ _ t, of "mark as ls (Some t)" l offs] root True show ?thesis by simp
  qed (use root flow_bound in \<open>auto intro: flow.flow_bound [where taken = taken]\<close>)
next
  case (flow_open l r)
  have "r \<notin> set ls" using assms(1) flow_open.hyps(2) by (auto simp: threads_def)
  then show ?case using threads_root [OF assms(1) flow_open.hyps(1)] flow_open.hyps(2) by (auto intro: flow.flow_open [where taken = taken])
qed (auto intro: flow.intros [where taken = taken])

lemma thread_flow_bwd:
  assumes "threads ss offs as n ls t rt" "flow taken ss offs (mark as ls (Some t)) x ob"
    and "\<forall>l < length as. \<exists>r. alias_root as l r"
  shows "flow taken ss offs as x ob"
  using assms(2)
proof (induction rule: flow.induct)
  case (flow_bound l r' ob)
  obtain r where r: "alias_root as l r" using assms(3) alias_root_lt [OF flow_bound.hyps(1)] by auto
  have r': "r' = (if r \<in> set ls then rt else r)" using alias_root_det [OF flow_bound.hyps(1) threads_root [OF assms(1) r]] .
  show ?case
  proof (cases "r \<in> set ls")
    case True
    have "alias_root as t rt" "offs ! r = n" "n \<noteq> usize_MAX" using assms(1) True by (auto simp: threads_def)
    then have "flow taken ss offs as (Pos (offs ! r)) ob"
      using flow_bound.IH r' True flow_bound.hyps(2) threads_goto [OF assms(1)] flow_bound_iff [of as t rt offs taken] by simp
    then show ?thesis using flow_bound_iff [OF r, of offs taken] \<open>offs ! r = n\<close> \<open>n \<noteq> usize_MAX\<close> by simp
  qed (use r r' flow_bound in \<open>auto intro: flow.flow_bound [where taken = taken]\<close>)
next
  case (flow_open l r')
  obtain r where r: "alias_root as l r" using assms(3) alias_root_lt [OF flow_open.hyps(1)] by auto
  have r': "r' = (if r \<in> set ls then rt else r)" using alias_root_det [OF flow_open.hyps(1) threads_root [OF assms(1) r]] .
  show ?case
  proof (cases "r \<in> set ls")
    case True
    have "alias_root as t rt" "offs ! r = n" "n \<noteq> usize_MAX" using assms(1) True by (auto simp: threads_def)
    moreover from this have "flow taken ss offs as (Lab t) (Open rt)" using flow_open.hyps(2) r' True by (auto intro: flow.flow_open [where taken = taken])
    ultimately show ?thesis
      using r' True threads_goto [OF assms(1)] flow_bound_iff [OF r, of offs taken] by simp
  qed (use r r' flow_open in \<open>auto intro: flow.flow_open [where taken = taken]\<close>)
qed (auto intro: flow.intros [where taken = taken])

section \<open>Equivalence of buffers\<close>

text \<open>The position after the first \<open>k\<close> instructions that are not branches.\<close>

fun resume :: "slot list \<Rightarrow> nat \<Rightarrow> nat" where
  "resume ss 0 = 0"
| "resume [] (Suc k) = 0"
| "resume (s # ss) (Suc k) = Suc (resume ss (if is_branch s then Suc k else k))"

lemma insts_simps [simp]: "insts [] = 0" "insts (s # ss) = (if is_branch s then insts ss else Suc (insts ss))"
  "insts (ss @ ss') = insts ss + insts ss'"
  by (simp_all add: insts_def)

lemma resume_le: "k \<le> insts ss \<Longrightarrow> resume ss k \<le> length ss"
  by (induction ss k rule: resume.induct) (auto split: if_splits)

lemma resume_append: "k \<le> insts ss \<Longrightarrow> resume (ss @ ss') k = resume ss k"
  by (induction ss k rule: resume.induct) (auto split: if_splits)

lemma resume_not_branch:
  "k \<le> insts ss \<Longrightarrow> resume ss k = Suc p \<Longrightarrow> \<not> is_branch (ss ! p)"
proof (induction ss k arbitrary: p rule: resume.induct)
  case (3 s ss k)
  then show ?case
  proof (cases p)
    case 0
    then have "resume ss (if is_branch s then Suc k else k) = 0" using 3 by simp
    moreover have "resume ss (Suc k) \<noteq> 0" if "is_branch s" using that 3(2) by (cases ss) auto
    ultimately show ?thesis using 0 by (auto split: if_splits)
  next
    case (Suc p')
    then show ?thesis using 3(1) [of p'] 3(2,3) by (auto split: if_splits)
  qed
qed auto

lemma resume_cong: "map is_branch ss = map is_branch ss' \<Longrightarrow> resume ss k = resume ss' k"
proof (induction ss k arbitrary: ss' rule: resume.induct)
  case (3 s ss k)
  then obtain s' ss'' where "ss' = s' # ss''" by (cases ss') auto
  with 3 show ?case by auto
qed auto

text \<open>Two buffers are equivalent when they have the same instructions apart from branches, and control continues at the
  same instruction from every label and after every instruction.\<close>

definition flow_eq :: "(string \<Rightarrow> bool) \<Rightarrow> emit_buffer \<Rightarrow> emit_buffer \<Rightarrow> bool" where
  "flow_eq taken B B' = (filter (\<lambda>s. \<not> is_branch s) (slots B) = filter (\<lambda>s. \<not> is_branch s) (slots B') \<and>
     (\<forall>l ob. bflow taken B (Lab l) ob \<longleftrightarrow> bflow taken B' (Lab l) ob) \<and>
     (\<forall>k ob. k \<le> insts (slots B) \<longrightarrow> (bflow taken B (Pos (resume (slots B) k)) ob \<longleftrightarrow>
        bflow taken B' (Pos (resume (slots B') k)) ob)))"

lemma flow_eq_insts: "flow_eq taken B B' \<Longrightarrow> insts (slots B') = insts (slots B)"
  by (simp add: flow_eq_def insts_def)

lemma flow_eq_refl [simp]: "flow_eq taken B B"
  by (simp add: flow_eq_def)

lemma flow_eq_sym: "flow_eq taken B B' \<Longrightarrow> flow_eq taken B' B"
  using flow_eq_insts [of taken B B'] by (simp add: flow_eq_def)

lemma flow_eq_trans: "flow_eq taken B B' \<Longrightarrow> flow_eq taken B' B'' \<Longrightarrow> flow_eq taken B B''"
  using flow_eq_insts [of taken B B'] by (simp add: flow_eq_def)

lemma cut_flow_eq:
  assumes "length (slots B) = Suc n" "is_branch (slots B ! n)" "Suc n < usize_MAX"
    and "moved_back n (label_aliases B) (label_offsets B) (label_offsets B')"
    and "label_aliases B' = label_aliases B" "slots B' = take n (slots B)"
    and "to_tail taken (slots B) (label_offsets B) (label_aliases B) n \<or> unreached (slots B) (label_offsets B) (label_aliases B) n"
  shows "flow_eq taken B B'"
proof -
  have ss: "slots B = slots B' @ [slots B ! n]"
    using assms(1,6) by (metis lessI take_Suc_conv_app_nth take_all le_refl)
  have f: "bflow taken B' (tail_back n x) ob"
    if "bflow taken B x ob" "x = Pos n \<Longrightarrow> to_tail taken (slots B) (label_offsets B) (label_aliases B) n" for x ob
    using cut_flow_fwd [OF assms(1-4,7) that] assms(5,6) by simp
  have b: "bflow taken B (tail_forth n x) ob" if "bflow taken B' x ob" for x ob
    using cut_flow_bwd [OF assms(1-4,7)] that assms(5,6) by simp
  have "bflow taken B (Pos (resume (slots B) k)) ob \<longleftrightarrow> bflow taken B' (Pos (resume (slots B') k)) ob" if "k \<le> insts (slots B)" for k ob
  proof -
    have same: "resume (slots B) k = resume (slots B') k" using that assms(2) resume_append [of k "slots B'"] ss by (metis insts_simps add_0_right)
    let ?p = "resume (slots B) k"
    have "?p \<noteq> Suc n" using resume_not_branch [OF that, of n] assms(2) by blast
    moreover have "to_tail taken (slots B) (label_offsets B) (label_aliases B) n" if "?p = n"
      using assms(7) resume_not_branch [OF \<open>k \<le> insts (slots B)\<close>, of "n - 1"] that by (auto simp: unreached_def)
    moreover have "bflow taken B (Pos (Suc n)) ob \<longleftrightarrow> ob = AtTail" using assms(1) flow_at_tail [of taken "slots B"] by simp
    ultimately show ?thesis using f [of "Pos ?p" ob] b [of "Pos ?p" ob] same by (cases "?p = n") (auto simp: to_tail_def)
  qed
  moreover have "bflow taken B (Lab l) ob \<longleftrightarrow> bflow taken B' (Lab l) ob" for l ob using f [of "Lab l" ob] b [of "Lab l" ob] by auto
  moreover have "filter (\<lambda>s. \<not> is_branch s) (slots B) = filter (\<lambda>s. \<not> is_branch s) (slots B')"
    by (subst ss) (simp add: assms(2))
  ultimately show ?thesis by (simp add: flow_eq_def)
qed

lemma last_two: "length xs = Suc (Suc m) \<Longrightarrow> xs = take m xs @ [xs ! m, xs ! Suc m]"
  by (metis Suc_le_lessD append.assoc append_Cons append_Nil le_refl lessI less_SucI take_Suc_conv_app_nth take_all)

lemma swap_flow_eq:
  assumes "pair_at (slots B) m br pt t" "pair_at (slots B') m br' t pt" "taken (prefix br') = (\<not> taken (prefix br))"
    and "take m (slots B') = take m (slots B)" "\<forall>r < length (label_aliases B). label_aliases B ! r = None \<longrightarrow> label_offsets B ! r \<noteq> Suc m"
    and "label_aliases B' = label_aliases B" "label_offsets B' = label_offsets B"
  shows "flow_eq taken B B'"
proof -
  have iff: "bflow taken B x ob \<longleftrightarrow> bflow taken B' x ob" if "x \<noteq> Pos (Suc m)" for x ob
    using swap_flow [OF assms(1-5) _ that] swap_flow [OF assms(2,1) _ _ _ _ that, of taken] assms(3-7) by auto
  obtain b b' where "slots B ! m = Branch br" "slots B ! Suc m = Branch b" "slots B' ! m = Branch br'" "slots B' ! Suc m = Branch b'"
    and len: "length (slots B) = Suc (Suc m)" "length (slots B') = Suc (Suc m)"
    using assms(1,2) by (auto simp: pair_at_def)
  then have ss: "slots B = take m (slots B) @ [Branch br, Branch b]" "slots B' = take m (slots B) @ [Branch br', Branch b']"
    using last_two [of "slots B" m] last_two [of "slots B'" m] assms(4) by simp_all
  have "map is_branch (slots B) = map is_branch (slots B')" by (subst ss(1), subst ss(2)) simp
  then have r: "resume (slots B) k = resume (slots B') k" for k by (rule resume_cong)
  have "resume (slots B) k \<noteq> Suc m" if "k \<le> insts (slots B)" for k
    using resume_not_branch [OF that, of m] assms(1) by (auto simp: pair_at_def)
  moreover have "filter (\<lambda>s. \<not> is_branch s) (slots B) = filter (\<lambda>s. \<not> is_branch s) (slots B')"
    by (subst ss(1), subst ss(2)) simp
  ultimately show ?thesis using iff r by (simp add: flow_eq_def)
qed

lemma thread_flow_eq:
  assumes "threads (slots B) (label_offsets B) (label_aliases B) n ls t rt" "labels_ok B"
    and "slots B' = slots B" "label_offsets B' = label_offsets B" "label_aliases B' = mark (label_aliases B) ls (Some t)"
  shows "flow_eq taken B B'"
  using thread_flow_fwd [OF assms(1)] thread_flow_bwd [OF assms(1)] assms(2-5) by (auto simp: flow_eq_def labels_ok_def)

end
