(* ===== verification/Emit_Simplify.thy ===== *)
theory Emit_Simplify
  imports Emit_Flow
begin

text \<open>
  The simplification loop at the tail of the buffer (\<open>optimize_branches\<close>): every step keeps the invariant and the control flow,
  and the loop returns.
\<close>

section \<open>One simplification step\<close>

definition unbound :: "emit_buffer \<Rightarrow> block set" where
  "unbound B = {l. l < length (label_offsets B) \<and> label_offsets B ! l = usize_MAX}"

text \<open>What a change of the buffer keeps.\<close>

definition keeps :: "(string \<Rightarrow> bool) \<Rightarrow> emit_buffer \<Rightarrow> emit_buffer \<Rightarrow> bool" where
  "keeps taken B B' = (buffer_inv taken B' \<and> flow_eq taken B B' \<and> unbound B' = unbound B \<and>
     length (slots B') \<le> length (slots B) \<and>
     length (label_offsets B') = length (label_offsets B) \<and> pending B' = pending B \<and> enable_branch_opt B' = enable_branch_opt B)"

lemma keeps_refl: "buffer_inv taken B \<Longrightarrow> keeps taken B B"
  by (simp add: keeps_def)

lemma keeps_trans: "keeps taken B B' \<Longrightarrow> keeps taken B' B'' \<Longrightarrow> keeps taken B B''"
  unfolding keeps_def using flow_eq_trans by fastforce

lemma stats_irrelevant [simp]:
  "live_at (B\<lparr>stats := s\<rparr>) off = live_at B off" "buffer_inv taken (B\<lparr>stats := s\<rparr>) = buffer_inv taken B"
  "flow_eq taken B (B'\<lparr>stats := s\<rparr>) = flow_eq taken B B'"
  "truncated (B\<lparr>stats := s\<rparr>) n ls B' = truncated B n ls B'" "unbound (B\<lparr>stats := s\<rparr>) = unbound B"
  "keeps taken B (B'\<lparr>stats := s\<rparr>) = keeps taken B B'" "keeps taken (B\<lparr>stats := s\<rparr>) B' = keeps taken B B'"
  by (simp_all add: live_at_def buffer_inv_def labels_ok_def slots_ok_def branches_ok_def tail_ok_def flow_eq_def
      truncated_def unbound_def keeps_def)

definition opt_measure :: "emit_buffer \<Rightarrow> nat" where
  "opt_measure B = (\<Sum>b \<leftarrow> latest_branches B. Suc (length (labels_at_this_branch b)))"

lemma opt_measure_split:
  "latest_branches B \<noteq> [] \<Longrightarrow> opt_measure B = (\<Sum>b \<leftarrow> butlast (latest_branches B). Suc (length (labels_at_this_branch b))) +
     Suc (length (labels_at_this_branch (last (latest_branches B))))"
  unfolding opt_measure_def by (cases "latest_branches B" rule: rev_exhaust) simp_all

lemma truncated_moved_back:
  assumes "labels_ok B" "truncated B n ls B'"
  shows "moved_back n (label_aliases B) (label_offsets B) (label_offsets B')"
proof -
  obtain tl where "set tl = live_at B (Suc n)" "label_offsets B' = mark (label_offsets B) tl n"
    using assms(2) by (auto simp: truncated_def)
  then show ?thesis using assms(1) by (auto simp: moved_back_def mark_nth labels_ok_def live_at_def)
qed

lemma truncated_frame:
  assumes "labels_ok B" "truncated B n ls B'" "length (slots B) = Suc n"
  shows "unbound B' = unbound B" "length (label_offsets B') = length (label_offsets B)" "pending B' = pending B"
    "enable_branch_opt B' = enable_branch_opt B" "label_aliases B' = label_aliases B" "slots B' = take n (slots B)"
    "latest_branches B' = butlast (latest_branches B)"
proof -
  obtain tl where tl: "set tl = live_at B (Suc n)" "label_offsets B' = mark (label_offsets B) tl n"
    using assms(2) by (auto simp: truncated_def)
  have "Suc n < usize_MAX" using assms(1,3) by (simp add: labels_ok_def)
  then have "mark (label_offsets B) tl n ! l = usize_MAX \<longleftrightarrow> label_offsets B ! l = usize_MAX" if "l < length (label_offsets B)" for l
    using that tl(1) by (auto simp: mark_nth live_at_def)
  then show "unbound B' = unbound B" using tl(2) by (auto simp: unbound_def)
qed (use assms(2) in \<open>auto simp: truncated_def\<close>)

text \<open>Removing the branch at the tail.\<close>

lemma truncate_keeps:
  assumes "buffer_inv taken B" "latest_branches B \<noteq> []" "start (last (latest_branches B)) + 1 = length (slots B)"
  defines "n \<equiv> start (last (latest_branches B))"
  assumes "to_tail taken (slots B) (label_offsets B) (label_aliases B) n \<or> unreached (slots B) (label_offsets B) (label_aliases B) n"
  shows "\<exists>B'. truncate_last_branch (B\<lparr>stats := s\<rparr>) = Some B' \<and> keeps taken B B' \<and> opt_measure B' < opt_measure B"
proof -
  let ?ls = "labels_at_this_branch (last (latest_branches B))"
  obtain B' where B': "truncate_last_branch (B\<lparr>stats := s\<rparr>) = Some B'" "truncated B n ?ls B'"
    using truncate_truncated [of taken "B\<lparr>stats := s\<rparr>"] assms(1-3) by (auto simp: n_def)
  have lo: "labels_ok B" using assms(1) by (simp add: buffer_inv_def)
  have len: "length (slots B) = Suc n" using assms(3) by (simp add: n_def)
  note fr = truncated_frame [OF lo B'(2) len]
  obtain br where "slots B ! n = Branch br" using last_branch [OF assms(1-3)] by (metis n_def)
  then have "flow_eq taken B B'"
    using cut_flow_eq [OF len _ _ truncated_moved_back [OF lo B'(2)] fr(5,6) assms(5)] lo len by (simp add: labels_ok_def)
  moreover have "buffer_inv taken B'" using truncated_inv [OF assms(1-3)] B'(2) by (simp add: n_def)
  ultimately have "keeps taken B B'" using fr len by (simp add: keeps_def)
  moreover have "opt_measure B' < opt_measure B"
    using opt_measure_split [OF assms(2)] fr(7) by (simp add: opt_measure_def)
  ultimately show ?thesis using B'(1) by blast
qed

lemma tail_branch_to_tail:
  fixes B :: emit_buffer
  assumes "length (slots B) = Suc n" "slots B ! n = Branch br" "target br = LBlock t" "alias_root (label_aliases B) t r"
    and "label_offsets B ! r = Suc n" "Suc n < usize_MAX"
  shows "to_tail taken (slots B) (label_offsets B) (label_aliases B) n"
proof -
  have tail: "bflow taken B (Pos (Suc n)) ob \<longleftrightarrow> ob = AtTail" for ob using flow_at_tail [of taken "slots B"] assms(1) by simp
  then have lab: "bflow taken B (Lab t) ob \<longleftrightarrow> ob = AtTail" for ob using flow_bound_iff [OF assms(4), of "label_offsets B" taken] assms(5,6) by simp
  have "bflow taken B (Pos n) ob \<longleftrightarrow> ob = AtTail" for ob
  proof (cases "inv_prefix br = None \<or> taken (prefix br)")
    case True
    then show ?thesis using flow_goto_iff [where taken = taken, OF _ assms(2,3) True] assms(1) lab by simp
  next
    case False
    then show ?thesis using flow_skip_iff [where taken = taken, OF _ assms(2)] assms(1) tail by simp
  qed
  then show ?thesis by (simp add: to_tail_def)
qed

text \<open>Threading the labels in front of the branch at the tail.\<close>

lemma thread_keeps:
  assumes "buffer_inv taken B" "latest_branches B \<noteq> []"
  defines "b \<equiv> last (latest_branches B)"
  assumes "threads (slots B) (label_offsets B) (label_aliases B) (start b) (labels_at_this_branch b) t rt"
  defines "B' \<equiv> B\<lparr>label_aliases := mark (label_aliases B) (labels_at_this_branch b) (Some t),
    latest_branches := butlast (latest_branches B) @ [b\<lparr>labels_at_this_branch := []\<rparr>]\<rparr>"
  shows "keeps taken B B'" "live_at B' (start b) = {}"
proof -
  let ?ls = "labels_at_this_branch b" and ?n = "start b"
  have lo: "labels_ok B" and bo: "branches_ok B" and so: "slots_ok taken B" and to: "tail_ok B" using assms(1) by (simp_all add: buffer_inv_def)
  have lb: "latest_branches B = butlast (latest_branches B) @ [b]" using assms(2) by (simp add: b_def)
  have ls: "set ?ls = live_at B ?n" and n: "?n < length (slots B)" using bo assms(2) by (simp_all add: b_def branches_ok_def)
  have la: "length (label_aliases B) = length (label_offsets B)" using lo by (simp add: labels_ok_def)
  have mem: "l \<in> live_at B' off \<longleftrightarrow> l \<in> live_at B off \<and> l \<notin> set ?ls" for l off
    using la by (auto simp: live_at_def B'_def mark_nth split: if_splits)
  have live: "live_at B' off = (if off = ?n then {} else live_at B off)" for off
  proof -
    have "live_at B off \<inter> live_at B ?n = {}" if "off \<noteq> ?n" using that by (auto simp: live_at_def)
    then show ?thesis using mem ls by auto
  qed
  then show "live_at B' ?n = {}" by simp
  have nmax: "?n \<noteq> usize_MAX" using n lo by (simp add: labels_ok_def)
  have "\<exists>r. alias_root (label_aliases B') l r" if "l < length (label_offsets B)" for l
  proof -
    obtain r where "alias_root (label_aliases B) l r" using lo \<open>l < length (label_offsets B)\<close> by (rule inv_root)
    from threads_root [OF assms(4) this] show ?thesis by (auto simp: B'_def)
  qed
  moreover have "l \<notin> set ?ls" if "label_offsets B ! l = usize_MAX" for l using ls nmax that by (auto simp: live_at_def)
  ultimately have "labels_ok B'" using lo la by (auto simp: labels_ok_def B'_def mark_nth split: if_splits)
  moreover have "slots_ok taken B'" using so by (simp add: slots_ok_def B'_def)
  moreover have "branches_ok B'"
  proof -
    obtain bs where bs: "latest_branches B = bs @ [b]" "latest_branches B' = bs @ [b\<lparr>labels_at_this_branch := []\<rparr>]"
      using lb by (simp add: B'_def)
    have sorted: "sorted_wrt (<) (map start bs)" and lt: "\<forall>x \<in> set bs. start x < ?n"
      and each: "\<forall>x \<in> set bs \<union> {b}. start x < length (slots B) \<and> is_branch (slots B ! start x) \<and> set (labels_at_this_branch x) = live_at B (start x)"
      using bo unfolding branches_ok_def bs(1) by (simp_all add: sorted_wrt_append)
    have "\<forall>x \<in> set bs. live_at B' (start x) = live_at B (start x)" using lt live by auto
    moreover have "slots B' = slots B" by (simp add: B'_def)
    ultimately show ?thesis unfolding branches_ok_def bs(2) using sorted lt each live by (simp add: sorted_wrt_append)
  qed
  moreover have "tail_ok B'" using to live n by (simp add: tail_ok_def B'_def)
  ultimately have "buffer_inv taken B'" by (simp add: buffer_inv_def)
  moreover have "flow_eq taken B B'" by (rule thread_flow_eq [OF assms(4) lo]) (simp_all add: B'_def)
  ultimately show "keeps taken B B'" by (simp add: keeps_def unbound_def B'_def)
qed

text \<open>Inverting the branch before the last one.\<close>

lemma slot_update_inv:
  assumes "buffer_inv taken B" "m < length (slots B)" "slots B ! m = Branch br"
    and "\<exists>t < length (label_offsets B). target br' = LBlock t" "\<forall>ip. inv_prefix br' = Some ip \<longrightarrow> taken ip = (\<not> taken (prefix br'))"
  shows "buffer_inv taken (B\<lparr>slots := (slots B)[m := Branch br']\<rparr>)"
proof -
  let ?B = "B\<lparr>slots := (slots B)[m := Branch br']\<rparr>"
  have live: "live_at ?B off = live_at B off" for off by (simp add: live_at_def)
  have "slots_ok taken ?B" unfolding slots_ok_def
  proof (intro allI impI)
    fix b assume "Branch b \<in> set (slots ?B)"
    then have "b = br' \<or> Branch b \<in> set (slots B)" using set_update_subset_insert [of "slots B" m] by auto
    then show "(\<exists>t < length (label_offsets ?B). target b = LBlock t) \<and> (\<forall>ip. inv_prefix b = Some ip \<longrightarrow> taken ip = (\<not> taken (prefix b)))"
      using assms(1,4,5) by (auto simp: buffer_inv_def slots_ok_def)
  qed
  moreover have "is_branch ((slots B)[m := Branch br'] ! p) = is_branch (slots B ! p)" for p
    using assms(2,3) by (cases "p = m") simp_all
  ultimately show ?thesis using assms(1) live by (simp add: buffer_inv_def labels_ok_def branches_ok_def tail_ok_def)
qed

definition inverted_branch :: "branch_ref \<Rightarrow> string \<Rightarrow> label_ref \<Rightarrow> branch_ref" where
  "inverted_branch br ip t = br\<lparr>prefix := ip, inv_prefix := Some (prefix br), target := t\<rparr>"

lemma invert_keeps:
  assumes "buffer_inv taken B" "latest_branches B \<noteq> []" "start (last (latest_branches B)) = Suc m" "length (slots B) = Suc (Suc m)"
    and "slots B ! Suc m = Branch br" "inv_prefix br = None" "target br = LBlock t"
    and "slots B ! m = Branch prev" "inv_prefix prev = Some ip" "target prev = LBlock pt"
    and "alias_root (label_aliases B) pt rp" "label_offsets B ! rp = Suc (Suc m)" "live_at B (Suc m) = {}"
  shows "\<exists>B1. truncate_last_branch (B\<lparr>stats := s\<rparr>) = Some B1 \<and> slots B1 ! m = Branch prev \<and> length (slots B1) = Suc m \<and>
    keeps taken B (B1\<lparr>slots := (slots B1)[m := Branch (inverted_branch prev ip (target br))]\<rparr>) \<and>
    opt_measure (B1\<lparr>slots := (slots B1)[m := Branch (inverted_branch prev ip (target br))]\<rparr>) < opt_measure B"
proof -
  let ?n = "Suc m" and ?inv = "inverted_branch prev ip (target br)"
  obtain B1 where B1: "truncate_last_branch (B\<lparr>stats := s\<rparr>) = Some B1"
      "truncated B ?n (labels_at_this_branch (last (latest_branches B))) B1"
    using truncate_truncated [of taken "B\<lparr>stats := s\<rparr>"] assms(1-4) by auto
  have lo: "labels_ok B" and so: "slots_ok taken B" using assms(1) by (simp_all add: buffer_inv_def)
  note fr = truncated_frame [OF lo B1(2) assms(4)]
  let ?B2 = "B1\<lparr>slots := (slots B1)[m := Branch ?inv]\<rparr>"
  let ?C = "B\<lparr>slots := (slots B)[m := Branch ?inv, ?n := Branch (br\<lparr>target := LBlock pt\<rparr>)]\<rparr>"
  have tk: "taken ip = (\<not> taken (prefix prev))" and t: "t < length (label_offsets B)"
    using so assms(4,5,7-9) by (metis slots_ok_def nth_mem lessI less_SucI label_ref.inject(1))+
  have p1: "pair_at (slots B) m prev pt t" using assms(4-10) by (simp add: pair_at_def)
  have p2: "pair_at (slots ?C) m ?inv t pt" using assms(4-10) by (simp add: pair_at_def inverted_branch_def)
  have "\<forall>r < length (label_aliases B). label_aliases B ! r = None \<longrightarrow> label_offsets B ! r \<noteq> ?n"
    using assms(13) lo by (auto simp: live_at_def labels_ok_def)
  from swap_flow_eq [OF p1 p2 _ _ this] have "flow_eq taken B ?C" using tk by (simp add: inverted_branch_def)
  moreover have "flow_eq taken ?C ?B2"
  proof (rule cut_flow_eq)
    show "to_tail taken (slots ?C) (label_offsets ?C) (label_aliases ?C) ?n \<or> unreached (slots ?C) (label_offsets ?C) (label_aliases ?C) ?n"
      using tail_branch_to_tail [of ?C ?n "br\<lparr>target := LBlock pt\<rparr>" pt rp] assms(4,11,12) lo by (simp add: labels_ok_def)
    show "moved_back ?n (label_aliases ?C) (label_offsets ?C) (label_offsets ?B2)"
      using truncated_moved_back [OF lo B1(2)] by simp
  qed (use assms(4) fr(5,6) lo in \<open>simp_all add: labels_ok_def take_update_swap list_update_beyond\<close>)
  ultimately have "flow_eq taken B ?B2" by (rule flow_eq_trans)
  moreover have m: "m < length (slots B1)" "slots B1 ! m = Branch prev" using fr(6) assms(4,8) by simp_all
  moreover have "buffer_inv taken B1" using truncated_inv [OF assms(1,2)] B1(2) assms(3,4) by simp
  then have "buffer_inv taken ?B2"
    by (rule slot_update_inv) (use m fr(2) t tk assms(7) in \<open>simp_all add: inverted_branch_def\<close>)
  moreover have "unbound ?B2 = unbound B" using fr(1) by (simp add: unbound_def)
  ultimately have "keeps taken B ?B2" using fr assms(4) by (simp add: keeps_def)
  moreover have "opt_measure ?B2 < opt_measure B" using opt_measure_split [OF assms(2)] fr(7) by (simp add: opt_measure_def)
  ultimately show ?thesis using B1(1) m fr(6) assms(4) by auto
qed

definition step_ok :: "(string \<Rightarrow> bool) \<Rightarrow> emit_buffer \<Rightarrow> (bool \<times> emit_buffer) rust \<Rightarrow> bool" where
  "step_ok taken B r = (\<exists>c B'. r = Some (c, B') \<and> keeps taken B B' \<and> (c \<longrightarrow> opt_measure B' < opt_measure B))"

lemma step_ok_stop: "buffer_inv taken B \<Longrightarrow> step_ok taken B (Some (False, B))"
  using keeps_refl unfolding step_ok_def by blast

lemma step_ok_cont: "keeps taken B B' \<Longrightarrow> opt_measure B' < opt_measure B \<Longrightarrow> step_ok taken B (Some (True, B'))"
  unfolding step_ok_def by blast

lemma branch_slot:
  assumes "buffer_inv taken B" "is_branch (slots B ! p)" "p < length (slots B)"
  obtains br t r where "slots B ! p = Branch br" "branch_at B p = Some br" "target br = LBlock t" "t < length (label_offsets B)"
    "alias_root (label_aliases B) t r" "resolve_label_offset B t = Some (label_offsets B ! r)"
proof -
  obtain br where br: "slots B ! p = Branch br" using assms(2) by (cases "slots B ! p") auto
  then have "Branch br \<in> set (slots B)" using assms(3) by (metis nth_mem)
  then obtain t where t: "target br = LBlock t" "t < length (label_offsets B)"
    using assms(1) by (auto simp: buffer_inv_def slots_ok_def)
  have lo: "labels_ok B" using assms(1) by (simp add: buffer_inv_def)
  then obtain r where r: "alias_root (label_aliases B) t r" using inv_root t(2) by blast
  show ?thesis using that [OF br _ t r resolve_label_offset_eq [OF lo r]] br assms(3) by (simp add: branch_at_def vec_get_def)
qed

lemma optimize_pair_ok:
  assumes "buffer_inv taken B" "latest_branches B \<noteq> []" "start (last (latest_branches B)) = n" "length (slots B) = Suc n"
    and "labels_at_this_branch (last (latest_branches B)) = []" "start b = n"
    and "slots B ! n = Branch br" "inv_prefix br = None" "target br = LBlock t"
  shows "step_ok taken B (optimize_pair B b br (Suc n))"
proof (cases "length (latest_branches B) > 1")
  case True
  let ?prev = "latest_branches B ! (length (latest_branches B) - 2)"
  let ?p = "start ?prev"
  have bo: "branches_ok B" and lo: "labels_ok B" and so: "slots_ok taken B" using assms(1) by (simp_all add: buffer_inv_def)
  have live: "live_at B n = {}" using bo assms(2,3,5) by (metis branches_ok_def last_in_set set_empty)
  have "?prev \<in> set (latest_branches B)" using True by simp
  then have p: "?p < length (slots B)" "is_branch (slots B ! ?p)" using bo by (auto simp: branches_ok_def)
  obtain prev pt rp where pv: "slots B ! ?p = Branch prev" "branch_at B ?p = Some prev" "target prev = LBlock pt"
      "pt < length (label_offsets B)" "alias_root (label_aliases B) pt rp" "resolve_label_offset B pt = Some (label_offsets B ! rp)"
    using branch_slot [OF assms(1) p(2,1)] .
  consider (dead) "inv_prefix prev = None" "?p + 1 = n" | (inv) ip where "inv_prefix prev = Some ip" "?p + 1 = n" "label_offsets B ! rp = Suc n"
    | (other) "optimize_pair B b br (Suc n) = Some (False, B)"
    using True pv(2,3,6) assms(5,6)
    by (cases "?p + 1 = n"; cases "inv_prefix prev"; cases "label_offsets B ! rp = Suc n")
       (simp_all add: optimize_pair_def Let_def del: bind_eq_Some)
  then show ?thesis
  proof cases
    case dead
    then have "unreached (slots B) (label_offsets B) (label_aliases B) n"
      using pv(1) live lo by (auto simp: unreached_def live_at_def labels_ok_def)
    then obtain B' where "truncate_last_branch (B\<lparr>stats := (stats B)\<lparr>changed := True, dead_jumps_removed := dead_jumps_removed (stats B) + 1\<rparr>\<rparr>) = Some B'"
        "keeps taken B B'" "opt_measure B' < opt_measure B"
      using truncate_keeps [OF assms(1,2)] assms(3,4) by (metis Suc_eq_plus1)
    then show ?thesis using True pv(2) dead assms(5,6)
      by (simp add: optimize_pair_def Let_def step_ok_cont del: bind_eq_Some)
  next
    case inv
    have p1: "slots B ! ?p = Branch prev" "Suc ?p = n" using pv(1) inv by simp_all
    obtain B1 where B1: "truncate_last_branch (B\<lparr>stats := (stats B)\<lparr>changed := True, branches_inverted := branches_inverted (stats B) + 1\<rparr>\<rparr>) = Some B1"
        "slots B1 ! ?p = Branch prev" "length (slots B1) = Suc ?p"
        "keeps taken B (B1\<lparr>slots := (slots B1)[?p := Branch (inverted_branch prev ip (target br))]\<rparr>)"
        "opt_measure (B1\<lparr>slots := (slots B1)[?p := Branch (inverted_branch prev ip (target br))]\<rparr>) < opt_measure B"
      using invert_keeps [OF assms(1,2), of ?p br t prev ip pt rp] assms(3,4,7-9) p1 inv pv(3,5) live by metis
    then have "branch_at B1 ?p = Some prev" "vec_set (slots B1) ?p s = Some ((slots B1)[?p := s])" for s
      by (simp_all add: branch_at_def vec_get_def vec_set_def)
    then show ?thesis using True pv(2,3,6) inv B1 assms(6)
      by (simp add: optimize_pair_def Let_def step_ok_cont inverted_branch_def del: bind_eq_Some)
  next
    case other
    then show ?thesis using step_ok_stop [OF assms(1)] by simp
  qed
qed (simp add: optimize_pair_def step_ok_stop assms(1))

lemma step_ok_trans: "keeps taken B B' \<Longrightarrow> opt_measure B' \<le> opt_measure B \<Longrightarrow> step_ok taken B' r \<Longrightarrow> step_ok taken B r"
  unfolding step_ok_def by (elim exE conjE, intro exI conjI, assumption, erule keeps_trans, assumption) linarith

text \<open>Every step returns, keeps the invariant and the control flow, and the steps that continue make progress.\<close>

lemma optimize_step_ok:
  assumes "buffer_inv taken B"
  shows "step_ok taken B (optimize_step B)"
proof (cases "latest_branches B = []")
  case True
  then show ?thesis using step_ok_stop [OF assms] by (simp add: optimize_step_def)
next
  case False
  let ?b = "last (latest_branches B)" and ?cur = "length (slots B)"
  let ?n = "start ?b" and ?ls = "labels_at_this_branch ?b"
  have bo: "branches_ok B" and lo: "labels_ok B" and so: "slots_ok taken B" using assms by (simp_all add: buffer_inv_def)
  have b: "?n < ?cur" "is_branch (slots B ! ?n)" "set ?ls = live_at B ?n" using bo False by (simp_all add: branches_ok_def)
  obtain br t r where br: "slots B ! ?n = Branch br" "branch_at B ?n = Some br" "target br = LBlock t" "t < length (label_offsets B)"
      "alias_root (label_aliases B) t r" "resolve_label_offset B t = Some (label_offsets B ! r)"
    using branch_slot [OF assms b(2,1)] .
  have nlt: "?cur < usize_MAX" using lo by (simp add: labels_ok_def)
  show ?thesis
  proof (cases "?n + 1 < ?cur \<or> LABEL_LIST_THRESHOLD < length ?ls")
    case True
    then have "optimize_step B = Some (False, B)" using False by (auto simp: optimize_step_def Let_def)
    then show ?thesis using step_ok_stop [OF assms] by simp
  next
    case stay: False
    then have cur: "?cur = Suc ?n" using b(1) by simp
    consider (fall) "label_offsets B ! r = ?cur" | (cond) ip where "label_offsets B ! r \<noteq> ?cur" "inv_prefix br = Some ip"
      | (cycle) "label_offsets B ! r \<noteq> ?cur" "inv_prefix br = None" "label_offsets B ! r = ?n"
      | (jump) "label_offsets B ! r \<noteq> ?cur" "inv_prefix br = None" "label_offsets B ! r \<noteq> ?n"
      by (cases "inv_prefix br"; cases "label_offsets B ! r = ?cur"; cases "label_offsets B ! r = ?n") blast+
    then show ?thesis
    proof cases
      case fall
      have "to_tail taken (slots B) (label_offsets B) (label_aliases B) ?n"
        using tail_branch_to_tail [OF cur br(1,3,5)] fall cur nlt by simp
      then obtain B' where "truncate_last_branch (B\<lparr>stats := (stats B)\<lparr>changed := True, fallthrough_removed := fallthrough_removed (stats B) + 1\<rparr>\<rparr>) = Some B'"
          "keeps taken B B'" "opt_measure B' < opt_measure B"
        using truncate_keeps [OF assms False] cur by (metis Suc_eq_plus1)
      then show ?thesis using False stay br(2,3,6) fall
        by (simp add: optimize_step_def Let_def step_ok_cont del: bind_eq_Some)
    next
      case cond
      then have "optimize_step B = Some (False, B)" using False stay br(2,3,6) by (simp add: optimize_step_def Let_def del: bind_eq_Some)
      then show ?thesis using step_ok_stop [OF assms] by simp
    next
      case cycle
      then have "optimize_step B = Some (False, B)" using False stay br(2,3,6) by (simp add: optimize_step_def Let_def del: bind_eq_Some)
      then show ?thesis using step_ok_stop [OF assms] by simp
    next
      case jump
      let ?B = "B\<lparr>label_aliases := mark (label_aliases B) ?ls (Some t), latest_branches := butlast (latest_branches B) @ [?b\<lparr>labels_at_this_branch := []\<rparr>]\<rparr>"
      have ls: "\<forall>l \<in> set ?ls. l < length (label_aliases B) \<and> label_aliases B ! l = None \<and> label_offsets B ! l = ?n"
        using b(3) lo by (auto simp: live_at_def labels_ok_def)
      then have th: "threads (slots B) (label_offsets B) (label_aliases B) ?n ?ls t r"
        using b(1) nlt br(1,3,5) jump by (auto simp: threads_def)
      have k: "keeps taken B ?B" by (rule thread_keeps(1) [OF assms False th])
      then have inv: "buffer_inv taken ?B" by (simp add: keeps_def)
      have me: "opt_measure ?B + length ?ls = opt_measure B" using opt_measure_split [OF False] opt_measure_split [of ?B] by (simp add: opt_measure_def)
      have al: "set_aliases (label_aliases B) ?ls t = Some (mark (label_aliases B) ?ls (Some t))" using ls by (intro set_aliases_eq) blast
      show ?thesis
      proof (cases "?ls = []")
        case True
        have "optimize_step B = optimize_pair ?B ?b br ?cur"
          using False stay br(2,3,6) jump al True by (simp add: optimize_step_def Let_def del: bind_eq_Some)
        moreover have "step_ok taken ?B (optimize_pair ?B ?b br (Suc ?n))"
          by (rule optimize_pair_ok [OF inv]) (use cur br(1,3) jump in simp_all)
        ultimately show ?thesis using step_ok_trans [OF k] me cur by simp
      next
        case ls0: False
        have "optimize_step B = Some (True, ?B\<lparr>stats := (stats B)\<lparr>changed := True, labels_threaded := labels_threaded (stats B) + length ?ls\<rparr>\<rparr>)"
          using False stay br(2,3,6) jump al ls0 by (simp add: optimize_step_def Let_def del: bind_eq_Some)
        then obtain s where "optimize_step B = Some (True, ?B\<lparr>stats := s\<rparr>)" by blast
        moreover have "length ?ls > 0" using ls0 by simp
        then have "opt_measure ?B < opt_measure B" using me by linarith
        then have "opt_measure (?B\<lparr>stats := s\<rparr>) < opt_measure B" by (simp add: opt_measure_def)
        ultimately show ?thesis using k step_ok_cont [of taken B "?B\<lparr>stats := s\<rparr>"] by (metis stats_irrelevant(6))
      qed
    qed
  qed
qed

interpretation opt: progress_loop optimize_step optimize_loop "buffer_inv taken" "keeps taken" opt_measure for taken
proof
  show "optimize_loop B = Option.bind (optimize_step B) (\<lambda>(c, B'). if c then optimize_loop B' else Some B')" for B
    by (rule optimize_loop.simps)
  show "\<exists>c B'. optimize_step B = Some (c, B') \<and> keeps taken B B' \<and> (c \<longrightarrow> opt_measure B' < opt_measure B)" if "buffer_inv taken B" for B
    using optimize_step_ok [OF that] by (simp add: step_ok_def)
  show "buffer_inv taken B'" if "keeps taken B B'" for B B' using that by (simp add: keeps_def)
  show "keeps taken B B''" if "keeps taken B B'" "keeps taken B' B''" for B B' B'' using that by (rule keeps_trans)
qed

lemma purge_keeps:
  assumes "buffer_inv taken B"
  shows "keeps taken B (purge_latest_branches B)"
proof -
  have "keeps taken B (B\<lparr>latest_branches := []\<rparr>)"
    using assms by (simp add: keeps_def buffer_inv_def labels_ok_def slots_ok_def branches_ok_def tail_ok_def live_at_def flow_eq_def unbound_def)
  then show ?thesis using keeps_refl [OF assms] by (auto simp: purge_latest_branches_def)
qed

lemma clear_keeps:
  assumes "buffer_inv taken B"
  shows "keeps taken B (lazily_clear_labels_at_tail B)"
  using lazily_clear_inv [OF assms] by (simp add: keeps_def flow_eq_def unbound_def)

lemma optimize_branches_ok:
  assumes "buffer_inv taken B"
  shows "\<exists>B'. optimize_branches B = Some B' \<and> keeps taken B B'"
proof (cases "enable_branch_opt B")
  case True
  obtain B' where B': "optimize_loop B = Some B'" "keeps taken B B'" using opt.loop_returns [OF assms] by blast
  moreover have "keeps taken B' (purge_latest_branches B')" using B'(2) by (intro purge_keeps) (simp add: keeps_def)
  ultimately show ?thesis using True keeps_trans by (fastforce simp: optimize_branches_def)
qed (use clear_keeps [OF assms] in \<open>simp add: optimize_branches_def\<close>)

end
