(* ===== verification/Emit_Function.thy ===== *)
theory Emit_Function
  imports Emit_Simplify
begin

text \<open>
  Emission of a whole function (\<open>write_function\<close>) with and without the branch simplifications, and the range checks on its branches.
\<close>

section \<open>Emitting more code\<close>

text \<open>Control that reached the tail goes on in the slot that is appended there.\<close>

inductive goes_on :: "(string \<Rightarrow> bool) \<Rightarrow> slot \<Rightarrow> nat \<Rightarrow> (block \<Rightarrow> obs \<Rightarrow> bool) \<Rightarrow> (obs \<Rightarrow> bool) \<Rightarrow> obs \<Rightarrow> bool"
  for taken s k G where
  on_stop: "F ob \<Longrightarrow> ob \<noteq> AtTail \<Longrightarrow> goes_on taken s k G F ob"
| on_inst: "F AtTail \<Longrightarrow> \<not> is_branch s \<Longrightarrow> goes_on taken s k G F (AtInst k)"
| on_goto: "F AtTail \<Longrightarrow> s = Branch b \<Longrightarrow> target b = LBlock t \<Longrightarrow> inv_prefix b = None \<or> taken (prefix b) \<Longrightarrow>
    goes_on taken s k G (G t) ob \<Longrightarrow> goes_on taken s k G F ob"
| on_skip: "F AtTail \<Longrightarrow> s = Branch b \<Longrightarrow> inv_prefix b \<noteq> None \<Longrightarrow> \<not> taken (prefix b) \<Longrightarrow> goes_on taken s k G F AtTail"

text \<open>The offsets of labels stay inside the buffer.\<close>

definition offs_in :: "slot list \<Rightarrow> usize list \<Rightarrow> block option list \<Rightarrow> bool" where
  "offs_in ss offs as = (length ss < usize_MAX \<and> (\<forall>r < length as. as ! r = None \<longrightarrow> offs ! r = usize_MAX \<or> offs ! r \<le> length ss))"

fun loc_in :: "nat \<Rightarrow> loc \<Rightarrow> bool" where
  "loc_in n (Pos p) = (p \<le> n)"
| "loc_in n (Lab l) = True"

lemma append_flow_pass:
  assumes "flow taken ss offs as x ob0"
  shows "if ob0 = AtTail then \<forall>ob. flow taken (ss @ [s]) offs as (Pos (length ss)) ob \<longrightarrow> flow taken (ss @ [s]) offs as x ob
    else flow taken (ss @ [s]) offs as x ob0"
  using assms
proof (induction rule: flow.induct)
  case (flow_inst pc)
  then show ?case using flow.flow_inst [of pc "ss @ [s]" taken] by (simp add: nth_append)
next
  case (flow_goto pc b t ob)
  then have "flow taken (ss @ [s]) offs as (Pos pc) o' \<longleftrightarrow> flow taken (ss @ [s]) offs as (Lab t) o'" for o'
    using flow_goto_iff [of pc "ss @ [s]" b t taken] by (simp add: nth_append)
  then show ?case using flow_goto.IH by simp
next
  case (flow_skip pc b ob)
  then have "flow taken (ss @ [s]) offs as (Pos pc) o' \<longleftrightarrow> flow taken (ss @ [s]) offs as (Pos (Suc pc)) o'" for o'
    using flow_skip_iff [of pc "ss @ [s]" b taken] by (simp add: nth_append)
  then show ?case using flow_skip.IH by simp
next
  case (flow_bound l r ob)
  then show ?case using flow_bound_iff [OF flow_bound.hyps(1), of offs taken "ss @ [s]"] by simp
qed (auto intro: flow.flow_open)

lemma append_flow_fwd:
  assumes "goes_on taken s (insts ss) (\<lambda>l. flow taken ss offs as (Lab l)) F ob" "F = flow taken ss offs as x"
  shows "flow taken (ss @ [s]) offs as x ob"
  using assms
proof (induction arbitrary: x rule: goes_on.induct)
  case (on_stop F ob)
  then show ?case using append_flow_pass [of taken ss offs as x ob s] by simp
next
  case (on_inst F)
  have "flow taken (ss @ [s]) offs as (Pos (length ss)) (AtInst (insts ss))"
    using flow.flow_inst [of "length ss" "ss @ [s]" taken] on_inst.hyps(2) by simp
  then show ?case using append_flow_pass [of taken ss offs as x AtTail s] on_inst by simp
next
  case (on_goto F b t ob)
  have "flow taken (ss @ [s]) offs as (Lab t) ob" using on_goto.IH by simp
  then have "flow taken (ss @ [s]) offs as (Pos (length ss)) ob"
    using flow_goto_iff [of "length ss" "ss @ [s]" b t taken] on_goto.hyps by simp
  then show ?case using append_flow_pass [of taken ss offs as x AtTail s] on_goto.hyps(1) on_goto.prems by simp
next
  case (on_skip F b)
  have "flow taken (ss @ [s]) offs as (Pos (length ss)) AtTail"
    using flow_skip_iff [of "length ss" "ss @ [s]" b taken] on_skip.hyps flow_at_tail [of taken "ss @ [s]"] by simp
  then show ?case using append_flow_pass [of taken ss offs as x AtTail s] on_skip by simp
qed

lemma append_flow_bwd:
  assumes "offs_in ss offs as" "flow taken (ss @ [s]) offs as x ob" "loc_in (length ss) x"
  shows "goes_on taken s (insts ss) (\<lambda>l. flow taken ss offs as (Lab l)) (flow taken ss offs as x) ob"
  using assms(2,3)
proof (induction rule: flow.induct)
  case (flow_inst pc)
  show ?case
  proof (cases "pc < length ss")
    case True
    then have "flow taken ss offs as (Pos pc) (AtInst (insts (take pc ss)))" using flow_inst.hyps by (intro flow.flow_inst) (simp_all add: nth_append)
    then show ?thesis using True by (auto intro: on_stop)
  next
    case False
    then have "pc = length ss" using flow_inst.prems by simp
    then have "flow taken ss offs as (Pos pc) AtTail" "\<not> is_branch s" "take pc (ss @ [s]) = ss"
      using flow_inst.hyps by (simp_all add: flow_at_tail)
    then show ?thesis using on_inst by metis
  qed
next
  case (flow_goto pc b t ob)
  show ?case
  proof (cases "pc < length ss")
    case True
    then have "flow taken ss offs as (Pos pc) = flow taken ss offs as (Lab t)"
      using flow_goto_iff [of pc ss b t taken] flow_goto.hyps by (intro ext) (simp add: nth_append)
    then show ?thesis using flow_goto.IH by simp
  next
    case False
    then have pc: "pc = length ss" using flow_goto.prems by simp
    then have "s = Branch b" using flow_goto.hyps(2) by simp
    moreover have "flow taken ss offs as (Pos pc) AtTail" using pc by (simp add: flow_at_tail)
    ultimately show ?thesis using on_goto [OF _ _ flow_goto.hyps(3,4) flow_goto.IH] by simp
  qed
next
  case (flow_skip pc b ob)
  show ?case
  proof (cases "pc < length ss")
    case True
    then have "flow taken ss offs as (Pos pc) = flow taken ss offs as (Pos (Suc pc))"
      using flow_skip_iff [of pc ss b taken] flow_skip.hyps by (intro ext) (simp add: nth_append)
    then show ?thesis using flow_skip.IH True by simp
  next
    case False
    then have pc: "pc = length ss" using flow_skip.prems by simp
    then have "s = Branch b" "ob = AtTail" using flow_skip.hyps(2,5) flow_at_tail [of taken "ss @ [s]"] by simp_all
    moreover have "flow taken ss offs as (Pos pc) AtTail" using pc by (simp add: flow_at_tail)
    ultimately show ?thesis using on_skip flow_skip.hyps(3,4) by metis
  qed
next
  case (flow_bound l r ob)
  have "flow taken ss offs as (Lab l) = flow taken ss offs as (Pos (offs ! r))"
    using flow_bound_iff [OF flow_bound.hyps(1,2), of taken] by (intro ext) simp
  moreover have "offs ! r \<le> length ss" using assms(1) alias_root_lt [OF flow_bound.hyps(1)] flow_bound.hyps(2) by (auto simp: offs_in_def)
  ultimately show ?case using flow_bound.IH by simp
next
  case (flow_open l r)
  then show ?case by (intro on_stop flow.flow_open) simp_all
qed simp

lemma append_flow:
  assumes "offs_in ss offs as" "loc_in (length ss) x"
  shows "flow taken (ss @ [s]) offs as x = goes_on taken s (insts ss) (\<lambda>l. flow taken ss offs as (Lab l)) (flow taken ss offs as x)"
  using append_flow_fwd append_flow_bwd [OF assms(1) _ assms(2)] by (intro ext) blast

text \<open>Control that waited for a label goes to the tail when the label is bound there.\<close>

definition closes :: "block \<Rightarrow> (obs \<Rightarrow> bool) \<Rightarrow> obs \<Rightarrow> bool" where
  "closes l F ob = (\<exists>ob0. F ob0 \<and> ob = (if ob0 = Open l then AtTail else ob0))"

lemma bind_flow_fwd:
  assumes "flow taken ss offs as x ob0" "b < length offs" "length as = length offs" "offs ! b = usize_MAX" "length ss < usize_MAX"
  shows "flow taken ss (offs[b := length ss]) as x (if ob0 = Open b then AtTail else ob0)"
  using assms(1)
proof (induction rule: flow.induct)
  case (flow_bound l r ob)
  then have "r \<noteq> b" using assms(4) by auto
  then show ?case using flow_bound by (auto intro!: flow.flow_bound [OF flow_bound.hyps(1)])
next
  case (flow_open l r)
  show ?case
  proof (cases "r = b")
    case True
    have "flow taken ss (offs[b := length ss]) as (Pos (length ss)) AtTail" by (rule flow.flow_tail)
    then show ?thesis using True flow.flow_bound [OF flow_open.hyps(1), of "offs[b := length ss]"] assms(2,5) by simp
  qed (use flow_open in \<open>auto intro!: flow.flow_open\<close>)
qed (auto intro: flow.intros [where taken = taken])

lemma bind_flow_bwd:
  assumes "flow taken ss (offs[b := length ss]) as x ob" "b < length offs" "length as = length offs" "offs ! b = usize_MAX" "length ss < usize_MAX"
  shows "closes b (flow taken ss offs as x) ob"
  using assms(1)
proof (induction rule: flow.induct)
  case flow_tail
  have "flow taken ss offs as (Pos (length ss)) AtTail" by (rule flow.flow_tail)
  then show ?case unfolding closes_def by force
next
  case (flow_inst pc)
  then have "flow taken ss offs as (Pos pc) (AtInst (insts (take pc ss)))" by (rule flow.flow_inst)
  then show ?case unfolding closes_def by force
next
  case (flow_goto pc br t ob)
  then show ?case using flow_goto_iff [of pc ss br t taken offs as] by (simp add: closes_def)
next
  case (flow_skip pc br ob)
  then show ?case using flow_skip_iff [of pc ss br taken offs as] by (simp add: closes_def)
next
  case (flow_bound l r ob)
  show ?case
  proof (cases "r = b")
    case True
    then have "ob = AtTail" using flow_bound.hyps(3) assms(2) flow_at_tail [of taken ss] by simp
    moreover have "flow taken ss offs as (Lab l) (Open b)" using flow_bound.hyps(1) True assms(4) by (auto intro: flow.flow_open)
    ultimately show ?thesis unfolding closes_def by force
  next
    case False
    then show ?thesis using flow_bound.IH flow_bound.hyps(2) flow_bound_iff [OF flow_bound.hyps(1), of offs taken ss] by (simp add: closes_def)
  qed
next
  case (flow_open l r)
  have "r \<noteq> b" using flow_open.hyps(2) assms(2,5) by auto
  moreover from this have "flow taken ss offs as (Lab l) (Open r)" using flow_open by (auto intro: flow.flow_open)
  ultimately show ?case unfolding closes_def by force
qed

lemma bind_flow:
  assumes "b < length offs" "length as = length offs" "offs ! b = usize_MAX" "length ss < usize_MAX"
  shows "flow taken ss (offs[b := length ss]) as x = closes b (flow taken ss offs as x)"
proof (intro ext iffI)
  fix ob assume "closes b (flow taken ss offs as x) ob"
  then show "flow taken ss (offs[b := length ss]) as x ob" using bind_flow_fwd [OF _ assms] unfolding closes_def by blast
qed (rule bind_flow_bwd [OF _ assms])

section \<open>The calls keep the invariant\<close>

lemma inv_offs_in: "buffer_inv taken B \<Longrightarrow> offs_in (slots B) (label_offsets B) (label_aliases B)"
  by (simp add: buffer_inv_def labels_ok_def offs_in_def)

lemma resume_full: "\<not> is_branch s \<Longrightarrow> resume (ss @ [s]) (Suc (insts ss)) = Suc (length ss)"
  by (induction ss) simp_all

lemma append_flow_eq:
  fixes B B' C C' :: emit_buffer
  assumes "flow_eq taken B C" "buffer_inv taken B" "buffer_inv taken C"
    and "slots B' = slots B @ [s]" "label_offsets B' = label_offsets B" "label_aliases B' = label_aliases B"
    and "slots C' = slots C @ [s]" "label_offsets C' = label_offsets C" "label_aliases C' = label_aliases C"
  shows "flow_eq taken B' C'"
proof -
  note aB = append_flow [OF inv_offs_in [OF assms(2)], of _ taken s] and aC = append_flow [OF inv_offs_in [OF assms(3)], of _ taken s]
  have k: "insts (slots C) = insts (slots B)" using flow_eq_insts [OF assms(1)] .
  have labs: "(\<lambda>l. bflow taken B (Lab l)) = (\<lambda>l. bflow taken C (Lab l))" using assms(1) by (intro ext) (simp add: flow_eq_def)
  then have labs1: "bflow taken B (Lab l) = bflow taken C (Lab l)" for l by (metis (no_types))
  have "bflow taken B' (Lab l) = bflow taken C' (Lab l)" for l
    using aB [of "Lab l"] aC [of "Lab l"] k labs labs1 [of l] assms(4-9) by simp
  moreover have "bflow taken B' (Pos (resume (slots B') j)) = bflow taken C' (Pos (resume (slots C') j))" if "j \<le> insts (slots B')" for j
  proof (cases "j \<le> insts (slots B)")
    case True
    have "bflow taken B (Pos (resume (slots B) j)) = bflow taken C (Pos (resume (slots C) j))"
      using assms(1) True by (intro ext) (simp add: flow_eq_def)
    moreover have "resume (slots B') j = resume (slots B) j" "resume (slots C') j = resume (slots C) j"
      using True k assms(4,7) by (simp_all add: resume_append)
    moreover have "loc_in (length (slots B)) (Pos (resume (slots B) j))" "loc_in (length (slots C)) (Pos (resume (slots C) j))"
      using True k by (simp_all add: resume_le)
    ultimately show ?thesis using aB aC k labs assms(4-9) by simp
  next
    case False
    then have s: "\<not> is_branch s" "j = Suc (insts (slots B))" using that assms(4) by (auto split: if_splits)
    then have "Pos (resume (slots B') j) = Pos (length (slots B'))" "Pos (resume (slots C') j) = Pos (length (slots C'))"
      using resume_full [OF s(1), of "slots B"] resume_full [OF s(1), of "slots C"] k assms(4,7) by simp_all
    then show ?thesis by (intro ext) (simp only: flow_at_tail)
  qed
  moreover have "filter (\<lambda>s. \<not> is_branch s) (slots B') = filter (\<lambda>s. \<not> is_branch s) (slots C')"
    using assms(1,4,7) by (simp add: flow_eq_def)
  ultimately show ?thesis by (simp add: flow_eq_def)
qed

lemma append_keeps_inv:
  assumes "buffer_inv taken B" "Suc (length (slots B)) < usize_MAX"
    and "\<forall>b. s = Branch b \<longrightarrow> (\<exists>t < length (label_offsets B). target b = LBlock t) \<and> (\<forall>ip. inv_prefix b = Some ip \<longrightarrow> taken ip = (\<not> taken (prefix b)))"
    and "latest_branches B' = latest_branches B \<or> is_branch s \<and> latest_branches B' = latest_branches B @ [b'] \<and>
      start b' = length (slots B) \<and> set (labels_at_this_branch b') = live_at B (length (slots B))"
    and "slots B' = slots B @ [s]" "label_offsets B' = label_offsets B" "label_aliases B' = label_aliases B"
    and "labels_at_tail_off B' \<le> length (slots B)"
  shows "buffer_inv taken B'"
proof -
  have lo: "labels_ok B" and bo: "branches_ok B" and so: "slots_ok taken B" using assms(1) by (simp_all add: buffer_inv_def)
  have live: "live_at B' off = live_at B off" for off using assms(6,7) by (simp add: live_at_def)
  have "labels_ok B'" using lo assms(2,5-7) by (auto simp: labels_ok_def)
  moreover have "slots_ok taken B'" using so assms(3,5,6) by (auto simp: slots_ok_def)
  moreover have "branches_ok B'"
    using assms(4)
  proof
    assume "latest_branches B' = latest_branches B"
    then show ?thesis using bo live assms(5) by (auto simp: branches_ok_def nth_append)
  next
    assume a: "is_branch s \<and> latest_branches B' = latest_branches B @ [b'] \<and> start b' = length (slots B) \<and>
      set (labels_at_this_branch b') = live_at B (length (slots B))"
    show ?thesis using bo live a assms(5) unfolding branches_ok_def by (auto simp: nth_append sorted_wrt_append)
  qed
  moreover have "live_at B (Suc (length (slots B))) = {}" using lo assms(2) by (auto simp: live_at_def labels_ok_def)
  then have "tail_ok B'" using live assms(5,8) by (simp add: tail_ok_def)
  ultimately show ?thesis by (simp add: buffer_inv_def)
qed

text \<open>Binding a label, before the simplification.\<close>

definition bound_here :: "emit_buffer \<Rightarrow> block \<Rightarrow> emit_buffer" where
  "bound_here self b = (let self1 = lazily_clear_labels_at_tail (self\<lparr>label_offsets := (label_offsets self)[b := length (slots self)]\<rparr>) in
     self1\<lparr>labels_at_tail := labels_at_tail self1 @ [b]\<rparr>)"

lemma bound_here_simps [simp]:
  "slots (bound_here B b) = slots B" "label_offsets (bound_here B b) = (label_offsets B)[b := length (slots B)]"
  "label_aliases (bound_here B b) = label_aliases B" "latest_branches (bound_here B b) = latest_branches B"
  "pending (bound_here B b) = pending B" "enable_branch_opt (bound_here B b) = enable_branch_opt B"
  by (simp_all add: bound_here_def Let_def)

lemma bound_here_inv:
  assumes "buffer_inv taken B" "b \<in> unbound B"
  shows "buffer_inv taken (bound_here B b)"
proof -
  let ?n = "length (slots B)" and ?B = "bound_here B b"
  have lo: "labels_ok B" and bo: "branches_ok B" and so: "slots_ok taken B" and to: "tail_ok B" using assms(1) by (simp_all add: buffer_inv_def)
  have b: "b < length (label_offsets B)" "label_offsets B ! b = usize_MAX" "label_aliases B ! b = None"
    using assms(2) lo by (auto simp: unbound_def labels_ok_def)
  have n: "?n < usize_MAX" using lo by (simp add: labels_ok_def)
  have live: "live_at ?B off = (if off = ?n then insert b (live_at B off) else live_at B off)" if "off < usize_MAX" for off
    using b that by (auto simp: live_at_def nth_list_update)
  have "labels_ok ?B" using lo b n by (auto simp: labels_ok_def nth_list_update)
  moreover have "slots_ok taken ?B" using so by (simp add: slots_ok_def)
  moreover have "branches_ok ?B" using bo live n by (auto simp: branches_ok_def)
  moreover have "labels_at_tail_off ?B = ?n \<and> set (labels_at_tail ?B) = insert b (live_at B ?n)"
    using to by (auto simp: bound_here_def Let_def tail_ok_def lazily_clear_labels_at_tail_def)
  then have "tail_ok ?B" using live [OF n] by (simp add: tail_ok_def)
  ultimately show ?thesis by (simp add: buffer_inv_def)
qed

lemma bound_here_flow_eq:
  assumes "flow_eq taken B C" "buffer_inv taken B" "buffer_inv taken C" "b \<in> unbound B" "b \<in> unbound C"
  shows "flow_eq taken (bound_here B b) (bound_here C b)"
proof -
  have "bflow taken (bound_here D b) x = closes b (bflow taken D x)" if "buffer_inv taken D" "b \<in> unbound D" for D x
    using bind_flow [of b "label_offsets D" "label_aliases D" "slots D"] that by (simp add: buffer_inv_def labels_ok_def unbound_def)
  then show ?thesis using assms by (simp add: flow_eq_def closes_def)
qed

section \<open>Emission with and without the simplifications\<close>

text \<open>The plain buffer and the simplified one, side by side.\<close>

definition sides :: "(string \<Rightarrow> bool) \<Rightarrow> emit_buffer \<Rightarrow> emit_buffer \<Rightarrow> bool" where
  "sides taken B C = (buffer_inv taken B \<and> buffer_inv taken C \<and> flow_eq taken B C \<and> unbound B = unbound C \<and>
     length (label_offsets B) = length (label_offsets C) \<and> pending B = pending C \<and> \<not> enable_branch_opt B \<and>
     length (slots C) \<le> length (slots B))"

text \<open>Calls that the buffer accepts: labels are in range and bound once, a branch starts a fresh instruction, and the inverted form of
  a conditional branch is taken exactly when the branch is not.\<close>

fun call_ok :: "(string \<Rightarrow> bool) \<Rightarrow> nat \<Rightarrow> block set \<Rightarrow> string \<Rightarrow> emit_call \<Rightarrow> bool" where
  "call_ok taken n free pend (Write text) = True"
| "call_ok taken n free pend EndInst = True"
| "call_ok taken n free pend (PutBranch pre ipre tgt knd) = (pend = [] \<and> tgt < n \<and> (\<forall>ip. ipre = Some ip \<longrightarrow> taken ip = (\<not> taken pre)))"
| "call_ok taken n free pend (BindLabel b) = (b \<in> free)"

fun free_after :: "block set \<Rightarrow> emit_call \<Rightarrow> block set" where
  "free_after free (BindLabel b) = free - {b}"
| "free_after free _ = free"

fun pend_after :: "string \<Rightarrow> emit_call \<Rightarrow> string" where
  "pend_after pend (Write text) = pend @ text"
| "pend_after pend EndInst = []"
| "pend_after pend _ = pend"

fun calls_ok :: "(string \<Rightarrow> bool) \<Rightarrow> nat \<Rightarrow> block set \<Rightarrow> string \<Rightarrow> emit_call list \<Rightarrow> bool" where
  "calls_ok taken n free pend [] = True"
| "calls_ok taken n free pend (c # cs) = (call_ok taken n free pend c \<and> calls_ok taken n (free_after free c) (pend_after pend c) cs)"

lemma pending_irrelevant [simp]:
  "live_at (B\<lparr>pending := p\<rparr>) off = live_at B off" "buffer_inv taken (B\<lparr>pending := p\<rparr>) = buffer_inv taken B"
  "unbound (B\<lparr>pending := p\<rparr>) = unbound B" "unbound (B\<lparr>slots := ss\<rparr>) = unbound B"
  "flow_eq taken (B\<lparr>pending := p\<rparr>) B' = flow_eq taken B B'" "flow_eq taken B (B'\<lparr>pending := p\<rparr>) = flow_eq taken B B'"
  by (simp_all add: live_at_def buffer_inv_def labels_ok_def slots_ok_def branches_ok_def tail_ok_def unbound_def flow_eq_def)

lemma sides_pending: "sides taken B C \<Longrightarrow> sides taken (B\<lparr>pending := p\<rparr>) (C\<lparr>pending := p\<rparr>)"
  by (simp add: sides_def)

lemma sides_keeps:
  assumes "sides taken B C" "keeps taken C C'"
  shows "sides taken B C'"
  using assms flow_eq_trans [of taken B C C'] by (simp add: sides_def keeps_def)

lemma sides_append:
  assumes "sides taken B C" "Suc (length (slots B)) < usize_MAX" "\<not> is_branch s"
  shows "sides taken (B\<lparr>slots := slots B @ [s]\<rparr>) (C\<lparr>slots := slots C @ [s]\<rparr>)"
proof -
  have inv: "buffer_inv taken (D\<lparr>slots := slots D @ [s]\<rparr>)" if "buffer_inv taken D" "Suc (length (slots D)) < usize_MAX" for D
    by (rule append_keeps_inv [OF that, of s]) (use that(1) assms(3) in \<open>auto simp: buffer_inv_def tail_ok_def\<close>)
  show ?thesis
    using assms inv append_flow_eq [of taken B C "B\<lparr>slots := slots B @ [s]\<rparr>" s "C\<lparr>slots := slots C @ [s]\<rparr>"]
    by (simp add: sides_def)
qed

lemma put_branch_inv:
  assumes "buffer_inv taken B" "Suc (length (slots B)) < usize_MAX" "pending B = []" "tgt < length (label_offsets B)"
    and "\<forall>ip. ipre = Some ip \<longrightarrow> taken ip = (\<not> taken pre)"
  shows "\<exists>B'. put_branch B pre ipre tgt knd = Some B' \<and> buffer_inv taken B' \<and>
    slots B' = slots B @ [Branch \<lparr>prefix = pre, inv_prefix = ipre, target = LBlock tgt, kind = knd\<rparr>] \<and>
    label_offsets B' = label_offsets B \<and> label_aliases B' = label_aliases B \<and> pending B' = [] \<and> enable_branch_opt B' = enable_branch_opt B"
proof -
  let ?s = "Branch \<lparr>prefix = pre, inv_prefix = ipre, target = LBlock tgt, kind = knd\<rparr>"
  let ?C = "lazily_clear_labels_at_tail B"
  let ?b = "\<lparr>start = length (slots B), labels_at_this_branch = labels_at_tail ?C\<rparr>"
  let ?B = "?C\<lparr>latest_branches := latest_branches B @ [?b], slots := slots B @ [?s]\<rparr>"
  have tl: "labels_at_tail_off ?C = length (slots B)" "set (labels_at_tail ?C) = live_at B (length (slots B))"
    using lazily_clear_tail [of B] assms(1) by (simp_all add: buffer_inv_def)
  have "put_branch B pre ipre tgt knd = Some ?B" using assms(3) by (simp add: put_branch_def Let_def)
  moreover have "buffer_inv taken ?B"
    by (rule append_keeps_inv [OF assms(1,2), where s = ?s and b' = ?b]) (use tl assms(4,5) in simp_all)
  ultimately show ?thesis using assms(3) by simp
qed

lemma bind_label_ok:
  assumes "buffer_inv taken B" "b \<in> unbound B"
  shows "\<exists>B'. bind_label B b = Some B' \<and> keeps taken (bound_here B b) B' \<and> (\<not> enable_branch_opt B \<longrightarrow> slots B' = slots B)"
proof -
  obtain B' where B': "optimize_branches (bound_here B b) = Some B'" "keeps taken (bound_here B b) B'"
    using optimize_branches_ok [OF bound_here_inv [OF assms]] by blast
  have "b < length (label_offsets B)" "label_offsets B ! b = usize_MAX" using assms(2) by (simp_all add: unbound_def)
  then have "bind_label B b = optimize_branches (bound_here B b)"
    by (simp add: bind_label_def bound_here_def vec_get_def Let_def del: bind_eq_Some)
  moreover have "slots B' = slots B" if "\<not> enable_branch_opt B" using B'(1) that by (auto simp: optimize_branches_def)
  ultimately show ?thesis using B' by (metis (no_types))
qed

lemma unbound_bound_here: "buffer_inv taken B \<Longrightarrow> unbound (bound_here B b) = unbound B - {b}"
  by (cases "b < length (label_offsets B)")
     (auto simp: unbound_def buffer_inv_def labels_ok_def nth_list_update list_update_beyond split: if_splits)

lemma run_call_sides:
  assumes "sides taken B C" "call_ok taken (length (label_offsets B)) (unbound B) (pending B) c" "Suc (length (slots B)) < usize_MAX"
  shows "\<exists>B' C'. run_call B c = Some B' \<and> run_call C c = Some C' \<and> sides taken B' C' \<and>
    length (slots B') \<le> Suc (length (slots B)) \<and> length (label_offsets B') = length (label_offsets B) \<and>
    unbound B' = free_after (unbound B) c \<and> pending B' = pend_after (pending B) c"
proof (cases c)
  case (Write str)
  then show ?thesis using sides_pending [OF assms(1), of "pending B @ str"] assms(1)
    by (simp add: write_str_def sides_def)
next
  case EndInst
  have p: "pending C = pending B" using assms(1) by (simp add: sides_def)
  show ?thesis
  proof (cases "pending B = []")
    case True
    then show ?thesis using EndInst assms(1) p by (simp add: end_inst_def)
  next
    case False
    have "sides taken ((B\<lparr>pending := []\<rparr>)\<lparr>slots := slots B @ [Text (pending B)]\<rparr>) ((C\<lparr>pending := []\<rparr>)\<lparr>slots := slots C @ [Text (pending B)]\<rparr>)"
      using sides_append [OF sides_pending [OF assms(1), of "[]"], of "Text (pending B)"] assms(3) by simp
    then show ?thesis using EndInst False p by (simp add: end_inst_def)
  qed
next
  case (PutBranch pre ipre tgt knd)
  have B: "buffer_inv taken B" and C: "buffer_inv taken C" using assms(1) by (simp_all add: sides_def)
  let ?s = "Branch \<lparr>prefix = pre, inv_prefix = ipre, target = LBlock tgt, kind = knd\<rparr>"
  have c: "pending B = []" "tgt < length (label_offsets B)" "\<forall>ip. ipre = Some ip \<longrightarrow> taken ip = (\<not> taken pre)"
    using assms(2) PutBranch by simp_all
  obtain B' where B': "put_branch B pre ipre tgt knd = Some B'" "buffer_inv taken B'" "slots B' = slots B @ [?s]"
      "label_offsets B' = label_offsets B" "label_aliases B' = label_aliases B" "pending B' = []" "enable_branch_opt B' = enable_branch_opt B"
    using put_branch_inv [OF B assms(3) c] by blast
  have cC: "Suc (length (slots C)) < usize_MAX" "pending C = []" "tgt < length (label_offsets C)"
    using assms(1,3) c by (simp_all add: sides_def)
  obtain C' where C': "put_branch C pre ipre tgt knd = Some C'" "buffer_inv taken C'" "slots C' = slots C @ [?s]"
      "label_offsets C' = label_offsets C" "label_aliases C' = label_aliases C" "pending C' = []" "enable_branch_opt C' = enable_branch_opt C"
    using put_branch_inv [OF C cC c(3)] by blast
  have "flow_eq taken B' C'"
    by (rule append_flow_eq [OF _ B C B'(3-5) C'(3-5)]) (use assms(1) in \<open>simp add: sides_def\<close>)
  moreover have "unbound B' = unbound B" "unbound C' = unbound C" using B'(4) C'(4) by (simp_all add: unbound_def)
  ultimately show ?thesis using PutBranch B' C' assms(1) c(1) by (simp add: sides_def)
next
  case (BindLabel b)
  have B: "buffer_inv taken B" and C: "buffer_inv taken C" and u: "b \<in> unbound B" "b \<in> unbound C"
    using assms(1,2) BindLabel by (simp_all add: sides_def)
  obtain B' where B': "bind_label B b = Some B'" "keeps taken (bound_here B b) B'" "\<not> enable_branch_opt B \<longrightarrow> slots B' = slots B"
    using bind_label_ok [OF B u(1)] by blast
  obtain C' where C': "bind_label C b = Some C'" "keeps taken (bound_here C b) C'" using bind_label_ok [OF C u(2)] by blast
  have fe: "flow_eq taken (bound_here B b) (bound_here C b)"
    using bound_here_flow_eq [OF _ B C u] assms(1) by (simp add: sides_def)
  have "flow_eq taken B' C'"
    using flow_eq_trans [OF flow_eq_sym flow_eq_trans [OF fe]] B'(2) C'(2) by (simp add: keeps_def)
  then have "sides taken B' C'"
    using assms(1) B'(2,3) C'(2) unbound_bound_here [OF B] unbound_bound_here [OF C] by (simp add: sides_def keeps_def)
  then show ?thesis using BindLabel B' C' unbound_bound_here [OF B] assms(1) by (simp add: keeps_def sides_def)
qed

lemma run_calls_sides:
  assumes "sides taken B C" "calls_ok taken (length (label_offsets B)) (unbound B) (pending B) cs"
    and "Suc (length (slots B) + length cs) < usize_MAX"
  shows "\<exists>B' C'. foldM run_call B cs = Some B' \<and> foldM run_call C cs = Some C' \<and> sides taken B' C'"
  using assms
proof (induction cs arbitrary: B C)
  case (Cons c cs)
  have c: "call_ok taken (length (label_offsets B)) (unbound B) (pending B) c" "Suc (length (slots B)) < usize_MAX" using Cons.prems by simp_all
  obtain B1 C1 where s: "run_call B c = Some B1" "run_call C c = Some C1" "sides taken B1 C1"
      "length (slots B1) \<le> Suc (length (slots B))" "length (label_offsets B1) = length (label_offsets B)"
      "unbound B1 = free_after (unbound B) c" "pending B1 = pend_after (pending B) c"
    using run_call_sides [OF Cons.prems(1) c] by blast
  have "\<exists>B' C'. foldM run_call B1 cs = Some B' \<and> foldM run_call C1 cs = Some C' \<and> sides taken B' C'"
    by (rule Cons.IH [OF s(3)]) (use Cons.prems(2,3) s(4-7) in simp_all)
  then show ?case using s(1,2) by simp
qed simp

lemma new_sides: "sides taken (buffer_new name labels False) (buffer_new name labels True)"
proof -
  have inv: "buffer_inv taken (buffer_new name labels opt)" for opt
    by (auto simp: buffer_inv_def buffer_new_def labels_ok_def slots_ok_def branches_ok_def tail_ok_def live_at_def usize_MAX_def
        intro!: exI alias_root_self)
  then show ?thesis by (simp add: sides_def flow_eq_def unbound_def buffer_new_def)
qed

lemma optimize_sides:
  assumes "sides taken B C"
  shows "\<exists>B' C'. optimize_branches B = Some B' \<and> optimize_branches C = Some C' \<and> sides taken B' C'"
proof -
  obtain C' where C': "optimize_branches C = Some C'" "keeps taken C C'"
    using optimize_branches_ok [of taken C] assms by (auto simp: sides_def)
  have "optimize_branches B = Some (lazily_clear_labels_at_tail B)" using assms by (simp add: optimize_branches_def sides_def)
  moreover have "sides taken (lazily_clear_labels_at_tail B) C'"
  proof -
    have "keeps taken B (lazily_clear_labels_at_tail B)" using assms by (intro clear_keeps) (simp add: sides_def)
    then have "flow_eq taken (lazily_clear_labels_at_tail B) B" "unbound (lazily_clear_labels_at_tail B) = unbound B"
      "buffer_inv taken (lazily_clear_labels_at_tail B)"
      using flow_eq_sym by (auto simp: keeps_def)
    then show ?thesis using sides_keeps [OF assms C'(2)] flow_eq_trans by (fastforce simp: sides_def)
  qed
  ultimately show ?thesis using C'(1) by blast
qed

text \<open>Calls of a function: every block label is bound once, in order.\<close>

definition inst_ok :: "(string \<Rightarrow> bool) \<Rightarrow> nat \<Rightarrow> emit_call list \<Rightarrow> bool" where
  "inst_ok taken n calls = calls_ok taken n {} [] calls"

lemma calls_ok_append:
  "calls_ok taken n free pend (cs @ ds) \<longleftrightarrow> calls_ok taken n free pend cs \<and>
     calls_ok taken n (foldl free_after free cs) (foldl pend_after pend cs) ds"
  by (induction cs arbitrary: free pend) auto

lemma call_ok_mono: "call_ok taken n free pend c \<Longrightarrow> free \<subseteq> free' \<Longrightarrow> call_ok taken n free' pend c"
  by (cases c) auto

lemma no_bind_calls:
  "calls_ok taken n {} pend cs \<Longrightarrow> calls_ok taken n free pend cs \<and> foldl free_after free cs = free"
proof (induction cs arbitrary: pend)
  case (Cons c cs)
  then have "call_ok taken n {} pend c" "free_after {} c = {}" "free_after free c = free" by (cases c; simp)+
  with Cons show ?case using call_ok_mono [of taken n "{}" pend c free] by simp
qed simp

lemma inst_calls_ok:
  "\<forall>i \<in> set bs. inst_ok taken n i \<Longrightarrow> calls_ok taken n free [] (inst_calls bs) \<and>
     foldl free_after free (inst_calls bs) = free \<and> foldl pend_after [] (inst_calls bs) = []"
proof (induction bs)
  case (Cons i bs)
  have "calls_ok taken n free [] i" "foldl free_after free i = free" using no_bind_calls Cons.prems by (auto simp: inst_ok_def)
  with Cons show ?case by (simp add: inst_calls_def calls_ok_append)
qed (simp add: inst_calls_def)

lemma block_calls_ok:
  "\<forall>b \<in> set blocks. \<forall>i \<in> set b. inst_ok taken n i \<Longrightarrow> {bi..<bi + length blocks} \<subseteq> free \<Longrightarrow>
     calls_ok taken n free [] (block_calls bi blocks)"
proof (induction blocks arbitrary: bi free)
  case (Cons b blocks)
  have "{bi + 1..<bi + 1 + length blocks} \<subseteq> free - {bi}" using Cons.prems(2) by auto
  with Cons show ?case using inst_calls_ok [of b taken n "free - {bi}"] by (auto simp: calls_ok_append)
qed simp

lemma unbound_new: "unbound (buffer_new name labels opt) = {..<length labels}"
  by (auto simp: unbound_def buffer_new_def)

lemma run_calls_free:
  assumes "sides taken B C" "calls_ok taken (length (label_offsets B)) (unbound B) (pending B) cs"
    and "Suc (length (slots B) + length cs) < usize_MAX" "foldM run_call B cs = Some B'"
  shows "unbound B' = foldl free_after (unbound B) cs"
  using assms
proof (induction cs arbitrary: B C)
  case (Cons c cs)
  have c: "call_ok taken (length (label_offsets B)) (unbound B) (pending B) c" "Suc (length (slots B)) < usize_MAX" using Cons.prems by simp_all
  obtain B1 C1 where s: "run_call B c = Some B1" "run_call C c = Some C1" "sides taken B1 C1"
      "length (slots B1) \<le> Suc (length (slots B))" "length (label_offsets B1) = length (label_offsets B)"
      "unbound B1 = free_after (unbound B) c" "pending B1 = pend_after (pending B) c"
    using run_call_sides [OF Cons.prems(1) c] by blast
  have "unbound B' = foldl free_after (unbound B1) cs"
    by (rule Cons.IH [OF s(3)]) (use Cons.prems(2-4) s in simp_all)
  then show ?case using s(6) by simp
qed simp

lemma block_calls_free:
  "\<forall>b \<in> set blocks. \<forall>i \<in> set b. inst_ok taken n i \<Longrightarrow>
     foldl free_after free (block_calls bi blocks) = free - {bi..<bi + length blocks}"
proof (induction blocks arbitrary: bi free)
  case (Cons b blocks)
  have "{bi..<bi + length (b # blocks)} = insert bi {bi + 1..<bi + 1 + length blocks}" by auto
  with Cons show ?case using inst_calls_ok [of b taken n "free - {bi}"] by auto
qed simp

text \<open>A conditional branch to \<open>t\<close> followed by a jump to \<open>f\<close>, as the AArch64 back end emits a two-way branch.\<close>

definition two_way :: "string \<Rightarrow> string \<Rightarrow> block \<Rightarrow> block \<Rightarrow> emit_call list" where
  "two_way pre ipre t f = [PutBranch pre (Some ipre) t BRANCH19, PutBranch ''b '' None f BRANCH26]"

text \<open>C2: for instructions whose branches name blocks of the function and whose inverted mnemonics are the negated condition, emission
  returns with and without the branch simplifications (no assertion, index or unreachable case fails and the simplification loop ends),
  binds every label, and the two results are equivalent: they have the same instructions apart from branches, and from the entry, after
  every instruction and from every label control continues at the same instruction, for every outcome of the conditions. The
  simplified code is not longer.\<close>

theorem branch_simplification_correct:
  assumes "\<forall>i \<in> set prologue. inst_ok taken (length labels) i" "\<forall>b \<in> set blocks. \<forall>i \<in> set b. inst_ok taken (length labels) i"
    and "length blocks = length labels" "length (inst_calls prologue @ block_calls 0 blocks) + 1 < usize_MAX"
  shows "\<exists>B C. emit_function name labels False prologue blocks = Some B \<and> emit_function name labels True prologue blocks = Some C \<and>
    flow_eq taken B C \<and> unbound B = {} \<and> unbound C = {} \<and> length (slots C) \<le> length (slots B)"
proof -
  let ?cs = "inst_calls prologue @ block_calls 0 blocks" and ?n = "length labels"
  let ?B = "buffer_new name labels False" and ?C = "buffer_new name labels True"
  have new: "sides taken ?B ?C" "length (label_offsets ?B) = ?n" "unbound ?B = {..<?n}" "pending ?B = []" "slots ?B = []"
    by (simp_all add: new_sides unbound_new) (simp_all add: buffer_new_def)
  have pro: "calls_ok taken ?n {..<?n} [] (inst_calls prologue)" "foldl free_after {..<?n} (inst_calls prologue) = {..<?n}"
      "foldl pend_after [] (inst_calls prologue) = []"
    using inst_calls_ok [OF assms(1), of "{..<?n}"] by simp_all
  have ok: "calls_ok taken ?n {..<?n} [] ?cs"
    using pro block_calls_ok [OF assms(2), of 0 "{..<?n}"] assms(3) by (simp add: calls_ok_append lessThan_atLeast0)
  have run: "calls_ok taken (length (label_offsets ?B)) (unbound ?B) (pending ?B) ?cs" "Suc (length (slots ?B) + length ?cs) < usize_MAX"
    using ok new assms(4) by simp_all
  obtain B1 C1 where r: "foldM run_call ?B ?cs = Some B1" "foldM run_call ?C ?cs = Some C1" "sides taken B1 C1"
    using run_calls_sides [OF new(1) run] by blast
  have u: "unbound B1 = {}"
    using run_calls_free [OF new(1) run r(1)] pro(2) block_calls_free [OF assms(2), of "{..<?n}" 0] new(3) assms(3)
    by (simp add: lessThan_atLeast0)
  obtain B C where o: "optimize_branches B1 = Some B" "optimize_branches C1 = Some C" "sides taken B C" "keeps taken B1 B"
    using optimize_sides [OF r(3)] optimize_branches_ok [of taken B1] r(3) by (auto simp: sides_def)
  then have "unbound B = {}" "unbound C = {}" using u by (auto simp: sides_def keeps_def)
  then show ?thesis using r(1,2) o by (simp add: emit_function_def sides_def del: bind_eq_Some)
qed

theorem branch_simplification_correct_witness:
  "\<exists>B C. emit_function ''f'' [''A'', ''B''] False [[Write ''sub sp'']] [[two_way ''b.eq '' ''b.ne '' 1 0], [[Write ''ret'']]] = Some B \<and>
    emit_function ''f'' [''A'', ''B''] True [[Write ''sub sp'']] [[two_way ''b.eq '' ''b.ne '' 1 0], [[Write ''ret'']]] = Some C \<and>
    flow_eq (\<lambda>p. p = ''b.eq '') B C \<and> unbound B = {} \<and> unbound C = {} \<and> length (slots C) \<le> length (slots B)"
  by (rule branch_simplification_correct) (simp_all add: inst_ok_def two_way_def inst_calls_def usize_MAX_def)

section \<open>Range checks\<close>

text \<open>A signed immediate of \<open>w\<close> bits, scaled.\<close>

definition encodable :: "nat \<Rightarrow> int \<Rightarrow> int \<Rightarrow> bool" where
  "encodable w scale d = (scale dvd d \<and> - (2 ^ (w - 1)) \<le> d div scale \<and> d div scale < 2 ^ (w - 1))"

lemma kind_limits [simp]:
  "uint (negative BRANCH14) = 32768" "uint (positive BRANCH14) = 32768"
  "uint (negative BRANCH19) = 1048576" "uint (positive BRANCH19) = 1048576"
  "uint (negative BRANCH26) = 134217728" "uint (positive BRANCH26) = 134217728"
  "uint (negative RV_B) = 8192" "uint (positive RV_B) = 8192"
  "uint (negative RV_JAL) = 2097152" "uint (positive RV_JAL) = 2097152"
  by (simp_all add: BRANCH14_def BRANCH19_def BRANCH26_def RV_B_def RV_JAL_def)

lemma scaled_range:
  assumes "(scale :: int) > 0" "scale dvd d" "k \<ge> 0"
  shows "- (scale * k) \<le> d \<and> d \<le> scale * k \<longleftrightarrow> (- k \<le> d div scale \<and> d div scale < k) \<or> d = scale * k"
proof -
  obtain e where e: "d = scale * e" using assms(2) by blast
  have "- (scale * k) \<le> scale * e \<longleftrightarrow> - k \<le> e" using mult_le_cancel_left_pos [OF assms(1), of "- k" e] by simp
  then show ?thesis using e assms(1,3) by (auto simp: mult_le_cancel_left_pos)
qed

text \<open>C36: what the reach of each kind of branch accepts. For the AArch64 kinds, a distance between instructions is accepted exactly when the
  immediate can encode it or it is the one positive distance just beyond. The RISC-V kinds accept exactly the distances from
  -8192 to 8192 and from -2097152 to 2097152, while the 12-bit and 20-bit immediates (scaled by 2) of the instructions
  encode the even distances from -4096 to 4094 and from -1048576 to 1048574: the limits are twice the reach in both directions.\<close>

theorem in_range_reach:
  "(in_range BRANCH14 p q \<and> 4 dvd int q - int p \<longleftrightarrow> encodable 14 4 (int q - int p) \<or> q = p + 32768) \<and>
   (in_range BRANCH19 p q \<and> 4 dvd int q - int p \<longleftrightarrow> encodable 19 4 (int q - int p) \<or> q = p + 1048576) \<and>
   (in_range BRANCH26 p q \<and> 4 dvd int q - int p \<longleftrightarrow> encodable 26 4 (int q - int p) \<or> q = p + 134217728) \<and>
   (in_range RV_B p q \<longleftrightarrow> - (2 * 4096) \<le> int q - int p \<and> int q - int p \<le> 2 * 4096) \<and>
   (encodable 12 2 (int q - int p) \<longleftrightarrow> 2 dvd int q - int p \<and> - 4096 \<le> int q - int p \<and> int q - int p < 4096) \<and>
   (in_range RV_JAL p q \<longleftrightarrow> - (2 * 1048576) \<le> int q - int p \<and> int q - int p \<le> 2 * 1048576) \<and>
   (encodable 20 2 (int q - int p) \<longleftrightarrow> 2 dvd int q - int p \<and> - 1048576 \<le> int q - int p \<and> int q - int p < 1048576)"
proof (intro conjI)
  have eq: "int q - int p = k \<longleftrightarrow> q = p + nat k" if "k \<ge> 0" for k using that by auto
  show "in_range BRANCH14 p q \<and> 4 dvd int q - int p \<longleftrightarrow> encodable 14 4 (int q - int p) \<or> q = p + 32768"
    using scaled_range [of 4 "int q - int p" 8192] eq [of 32768] by (auto simp: in_range_def encodable_def)
  show "in_range BRANCH19 p q \<and> 4 dvd int q - int p \<longleftrightarrow> encodable 19 4 (int q - int p) \<or> q = p + 1048576"
    using scaled_range [of 4 "int q - int p" 262144] eq [of 1048576] by (auto simp: in_range_def encodable_def)
  show "in_range BRANCH26 p q \<and> 4 dvd int q - int p \<longleftrightarrow> encodable 26 4 (int q - int p) \<or> q = p + 134217728"
    using scaled_range [of 4 "int q - int p" 33554432] eq [of 134217728] by (auto simp: in_range_def encodable_def)
  have half: "d div 2 = e" if "d = 2 * e" for d e :: int using that by simp
  show "encodable 12 2 (int q - int p) \<longleftrightarrow> 2 dvd int q - int p \<and> - 4096 \<le> int q - int p \<and> int q - int p < 4096"
    "encodable 20 2 (int q - int p) \<longleftrightarrow> 2 dvd int q - int p \<and> - 1048576 \<le> int q - int p \<and> int q - int p < 1048576"
    by (auto simp: encodable_def dvd_def half)
qed (simp_all add: in_range_def Let_def)

section \<open>Stale offsets of threaded labels\<close>

definition stale_blocks :: "emit_call list list list" where
  "stale_blocks = [[[Write ''mov''], two_way ''b.eq '' ''b.ne '' 3 1], [two_way ''b.lt '' ''b.ge '' 4 2],
     [two_way ''b.gt '' ''b.le '' 4 4], [[PutBranch ''b '' None 5 BRANCH26]], [[Write ''ret'']], [[Write ''ret'']]]"

definition stale_labels :: "string list" where
  "stale_labels = [''A'', ''B'', ''C'', ''L'', ''Y'', ''X'']"

lemma optimize_loop_eval:
  "optimize_loop B = (case optimize_step B of None \<Rightarrow> None | Some (c, B') \<Rightarrow> if c then optimize_loop B' else Some B')"
  by (subst optimize_loop.simps) (auto split: option.split)

lemma small_offsets:
  "0 \<noteq> usize_MAX" "Suc 0 \<noteq> usize_MAX" "Suc (Suc 0) \<noteq> usize_MAX" "Suc (Suc (Suc 0)) \<noteq> usize_MAX"
  "Suc (Suc (Suc (Suc 0))) \<noteq> usize_MAX" "Suc (Suc (Suc (Suc (Suc 0)))) \<noteq> usize_MAX"
  "Suc (Suc (Suc (Suc (Suc (Suc 0))))) \<noteq> usize_MAX"
  by (simp_all add: usize_MAX_def)

lemma bind_weak_cong: "a = a' \<Longrightarrow> Option.bind a f = Option.bind a' f"
  by simp

lemmas buffer_eval = buffer_new_def end_inst_def write_str_def put_branch_def bind_label_def optimize_branches_def
  optimize_loop_eval optimize_step_def optimize_pair_def truncate_last_branch_def lazily_clear_labels_at_tail_def
  purge_latest_branches_def resolve_label_offset_def resolved_def set_offsets_def set_aliases_def branch_at_def vec_get_def
  vec_set_def rassert_def small_offsets small_offsets [symmetric] LABEL_LIST_THRESHOLD_def Let_def emit_function_def
  stale_labels_def stale_blocks_def two_way_def inst_calls_def eval_nat_numeral to_veneer_def branch_ok_def in_range_def

lemma stale_check:
  "(emit_function ''f'' stale_labels True [] stale_blocks \<bind> to_veneer) = None"
  "(emit_function ''f'' stale_labels False [] stale_blocks \<bind> to_veneer) = Some []"
  by (simp_all add: buffer_eval del: bind_eq_Some cong: bind_weak_cong)

lemma resolve_check: "to_veneer B = None \<Longrightarrow> buffer_resolve lines_of B = None" "to_veneer B = Some [] \<Longrightarrow> buffer_resolve lines_of B = Some B"
  by (simp_all add: buffer_resolve_def MAX_ROUNDS_def eval_nat_numeral rassert_def del: bind_eq_Some)

text \<open>C37: the range check looks up the offset of the branch target itself, not of the label the target was threaded to. On the function
  \<open>stale_blocks\<close>, whose fourth block is threaded to its last, the check reads a stale offset beyond the end of the buffer and panics
  after the simplifications, while the emission of the same function without them passes.\<close>

theorem resolve_stale_label_panics:
  "(do { B \<leftarrow> emit_function ''f'' stale_labels True [] stale_blocks; buffer_resolve lines_of B }) = None \<and>
   (\<exists>B. emit_function ''f'' stale_labels False [] stale_blocks = Some B \<and> buffer_resolve lines_of B = Some B)"
  using stale_check resolve_check [of _ lines_of]
  by (cases "emit_function ''f'' stale_labels True [] stale_blocks"; cases "emit_function ''f'' stale_labels False [] stale_blocks")
     (simp_all del: bind_eq_Some)

end
