(* ===== verification/Control_Flow.thy ===== *)
theory Control_Flow
  imports Rust_Prelude "HOL-Library.AList"
begin

text \<open>
  The control flow graph of a function (\<^verbatim>\<open>raana_ir/src/opt/utils/cfg.rs\<close>): the reachable blocks in depth first
  postorder, successors and predecessors, and whether the graph is acyclic. A function is given by its layout, the blocks in order
  with the kinds of their instructions. Hash maps are association lists with one entry per key; the order in which a
  hash map is iterated is a parameter. The top of a stack is the head of the list.
\<close>

section \<open>Model\<close>

type_synonym basic_block = nat

datatype inst_kind = Jump basic_block | Branch basic_block basic_block | Return | TailCall | Other

fun is_terminator :: "inst_kind \<Rightarrow> bool" where
  "is_terminator (Jump _) = True"
| "is_terminator (Branch _ _) = True"
| "is_terminator Return = True"
| "is_terminator TailCall = True"
| "is_terminator Other = False"

type_synonym layout = "(basic_block \<times> inst_kind list) list"

definition entry_bb :: "layout \<Rightarrow> basic_block option" where
  "entry_bb data = (case data of [] \<Rightarrow> None | b # _ \<Rightarrow> Some (fst b))"

text \<open>\<open>None\<close> is a panic: the block is not in the layout, is empty, has a terminator before its end, does not end in a terminator,
  or leaves the layout.\<close>

fun kind_targets :: "inst_kind \<Rightarrow> basic_block list rust" where
  "kind_targets (Jump t) = Some [t]"
| "kind_targets (Branch t f) = Some (if f \<noteq> t then [t, f] else [t])"
| "kind_targets Return = Some []"
| "kind_targets TailCall = Some []"
| "kind_targets Other = None"

definition block_successors :: "layout \<Rightarrow> basic_block \<Rightarrow> basic_block list rust" where
  "block_successors data block = do {
     insts \<leftarrow> map_of data block;
     terminator \<leftarrow> (if insts = [] then None else Some (last insts));
     rassert (\<forall>inst \<in> set (butlast insts). \<not> is_terminator inst);
     successors \<leftarrow> kind_targets terminator;
     rassert (\<forall>successor \<in> set successors. successor \<in> set (map fst data));
     Some successors }"

datatype block_visit = Enter basic_block | Exit basic_block

record dfs_state =
  active :: "basic_block set"
  visited :: "basic_block set"
  found :: "(basic_block \<times> basic_block list) list"
  post :: "basic_block list"
  no_cycle :: bool
  stack :: "block_visit list"

text \<open>The loop over the successors of a block that is entered, from the last to the first.\<close>

fun push_successors :: "basic_block set \<Rightarrow> basic_block set \<Rightarrow> basic_block list \<Rightarrow> bool \<times> block_visit list \<Rightarrow> bool \<times> block_visit list" where
  "push_successors act vis [] (acyc, stk) = (acyc, stk)"
| "push_successors act vis (s # ss) (acyc, stk) =
    push_successors act vis ss (if s \<in> act then (False, stk) else if s \<notin> vis then (acyc, Enter s # stk) else (acyc, stk))"

fun dfs_step :: "layout \<Rightarrow> dfs_state \<Rightarrow> (bool \<times> dfs_state) rust" where
  "dfs_step data st = (case stack st of
      [] \<Rightarrow> Some (False, st)
    | Enter block # rest \<Rightarrow>
        if block \<in> visited st then Some (True, st\<lparr>stack := rest\<rparr>)
        else if block \<in> active st then Some (True, st\<lparr>no_cycle := False, stack := rest\<rparr>)
        else do {
          ss \<leftarrow> block_successors data block;
          let act = insert block (active st);
          let (acyc, stk) = push_successors act (visited st) (rev ss) (no_cycle st, Exit block # rest);
          Some (True, st\<lparr>active := act, no_cycle := acyc, stack := stk, found := AList.update block ss (found st)\<rparr>) }
    | Exit block # rest \<Rightarrow>
        Some (True, st\<lparr>active := active st - {block}, visited := insert block (visited st), stack := rest,
          post := (if block \<in> visited st then post st else post st @ [block])\<rparr>))"

declare dfs_step.simps [simp del]

partial_function (option) dfs_loop :: "layout \<Rightarrow> dfs_state \<Rightarrow> dfs_state option" where
  "dfs_loop data st = do {
     (continue, st') \<leftarrow> dfs_step data st;
     if continue then dfs_loop data st' else Some st' }"

declare dfs_loop.simps [code]

record cfg =
  cfg_entry :: basic_block
  postorder :: "basic_block list"
  reverse_postorder :: "basic_block list"
  successors :: "(basic_block \<times> basic_block list) list"
  predecessors :: "(basic_block \<times> basic_block list) list"
  acyclic_flag :: bool

text \<open>\<open>map.entry(key).or_default().push(x)\<close>.\<close>

definition or_default_push :: "(basic_block \<times> basic_block list) list \<Rightarrow> basic_block \<Rightarrow> basic_block \<Rightarrow> (basic_block \<times> basic_block list) list" where
  "or_default_push g n x = AList.update n (case map_of g n of None \<Rightarrow> [x] | Some xs \<Rightarrow> xs @ [x]) g"

definition push_source :: "basic_block \<Rightarrow> (basic_block \<times> basic_block list) list \<Rightarrow> basic_block \<Rightarrow> (basic_block \<times> basic_block list) list rust" where
  "push_source source preds target = do {
     sources \<leftarrow> map_of preds target;
     Some (AList.update target (sources @ [source]) preds) }"

definition push_sources :: "(basic_block \<times> basic_block list) list \<Rightarrow> (basic_block \<times> basic_block list) list \<Rightarrow> basic_block \<Rightarrow>
    (basic_block \<times> basic_block list) list rust" where
  "push_sources succs preds source = do {
     targets \<leftarrow> map_of succs source;
     foldM (push_source source) preds targets }"

definition successors_of :: "cfg \<Rightarrow> basic_block \<Rightarrow> basic_block list rust" where
  "successors_of self block = map_of (successors self) block"

definition predecessors_of :: "cfg \<Rightarrow> basic_block \<Rightarrow> basic_block list rust" where
  "predecessors_of self block = map_of (predecessors self) block"

definition is_reachable :: "cfg \<Rightarrow> basic_block \<Rightarrow> bool" where
  "is_reachable self block = (map_of (successors self) block \<noteq> None)"

definition block_count :: "cfg \<Rightarrow> usize" where
  "block_count self = length (reverse_postorder self)"

definition edge_count :: "cfg \<Rightarrow> usize" where
  "edge_count self = sum_list (map (length \<circ> snd) (successors self))"

definition is_acyclic :: "cfg \<Rightarrow> bool" where
  "is_acyclic self = acyclic_flag self"

definition cfg_edges :: "cfg \<Rightarrow> (basic_block \<times> basic_block) list rust" where
  "cfg_edges self = foldM (\<lambda>acc src. do { ss \<leftarrow> successors_of self src; Some (acc @ map (\<lambda>dst. (src, dst)) ss) }) [] (reverse_postorder self)"

text \<open>The debug assertions on the finished graph.\<close>

definition verify :: "cfg \<Rightarrow> unit rust" where
  "verify self = do {
     rassert (reverse_postorder self \<noteq> [] \<and> hd (reverse_postorder self) = cfg_entry self);
     rassert (length (postorder self) = length (reverse_postorder self));
     rassert (length (successors self) = length (reverse_postorder self));
     rassert (length (predecessors self) = length (reverse_postorder self));
     let blocks = set (reverse_postorder self);
     rassert (card blocks = length (reverse_postorder self));
     rassert (set (postorder self) = blocks);
     es \<leftarrow> cfg_edges self;
     rassert (\<forall>(src, dst) \<in> set es. src \<in> blocks \<and> dst \<in> blocks \<and>
       (case predecessors_of self dst of Some ps \<Rightarrow> src \<in> set ps | None \<Rightarrow> False));
     rassert (\<forall>(dst, sources) \<in> set (predecessors self). \<forall>src \<in> set sources.
       (case successors_of self src of Some ss \<Rightarrow> dst \<in> set ss | None \<Rightarrow> False)) }"

text \<open>\<open>hash_order\<close> lists the keys of the successor map in the order in which the map is iterated.\<close>

definition cfg_new :: "(basic_block list \<Rightarrow> basic_block list) \<Rightarrow> layout \<Rightarrow> cfg option rust" where
  "cfg_new hash_order data = (case entry_bb data of
      None \<Rightarrow> Some None
    | Some entry \<Rightarrow> do {
        st \<leftarrow> dfs_loop data \<lparr>active = {}, visited = {}, found = [], post = [], no_cycle = True, stack = [Enter entry]\<rparr>;
        let rpo = rev (post st);
        rassert (rpo \<noteq> [] \<and> hd rpo = entry);
        let preds0 = fold (\<lambda>b. AList.update b []) rpo [];
        preds \<leftarrow> foldM (push_sources (found st)) preds0 (hash_order (map fst (found st)));
        let graph = \<lparr>cfg_entry = entry, postorder = post st, reverse_postorder = rpo, successors = found st,
          predecessors = preds, acyclic_flag = no_cycle st\<rparr>;
        verify graph;
        Some (Some graph) })"

section \<open>Reachable blocks\<close>

definition flows :: "layout \<Rightarrow> basic_block \<Rightarrow> basic_block \<Rightarrow> bool" where
  "flows data a b = (\<exists>ss. block_successors data a = Some ss \<and> b \<in> set ss)"

definition reachable :: "layout \<Rightarrow> basic_block \<Rightarrow> bool" where
  "reachable data b = (\<exists>e. entry_bb data = Some e \<and> (flows data)\<^sup>*\<^sup>* e b)"

text \<open>Every reachable block ends in a terminator with targets in the layout.\<close>

definition graph_ok :: "layout \<Rightarrow> bool" where
  "graph_ok data = (data \<noteq> [] \<and> (\<forall>b. reachable data b \<longrightarrow> block_successors data b \<noteq> None))"

lemma flows_reachable: "reachable data a \<Longrightarrow> flows data a b \<Longrightarrow> reachable data b"
  unfolding reachable_def by (meson rtranclp.rtrancl_into_rtrancl)

lemma entry_reachable: "entry_bb data = Some e \<Longrightarrow> reachable data e"
  by (simp add: reachable_def)

lemma block_successors_in_layout: "block_successors data b = Some ss \<Longrightarrow> b \<in> set (map fst data)"
proof -
  assume "block_successors data b = Some ss"
  then obtain xs where "map_of data b = Some xs" by (auto simp: block_successors_def)
  then show ?thesis using map_of_SomeD by force
qed

lemma block_successors_small: "block_successors data b = Some ss \<Longrightarrow> length ss \<le> 2"
  by (auto simp: block_successors_def elim!: kind_targets.elims split: if_splits)

section \<open>The depth first search\<close>

fun blk :: "block_visit \<Rightarrow> basic_block" where
  "blk (Enter b) = b"
| "blk (Exit b) = b"

fun top_exit :: "block_visit list \<Rightarrow> basic_block option" where
  "top_exit [] = None"
| "top_exit (Enter _ # stk) = top_exit stk"
| "top_exit (Exit b # stk) = Some b"

text \<open>Everything on the stack is a successor of the block to be left next below it; only the entry has none.\<close>

fun links_ok :: "layout \<Rightarrow> basic_block \<Rightarrow> block_visit list \<Rightarrow> bool" where
  "links_ok data e [] = True"
| "links_ok data e (v # stk) = ((case top_exit stk of None \<Rightarrow> blk v = e \<and> stk = [] | Some c \<Rightarrow> flows data c (blk v)) \<and> links_ok data e stk)"

fun fresh_ok :: "block_visit list \<Rightarrow> bool" where
  "fresh_ok [] = True"
| "fresh_ok (v # stk) = (Exit (blk v) \<notin> set stk \<and> fresh_ok stk)"

text \<open>The successors of a block to be left are done, or above it on the stack.\<close>

fun pend_ok :: "layout \<Rightarrow> (basic_block \<Rightarrow> bool) \<Rightarrow> basic_block set \<Rightarrow> block_visit list \<Rightarrow> bool" where
  "pend_ok data P A [] = True"
| "pend_ok data P A (Enter s # stk) = pend_ok data P (insert s A) stk"
| "pend_ok data P A (Exit b # stk) = ((\<forall>s. flows data b s \<longrightarrow> P s \<or> s \<in> A) \<and> pend_ok data P (insert b A) stk)"

lemma pend_ok_mono:
  "pend_ok data P A stk \<Longrightarrow> \<forall>x. P x \<longrightarrow> P' x \<Longrightarrow> \<forall>x \<in> A. P' x \<or> x \<in> A' \<Longrightarrow> pend_ok data P' A' stk"
proof (induction data P A stk arbitrary: A' rule: pend_ok.induct)
  case (2 data P A s stk)
  then show ?case by (metis insert_iff pend_ok.simps(2))
next
  case (3 data P A b stk)
  have "pend_ok data P' (insert b A') stk" using 3 by (metis insert_iff pend_ok.simps(3))
  then show ?case using 3 by auto
qed simp

definition handled :: "dfs_state \<Rightarrow> basic_block \<Rightarrow> bool" where
  "handled st s = (s \<in> visited st \<or> s \<in> active st \<and> \<not> no_cycle st)"

definition dfs_inv :: "layout \<Rightarrow> basic_block \<Rightarrow> dfs_state \<Rightarrow> bool" where
  "dfs_inv data e st = (
     set (post st) = visited st \<and> distinct (post st) \<and> active st \<inter> visited st = {} \<and>
     {b. Exit b \<in> set (stack st)} = active st \<and> fresh_ok (stack st) \<and> links_ok data e (stack st) \<and>
     distinct (map fst (found st)) \<and> fst ` set (found st) = active st \<union> visited st \<and>
     (\<forall>(b, ss) \<in> set (found st). block_successors data b = Some ss) \<and>
     (\<forall>b \<in> active st \<union> visited st \<union> blk ` set (stack st). reachable data b) \<and>
     pend_ok data (handled st) {} (stack st) \<and>
     (\<forall>b \<in> visited st. \<forall>s. flows data b s \<longrightarrow> handled st s) \<and>
     (no_cycle st \<longrightarrow> (\<forall>i < length (post st). \<forall>s. flows data (post st ! i) s \<longrightarrow> s \<in> set (take i (post st)))) \<and>
     (\<not> no_cycle st \<longrightarrow> (\<exists>a. reachable data a \<and> (flows data)\<^sup>+\<^sup>+ a a)) \<and>
     (\<forall>i < length (post st). post st ! i \<noteq> e \<longrightarrow>
        (\<exists>b. flows data b (post st ! i) \<and> (b \<in> active st \<or> b \<in> set (drop (Suc i) (post st))))) \<and>
     (stack st = [Enter e] \<and> active st = {} \<and> visited st = {} \<or>
      stack st \<noteq> [] \<and> last (stack st) = Exit e \<or>
      stack st = [] \<and> post st \<noteq> [] \<and> last (post st) = e))"

lemma dfs_inv_init:
  "entry_bb data = Some e \<Longrightarrow>
   dfs_inv data e \<lparr>active = {}, visited = {}, found = [], post = [], no_cycle = True, stack = [Enter e]\<rparr>"
  by (simp add: dfs_inv_def entry_reachable)

text \<open>Pushing successors.\<close>

definition pushed :: "basic_block set \<Rightarrow> basic_block set \<Rightarrow> basic_block list \<Rightarrow> block_visit list" where
  "pushed act vis ss = map Enter (filter (\<lambda>s. s \<notin> act \<and> s \<notin> vis) ss)"

lemma push_successors_eq:
  "push_successors act vis ss (acyc, stk) = (acyc \<and> set ss \<inter> act = {}, rev (pushed act vis ss) @ stk)"
  by (induction ss arbitrary: acyc stk) (auto simp: pushed_def)

lemma push_successors_rev:
  "push_successors act vis (rev ss) (acyc, stk) = (acyc \<and> set ss \<inter> act = {}, pushed act vis ss @ stk)"
  by (simp add: push_successors_eq) (simp add: pushed_def rev_map [symmetric] rev_filter [symmetric])

lemma top_exit_enters: "top_exit (map Enter xs @ stk) = top_exit stk"
  by (induction xs) auto

lemma links_ok_enters:
  "top_exit stk = Some c \<Longrightarrow> \<forall>x \<in> set xs. flows data c x \<Longrightarrow> links_ok data e stk \<Longrightarrow> links_ok data e (map Enter xs @ stk)"
  by (induction xs) (auto simp: top_exit_enters)

lemma fresh_ok_enters: "\<forall>x \<in> set xs. Exit x \<notin> set stk \<Longrightarrow> fresh_ok stk \<Longrightarrow> fresh_ok (map Enter xs @ stk)"
  by (induction xs) auto

lemma pend_ok_enters: "pend_ok data P (A \<union> set xs) stk \<Longrightarrow> pend_ok data P A (map Enter xs @ stk)"
  by (induction xs arbitrary: A) (auto simp: Un_commute insert_commute)

text \<open>Blocks to be left reach those above them.\<close>

lemma links_ok_path:
  "links_ok data e stk \<Longrightarrow> Exit c \<in> set stk \<Longrightarrow> top_exit stk = Some b \<Longrightarrow> (flows data)\<^sup>*\<^sup>* c b"
proof (induction stk arbitrary: b)
  case (Cons v stk)
  show ?case
  proof (cases v)
    case (Enter s)
    then show ?thesis using Cons by auto
  next
    case (Exit x)
    then have x: "x = b" using Cons.prems by simp
    show ?thesis
    proof (cases "c = b")
      case False
      then have c: "Exit c \<in> set stk" using Cons.prems(2) Exit x by auto
      then obtain d where d: "top_exit stk = Some d" by (induction stk rule: top_exit.induct) auto
      then have "flows data d b" using Cons.prems(1) Exit x by simp
      moreover have "(flows data)\<^sup>*\<^sup>* c d" using Cons.IH c d Cons.prems(1) by simp
      ultimately show ?thesis by (rule rtranclp.rtrancl_into_rtrancl [rotated])
    qed simp
  qed
qed simp

lemma in_update: "p \<in> set (AList.update k v xs) \<Longrightarrow> p = (k, v) \<or> p \<in> set xs"
  by (induction xs) (auto split: if_splits)

lemma handled_mono:
  "visited st \<subseteq> visited st' \<Longrightarrow> active st \<subseteq> active st' \<union> visited st' \<Longrightarrow> (no_cycle st' \<Longrightarrow> no_cycle st) \<Longrightarrow> handled st s \<Longrightarrow> handled st' s"
  by (auto simp: handled_def)

text \<open>Leaving a block.\<close>

lemma dfs_exit_inv:
  assumes "dfs_inv data e st" "stack st = Exit b # rest"
  defines "st' \<equiv> st\<lparr>active := active st - {b}, visited := insert b (visited st), stack := rest, post := post st @ [b]\<rparr>"
  shows "b \<notin> visited st" "dfs_inv data e st'"
proof -
  note I = assms(1) [unfolded dfs_inv_def, simplified assms(2)]
  have act: "{x. Exit x \<in> set rest} = active st - {b}" "b \<in> active st" using I by auto
  show bv: "b \<notin> visited st" using I act(2) by auto
  have hm: "handled st s \<Longrightarrow> handled st' s" for s by (rule handled_mono [of st st']) (auto simp: st'_def)
  have hb: "handled st' b" by (simp add: handled_def st'_def)
  have own: "flows data b s \<Longrightarrow> handled st s" for s using I by simp
  have 1: "set (post st') = visited st'" "distinct (post st')" "active st' \<inter> visited st' = {}" "fresh_ok rest" "links_ok data e rest"
    "distinct (map fst (found st'))" "fst ` set (found st') = active st' \<union> visited st'"
    "\<forall>(b, ss) \<in> set (found st'). block_successors data b = Some ss"
    "\<forall>b \<in> active st' \<union> visited st' \<union> blk ` set rest. reachable data b"
    using I act bv by (auto simp: st'_def)
  have pend: "pend_ok data (handled st') {} rest"
    using pend_ok_mono [of data "handled st" "{b}" rest "handled st'" "{}"] I hm hb by simp
  have closed: "\<forall>x \<in> visited st'. \<forall>s. flows data x s \<longrightarrow> handled st' s"
    using I own hm by (auto simp: st'_def)
  have order: "\<forall>i < length (post st'). \<forall>s. flows data (post st' ! i) s \<longrightarrow> s \<in> set (take i (post st'))" if "no_cycle st'"
  proof (intro allI impI)
    fix i s assume "i < length (post st')" "flows data (post st' ! i) s"
    then show "s \<in> set (take i (post st'))"
      using I that own [of s] by (cases "i < length (post st)") (auto simp: st'_def nth_append handled_def less_Suc_eq)
  qed
  have cyc: "\<not> no_cycle st' \<longrightarrow> (\<exists>a. reachable data a \<and> (flows data)\<^sup>+\<^sup>+ a a)" using I by (simp add: st'_def)
  have par: "\<forall>i < length (post st'). post st' ! i \<noteq> e \<longrightarrow>
      (\<exists>c. flows data c (post st' ! i) \<and> (c \<in> active st' \<or> c \<in> set (drop (Suc i) (post st'))))"
  proof (intro allI impI)
    have parI: "\<forall>i < length (post st). post st ! i \<noteq> e \<longrightarrow> (\<exists>c. flows data c (post st ! i) \<and> (c \<in> active st \<or> c \<in> set (drop (Suc i) (post st))))"
      using I by blast
    fix i assume i: "i < length (post st')" "post st' ! i \<noteq> e"
    show "\<exists>c. flows data c (post st' ! i) \<and> (c \<in> active st' \<or> c \<in> set (drop (Suc i) (post st')))"
    proof (cases "i < length (post st)")
      case True
      moreover from this have "post st ! i \<noteq> e" using i(2) by (simp add: st'_def nth_append)
      ultimately obtain c where "flows data c (post st ! i)" "c \<in> active st \<or> c \<in> set (drop (Suc i) (post st))"
        using parI by blast
      then show ?thesis using True by (auto simp: st'_def nth_append)
    next
      case False
      then have "post st' ! i = b" using i(1) by (auto simp: st'_def nth_append less_Suc_eq)
      moreover from this obtain c where c: "top_exit rest = Some c" "flows data c b" using I i(2) by (cases "top_exit rest") auto
      moreover have "Exit c \<in> set rest" using c(1) by (induction rest rule: top_exit.induct) auto
      moreover have "b \<noteq> c" using calculation I by auto
      ultimately show ?thesis using act(1) by (auto simp: st'_def)
    qed
  qed
  have bot: "rest \<noteq> [] \<and> last rest = Exit e \<or> rest = [] \<and> post st' \<noteq> [] \<and> last (post st') = e"
    using I by (auto simp: st'_def split: if_splits)
  show "dfs_inv data e st'" unfolding dfs_inv_def using 1 act pend closed order cyc par bot by (simp add: st'_def)
qed

text \<open>Entering a block for the first time.\<close>

lemma dfs_enter_inv:
  assumes "dfs_inv data e st" "stack st = Enter b # rest" "b \<notin> visited st" "block_successors data b = Some ss"
  defines "act \<equiv> insert b (active st)"
  defines "st' \<equiv> st\<lparr>active := act, no_cycle := no_cycle st \<and> set ss \<inter> act = {}, stack := pushed act (visited st) ss @ Exit b # rest,
    found := AList.update b ss (found st)\<rparr>"
  shows "b \<notin> active st" "dfs_inv data e st'"
proof -
  note I = assms(1) [unfolded dfs_inv_def, simplified assms(2)]
  have exits: "{x. Exit x \<in> set rest} = active st" using I by auto
  have bf: "Exit b \<notin> set rest" using I by simp
  show ba: "b \<notin> active st" using exits bf by auto
  have fl: "flows data b s \<longleftrightarrow> s \<in> set ss" for s using assms(4) by (auto simp: flows_def)
  have rb: "reachable data b" using I by simp
  have hm: "handled st s \<Longrightarrow> handled st' s" for s by (rule handled_mono [of st st']) (auto simp: st'_def act_def)
  let ?xs = "filter (\<lambda>s. s \<notin> act \<and> s \<notin> visited st) ss"
  have stk: "stack st' = map Enter ?xs @ Exit b # rest" by (simp add: st'_def pushed_def)
  have 1: "set (post st') = visited st'" "distinct (post st')" "active st' \<inter> visited st' = {}"
    using I assms(3) by (auto simp: st'_def act_def)
  have 2: "{x. Exit x \<in> set (stack st')} = active st'" using exits unfolding stk by (auto simp: st'_def act_def)
  have 3: "fresh_ok (stack st')" unfolding stk
    by (rule fresh_ok_enters) (use I exits in \<open>auto simp: act_def\<close>)
  have lk: "links_ok data e (Exit b # rest)" using I by (cases "top_exit rest") simp_all
  have 4: "links_ok data e (stack st')" unfolding stk
    by (rule links_ok_enters [where c = b]) (use lk fl in \<open>simp_all del: links_ok.simps\<close>)
  have 5: "distinct (map fst (found st'))" "fst ` set (found st') = active st' \<union> visited st'"
    using I dom_update [of b ss "found st"] distinct_update [of "found st" b ss] by (auto simp: st'_def act_def dom_update)
  have 6: "\<forall>(b, ss) \<in> set (found st'). block_successors data b = Some ss"
    using I assms(4) by (fastforce simp: st'_def dest: in_update)
  have 7: "\<forall>x \<in> active st' \<union> visited st' \<union> blk ` set (stack st'). reachable data x"
    unfolding stk using I rb flows_reachable [OF rb] fl by (auto simp: st'_def act_def)
  have pend: "pend_ok data (handled st') {} (stack st')" unfolding stk
  proof (rule pend_ok_enters)
    have "pend_ok data (handled st) {b} rest" using I by simp
    then have "pend_ok data (handled st') (insert b ({} \<union> set ?xs)) rest" by (rule pend_ok_mono) (auto simp: hm)
    moreover have "handled st' s \<or> s \<in> set ?xs" if "flows data b s" for s
      using that fl by (auto simp: handled_def st'_def)
    ultimately show "pend_ok data (handled st') ({} \<union> set ?xs) (Exit b # rest)" by auto
  qed
  have closed: "\<forall>x \<in> visited st'. \<forall>s. flows data x s \<longrightarrow> handled st' s" using I hm by (auto simp: st'_def)
  have order: "no_cycle st' \<longrightarrow> (\<forall>i < length (post st'). \<forall>s. flows data (post st' ! i) s \<longrightarrow> s \<in> set (take i (post st')))"
    using I by (simp add: st'_def)
  have cyc: "\<exists>a. reachable data a \<and> (flows data)\<^sup>+\<^sup>+ a a" if nc: "\<not> no_cycle st'"
  proof (cases "no_cycle st")
    case True
    then obtain s where s: "s \<in> set ss" "s \<in> act" using nc by (auto simp: st'_def)
    have "(flows data)\<^sup>*\<^sup>* s b" by (rule links_ok_path [OF lk]) (use s(2) exits in \<open>auto simp: act_def\<close>)
    then show ?thesis using s(1) fl rb flows_reachable [OF rb] by (metis rtranclp_into_tranclp1)
  qed (use I in simp)
  have par: "\<forall>i < length (post st'). post st' ! i \<noteq> e \<longrightarrow>
      (\<exists>c. flows data c (post st' ! i) \<and> (c \<in> active st' \<or> c \<in> set (drop (Suc i) (post st'))))"
    using I by (auto simp: st'_def act_def)
  have bot: "last (stack st') = Exit e" unfolding stk using I by (auto split: if_splits)
  show "dfs_inv data e st'" unfolding dfs_inv_def using 1 2 3 4 5 6 7 pend closed order cyc par bot stk by auto
qed

text \<open>A block on the stack that has been left already.\<close>

lemma dfs_skip_inv:
  assumes "dfs_inv data e st" "stack st = Enter b # rest" "b \<in> visited st"
  shows "dfs_inv data e (st\<lparr>stack := rest\<rparr>)"
proof -
  note I = assms(1) [unfolded dfs_inv_def, simplified assms(2)]
  have h: "handled (st\<lparr>stack := rest\<rparr>) = handled st" by (intro ext) (simp add: handled_def)
  have "pend_ok data (handled st) {} rest"
    using pend_ok_mono [of data "handled st" "{b}" rest "handled st" "{}"] I assms(3) by (simp add: handled_def)
  then show ?thesis unfolding dfs_inv_def using I assms(3) h by (auto split: if_splits)
qed

definition dfs_weight :: "layout \<Rightarrow> dfs_state \<Rightarrow> nat" where
  "dfs_weight data st = 4 * card (set (map fst data) - (active st \<union> visited st)) + length (stack st)"

lemma dfs_step_ok:
  assumes "graph_ok data" "dfs_inv data e st"
  shows "\<exists>c st'. dfs_step data st = Some (c, st') \<and> dfs_inv data e st' \<and> (c \<longrightarrow> dfs_weight data st' < dfs_weight data st)"
proof (cases "stack st")
  case Nil
  then have "dfs_step data st = Some (False, st)" by (simp add: dfs_step.simps)
  then show ?thesis using assms(2) by blast
next
  case (Cons v rest)
  show ?thesis
  proof (cases v)
    case (Exit b)
    then have stk: "stack st = Exit b # rest" using Cons by simp
    note ex = dfs_exit_inv [OF assms(2) stk]
    have "b \<in> active st" using assms(2) stk by (auto simp: dfs_inv_def)
    then have "active st - {b} \<union> insert b (visited st) = active st \<union> visited st" by auto
    then show ?thesis using ex stk by (auto simp: dfs_step.simps dfs_weight_def)
  next
    case (Enter b)
    then have stk: "stack st = Enter b # rest" using Cons by simp
    show ?thesis
    proof (cases "b \<in> visited st")
      case True
      then show ?thesis using dfs_skip_inv [OF assms(2) stk True] stk by (auto simp: dfs_step.simps dfs_weight_def)
    next
      case False
      have "reachable data b" using assms(2) stk by (simp add: dfs_inv_def)
      then obtain ss where ss: "block_successors data b = Some ss" using assms(1) by (auto simp: graph_ok_def)
      note en = dfs_enter_inv [OF assms(2) stk False ss]
      let ?L = "set (map fst data)" and ?act = "insert b (active st)"
      have "card (?L - (?act \<union> visited st)) < card (?L - (active st \<union> visited st))"
        by (rule psubset_card_mono) (use block_successors_in_layout [OF ss] en(1) False in auto)
      moreover have "length (pushed ?act (visited st) ss) \<le> 2"
        unfolding pushed_def length_map by (rule le_trans [OF length_filter_le block_successors_small [OF ss]])
      ultimately show ?thesis using en stk False ss
        by (intro exI [of _ True]) (simp add: dfs_step.simps dfs_weight_def push_successors_rev Let_def del: bind_eq_Some)
    qed
  qed
qed

interpretation dfs: progress_loop "dfs_step data" "dfs_loop data" "\<lambda>st. graph_ok data \<and> dfs_inv data e st"
    "\<lambda>_ st. graph_ok data \<and> dfs_inv data e st" "dfs_weight data" for data e
proof
  show "dfs_loop data st = Option.bind (dfs_step data st) (\<lambda>(c, st'). if c then dfs_loop data st' else Some st')" for st
    by (rule dfs_loop.simps)
  show "\<exists>c st'. dfs_step data st = Some (c, st') \<and> (graph_ok data \<and> dfs_inv data e st') \<and> (c \<longrightarrow> dfs_weight data st' < dfs_weight data st)"
    if "graph_ok data \<and> dfs_inv data e st" for st
    using dfs_step_ok [of data e st] that by blast
qed auto

lemma dfs_step_stops: "dfs_step data st = Some (False, st') \<Longrightarrow> st' = st \<and> stack st = []"
  by (auto simp: dfs_step.simps Let_def split: list.splits block_visit.splits if_splits prod.splits)

text \<open>The result of the search: the reachable blocks in postorder.\<close>

definition dfs_done :: "layout \<Rightarrow> basic_block \<Rightarrow> dfs_state \<Rightarrow> bool" where
  "dfs_done data e st = (distinct (post st) \<and> set (post st) = {b. reachable data b} \<and> post st \<noteq> [] \<and> last (post st) = e \<and>
     distinct (map fst (found st)) \<and> fst ` set (found st) = {b. reachable data b} \<and>
     (\<forall>(b, ss) \<in> set (found st). block_successors data b = Some ss) \<and>
     (\<forall>i < length (post st). post st ! i \<noteq> e \<longrightarrow> (\<exists>b \<in> set (drop (Suc i) (post st)). flows data b (post st ! i))) \<and>
     (no_cycle st \<longleftrightarrow> (\<nexists>a. reachable data a \<and> (flows data)\<^sup>+\<^sup>+ a a)))"

lemma postorder_acyclic:
  assumes "distinct xs" "\<forall>i < length xs. \<forall>s. R (xs ! i) s \<longrightarrow> s \<in> set (take i xs)" "a \<in> set xs"
  shows "\<not> R\<^sup>+\<^sup>+ a a"
proof
  define pos where "pos = (\<lambda>x. THE i. i < length xs \<and> xs ! i = x)"
  have pos: "pos (xs ! i) = i" if "i < length xs" for i
    unfolding pos_def using that assms(1) by (intro the_equality) (auto simp: nth_eq_iff_index_eq)
  have step: "s \<in> set xs \<and> pos s < pos x" if x: "x \<in> set xs" "R x s" for x s
  proof -
    obtain i where i: "i < length xs" "xs ! i = x" using x(1) by (auto simp: in_set_conv_nth)
    then have "s \<in> set (take i xs)" using assms(2) x(2) by blast
    then obtain j where "j < i" "xs ! j = s" using i(1) by (auto simp: in_set_conv_nth)
    then show ?thesis using i pos by (metis dual_order.strict_trans nth_mem)
  qed
  assume "R\<^sup>+\<^sup>+ a a"
  have "b \<in> set xs \<and> pos b < pos a" if "R\<^sup>+\<^sup>+ a b" for b
    using that by (induction rule: tranclp_induct) (use step assms(3) in \<open>force dest: less_trans\<close>)+
  then show False using \<open>R\<^sup>+\<^sup>+ a a\<close> by blast
qed

lemma dfs_result:
  assumes "graph_ok data" "entry_bb data = Some e"
  shows "\<exists>st. dfs_loop data \<lparr>active = {}, visited = {}, found = [], post = [], no_cycle = True, stack = [Enter e]\<rparr> = Some st \<and> dfs_done data e st"
proof -
  obtain st where st: "dfs_loop data \<lparr>active = {}, visited = {}, found = [], post = [], no_cycle = True, stack = [Enter e]\<rparr> = Some st"
      "dfs_inv data e st" "stack st = []"
    using dfs.loop_stops [of data e] assms(1) dfs_inv_init [OF assms(2)] dfs_step_stops by blast
  note I = st(2) [unfolded dfs_inv_def, simplified st(3)]
  have act: "active st = {}" using I by simp
  have closed: "\<forall>b \<in> visited st. \<forall>s. flows data b s \<longrightarrow> s \<in> visited st" using I act by (simp add: handled_def)
  have p: "post st \<noteq> []" "last (post st) = e" "set (post st) = visited st" "distinct (post st)"
    "distinct (map fst (found st))" "fst ` set (found st) = visited st" "\<forall>(b, ss) \<in> set (found st). block_successors data b = Some ss"
    using I by simp_all
  then have e: "e \<in> visited st" using last_in_set by blast
  have "b \<in> visited st" if "(flows data)\<^sup>*\<^sup>* e b" for b using that by (induction rule: rtranclp_induct) (use e closed in auto)
  then have vis: "visited st = {b. reachable data b}" using I assms(2) by (auto simp: reachable_def)
  have cyc: "no_cycle st \<longleftrightarrow> (\<nexists>a. reachable data a \<and> (flows data)\<^sup>+\<^sup>+ a a)"
  proof
    assume nc: "no_cycle st"
    then have ord: "\<forall>i < length (post st). \<forall>s. flows data (post st ! i) s \<longrightarrow> s \<in> set (take i (post st))" using I by blast
    show "\<nexists>a. reachable data a \<and> (flows data)\<^sup>+\<^sup>+ a a" 
      using postorder_acyclic [OF p(4) ord] p(3) vis by (metis mem_Collect_eq)
  qed (use I in blast)
  have par: "\<forall>i < length (post st). post st ! i \<noteq> e \<longrightarrow> (\<exists>b \<in> set (drop (Suc i) (post st)). flows data b (post st ! i))"
  proof -
    have "\<forall>i < length (post st). post st ! i \<noteq> e \<longrightarrow>
        (\<exists>b. flows data b (post st ! i) \<and> (b \<in> active st \<or> b \<in> set (drop (Suc i) (post st))))"
      using I by (elim conjE) assumption
    then show ?thesis unfolding act by blast
  qed
  have "dfs_done data e st" unfolding dfs_done_def vis [symmetric] by (intro conjI p cyc par)
  then show ?thesis using st(1) by blast
qed

section \<open>The finished graph\<close>

text \<open>What is known of the iteration of a hash map: every key is visited once.\<close>

definition hash_ok :: "(basic_block list \<Rightarrow> basic_block list) \<Rightarrow> bool" where
  "hash_ok hash_order = (\<forall>xs. distinct xs \<longrightarrow> distinct (hash_order xs) \<and> set (hash_order xs) = set xs)"

lemma block_successors_distinct: "block_successors data b = Some ss \<Longrightarrow> distinct ss"
  by (auto simp: block_successors_def elim!: kind_targets.elims split: if_splits)

lemma key_lookup: "t \<in> set (map fst xs) \<Longrightarrow> \<exists>v. map_of xs t = Some v"
  by (metis list.set_map map_of_eq_None_iff not_Some_eq)

lemma update_new: "b \<notin> fst ` set xs \<Longrightarrow> AList.update b v xs = xs @ [(b, v)]"
  by (induction xs) auto

lemma initial_preds: "distinct rpo \<Longrightarrow> fold (\<lambda>b. AList.update b []) rpo [] = map (\<lambda>b. (b, [])) rpo"
  by (induction rpo rule: rev_induct) (auto simp: update_new image_image)

text \<open>Adding the edges of one block.\<close>

lemma push_source_ok:
  assumes "map fst preds = rpo" "set ts \<subseteq> set rpo" "distinct ts"
  shows "\<exists>preds'. foldM (push_source source) preds ts = Some preds' \<and> map fst preds' = rpo \<and>
    (\<forall>t. map_of preds' t = map_option (\<lambda>ps. ps @ (if t \<in> set ts then [source] else [])) (map_of preds t))"
  using assms
proof (induction ts arbitrary: preds)
  case Nil
  then show ?case by (auto simp: option.map_ident)
next
  case (Cons t ts)
  have t: "t \<in> set (map fst preds)" using Cons.prems by simp
  obtain ps where ps: "map_of preds t = Some ps" using key_lookup [OF t] by blast
  let ?p = "AList.update t (ps @ [source]) preds"
  have keys: "map fst ?p = rpo" using update_keys [of t _ preds] t Cons.prems(1) by simp
  then obtain preds' where p': "foldM (push_source source) ?p ts = Some preds'" "map fst preds' = rpo"
      "\<forall>u. map_of preds' u = map_option (\<lambda>qs. qs @ (if u \<in> set ts then [source] else [])) (map_of ?p u)"
    using Cons.IH [of ?p] Cons.prems(2,3) by auto
  have "map_of preds' u = map_option (\<lambda>qs. qs @ (if u \<in> set (t # ts) then [source] else [])) (map_of preds u)" for u
    using p'(3) Cons.prems(3) ps by (cases "u = t") (simp_all add: update_conv')
  moreover have "push_source source preds t = Some ?p" using ps by (simp add: push_source_def)
  then have "foldM (push_source source) preds (t # ts) = Some preds'" using p'(1) by (simp del: bind_eq_Some)
  ultimately show ?case using p'(2) by blast
qed

text \<open>The sources found so far, for every block.\<close>

definition preds_of :: "layout \<Rightarrow> basic_block list \<Rightarrow> (basic_block \<times> basic_block list) list \<Rightarrow> basic_block list \<Rightarrow> bool" where
  "preds_of data rpo preds seen = (map fst preds = rpo \<and>
     (\<forall>t \<in> set rpo. \<exists>ps. map_of preds t = Some ps \<and> distinct ps \<and> set ps = {s \<in> set seen. flows data s t}))"

lemma push_sources_ok:
  assumes "preds_of data rpo preds seen" "distinct (seen @ srcs)"
    and "\<forall>s \<in> set srcs. \<exists>ss. map_of fnd s = Some ss \<and> block_successors data s = Some ss \<and> set ss \<subseteq> set rpo"
  shows "\<exists>preds'. foldM (push_sources fnd) preds srcs = Some preds' \<and> preds_of data rpo preds' (seen @ srcs)"
  using assms
proof (induction srcs arbitrary: preds seen)
  case (Cons s srcs)
  obtain ss where ss: "map_of fnd s = Some ss" "block_successors data s = Some ss" "set ss \<subseteq> set rpo" using Cons.prems(3) by auto
  obtain p1 where p1: "foldM (push_source s) preds ss = Some p1" "map fst p1 = rpo"
      "\<forall>t. map_of p1 t = map_option (\<lambda>ps. ps @ (if t \<in> set ss then [s] else [])) (map_of preds t)"
    using push_source_ok [OF _ ss(3) block_successors_distinct [OF ss(2)]] Cons.prems(1) by (metis preds_of_def)
  have fl: "flows data s t \<longleftrightarrow> t \<in> set ss" for t using ss(2) by (simp add: flows_def)
  have "\<exists>ps. map_of p1 t = Some ps \<and> distinct ps \<and> set ps = {x \<in> set (seen @ [s]). flows data x t}" if t: "t \<in> set rpo" for t
  proof -
    obtain ps where "map_of preds t = Some ps" "distinct ps" "set ps = {x \<in> set seen. flows data x t}"
      using Cons.prems(1) t by (auto simp: preds_of_def)
    then show ?thesis using p1(3) Cons.prems(2) fl by auto
  qed
  then have "preds_of data rpo p1 (seen @ [s])" using p1(2) by (simp add: preds_of_def)
  then obtain p' where "foldM (push_sources fnd) p1 srcs = Some p'" "preds_of data rpo p' ((seen @ [s]) @ srcs)"
    using Cons.IH [of p1 "seen @ [s]"] Cons.prems(2,3) by auto
  moreover have "push_sources fnd preds s = Some p1" using ss(1) p1(1) by (simp add: push_sources_def)
  ultimately show ?case by simp
qed simp

definition graph_of :: "layout \<Rightarrow> cfg \<Rightarrow> bool" where
  "graph_of data c = (entry_bb data = Some (cfg_entry c) \<and> reverse_postorder c = rev (postorder c) \<and>
     distinct (reverse_postorder c) \<and> set (reverse_postorder c) = {b. reachable data b} \<and>
     reverse_postorder c \<noteq> [] \<and> hd (reverse_postorder c) = cfg_entry c \<and>
     (\<forall>i. 0 < i \<and> i < length (reverse_postorder c) \<longrightarrow> (\<exists>j < i. flows data (reverse_postorder c ! j) (reverse_postorder c ! i))) \<and>
     distinct (map fst (successors c)) \<and> fst ` set (successors c) = {b. reachable data b} \<and>
     (\<forall>b. reachable data b \<longrightarrow> successors_of c b = block_successors data b) \<and>
     map fst (predecessors c) = reverse_postorder c \<and>
     (\<forall>b. reachable data b \<longrightarrow> (\<exists>ps. predecessors_of c b = Some ps \<and> distinct ps \<and> set ps = {a. reachable data a \<and> flows data a b})) \<and>
     (acyclic_flag c \<longleftrightarrow> (\<nexists>a. reachable data a \<and> (flows data)\<^sup>+\<^sup>+ a a)))"

lemma graph_ofD:
  assumes "graph_of data c"
  shows "entry_bb data = Some (cfg_entry c)" "reverse_postorder c = rev (postorder c)"
    "distinct (reverse_postorder c)" "set (reverse_postorder c) = {b. reachable data b}"
    "reverse_postorder c \<noteq> []" "hd (reverse_postorder c) = cfg_entry c"
    "\<And>i. 0 < i \<Longrightarrow> i < length (reverse_postorder c) \<Longrightarrow> \<exists>j < i. flows data (reverse_postorder c ! j) (reverse_postorder c ! i)"
    "distinct (map fst (successors c))" "fst ` set (successors c) = {b. reachable data b}"
    "\<And>b. reachable data b \<Longrightarrow> successors_of c b = block_successors data b"
    "map fst (predecessors c) = reverse_postorder c"
    "\<And>b. reachable data b \<Longrightarrow> \<exists>ps. predecessors_of c b = Some ps \<and> distinct ps \<and> set ps = {a. reachable data a \<and> flows data a b}"
    "acyclic_flag c \<longleftrightarrow> (\<nexists>a. reachable data a \<and> (flows data)\<^sup>+\<^sup>+ a a)"
  using assms unfolding graph_of_def by blast+

lemma edges_ok:
  assumes "\<forall>b \<in> set bs. \<exists>ss. successors_of c b = Some ss"
  shows "\<exists>es. foldM (\<lambda>acc src. do { ss \<leftarrow> successors_of c src; Some (acc @ map (\<lambda>dst. (src, dst)) ss) }) acc bs = Some es \<and>
    (\<forall>(a, b) \<in> set es. (a, b) \<in> set acc \<or> a \<in> set bs \<and> (\<exists>ss. successors_of c a = Some ss \<and> b \<in> set ss))"
  using assms
proof (induction bs arbitrary: acc)
  case (Cons a bs)
  obtain ss where ss: "successors_of c a = Some ss" using Cons.prems by auto
  obtain es where es: "foldM (\<lambda>acc src. do { ss \<leftarrow> successors_of c src; Some (acc @ map (\<lambda>dst. (src, dst)) ss) }) (acc @ map (\<lambda>dst. (a, dst)) ss) bs = Some es"
      "\<forall>(x, y) \<in> set es. (x, y) \<in> set (acc @ map (\<lambda>dst. (a, dst)) ss) \<or> x \<in> set bs \<and> (\<exists>ss. successors_of c x = Some ss \<and> y \<in> set ss)"
    using Cons.IH Cons.prems by fastforce
  have "\<forall>(x, y) \<in> set es. (x, y) \<in> set acc \<or> x \<in> set (a # bs) \<and> (\<exists>ss. successors_of c x = Some ss \<and> y \<in> set ss)"
    using es(2) ss by fastforce
  then show ?case using es(1) ss by simp
qed auto

lemma verify_ok:
  assumes "graph_of data c" "graph_ok data"
  shows "verify c = Some ()"
proof -
  note G = graph_ofD [OF assms(1)]
  let ?R = "reverse_postorder c"
  have suc: "\<exists>ss. successors_of c b = Some ss \<and> (\<forall>t. flows data b t \<longleftrightarrow> t \<in> set ss)" if "reachable data b" for b
    using that G(10) [OF that] assms(2) by (auto simp: graph_ok_def flows_def)
  have "\<forall>b \<in> set ?R. \<exists>ss. successors_of c b = Some ss" unfolding G(4) using suc by blast
  then obtain es where es: "cfg_edges c = Some es" "\<forall>(a, b) \<in> set es. a \<in> set ?R \<and> (\<exists>ss. successors_of c a = Some ss \<and> b \<in> set ss)"
    using edges_ok [of ?R c "[]"] by (auto simp: cfg_edges_def)
  have fwd: "src \<in> set ?R \<and> dst \<in> set ?R \<and> (case predecessors_of c dst of Some ps \<Rightarrow> src \<in> set ps | None \<Rightarrow> False)" if ed: "(src, dst) \<in> set es" for src dst
  proof -
    obtain ss where ss: "src \<in> set ?R" "successors_of c src = Some ss" "dst \<in> set ss" using bspec [OF es(2) ed] by auto
    then have r: "reachable data src" "flows data src dst" using suc [of src] G(4) by auto
    then have "reachable data dst" by (rule flows_reachable)
    then obtain ps where "predecessors_of c dst = Some ps" "set ps = {a. reachable data a \<and> flows data a dst}" using G(12) by blast
    then show ?thesis using r \<open>reachable data dst\<close> G(4) by simp
  qed
  have bwd: "case successors_of c src of Some ss \<Rightarrow> dst \<in> set ss | None \<Rightarrow> False" if "(dst, sources) \<in> set (predecessors c)" "src \<in> set sources" for dst sources src
  proof -
    have "distinct (map fst (predecessors c))" unfolding G(11) by (rule G(3))
    then have m: "predecessors_of c dst = Some sources" using that(1) by (simp add: predecessors_of_def)
    have "dst \<in> set (map fst (predecessors c))" using that(1) by force
    then have "reachable data dst" unfolding G(11) G(4) by simp
    then obtain ps where "predecessors_of c dst = Some ps" "set ps = {a. reachable data a \<and> flows data a dst}" using G(12) by blast
    then have "reachable data src" "flows data src dst" using that(2) m by auto
    then show ?thesis using suc by force
  qed
  have len: "length (predecessors c) = length ?R" "length (successors c) = length ?R"
  proof -
    show "length (predecessors c) = length ?R" using arg_cong [OF G(11), of length] by simp
    have "length (successors c) = card (fst ` set (successors c))" using distinct_card [OF G(8)] by simp
    then show "length (successors c) = length ?R" using G(9,4) distinct_card [OF G(3)] by simp
  qed
  have c: "card (set ?R) = length ?R" "set (postorder c) = set ?R" "length (postorder c) = length ?R"
    using distinct_card [OF G(3)] G(2) by simp_all
  show ?thesis unfolding verify_def using es(1) fwd bwd len c G(5,6) by (auto simp: Let_def rassert_def)
qed

lemma rev_parent:
  assumes "\<forall>i < length xs. xs ! i \<noteq> last xs \<longrightarrow> (\<exists>b \<in> set (drop (Suc i) xs). R b (xs ! i))" "distinct xs" "0 < i" "i < length xs"
  shows "\<exists>j < i. R (rev xs ! j) (rev xs ! i)"
proof -
  let ?k = "length xs - Suc i"
  have k: "?k < length xs" "rev xs ! i = xs ! ?k" using assms(3,4) by (simp_all add: rev_nth)
  have "xs ! ?k \<noteq> xs ! (length xs - 1)" using assms(2-4) by (subst nth_eq_iff_index_eq) auto
  then have "xs ! ?k \<noteq> last xs" using assms(4) by (subst last_conv_nth) auto
  then obtain b where b: "b \<in> set (drop (Suc ?k) xs)" "R b (xs ! ?k)" using assms(1) k(1) by blast
  then obtain j where j: "j < length xs - Suc ?k" "b = xs ! (Suc ?k + j)" by (auto simp: in_set_conv_nth)
  have "length xs - Suc (length xs - Suc (Suc ?k + j)) = Suc ?k + j" using j(1) assms(4) by linarith
  then have "rev xs ! (length xs - Suc (Suc ?k + j)) = b" using j assms(4) by (subst rev_nth) auto
  moreover have "length xs - Suc (Suc ?k + j) < i" using j assms(4) by simp
  ultimately show ?thesis using b(2) k(2) by metis
qed

lemma cfg_new_graph:
  assumes "hash_ok hash_order" "graph_ok data"
  shows "\<exists>c. cfg_new hash_order data = Some (Some c) \<and> graph_of data c"
proof -
  obtain e where e: "entry_bb data = Some e" using assms(2) by (cases data) (auto simp: graph_ok_def entry_bb_def)
  obtain st where st: "dfs_loop data \<lparr>active = {}, visited = {}, found = [], post = [], no_cycle = True, stack = [Enter e]\<rparr> = Some st"
      "dfs_done data e st"
    using dfs_result [OF assms(2) e] by blast
  note D = st(2) [unfolded dfs_done_def]
  let ?rpo = "rev (post st)" and ?srcs = "hash_order (map fst (found st))"
  have srcs: "distinct ?srcs" "set ?srcs = {b. reachable data b}" using assms(1) D by (simp_all add: hash_ok_def)
  have rpo: "distinct ?rpo" "set ?rpo = {b. reachable data b}" "?rpo \<noteq> []" "hd ?rpo = e" using D by (simp_all add: hd_rev)
  have look: "map_of (found st) b = block_successors data b" if "reachable data b" for b
  proof -
    have "b \<in> fst ` set (found st)" using D that by simp
    then obtain ss where "(b, ss) \<in> set (found st)" by auto
    then show ?thesis using D map_of_is_SomeI by force
  qed
  have "preds_of data ?rpo (map (\<lambda>b. (b, [])) ?rpo) []" by (auto simp: preds_of_def comp_def map_of_map_restrict restrict_map_def)
  moreover have "\<forall>s \<in> set ?srcs. \<exists>ss. map_of (found st) s = Some ss \<and> block_successors data s = Some ss \<and> set ss \<subseteq> set ?rpo"
  proof
    fix s assume "s \<in> set ?srcs"
    then have r: "reachable data s" using srcs by simp
    then obtain ss where ss: "block_successors data s = Some ss" using assms(2) by (auto simp: graph_ok_def)
    have "set ss \<subseteq> set ?rpo" using flows_reachable [OF r] ss rpo(2) by (auto simp: flows_def)
    then show "\<exists>ss. map_of (found st) s = Some ss \<and> block_successors data s = Some ss \<and> set ss \<subseteq> set ?rpo" using ss look [OF r] by simp
  qed
  ultimately obtain preds where preds: "foldM (push_sources (found st)) (map (\<lambda>b. (b, [])) ?rpo) ?srcs = Some preds" "preds_of data ?rpo preds ?srcs"
    using push_sources_ok [of data ?rpo "map (\<lambda>b. (b, [])) ?rpo" "[]" ?srcs "found st"] srcs(1) by (metis append_Nil)
  let ?c = "\<lparr>cfg_entry = e, postorder = post st, reverse_postorder = ?rpo, successors = found st, predecessors = preds, acyclic_flag = no_cycle st\<rparr>"
  have par: "\<forall>i. 0 < i \<and> i < length ?rpo \<longrightarrow> (\<exists>j < i. flows data (?rpo ! j) (?rpo ! i))"
    using rev_parent [of "post st" "flows data"] D by auto
  have "graph_of data ?c" unfolding graph_of_def
    using e rpo par D look preds(2) srcs(2)
    by (simp add: successors_of_def predecessors_of_def preds_of_def del: map_of_eq_Some_iff)
  moreover from verify_ok [OF this assms(2)] have "cfg_new hash_order data = Some (Some ?c)"
    using e st(1) rpo preds(1) by (simp add: cfg_new_def Let_def initial_preds del: bind_eq_Some)
  ultimately show ?thesis by blast
qed

section \<open>The graph of a function\<close>

lemma graph_ok_layout:
  assumes "data \<noteq> []" "\<forall>b \<in> set (map fst data). block_successors data b \<noteq> None"
  shows "graph_ok data"
proof -
  have "b \<in> set (map fst data)" if r: "reachable data b" for b
  proof -
    obtain e where e: "entry_bb data = Some e" "(flows data)\<^sup>*\<^sup>* e b" using r by (auto simp: reachable_def)
    from e(2) show ?thesis
    proof (cases rule: rtranclp.cases)
      case rtrancl_refl
      then show ?thesis using e(1) assms(1) by (cases data) (auto simp: entry_bb_def)
    next
      case (rtrancl_into_rtrancl a)
      then obtain ss where "block_successors data a = Some ss" "b \<in> set ss" by (auto simp: flows_def)
      then show ?thesis by (auto simp: block_successors_def rassert_def split: if_splits)
    qed
  qed
  then show ?thesis unfolding graph_ok_def using assms by blast
qed

text \<open>A loop with an exit, and a block that is not reachable.\<close>

definition loop_layout :: layout where
  "loop_layout = [(0, [Other, Jump 1]), (1, [Branch 2 3]), (2, [Other, Jump 1]), (3, [Return]), (4, [Jump 3])]"

lemma loop_layout_ok: "hash_ok (\<lambda>xs. xs)" "graph_ok loop_layout"
  by (simp add: hash_ok_def) (rule graph_ok_layout; simp add: loop_layout_def block_successors_def rassert_def)



end
