(* ===== verification/Dominance.thy ===== *)
theory Dominance
  imports Rust_Prelude
begin

text \<open>
  Dominance in a rooted graph whose nodes are listed with a predecessor before every node but the root, and the trees
  that the iterative computation of immediate dominators goes through.
\<close>

section \<open>Paths and dominance\<close>

inductive path_from :: "(nat \<Rightarrow> nat \<Rightarrow> bool) \<Rightarrow> nat \<Rightarrow> nat list \<Rightarrow> nat \<Rightarrow> bool" for E e where
  path_root: "path_from E e [e] e"
| path_step: "path_from E e xs a \<Longrightarrow> E a b \<Longrightarrow> path_from E e (xs @ [b]) b"

definition dominator :: "(nat \<Rightarrow> nat \<Rightarrow> bool) \<Rightarrow> nat \<Rightarrow> nat \<Rightarrow> nat \<Rightarrow> bool" where
  "dominator E e d b = (\<forall>xs. path_from E e xs b \<longrightarrow> d \<in> set xs)"

lemma path_ends: "path_from E e xs b \<Longrightarrow> b \<in> set xs \<and> e \<in> set xs"
  by (induction rule: path_from.induct) auto

lemma dominator_self: "dominator E e b b"
  using path_ends by (auto simp: dominator_def)

lemma dominator_pred: "dominator E e d b \<Longrightarrow> d \<noteq> b \<Longrightarrow> E a b \<Longrightarrow> dominator E e d a"
  unfolding dominator_def using path_step by force

section \<open>Trees of parents\<close>

definition parent :: "(nat \<rightharpoonup> nat) \<Rightarrow> nat \<Rightarrow> nat \<Rightarrow> nat \<Rightarrow> bool" where
  "parent f e x y = (x \<noteq> e \<and> f x = Some y)"

abbreviation anc :: "(nat \<rightharpoonup> nat) \<Rightarrow> nat \<Rightarrow> nat \<Rightarrow> nat \<Rightarrow> bool" where
  "anc f e \<equiv> (parent f e)\<^sup>*\<^sup>*"

lemma anc_cases: "anc f e x a \<longleftrightarrow> a = x \<or> (x \<noteq> e \<and> (\<exists>p. f x = Some p \<and> anc f e p a))"
proof
  assume "anc f e x a"
  then show "a = x \<or> (x \<noteq> e \<and> (\<exists>p. f x = Some p \<and> anc f e p a))"
    by (cases rule: converse_rtranclpE) (auto simp: parent_def [of f e x])
qed (auto simp: parent_def intro: converse_rtranclp_into_rtranclp)

lemma anc_up: "x \<noteq> e \<Longrightarrow> f x = Some p \<Longrightarrow> anc f e p a \<Longrightarrow> anc f e x a"
  by (subst anc_cases) blast

lemma anc_root: "anc f e e a \<longleftrightarrow> a = e"
  by (subst anc_cases) auto

lemma anc_linear: "anc f e x a \<Longrightarrow> anc f e x b \<Longrightarrow> anc f e a b \<or> anc f e b a"
proof (induction rule: converse_rtranclp_induct)
  case (step x y)
  have "x \<noteq> e" "f x = Some y" using step.hyps(1) by (simp_all add: parent_def)
  then have "b = x \<or> anc f e y b" using step.prems anc_cases [of f e x b] by auto
  then show ?case using step by (meson converse_rtranclp_into_rtranclp)
qed blast

locale rpo_graph =
  fixes V :: "nat list" and E :: "nat \<Rightarrow> nat \<Rightarrow> bool"
  assumes V_distinct: "distinct V" and V_nonempty: "V \<noteq> []"
    and E_in: "E a b \<Longrightarrow> a \<in> set V \<and> b \<in> set V"
    and E_parent: "0 < i \<Longrightarrow> i < length V \<Longrightarrow> \<exists>j < i. E (V ! j) (V ! i)"
begin

definition e :: nat where
  "e = hd V"

definition rank :: "nat \<Rightarrow> nat" where
  "rank b = length (takeWhile (\<lambda>x. x \<noteq> b) V)"

lemma rank_nth: "i < length V \<Longrightarrow> rank (V ! i) = i"
proof -
  assume i: "i < length V"
  have "takeWhile (\<lambda>x. x \<noteq> V ! i) V = take i V"
    by (rule takeWhile_eq_take_P_nth) (use i V_distinct in \<open>auto simp: nth_eq_iff_index_eq\<close>)
  then show "rank (V ! i) = i" using i by (simp add: rank_def)
qed

lemma rank_lt: "b \<in> set V \<Longrightarrow> rank b < length V \<and> V ! rank b = b"
  using rank_nth by (auto simp: in_set_conv_nth)

lemma rank_inj: "a \<in> set V \<Longrightarrow> b \<in> set V \<Longrightarrow> rank a = rank b \<Longrightarrow> a = b"
  using rank_lt by metis

lemma rank_e: "rank e = 0" "e \<in> set V"
  using rank_nth [of 0] V_nonempty by (simp_all add: e_def hd_conv_nth)

lemma rank_pos: "b \<in> set V \<Longrightarrow> b \<noteq> e \<longleftrightarrow> 0 < rank b"
  using rank_inj [of b e] rank_e by auto

lemma tree_parent:
  assumes "b \<in> set V" "b \<noteq> e"
  obtains q where "E q b" "rank q < rank b" "q \<in> set V"
proof -
  have "0 < rank b" "rank b < length V" using rank_lt rank_pos assms by blast+
  then obtain j where "j < rank b" "E (V ! j) (V ! rank b)" using E_parent by blast
  then show ?thesis using that [of "V ! j"] rank_lt [OF assms(1)] rank_nth [of j] by simp
qed

lemma reached: "b \<in> set V \<Longrightarrow> \<exists>xs. path_from E e xs b"
proof (induction "rank b" arbitrary: b rule: less_induct)
  case less
  show ?case
  proof (cases "b = e")
    case True
    then show ?thesis using path_root by blast
  next
    case False
    then obtain q where "E q b" "rank q < rank b" "q \<in> set V" using tree_parent less.prems by blast
    then show ?thesis using less.hyps path_step by blast
  qed
qed

lemma dominator_in: "dominator E e d b \<Longrightarrow> b \<in> set V \<Longrightarrow> d \<in> set V"
proof -
  assume "dominator E e d b" "b \<in> set V"
  then obtain xs where xs: "path_from E e xs b" "d \<in> set xs" using reached by (auto simp: dominator_def)
  have "set xs \<subseteq> set V" using xs(1) by (induction rule: path_from.induct) (use rank_e E_in in auto)
  then show ?thesis using xs(2) by blast
qed

lemma dominator_root: "dominator E e d e \<longleftrightarrow> d = e"
  using path_root [of E e] path_ends by (fastforce simp: dominator_def)

text \<open>The invariant of the map of parents.\<close>

definition tree_ok :: "(nat \<rightharpoonup> nat) \<Rightarrow> bool" where
  "tree_ok f = (f e = Some e \<and> dom f \<subseteq> set V \<and>
     (\<forall>b p. b \<noteq> e \<and> f b = Some p \<longrightarrow> p \<in> dom f \<and> rank p < rank b \<and> (\<forall>d. dominator E e d b \<and> d \<noteq> b \<longrightarrow> dominator E e d p)))"

lemma parent_exists:
  assumes "tree_ok f" "y \<in> dom f" "y \<noteq> e"
  obtains p where "f y = Some p" "p \<in> dom f" "rank p < rank y"
  using assms by (auto simp: tree_ok_def)

lemma anc_in: "tree_ok f \<Longrightarrow> x \<in> dom f \<Longrightarrow> anc f e x a \<Longrightarrow> a \<in> dom f"
  by (rotate_tac 2, induction rule: rtranclp_induct) (auto simp: tree_ok_def parent_def)

lemma anc_rank: "tree_ok f \<Longrightarrow> anc f e x a \<Longrightarrow> a = x \<or> rank a < rank x"
  by (rotate_tac 1, induction rule: rtranclp_induct) (auto simp: tree_ok_def parent_def dest: less_trans)

lemma anc_antisym: "tree_ok f \<Longrightarrow> anc f e x a \<Longrightarrow> anc f e a x \<Longrightarrow> a = x"
  using anc_rank [of f x a] anc_rank [of f a x] by auto

lemma anc_to_root: "tree_ok f \<Longrightarrow> x \<in> dom f \<Longrightarrow> anc f e x e"
proof (induction "rank x" arbitrary: x rule: less_induct)
  case less
  show ?case
  proof (cases "x = e")
    case False
    then obtain p where "f x = Some p" "p \<in> dom f" "rank p < rank x" using less.prems by (auto simp: tree_ok_def)
    then show ?thesis using less False by (metis anc_up)
  qed simp
qed

text \<open>Every dominator is an ancestor.\<close>

lemma dominator_anc: "tree_ok f \<Longrightarrow> x \<in> dom f \<Longrightarrow> dominator E e d x \<Longrightarrow> anc f e x d"
proof (induction "rank x" arbitrary: x rule: less_induct)
  case less
  show ?case
  proof (cases "d = x")
    case False
    then have "x \<noteq> e" using less.prems(3) dominator_root by blast
    then obtain p where p: "f x = Some p" "p \<in> dom f" "rank p < rank x" "dominator E e d p"
      using less.prems False by (fastforce simp: tree_ok_def)
    then have "anc f e p d" using less by blast
    then show ?thesis using p(1) \<open>x \<noteq> e\<close> by (metis anc_up)
  qed simp
qed

lemma dominator_chain:
  assumes "tree_ok f" "dominator E e d q" "anc f e q z"
  shows "dominator E e d z \<or> (anc f e d z \<and> d \<noteq> z)"
  using assms(3)
proof (induction rule: rtranclp_induct)
  case (step y z)
  have y: "y \<noteq> e" "f y = Some z" "rank z < rank y" "\<forall>d. dominator E e d y \<and> d \<noteq> y \<longrightarrow> dominator E e d z"
    using step.hyps(2) assms(1) by (auto simp: tree_ok_def parent_def)
  have up: "anc f e y z" using y by (metis anc_up rtranclp.rtrancl_refl)
  show ?case
  proof (cases "anc f e d y")
    case True
    then have "rank y \<le> rank d" using anc_rank [OF assms(1)] by fastforce
    then show ?thesis using True up y(3) by (meson leD rtranclp_trans)
  next
    case False
    then show ?thesis using step.IH y(4) by auto
  qed
qed (use assms(2) in blast)

section \<open>One block of a pass\<close>

definition meet_all :: "(nat \<rightharpoonup> nat) \<Rightarrow> nat set \<Rightarrow> nat \<Rightarrow> bool" where
  "meet_all f Q z = (z \<in> dom f \<and> (\<forall>w. anc f e z w \<longleftrightarrow> (\<forall>q \<in> Q. anc f e q w)))"

definition known_preds :: "(nat \<rightharpoonup> nat) \<Rightarrow> nat \<Rightarrow> nat set" where
  "known_preds f b = {q. E q b \<and> q \<in> dom f}"

definition pass_inv :: "nat \<Rightarrow> (nat \<rightharpoonup> nat) \<Rightarrow> bool" where
  "pass_inv i f = (tree_ok f \<and> (\<forall>b \<in> set V. rank b < i \<longrightarrow> b \<in> dom f) \<and>
     (\<forall>b p. b \<noteq> e \<and> f b = Some p \<longrightarrow> (\<forall>z. (\<forall>q \<in> known_preds f b. anc f e q z) \<longrightarrow> anc f e p z)) \<and>
     (\<forall>b p. b \<noteq> e \<and> f b = Some p \<and> (rank b < i \<or> i \<le> rank p) \<longrightarrow> (\<exists>q \<in> known_preds f b. rank q < rank b \<and> anc f e q p)))"

lemma update_anc:
  assumes "tree_ok f" "tree_ok (f(x \<mapsto> z0))" "z0 \<in> dom f" "rank z0 < rank x" "x \<noteq> e" "y \<in> insert x (dom f)"
  shows "anc (f(x \<mapsto> z0)) e y w \<longleftrightarrow> (if anc f e y x then (anc f e y w \<and> anc f e w x) \<or> anc f e z0 w else anc f e y w)"
proof -
  let ?f = "f(x \<mapsto> z0)"
  have plain: "anc ?f e y w \<longleftrightarrow> anc f e y w" if "y \<in> dom f" "\<not> anc f e y x" for y
    using that
  proof (induction "rank y" arbitrary: y rule: less_induct)
    case less
    show ?case
    proof (cases "y = e")
      case False
      obtain p where p: "f y = Some p" "p \<in> dom f" "rank p < rank y" using parent_exists [OF assms(1) less.prems(1) False] .
      have "\<not> anc f e p x" using less.prems(2) False p(1) anc_up by metis
      moreover have "y \<noteq> x" using less.prems(2) by auto
      ultimately have "\<not> anc f e p x" "y \<noteq> x" by simp_all
      then show ?thesis using less.hyps [OF p(3,2)] p(1) False anc_cases [of f e y w] anc_cases [of ?f e y w] by simp
    qed (simp add: anc_root)
  qed
  have nz: "\<not> anc f e z0 x" using anc_rank [OF assms(1), of z0 x] assms(4) by auto
  have below: "anc ?f e y w \<longleftrightarrow> (anc f e y w \<and> anc f e w x) \<or> anc f e z0 w" if "y \<in> insert x (dom f)" "anc f e y x" for y
    using that
  proof (induction "rank y" arbitrary: y rule: less_induct)
    case less
    show ?case
    proof (cases "y = x")
      case True
      have "anc f e x w \<and> anc f e w x \<longleftrightarrow> w = x" using anc_antisym [OF assms(1)] by blast
      then show ?thesis using True anc_cases [of ?f e x w] assms(5) plain [OF assms(3) nz] by simp
    next
      case False
      then have "y \<noteq> e" using less.prems(2) anc_root [of f e x] by auto
      have "y \<in> dom f" using less.prems(1) False by simp
      then obtain p where p: "f y = Some p" "p \<in> dom f" "rank p < rank y" using parent_exists [OF assms(1) _ \<open>y \<noteq> e\<close>] by blast
      have px: "anc f e p x" using less.prems(2) False p(1) anc_cases [of f e y x] by auto
      have "anc ?f e y w \<longleftrightarrow> w = y \<or> anc ?f e p w" using anc_cases [of ?f e y w] \<open>y \<noteq> e\<close> False p(1) by auto
      moreover have "anc f e y w \<longleftrightarrow> w = y \<or> anc f e p w" using anc_cases [of f e y w] \<open>y \<noteq> e\<close> p(1) by auto
      ultimately show ?thesis using less.hyps [OF p(3) _ px] p(2) less.prems(2) by auto
    qed
  qed
  show ?thesis
  proof (cases "anc f e y x")
    case False
    then have "y \<in> dom f" using assms(6) by auto
    then show ?thesis using plain False by simp
  qed (use below assms(6) in simp)
qed

lemma update_tree_ok:
  assumes "tree_ok f" "x \<in> set V" "x \<noteq> e" "meet_all f (known_preds f x) z0" "q \<in> known_preds f x" "rank q < rank x"
  shows "tree_ok (f(x \<mapsto> z0))" "rank z0 < rank x" "anc f e q z0"
proof -
  show qz: "anc f e q z0" using assms(4,5) by (auto simp: meet_all_def)
  then show r: "rank z0 < rank x" using anc_rank [OF assms(1)] assms(6) by fastforce
  have "dominator E e d z0" if "dominator E e d x" "d \<noteq> x" for d
  proof -
    have "anc f e q d" if "q \<in> known_preds f x" for q
      using dominator_anc [OF assms(1)] dominator_pred \<open>dominator E e d x\<close> \<open>d \<noteq> x\<close> that by (auto simp: known_preds_def)
    then have "anc f e z0 d" using assms(4) by (simp add: meet_all_def)
    moreover have "dominator E e d q" using dominator_pred that assms(5) by (auto simp: known_preds_def)
    ultimately show ?thesis using dominator_chain [OF assms(1) _ qz] anc_antisym [OF assms(1)] by blast
  qed
  then show "tree_ok (f(x \<mapsto> z0))" using assms(1-4) r unfolding tree_ok_def meet_all_def by auto
qed

lemma update_pass_inv:
  assumes "pass_inv i f" "x \<in> set V" "rank x = i" "0 < i" "meet_all f (known_preds f x) z0"
  shows "pass_inv (Suc i) (f(x \<mapsto> z0))" "\<And>old. f x = Some old \<Longrightarrow> anc f e old z0" "rank z0 < length V"
proof -
  let ?f = "f(x \<mapsto> z0)"
  have xe: "x \<noteq> e" using assms(3,4) rank_e(1) by auto
  have t: "tree_ok f" and lower: "\<And>b. b \<in> set V \<Longrightarrow> rank b < i \<Longrightarrow> b \<in> dom f"
    and M: "\<And>b p z. b \<noteq> e \<Longrightarrow> f b = Some p \<Longrightarrow> \<forall>q \<in> known_preds f b. anc f e q z \<Longrightarrow> anc f e p z"
    and Q: "\<And>b p. b \<noteq> e \<Longrightarrow> f b = Some p \<Longrightarrow> rank b < i \<or> i \<le> rank p \<Longrightarrow> \<exists>q \<in> known_preds f b. rank q < rank b \<and> anc f e q p"
    using assms(1) unfolding pass_inv_def by blast+
  obtain q where q: "E q x" "rank q < rank x" "q \<in> set V" using tree_parent [OF assms(2) xe] .
  have qk: "q \<in> known_preds f x" using q lower assms(3) by (simp add: known_preds_def)
  note u = update_tree_ok [OF t assms(2) xe assms(5) qk q(2)]
  have z0: "z0 \<in> dom f" using assms(5) by (simp add: meet_all_def)
  show "rank z0 < length V" using u(2) rank_lt [OF assms(2)] by simp
  note ua = update_anc [OF t u(1) z0 u(2) xe]
  have old: "anc f e p z0" if "f x = Some p" for p
    using M [OF xe that, of z0] assms(5) by (auto simp: meet_all_def)
  then show "\<And>old. f x = Some old \<Longrightarrow> anc f e old z0" .
  have nx: "\<not> anc f e y x" if "rank y < rank x" for y using anc_rank [OF t, of y x] that by auto
  have mono: "anc f e y w" if "y \<in> dom f" "anc ?f e y w" for y w
  proof (cases "anc f e y x")
    case True
    then have "x \<in> dom f" using anc_in [OF t that(1)] by blast
    then obtain p where "f x = Some p" by auto
    then have "anc f e x z0" using old anc_up xe by blast
    then show ?thesis using ua [of y w] that True by (auto intro: rtranclp_trans)
  qed (use ua [of y w] that in simp)
  have kp: "known_preds f b \<subseteq> known_preds ?f b" for b by (auto simp: known_preds_def)
  have M': "anc ?f e p z" if bp: "b \<noteq> e" "?f b = Some p" and all: "\<forall>r \<in> known_preds ?f b. anc ?f e r z" for b p z
  proof -
    have allf: "\<forall>r \<in> known_preds f b. anc f e r z"
      using all kp mono unfolding known_preds_def by blast
    show ?thesis
    proof (cases "b = x")
      case True
      then have "p = z0" using bp(2) by simp
      then show ?thesis using allf True assms(5) ua [of z0 z] z0 nx [OF u(2)] by (simp add: meet_all_def)
    next
      case False
      then have b: "f b = Some p" using bp(2) by simp
      have pz: "anc f e p z" using M [OF bp(1) b allf] .
      have pd: "p \<in> dom f" using t b bp(1) by (auto simp: tree_ok_def)
      show ?thesis
      proof (cases "anc f e p x")
        case True
        then have "i \<le> rank p" using anc_rank [OF t True] assms(3) by auto
        then obtain r where r: "r \<in> known_preds f b" "anc f e r p" using Q [OF bp(1) b] by blast
        have rx: "anc f e r x" using r(2) True by (rule rtranclp_trans)
        have rd: "r \<in> dom f" using r(1) by (simp add: known_preds_def)
        have "anc ?f e r z" using all kp r(1) by blast
        then have "(anc f e r z \<and> anc f e z x) \<or> anc f e z0 z" using ua [of r z] rd rx by simp
        then show ?thesis using ua [of p z] pd True pz by auto
      qed (use ua [of p z] pd pz in simp)
    qed
  qed
  have Q': "\<exists>r \<in> known_preds ?f b. rank r < rank b \<and> anc ?f e r p" if bp: "b \<noteq> e" "?f b = Some p" "rank b < Suc i \<or> Suc i \<le> rank p" for b p
  proof (cases "b = x")
    case True
    have "anc ?f e q z0" using ua [of q z0] qk nx [OF q(2)] u(3) by (simp add: known_preds_def)
    then show ?thesis using True bp(2) qk kp q(2) by auto
  next
    case False
    then have b: "f b = Some p" using bp(2) by simp
    then have "b \<in> set V" using t by (auto simp: tree_ok_def)
    then have "rank b \<noteq> i" using rank_inj assms(2,3) False by blast
    then have cond: "rank b < i \<or> Suc i \<le> rank p" using bp(3) by linarith
    then obtain r where r: "r \<in> known_preds f b" "rank r < rank b" "anc f e r p" using Q [OF bp(1) b] by (meson Suc_leD)
    have rd: "r \<in> dom f" using r(1) by (simp add: known_preds_def)
    have "anc ?f e r p"
    proof (cases "anc f e r x")
      case True
      then have "i \<le> rank r" using anc_rank [OF t True] assms(3) by auto
      then have rp: "Suc i \<le> rank p" using cond r(2) by linarith
      have "anc f e p x"
      proof (rule ccontr)
        assume "\<not> anc f e p x"
        then have "anc f e x p" using anc_linear [OF r(3) True] by blast
        then show False using anc_rank [OF t, of x p] rp assms(3) by auto
      qed
      then show ?thesis using ua [of r p] rd True r(3) by simp
    qed (use ua [of r p] rd r(3) in simp)
    then show ?thesis using r kp by blast
  qed
  have L': "b \<in> dom ?f" if "b \<in> set V" "rank b < Suc i" for b
    using that lower [of b] rank_inj [of b x] assms(2,3) by (cases "rank b = i") auto
  show "pass_inv (Suc i) ?f" unfolding pass_inv_def using u(1) M' Q' L' by blast
qed

section \<open>Passes and the fixed point\<close>

definition settled :: "(nat \<rightharpoonup> nat) \<Rightarrow> nat \<Rightarrow> bool" where
  "settled f x = (\<exists>z. f x = Some z \<and> meet_all f (known_preds f x) z)"

definition weight :: "(nat \<rightharpoonup> nat) \<Rightarrow> nat" where
  "weight f = (\<Sum>b\<in>set V. case f b of None \<Rightarrow> length V | Some p \<Rightarrow> rank p)"

lemma settled_pass_inv:
  assumes "pass_inv (rank x) f" "x \<in> set V" "x \<noteq> e" "f x = Some z" "meet_all f (known_preds f x) z"
  shows "pass_inv (Suc (rank x)) f"
  using update_pass_inv(1) [OF assms(1,2) refl _ assms(5)] rank_pos [OF assms(2)] assms(3,4) by (simp add: fun_upd_idem)

lemma update_weight:
  assumes "pass_inv (rank x) f" "x \<in> set V" "x \<noteq> e" "f x \<noteq> Some z" "meet_all f (known_preds f x) z"
  shows "weight (f(x \<mapsto> z)) < weight f"
proof -
  note u = update_pass_inv [OF assms(1,2) refl _ assms(5)]
  have "0 < rank x" using rank_pos assms(2,3) by blast
  have t: "tree_ok f" using assms(1) by (simp add: pass_inv_def)
  have "rank z < (case f x of None \<Rightarrow> length V | Some p \<Rightarrow> rank p)"
  proof (cases "f x")
    case (Some p)
    then show ?thesis using u(2) [OF \<open>0 < rank x\<close> Some] anc_rank [OF t] assms(4) by auto
  qed (use u(3) \<open>0 < rank x\<close> in simp)
  then show ?thesis unfolding weight_def using assms(2) by (intro sum_strict_mono_ex1) (auto intro!: bexI [of _ x])
qed

lemma pass_restart: "pass_inv (length V) f \<Longrightarrow> pass_inv 1 f"
proof -
  assume a: "pass_inv (length V) f"
  have t: "tree_ok f" and lower: "\<And>b. b \<in> set V \<Longrightarrow> b \<in> dom f"
    and M: "\<And>b p z. b \<noteq> e \<Longrightarrow> f b = Some p \<Longrightarrow> \<forall>q \<in> known_preds f b. anc f e q z \<Longrightarrow> anc f e p z"
    and Q: "\<And>b p. b \<noteq> e \<Longrightarrow> f b = Some p \<Longrightarrow> rank b < length V \<Longrightarrow> \<exists>q \<in> known_preds f b. rank q < rank b \<and> anc f e q p"
    using a rank_lt unfolding pass_inv_def by blast+
  have "rank b < length V" if "f b = Some p" for b p using t that rank_lt by (auto simp: tree_ok_def)
  then have "\<forall>b p. b \<noteq> e \<and> f b = Some p \<longrightarrow> (\<exists>q \<in> known_preds f b. rank q < rank b \<and> anc f e q p)" using Q by blast
  then show ?thesis using t lower M unfolding pass_inv_def by blast
qed

lemma pass_start: "pass_inv 1 [e \<mapsto> e]"
proof -
  have "tree_ok [e \<mapsto> e]" using rank_e by (simp add: tree_ok_def)
  moreover have "b \<in> dom [e \<mapsto> e]" if "b \<in> set V" "rank b < 1" for b using that rank_pos [of b] by auto
  ultimately show ?thesis by (auto simp: pass_inv_def)
qed

lemma pass_total: "pass_inv (length V) f \<Longrightarrow> dom f = set V"
  using rank_lt by (auto simp: pass_inv_def tree_ok_def)

text \<open>A map of parents in which every block is settled is the tree of immediate dominators.\<close>

definition dom_tree :: "(nat \<rightharpoonup> nat) \<Rightarrow> bool" where
  "dom_tree f = (tree_ok f \<and> dom f = set V \<and> (\<forall>x \<in> set V. \<forall>a. anc f e x a \<longleftrightarrow> dominator E e a x))"

lemma settled_dominator:
  assumes "tree_ok f" "dom f = set V" "\<forall>x \<in> set V. x \<noteq> e \<longrightarrow> settled f x"
  shows "dom_tree f"
proof -
  have on_path: "w \<in> set xs" if "path_from E e xs x" "anc f e x w" for xs x w
    using that
  proof (induction arbitrary: w rule: path_from.induct)
    case path_root
    then show ?case by (simp add: anc_root)
  next
    case (path_step xs a b)
    show ?case
    proof (cases "w = b")
      case False
      then obtain p where p: "b \<noteq> e" "f b = Some p" "anc f e p w" using path_step.prems anc_cases [of f e b w] by auto
      have "b \<in> set V" "a \<in> set V" using E_in path_step.hyps(2) by auto
      then have "meet_all f (known_preds f b) p" using assms(3) p(1,2) by (auto simp: settled_def)
      then have "anc f e a w" using p(3) path_step.hyps(2) \<open>a \<in> set V\<close> assms(2) by (auto simp: meet_all_def known_preds_def)
      then show ?thesis using path_step.IH by simp
    qed simp
  qed
  have "anc f e x a \<longleftrightarrow> dominator E e a x" if "x \<in> set V" for x a
    using on_path dominator_anc [OF assms(1)] that assms(2) by (auto simp: dominator_def)
  then show ?thesis using assms by (simp add: dom_tree_def)
qed

lemma dom_tree_idom:
  assumes "dom_tree f" "x \<in> set V" "x \<noteq> e"
  obtains p where "f x = Some p" "p \<in> set V" "p \<noteq> x" "dominator E e p x" "\<forall>d. dominator E e d x \<and> d \<noteq> x \<longrightarrow> dominator E e d p"
proof -
  have t: "tree_ok f" "dom f = set V" and A: "\<And>a. anc f e x a \<longleftrightarrow> dominator E e a x" using assms(1,2) unfolding dom_tree_def by blast+
  obtain p where p: "f x = Some p" "p \<in> dom f" "rank p < rank x" using parent_exists [OF t(1)] assms t(2) by blast
  have "dominator E e p x" using A [of p] anc_up [where f = f, OF assms(3) p(1)] by blast
  moreover have "dominator E e d p" if "dominator E e d x" "d \<noteq> x" for d
    using t(1) p(1) assms(3) that unfolding tree_ok_def by blast
  ultimately show ?thesis using that p t(2) by blast
qed

text \<open>Climbing from the side with the larger rank keeps the common ancestors.\<close>

lemma climb_parent:
  assumes "tree_ok f" "x \<in> dom f" "rank y < rank x"
  obtains p where "f x = Some p" "p \<in> dom f" "rank p < rank x" "\<forall>w. anc f e x w \<and> anc f e y w \<longleftrightarrow> anc f e p w \<and> anc f e y w"
proof -
  have xe: "x \<noteq> e" using assms(3) rank_e(1) by auto
  obtain p where p: "f x = Some p" "p \<in> dom f" "rank p < rank x" using parent_exists [OF assms(1,2) xe] .
  have "anc f e x w \<longleftrightarrow> w = x \<or> anc f e p w" for w using anc_cases [of f e x w] p(1) xe by auto
  moreover have "\<not> anc f e y x" using anc_rank [OF assms(1), of y x] assms(3) by auto
  ultimately have "anc f e x w \<and> anc f e y w \<longleftrightarrow> anc f e p w \<and> anc f e y w" for w by auto
  then show ?thesis using that [OF p] by blast
qed

end

end
