(* ===== verification/Dom_Tree.thy ===== *)
theory Dom_Tree
  imports Control_Flow Dominance
begin

text \<open>
  Dominator trees (\<^verbatim>\<open>raana_ir/src/opt/analysis_passes/dom_tree.rs\<close>, module \<^verbatim>\<open>v2\<close>): the iterative algorithm of Cooper,
  Harvey and Kennedy on the control flow graph, and the numbering of the tree that answers dominance queries.
\<close>

section \<open>Model\<close>

type_synonym idom_map = "(basic_block \<times> basic_block) list"
type_synonym index_map = "(basic_block \<times> usize) list"

text \<open>The two inner loops of \<open>intersect_idoms\<close>: one side climbs while its index is larger than that of the other.\<close>

partial_function (option) climb :: "idom_map \<Rightarrow> index_map \<Rightarrow> basic_block \<Rightarrow> basic_block \<Rightarrow> basic_block option" where
  "climb idoms rpo_indices side other = do {
     i \<leftarrow> map_of rpo_indices side;
     j \<leftarrow> map_of rpo_indices other;
     if i > j then do { up \<leftarrow> map_of idoms side; climb idoms rpo_indices up other } else Some side }"

declare climb.simps [code]

partial_function (option) intersect_idoms :: "idom_map \<Rightarrow> index_map \<Rightarrow> basic_block \<Rightarrow> basic_block \<Rightarrow> basic_block option" where
  "intersect_idoms idoms rpo_indices lhs rhs = (if lhs = rhs then Some lhs else do {
     lhs' \<leftarrow> climb idoms rpo_indices lhs rhs;
     rhs' \<leftarrow> climb idoms rpo_indices rhs lhs';
     intersect_idoms idoms rpo_indices lhs' rhs' })"

declare intersect_idoms.simps [code]

definition visit_block :: "cfg \<Rightarrow> index_map \<Rightarrow> idom_map \<times> bool \<Rightarrow> basic_block \<Rightarrow> (idom_map \<times> bool) rust" where
  "visit_block cfg rpo_indices = (\<lambda>(idoms, changed) block. do {
     preds \<leftarrow> predecessors_of cfg block;
     case filter (\<lambda>p. map_of idoms p \<noteq> None) preds of
       [] \<Rightarrow> Some (idoms, changed)
     | first # rest \<Rightarrow> do {
         new_idom \<leftarrow> foldM (\<lambda>idom pred. intersect_idoms idoms rpo_indices pred idom) first rest;
         Some (if map_of idoms block \<noteq> Some new_idom then (AList.update block new_idom idoms, True) else (idoms, changed)) } })"

definition idom_pass :: "cfg \<Rightarrow> index_map \<Rightarrow> idom_map \<Rightarrow> (bool \<times> idom_map) rust" where
  "idom_pass cfg rpo_indices idoms = do {
     (idoms', changed) \<leftarrow> foldM (visit_block cfg rpo_indices) (idoms, False) (tl (reverse_postorder cfg));
     Some (changed, idoms') }"

partial_function (option) idom_loop :: "cfg \<Rightarrow> index_map \<Rightarrow> idom_map \<Rightarrow> idom_map option" where
  "idom_loop cfg rpo_indices idoms = do {
     (changed, idoms') \<leftarrow> idom_pass cfg rpo_indices idoms;
     if changed then idom_loop cfg rpo_indices idoms' else Some idoms' }"

declare idom_loop.simps [code]

record dominance_tree =
  dom_entry :: basic_block
  immediate_dominators :: "(basic_block \<times> basic_block option) list"
  children :: "(basic_block \<times> basic_block list) list"
  depths :: index_map
  dfs_in :: index_map
  dfs_out :: index_map

datatype dom_visit = DEnter basic_block usize | DExit basic_block

record numbering =
  timestamp :: usize
  num_depths :: index_map
  num_in :: index_map
  num_out :: index_map
  num_stack :: "dom_visit list"

fun number_step :: "(basic_block \<times> basic_block list) list \<Rightarrow> numbering \<Rightarrow> (bool \<times> numbering) rust" where
  "number_step ch st = (case num_stack st of
      [] \<Rightarrow> Some (False, st)
    | DEnter block depth # rest \<Rightarrow> do {
        cs \<leftarrow> map_of ch block;
        Some (True, st\<lparr>num_depths := AList.update block depth (num_depths st), num_in := AList.update block (timestamp st) (num_in st),
          timestamp := timestamp st + 1, num_stack := map (\<lambda>c. DEnter c (depth + 1)) cs @ DExit block # rest\<rparr>) }
    | DExit block # rest \<Rightarrow>
        Some (True, st\<lparr>num_out := AList.update block (timestamp st) (num_out st), timestamp := timestamp st + 1, num_stack := rest\<rparr>))"

declare number_step.simps [simp del]

partial_function (option) number_loop :: "(basic_block \<times> basic_block list) list \<Rightarrow> numbering \<Rightarrow> numbering option" where
  "number_loop ch st = do {
     (continue, st') \<leftarrow> number_step ch st;
     if continue then number_loop ch st' else Some st' }"

declare number_loop.simps [code]

definition number_tree :: "basic_block \<Rightarrow> (basic_block \<times> basic_block list) list \<Rightarrow> numbering rust" where
  "number_tree entry ch = number_loop ch \<lparr>timestamp = 0, num_depths = [], num_in = [], num_out = [], num_stack = [DEnter entry 0]\<rparr>"

definition dom_contains :: "dominance_tree \<Rightarrow> basic_block \<Rightarrow> bool" where
  "dom_contains self block = (map_of (immediate_dominators self) block \<noteq> None)"

definition immediate_dominator :: "dominance_tree \<Rightarrow> basic_block \<Rightarrow> basic_block option rust" where
  "immediate_dominator self block = map_of (immediate_dominators self) block"

definition children_of :: "dominance_tree \<Rightarrow> basic_block \<Rightarrow> basic_block list rust" where
  "children_of self block = map_of (children self) block"

definition depth_of :: "dominance_tree \<Rightarrow> basic_block \<Rightarrow> usize rust" where
  "depth_of self block = map_of (depths self) block"

definition dominates :: "dominance_tree \<Rightarrow> basic_block \<Rightarrow> basic_block \<Rightarrow> bool rust" where
  "dominates self upper block = do {
     upper_in \<leftarrow> map_of (dfs_in self) upper;
     block_in \<leftarrow> map_of (dfs_in self) block;
     if upper_in \<le> block_in then do {
       block_out \<leftarrow> map_of (dfs_out self) block;
       upper_out \<leftarrow> map_of (dfs_out self) upper;
       Some (block_out \<le> upper_out) }
     else Some False }"

definition strictly_dominates :: "dominance_tree \<Rightarrow> basic_block \<Rightarrow> basic_block \<Rightarrow> bool rust" where
  "strictly_dominates self upper block = (if upper \<noteq> block then dominates self upper block else Some False)"

fun climb_to_entry :: "dominance_tree \<Rightarrow> nat \<Rightarrow> basic_block \<Rightarrow> basic_block rust" where
  "climb_to_entry self 0 ancestor = Some ancestor"
| "climb_to_entry self (Suc n) ancestor = (if ancestor = dom_entry self then Some ancestor else do {
     i \<leftarrow> immediate_dominator self ancestor;
     up \<leftarrow> i;
     climb_to_entry self n up })"

definition verify_block :: "dominance_tree \<Rightarrow> cfg \<Rightarrow> basic_block \<Rightarrow> unit rust" where
  "verify_block self cfg block = do {
     d \<leftarrow> dominates self block block;
     rassert d;
     if block = dom_entry self then Some () else do {
       i \<leftarrow> immediate_dominator self block;
       idom \<leftarrow> i;
       s \<leftarrow> strictly_dominates self idom block;
       rassert s;
       db \<leftarrow> depth_of self block;
       di \<leftarrow> depth_of self idom;
       rassert (db = di + 1);
       cs \<leftarrow> children_of self idom;
       rassert (block \<in> set cs);
       ancestor \<leftarrow> climb_to_entry self (block_count cfg) block;
       rassert (ancestor = dom_entry self) } }"

definition verify_tree :: "dominance_tree \<Rightarrow> cfg \<Rightarrow> unit rust" where
  "verify_tree self cfg = do {
     rassert (dom_entry self = cfg_entry cfg);
     rassert (length (immediate_dominators self) = block_count cfg);
     rassert (length (children self) = block_count cfg);
     rassert (length (depths self) = block_count cfg);
     rassert (length (dfs_in self) = block_count cfg);
     rassert (length (dfs_out self) = block_count cfg);
     i \<leftarrow> immediate_dominator self (dom_entry self);
     rassert (i = None);
     d \<leftarrow> depth_of self (dom_entry self);
     rassert (d = 0);
     foldM (\<lambda>_ block. verify_block self cfg block) () (reverse_postorder cfg) }"

definition push_child :: "idom_map \<Rightarrow> (basic_block \<times> basic_block list) list \<Rightarrow> basic_block \<Rightarrow> (basic_block \<times> basic_block list) list rust" where
  "push_child idoms ch block = do {
     parent \<leftarrow> map_of idoms block;
     cs \<leftarrow> map_of ch parent;
     Some (AList.update parent (cs @ [block]) ch) }"

definition from_cfg :: "cfg \<Rightarrow> dominance_tree rust" where
  "from_cfg cfg = do {
     let entry = cfg_entry cfg;
     let rpo = reverse_postorder cfg;
     rassert (rpo \<noteq> [] \<and> hd rpo = entry);
     let rpo_indices = fold (\<lambda>(index, block). AList.update block index) (List.enumerate 0 rpo) [];
     idoms \<leftarrow> idom_loop cfg rpo_indices [(entry, entry)];
     rassert (length idoms = block_count cfg);
     imm \<leftarrow> foldM (\<lambda>m block. do {
         idom \<leftarrow> (if block \<noteq> entry then map_option Some (map_of idoms block) else Some None);
         Some (AList.update block idom m) }) [] rpo;
     let ch0 = fold (\<lambda>block. AList.update block []) rpo [];
     ch \<leftarrow> foldM (push_child idoms) ch0 (tl rpo);
     st \<leftarrow> number_tree entry ch;
     let tree = \<lparr>dom_entry = entry, immediate_dominators = imm, children = ch, depths = num_depths st,
       dfs_in = num_in st, dfs_out = num_out st\<rparr>;
     verify_tree tree cfg;
     Some tree }"

definition dominance_tree_new :: "(basic_block list \<Rightarrow> basic_block list) \<Rightarrow> layout \<Rightarrow> dominance_tree option rust" where
  "dominance_tree_new hash_order data = do {
     c \<leftarrow> cfg_new hash_order data;
     case c of None \<Rightarrow> Some None | Some cfg \<Rightarrow> do { tree \<leftarrow> from_cfg cfg; Some (Some tree) } }"

section \<open>The computation of immediate dominators\<close>

context rpo_graph
begin

definition ranked :: "index_map \<Rightarrow> bool" where
  "ranked ri = (\<forall>b \<in> set V. map_of ri b = Some (rank b))"

lemma tree_in: "tree_ok f \<Longrightarrow> x \<in> dom f \<Longrightarrow> x \<in> set V"
  by (auto simp: tree_ok_def)

lemma climb_ok:
  assumes "tree_ok (map_of m)" "ranked ri" "x \<in> dom (map_of m)" "y \<in> dom (map_of m)"
  shows "\<exists>z. climb m ri x y = Some z \<and> z \<in> dom (map_of m) \<and> rank z \<le> rank y \<and> (z = x \<or> rank z < rank x) \<and>
    (\<forall>w. anc (map_of m) e x w \<and> anc (map_of m) e y w \<longleftrightarrow> anc (map_of m) e z w \<and> anc (map_of m) e y w)"
  using assms(3)
proof (induction "rank x" arbitrary: x rule: less_induct)
  case less
  have ri: "map_of ri x = Some (rank x)" "map_of ri y = Some (rank y)"
    using assms(2,4) less.prems tree_in [OF assms(1)] by (auto simp: ranked_def)
  show ?case
  proof (cases "rank y < rank x")
    case True
    obtain p where p: "map_of m x = Some p" "p \<in> dom (map_of m)" "rank p < rank x"
      "\<forall>w. anc (map_of m) e x w \<and> anc (map_of m) e y w \<longleftrightarrow> anc (map_of m) e p w \<and> anc (map_of m) e y w"
      by (rule climb_parent [OF assms(1) less.prems True])
    obtain z where z: "climb m ri p y = Some z" "z \<in> dom (map_of m)" "rank z \<le> rank y" "z = p \<or> rank z < rank p"
      "\<forall>w. anc (map_of m) e p w \<and> anc (map_of m) e y w \<longleftrightarrow> anc (map_of m) e z w \<and> anc (map_of m) e y w"
      using less.hyps [OF p(3,2)] by blast
    have "climb m ri x y = Some z" using climb.simps [of m ri x y] ri True p(1) z(1) by (simp del: bind_eq_Some)
    moreover have "rank z < rank x" using z(4) p(3) by auto
    ultimately show ?thesis using z p(4) by simp
  next
    case False
    then have "climb m ri x y = Some x" using climb.simps [of m ri x y] ri by (simp del: bind_eq_Some)
    then show ?thesis using False less.prems by simp
  qed
qed

lemma intersect_ok:
  assumes "tree_ok (map_of m)" "ranked ri" "x \<in> dom (map_of m)" "y \<in> dom (map_of m)"
  shows "\<exists>z. intersect_idoms m ri x y = Some z \<and> meet_all (map_of m) {x, y} z"
  using assms(3,4)
proof (induction "rank x + rank y" arbitrary: x y rule: less_induct)
  case less
  note ok = climb_ok [OF assms(1,2)]
  show ?case
  proof (cases "x = y")
    case False
    obtain x' where x': "climb m ri x y = Some x'" "x' \<in> dom (map_of m)" "rank x' \<le> rank y" "x' = x \<or> rank x' < rank x"
      "\<forall>w. anc (map_of m) e x w \<and> anc (map_of m) e y w \<longleftrightarrow> anc (map_of m) e x' w \<and> anc (map_of m) e y w"
      using ok [OF less.prems] by blast
    obtain y' where y': "climb m ri y x' = Some y'" "y' \<in> dom (map_of m)" "rank y' \<le> rank x'" "y' = y \<or> rank y' < rank y"
      "\<forall>w. anc (map_of m) e y w \<and> anc (map_of m) e x' w \<longleftrightarrow> anc (map_of m) e y' w \<and> anc (map_of m) e x' w"
      using ok [OF less.prems(2) x'(2)] by blast
    have "rank x \<noteq> rank y" using rank_inj False less.prems tree_in [OF assms(1)] by blast
    then have "rank x' + rank y' < rank x + rank y" using x'(3,4) y'(3,4) by auto
    then obtain z where z: "intersect_idoms m ri x' y' = Some z" "meet_all (map_of m) {x', y'} z" using less.hyps x'(2) y'(2) by blast
    have "intersect_idoms m ri x y = Some z" using intersect_idoms.simps [of m ri x y] False x'(1) y'(1) z(1) by (simp del: bind_eq_Some)
    moreover have "meet_all (map_of m) {x, y} z" using z(2) x'(5) y'(5) by (auto simp: meet_all_def)
    ultimately show ?thesis by blast
  qed (use less.prems intersect_idoms.simps [of m ri x y] in \<open>simp add: meet_all_def\<close>)
qed

lemma meet_fold:
  assumes "tree_ok (map_of m)" "ranked ri" "set ps \<subseteq> dom (map_of m)" "meet_all (map_of m) Q z"
  shows "\<exists>z'. foldM (\<lambda>idom pred. intersect_idoms m ri pred idom) z ps = Some z' \<and> meet_all (map_of m) (Q \<union> set ps) z'"
  using assms(3,4)
proof (induction ps arbitrary: z Q)
  case (Cons p ps)
  obtain z1 where z1: "intersect_idoms m ri p z = Some z1" "meet_all (map_of m) {p, z} z1"
    using intersect_ok [OF assms(1,2), of p z] Cons.prems by (auto simp: meet_all_def)
  have "meet_all (map_of m) (insert p Q) z1" using z1(2) Cons.prems(2) by (auto simp: meet_all_def)
  then obtain z' where "foldM (\<lambda>idom pred. intersect_idoms m ri pred idom) z1 ps = Some z'" "meet_all (map_of m) (insert p Q \<union> set ps) z'"
    using Cons.IH [of "insert p Q" z1] Cons.prems(1) by auto
  then show ?case using z1(1) by (simp del: bind_eq_Some)
qed simp

definition graph_model :: "cfg \<Rightarrow> bool" where
  "graph_model c = (reverse_postorder c = V \<and> (\<forall>b \<in> set V. \<exists>ps. predecessors_of c b = Some ps \<and> set ps = {q. E q b}))"

lemma visit_block_ok:
  assumes "graph_model c" "ranked ri" "pass_inv (rank x) (map_of m)" "x \<in> set V" "x \<noteq> e" "distinct (map fst m)"
  shows "\<exists>m' ch'. visit_block c ri (m, ch) x = Some (m', ch') \<and> pass_inv (Suc (rank x)) (map_of m') \<and> distinct (map fst m') \<and>
    ((ch' = ch \<and> m' = m \<and> settled (map_of m) x) \<or> (ch' \<and> weight (map_of m') < weight (map_of m)))"
proof -
  obtain ps where ps: "predecessors_of c x = Some ps" "set ps = {q. E q x}" using assms(1,4) by (auto simp: graph_model_def)
  let ?known = "filter (\<lambda>p. map_of m p \<noteq> None) ps"
  have t: "tree_ok (map_of m)" and lower: "\<And>b. b \<in> set V \<Longrightarrow> rank b < rank x \<Longrightarrow> b \<in> dom (map_of m)"
    using assms(3) unfolding pass_inv_def by blast+
  have known: "set ?known = known_preds (map_of m) x" using ps(2) by (auto simp: known_preds_def)
  obtain q where "E q x" "rank q < rank x" "q \<in> set V" using tree_parent [OF assms(4,5)] .
  then have "q \<in> set ?known" using lower known by (simp add: known_preds_def)
  then obtain p rest where k: "?known = p # rest" by (metis in_set_conv_decomp_first append_Nil neq_Nil_conv list.distinct(1) empty_iff list.set(1))
  have sub: "set (p # rest) \<subseteq> dom (map_of m)" unfolding k [symmetric] by auto
  then have "meet_all (map_of m) {p} p" "set rest \<subseteq> dom (map_of m)" by (auto simp: meet_all_def)
  then obtain z where z: "foldM (\<lambda>idom pred. intersect_idoms m ri pred idom) p rest = Some z" "meet_all (map_of m) ({p} \<union> set rest) z"
    using meet_fold [OF t assms(2)] by blast
  have mz: "meet_all (map_of m) (known_preds (map_of m) x) z" using z(2) known unfolding k by simp
  have eq: "visit_block c ri (m, ch) x = Some (if map_of m x \<noteq> Some z then (AList.update x z m, True) else (m, ch))"
    using ps(1) k z(1) by (simp add: visit_block_def del: bind_eq_Some)
  show ?thesis
  proof (cases "map_of m x = Some z")
    case True
    then show ?thesis using eq settled_pass_inv [OF assms(3-5) True mz] assms(6) mz by (auto simp: settled_def)
  next
    case False
    have "0 < rank x" using rank_pos assms(4,5) by blast
    then have "pass_inv (Suc (rank x)) ((map_of m)(x \<mapsto> z))" using update_pass_inv(1) [OF assms(3,4) refl _ mz] by blast
    then show ?thesis using eq False update_weight [OF assms(3-5) False mz] assms(6)
      by (intro exI [of _ "AList.update x z m"] exI [of _ True]) (simp add: update_conv' distinct_update)
  qed
qed

lemma visit_blocks_ok:
  assumes "graph_model c" "ranked ri" "pass_inv i (map_of m)" "0 < i" "i \<le> length V" "distinct (map fst m)"
  shows "\<exists>m' ch'. foldM (visit_block c ri) (m, ch) (drop i V) = Some (m', ch') \<and> pass_inv (length V) (map_of m') \<and> distinct (map fst m') \<and>
    ((ch' = ch \<and> m' = m \<and> (\<forall>x \<in> set (drop i V). settled (map_of m) x)) \<or> (ch' \<and> weight (map_of m') < weight (map_of m)))"
  using assms(3-)
proof (induction "length V - i" arbitrary: i m ch)
  case (Suc n)
  then have i: "i < length V" by simp
  let ?x = "V ! i"
  have d: "drop i V = ?x # drop (Suc i) V" using Cons_nth_drop_Suc [OF i] by simp
  have x: "?x \<in> set V" "?x \<noteq> e" "rank ?x = i" using rank_nth [OF i] rank_pos [of ?x] i Suc.prems(2) by auto
  obtain m1 c1 where 1: "visit_block c ri (m, ch) ?x = Some (m1, c1)" "pass_inv (Suc i) (map_of m1)" "distinct (map fst m1)"
    "(c1 = ch \<and> m1 = m \<and> settled (map_of m) ?x) \<or> (c1 \<and> weight (map_of m1) < weight (map_of m))"
    using visit_block_ok [OF assms(1,2) _ x(1,2) Suc.prems(4), of ch] Suc.prems(1) x(3) by auto
  have n: "n = length V - Suc i" using Suc.hyps(2) by simp
  obtain m2 c2 where 2: "foldM (visit_block c ri) (m1, c1) (drop (Suc i) V) = Some (m2, c2)" "pass_inv (length V) (map_of m2)" "distinct (map fst m2)"
    "(c2 = c1 \<and> m2 = m1 \<and> (\<forall>x \<in> set (drop (Suc i) V). settled (map_of m1) x)) \<or> (c2 \<and> weight (map_of m2) < weight (map_of m1))"
    using Suc.hyps(1) [OF n, of m1 c1] 1(2,3) i by (metis Suc_leI zero_less_Suc)
  have "foldM (visit_block c ri) (m, ch) (drop i V) = Some (m2, c2)" using d 1(1) 2(1) by (simp del: bind_eq_Some)
  moreover have "(c2 = ch \<and> m2 = m \<and> (\<forall>x \<in> set (drop i V). settled (map_of m) x)) \<or> (c2 \<and> weight (map_of m2) < weight (map_of m))"
    using 1(4) 2(4) unfolding d by auto
  ultimately show ?case using 2(2,3) by blast
qed simp

lemma idom_pass_ok:
  assumes "graph_model c" "ranked ri" "pass_inv 1 (map_of m)" "distinct (map fst m)"
  shows "\<exists>ch m'. idom_pass c ri m = Some (ch, m') \<and> pass_inv 1 (map_of m') \<and> distinct (map fst m') \<and>
    (ch \<longrightarrow> weight (map_of m') < weight (map_of m)) \<and> (\<not> ch \<longrightarrow> dom_tree (map_of m'))"
proof -
  have "0 < length V" using V_nonempty by simp
  then have "1 \<le> length V" by linarith
  then obtain m' ch' where r: "foldM (visit_block c ri) (m, False) (drop 1 V) = Some (m', ch')" "pass_inv (length V) (map_of m')" "distinct (map fst m')"
    "(ch' = False \<and> m' = m \<and> (\<forall>x \<in> set (drop 1 V). settled (map_of m) x)) \<or> (ch' \<and> weight (map_of m') < weight (map_of m))"
    using visit_blocks_ok [OF assms(1-3), of False] assms(4) by auto
  have "reverse_postorder c = V" using assms(1) by (simp add: graph_model_def)
  then have "idom_pass c ri m = Some (ch', m')" using r(1) by (simp add: idom_pass_def drop_Suc del: bind_eq_Some)
  moreover have "dom_tree (map_of m')" if "\<not> ch'"
  proof -
    have "x \<in> set (drop 1 V)" if "x \<in> set V" "x \<noteq> e" for x
      using that V_nonempty e_def by (metis drop_Suc_Cons drop0 One_nat_def list.collapse set_ConsD)
    then show ?thesis using r(2,4) that pass_total [OF r(2)] settled_dominator [of "map_of m'"] by (simp add: pass_inv_def)
  qed
  ultimately show ?thesis using r pass_restart by blast
qed

end

end
