(* ===== verification/Dom_Result.thy ===== *)
theory Dom_Result
  imports Dom_Tree
begin

text \<open>
  The numbering of the dominator tree and the result of the dominator analysis: the intervals nest exactly along the tree, the
  assertions of \<^verbatim>\<open>verify\<close> hold, and the tree answers dominance.
\<close>

section \<open>The numbering of the tree\<close>

definition keys_ok :: "numbering \<Rightarrow> bool" where
  "keys_ok st = (distinct (map fst (num_depths st)) \<and> distinct (map fst (num_in st)) \<and> distinct (map fst (num_out st)))"

context rpo_graph
begin

definition tree_of :: "(nat \<rightharpoonup> nat) \<Rightarrow> (basic_block \<times> basic_block list) list \<Rightarrow> bool" where
  "tree_of f ch = (tree_ok f \<and> dom f = set V \<and>
     (\<forall>b \<in> set V. \<exists>cs. map_of ch b = Some cs \<and> distinct cs \<and> set cs = {x \<in> set V. x \<noteq> e \<and> f x = Some b}))"

definition desc :: "(nat \<rightharpoonup> nat) \<Rightarrow> nat \<Rightarrow> nat set" where
  "desc f b = {x \<in> set V. anc f e x b}"

definition dep :: "(nat \<rightharpoonup> nat) \<Rightarrow> nat \<Rightarrow> nat" where
  "dep f b = card {a. anc f e b a \<and> a \<noteq> b}"

text \<open>What one traversal of the subtrees \<open>S\<close> does: it numbers exactly their nodes, with nested intervals.\<close>

definition numbered :: "(nat \<rightharpoonup> nat) \<Rightarrow> nat set \<Rightarrow> numbering \<Rightarrow> numbering \<Rightarrow> bool" where
  "numbered f S st st' = (timestamp st \<le> timestamp st' \<and> (keys_ok st \<longrightarrow> keys_ok st') \<and>
     (\<forall>x. x \<notin> S \<longrightarrow> map_of (num_depths st') x = map_of (num_depths st) x \<and> map_of (num_in st') x = map_of (num_in st) x \<and>
        map_of (num_out st') x = map_of (num_out st) x) \<and>
     (\<forall>x \<in> S. map_of (num_depths st') x = Some (dep f x) \<and>
        (\<exists>i out. map_of (num_in st') x = Some i \<and> map_of (num_out st') x = Some out \<and> timestamp st \<le> i \<and> i < out \<and> out < timestamp st')) \<and>
     (\<forall>x \<in> S. \<forall>y \<in> S. the (map_of (num_in st') x) \<le> the (map_of (num_in st') y) \<and>
        the (map_of (num_out st') y) \<le> the (map_of (num_out st') x) \<longleftrightarrow> anc f e y x))"

lemma numberedD:
  assumes "numbered f S st st'"
  shows "timestamp st \<le> timestamp st'" "keys_ok st \<Longrightarrow> keys_ok st'"
    "\<And>x. x \<notin> S \<Longrightarrow> map_of (num_depths st') x = map_of (num_depths st) x"
    "\<And>x. x \<notin> S \<Longrightarrow> map_of (num_in st') x = map_of (num_in st) x"
    "\<And>x. x \<notin> S \<Longrightarrow> map_of (num_out st') x = map_of (num_out st) x"
    "\<And>x. x \<in> S \<Longrightarrow> map_of (num_depths st') x = Some (dep f x)"
    "\<And>x. x \<in> S \<Longrightarrow> \<exists>i out. map_of (num_in st') x = Some i \<and> map_of (num_out st') x = Some out \<and> timestamp st \<le> i \<and> i < out \<and> out < timestamp st'"
    "\<And>x y. x \<in> S \<Longrightarrow> y \<in> S \<Longrightarrow> the (map_of (num_in st') x) \<le> the (map_of (num_in st') y) \<and>
        the (map_of (num_out st') y) \<le> the (map_of (num_out st') x) \<longleftrightarrow> anc f e y x"
  using assms unfolding numbered_def by blast+

lemma numbered_refl: "numbered f {} st st"
  by (simp add: numbered_def)

lemma numbered_join:
  assumes "numbered f S st1 st2" "numbered f T st2 st3" "S \<inter> T = {}" "\<And>x y. x \<in> S \<Longrightarrow> y \<in> T \<Longrightarrow> \<not> anc f e x y \<and> \<not> anc f e y x"
  shows "numbered f (S \<union> T) st1 st3"
proof -
  note A = numberedD [OF assms(1)] and B = numberedD [OF assms(2)]
  have S: "map_of (num_in st3) x = map_of (num_in st2) x" "map_of (num_out st3) x = map_of (num_out st2) x"
    "map_of (num_depths st3) x = map_of (num_depths st2) x" if "x \<in> S" for x using B(3-5) [of x] that assms(3) by auto
  have iv: "map_of (num_depths st3) x = Some (dep f x) \<and>
      (\<exists>i out. map_of (num_in st3) x = Some i \<and> map_of (num_out st3) x = Some out \<and> timestamp st1 \<le> i \<and> i < out \<and> out < timestamp st3)"
    if "x \<in> S \<union> T" for x
  proof (cases "x \<in> S")
    case True
    then show ?thesis using S A(6,7) [of x] B(1) by fastforce
  next
    case False
    then show ?thesis using that B(6,7) [of x] A(1) by fastforce
  qed
  have cross: "the (map_of (num_out st3) x) < the (map_of (num_in st3) y)" "the (map_of (num_in st3) x) < the (map_of (num_out st3) x)"
    "the (map_of (num_in st3) y) < the (map_of (num_out st3) y)" if "x \<in> S" "y \<in> T" for x y
    using A(7) [OF that(1)] B(7) [OF that(2)] S [OF that(1)] by auto
  have pair: "the (map_of (num_in st3) x) \<le> the (map_of (num_in st3) y) \<and> the (map_of (num_out st3) y) \<le> the (map_of (num_out st3) x) \<longleftrightarrow> anc f e y x"
    if xy: "x \<in> S \<union> T" "y \<in> S \<union> T" for x y
  proof -
    consider "x \<in> S" "y \<in> S" | "x \<in> T" "y \<in> T" | "x \<in> S" "y \<in> T" | "x \<in> T" "y \<in> S" using xy by blast
    then show ?thesis
    proof cases
      case 1
      then show ?thesis using A(8) S by simp
    next
      case 2
      then show ?thesis using B(8) by simp
    next
      case 3
      then show ?thesis using cross [OF 3] assms(4) [OF 3] by linarith
    next
      case 4
      then show ?thesis using cross [OF 4(2,1)] assms(4) [OF 4(2,1)] by linarith
    qed
  qed
  have "timestamp st1 \<le> timestamp st3" "keys_ok st1 \<longrightarrow> keys_ok st3" using A(1,2) B(1,2) by auto
  moreover have "map_of (num_depths st3) x = map_of (num_depths st1) x \<and> map_of (num_in st3) x = map_of (num_in st1) x \<and>
        map_of (num_out st3) x = map_of (num_out st1) x" if "x \<notin> S \<union> T" for x using that A(3-5) [of x] B(3-5) [of x] by simp
  ultimately show ?thesis unfolding numbered_def using iv pair by blast
qed

definition entered :: "numbering \<Rightarrow> nat \<Rightarrow> nat \<Rightarrow> dom_visit list \<Rightarrow> numbering" where
  "entered st b d stk = st\<lparr>num_depths := AList.update b d (num_depths st), num_in := AList.update b (timestamp st) (num_in st),
     timestamp := timestamp st + 1, num_stack := stk\<rparr>"

definition exited :: "numbering \<Rightarrow> nat \<Rightarrow> dom_visit list \<Rightarrow> numbering" where
  "exited st b stk = st\<lparr>num_out := AList.update b (timestamp st) (num_out st), timestamp := timestamp st + 1, num_stack := stk\<rparr>"

lemma number_enter_step:
  "num_stack st = DEnter b d # rest \<Longrightarrow> map_of ch b = Some cs \<Longrightarrow>
    number_loop ch st = number_loop ch (entered st b d (map (\<lambda>c. DEnter c (d + 1)) cs @ DExit b # rest))"
  using number_loop.simps [of ch st] by (simp add: number_step.simps entered_def del: bind_eq_Some)

lemma number_exit_step: "num_stack st = DExit b # rest \<Longrightarrow> number_loop ch st = number_loop ch (exited st b rest)"
  using number_loop.simps [of ch st] by (simp add: number_step.simps exited_def del: bind_eq_Some)

lemma numbered_wrap:
  assumes "tree_ok f" "numbered f U (entered st b (dep f b) stk) st2" "b \<notin> U" "\<And>x. x \<in> U \<Longrightarrow> anc f e x b"
  shows "numbered f (insert b U) st (exited st2 b stk')"
proof -
  note A = numberedD [OF assms(2)]
  let ?st = "exited st2 b stk'"
  have sel: "num_in ?st = num_in st2" "num_depths ?st = num_depths st2" "map_of (num_out ?st) = (map_of (num_out st2))(b \<mapsto> timestamp st2)"
    "timestamp ?st = Suc (timestamp st2)" by (simp_all add: exited_def update_conv')
  have ent: "map_of (num_in st2) b = Some (timestamp st)" "map_of (num_depths st2) b = Some (dep f b)" "Suc (timestamp st) \<le> timestamp st2"
    using A(1,3,4) assms(3) by (simp_all add: entered_def update_conv')
  have U: "\<exists>i out. map_of (num_in ?st) x = Some i \<and> map_of (num_out ?st) x = Some out \<and> timestamp st < i \<and> i < out \<and> out < timestamp st2" if "x \<in> U" for x
    using A(7) [OF that] assms(3) that sel by (auto simp: entered_def)
  have b: "map_of (num_in ?st) b = Some (timestamp st)" "map_of (num_out ?st) b = Some (timestamp st2)" using ent sel by simp_all
  have out: "map_of (num_out ?st) x = map_of (num_out st2) x" if "x \<in> U" for x using that assms(3) sel by auto
  have pair: "the (map_of (num_in ?st) x) \<le> the (map_of (num_in ?st) y) \<and> the (map_of (num_out ?st) y) \<le> the (map_of (num_out ?st) x) \<longleftrightarrow> anc f e y x"
    if xy: "x \<in> insert b U" "y \<in> insert b U" for x y
  proof -
    consider "x \<in> U" "y \<in> U" | "x = b" "y = b" | "x = b" "y \<in> U" | "x \<in> U" "y = b" using xy by blast
    then show ?thesis
    proof cases
      case 1
      then show ?thesis using A(8) [OF 1] out sel(1) by simp
    next
      case 3
      then show ?thesis using U [OF 3(2)] b assms(4) [OF 3(2)] by auto
    next
      case 4
      then have "\<not> anc f e b x" using anc_antisym [OF assms(1)] assms(3,4) by blast
      then show ?thesis using U [OF 4(1)] b 4 by auto
    qed simp
  qed
  have iv: "map_of (num_depths ?st) x = Some (dep f x) \<and>
      (\<exists>i out. map_of (num_in ?st) x = Some i \<and> map_of (num_out ?st) x = Some out \<and> timestamp st \<le> i \<and> i < out \<and> out < timestamp ?st)"
    if "x \<in> insert b U" for x
  proof (cases "x = b")
    case True
    then show ?thesis using b ent sel by simp
  next
    case False
    then show ?thesis using that U [of x] A(6) [of x] sel by fastforce
  qed
  have "keys_ok ?st" if "keys_ok st"
    using that A(2) by (simp add: keys_ok_def entered_def exited_def distinct_update)
  moreover have "map_of (num_depths ?st) x = map_of (num_depths st) x \<and> map_of (num_in ?st) x = map_of (num_in st) x \<and>
        map_of (num_out ?st) x = map_of (num_out st) x" if "x \<notin> insert b U" for x
    using that A(3-5) [of x] sel by (auto simp: entered_def update_conv')
  moreover have "timestamp st \<le> timestamp ?st" using sel ent by simp
  ultimately show ?thesis unfolding numbered_def using iv pair by blast
qed

text \<open>The shape of the subtree below a node.\<close>

lemma desc_children:
  assumes "tree_ok f" "dom f = set V" "b \<in> set V" "set cs = {x \<in> set V. x \<noteq> e \<and> f x = Some b}"
  shows "desc f b = insert b (\<Union>c \<in> set cs. desc f c)" "b \<notin> (\<Union>c \<in> set cs. desc f c)"
proof -
  have sub: "\<exists>c \<in> set cs. anc f e x c" if x: "anc f e x b" "x \<in> set V" "x \<noteq> b" for x
  proof -
    obtain y where y: "anc f e x y" "parent f e y b" using x by (metis rtranclp.cases)
    then have "y \<in> dom f" using anc_in [OF assms(1)] x(2) assms(2) by blast
    then show ?thesis using y assms(2,4) by (auto simp: parent_def)
  qed
  have up: "anc f e c b" if "c \<in> set cs" for c
    using that assms(4) by (intro r_into_rtranclp) (simp add: parent_def)
  have "x \<in> insert b (\<Union>c \<in> set cs. desc f c)" if "x \<in> desc f b" for x using sub [of x] that by (auto simp: desc_def)
  moreover have "x \<in> desc f b" if "x \<in> insert b (\<Union>c \<in> set cs. desc f c)" for x
    using that up assms(3) by (auto simp: desc_def intro: rtranclp_trans)
  ultimately show "desc f b = insert b (\<Union>c \<in> set cs. desc f c)" by blast
  have "\<not> anc f e b c" if "c \<in> set cs" for c
  proof
    assume "anc f e b c"
    then have "c = b" using anc_antisym [OF assms(1)] up [OF that] by blast
    moreover have "rank b < rank c" using assms(1,4) that by (auto simp: tree_ok_def)
    ultimately show False by simp
  qed
  then show "b \<notin> (\<Union>c \<in> set cs. desc f c)" by (auto simp: desc_def)
qed

lemma siblings_apart:
  assumes "tree_ok f" "c \<noteq> c'" "c \<noteq> e" "f c = Some b" "c' \<noteq> e" "f c' = Some b" "x \<in> desc f c" "y \<in> desc f c'"
  shows "\<not> anc f e x y"
proof
  have no: "\<not> anc f e d d'" if "d \<noteq> d'" "d \<noteq> e" "f d = Some b" "d' \<noteq> e" "f d' = Some b" for d d'
  proof
    assume "anc f e d d'"
    then have "anc f e b d'" using that anc_cases [of f e d d'] by auto
    moreover have "rank b < rank d'" using assms(1) that by (auto simp: tree_ok_def)
    ultimately show False using anc_rank [OF assms(1), of b d'] by auto
  qed
  assume "anc f e x y"
  then have "anc f e x c" "anc f e x c'" using assms(7,8) by (auto simp: desc_def intro: rtranclp_trans)
  then show False using anc_linear [of f e x c c'] no [of c c'] no [of c' c] assms by blast
qed

lemma dep_child:
  assumes "tree_ok f" "dom f = set V" "x \<in> set V" "x \<noteq> e" "f x = Some b"
  shows "dep f x = Suc (dep f b)"
proof -
  have b: "b \<in> dom f" "rank b < rank x" using assms by (auto simp: tree_ok_def)
  have "{a. anc f e x a \<and> a \<noteq> x} = {a. anc f e b a}"
    using anc_cases [of f e x] assms(4,5) anc_rank [OF assms(1), of b x] b(2) by auto
  moreover have "{a. anc f e b a} = insert b {a. anc f e b a \<and> a \<noteq> b}" by auto
  moreover have "finite {a. anc f e b a \<and> a \<noteq> b}"
    by (rule finite_subset [of _ "set V"]) (use anc_in [OF assms(1) b(1)] assms(2) in auto)
  ultimately show ?thesis unfolding dep_def by simp
qed

lemma number_forest:
  assumes "tree_of f ch" "b \<in> set V"
    and IH: "\<And>c st rest. c \<in> set V \<Longrightarrow> c \<noteq> e \<Longrightarrow> f c = Some b \<Longrightarrow> num_stack st = DEnter c (dep f c) # rest \<Longrightarrow>
      \<exists>st'. number_loop ch st = number_loop ch st' \<and> num_stack st' = rest \<and> numbered f (desc f c) st st'"
    and "set cs \<subseteq> {x \<in> set V. x \<noteq> e \<and> f x = Some b}" "distinct cs" "num_stack st = map (\<lambda>c. DEnter c (dep f b + 1)) cs @ rest"
  shows "\<exists>st'. number_loop ch st = number_loop ch st' \<and> num_stack st' = rest \<and> numbered f (\<Union>c \<in> set cs. desc f c) st st'"
  using assms(4-)
proof (induction cs arbitrary: st)
  case Nil
  then show ?case using numbered_refl by auto
next
  case (Cons c cs)
  have t: "tree_ok f" "dom f = set V" using assms(1) by (simp_all add: tree_of_def)
  have c: "c \<in> set V" "c \<noteq> e" "f c = Some b" using Cons.prems(1) by auto
  have "num_stack st = DEnter c (dep f c) # map (\<lambda>c. DEnter c (dep f b + 1)) cs @ rest"
    using Cons.prems(3) dep_child [OF t c] by simp
  then obtain st1 where 1: "number_loop ch st = number_loop ch st1" "num_stack st1 = map (\<lambda>c. DEnter c (dep f b + 1)) cs @ rest" "numbered f (desc f c) st st1"
    using IH [OF c] by blast
  obtain st2 where 2: "number_loop ch st1 = number_loop ch st2" "num_stack st2 = rest" "numbered f (\<Union>c \<in> set cs. desc f c) st1 st2"
    using Cons.IH [OF _ _ 1(2)] Cons.prems by auto
  have apart: "\<not> anc f e x y \<and> \<not> anc f e y x" if xy: "x \<in> desc f c" "y \<in> (\<Union>c \<in> set cs. desc f c)" for x y
  proof -
    obtain c' where c': "c' \<in> set cs" "y \<in> desc f c'" using xy(2) by blast
    then have "c' \<noteq> e" "f c' = Some b" "c \<noteq> c'" using Cons.prems(1,2) by auto
    then show ?thesis using siblings_apart [OF t(1)] c c'(2) xy(1) by metis
  qed
  then have "desc f c \<inter> (\<Union>c \<in> set cs. desc f c) = {}" by blast
  then have "numbered f (desc f c \<union> (\<Union>c \<in> set cs. desc f c)) st st2" using numbered_join [OF 1(3) 2(3)] apart by blast
  then show ?case using 1(1) 2(1,2) by auto
qed

lemma number_subtree:
  assumes "tree_of f ch" "b \<in> set V" "num_stack st = DEnter b (dep f b) # rest"
  shows "\<exists>st'. number_loop ch st = number_loop ch st' \<and> num_stack st' = rest \<and> numbered f (desc f b) st st'"
  using assms(2-)
proof (induction "length V - rank b" arbitrary: b st rest rule: less_induct)
  case less
  have t: "tree_ok f" "dom f = set V" using assms(1) by (simp_all add: tree_of_def)
  obtain cs where cs: "map_of ch b = Some cs" "distinct cs" "set cs = {x \<in> set V. x \<noteq> e \<and> f x = Some b}"
    using assms(1) less.prems(1) by (auto simp: tree_of_def)
  have IH: "\<exists>st'. number_loop ch st = number_loop ch st' \<and> num_stack st' = rest \<and> numbered f (desc f c) st st'"
    if "c \<in> set V" "c \<noteq> e" "f c = Some b" "num_stack st = DEnter c (dep f c) # rest" for c st rest
  proof -
    have "rank b < rank c" using t(1) that by (auto simp: tree_ok_def)
    then have "length V - rank c < length V - rank b" using rank_lt [OF that(1)] by linarith
    then show ?thesis by (rule less.hyps [OF _ that(1,4)])
  qed
  let ?st1 = "entered st b (dep f b) (map (\<lambda>c. DEnter c (dep f b + 1)) cs @ DExit b # rest)"
  have stk: "num_stack ?st1 = map (\<lambda>c. DEnter c (dep f b + 1)) cs @ DExit b # rest" by (simp add: entered_def)
  obtain st2 where 2: "number_loop ch ?st1 = number_loop ch st2" "num_stack st2 = DExit b # rest" "numbered f (\<Union>c \<in> set cs. desc f c) ?st1 st2"
    using number_forest [OF assms(1) less.prems(1) IH _ cs(2) stk] cs(3) by blast
  note D = desc_children [OF t less.prems(1) cs(3)]
  have "numbered f (desc f b) st (exited st2 b rest)"
    using numbered_wrap [OF t(1) 2(3) D(2)] D(1) by (auto simp: desc_def)
  moreover have "number_loop ch st = number_loop ch (exited st2 b rest)"
    using number_enter_step [OF less.prems(2) cs(1)] 2(1) number_exit_step [OF 2(2)] by simp
  ultimately show ?case by (auto simp: exited_def)
qed

end

section \<open>The finished tree\<close>

lemma index_fold:
  "distinct xs \<Longrightarrow> fst ` set acc \<inter> set xs = {} \<Longrightarrow>
    fold (\<lambda>(index, block). AList.update block index) (List.enumerate n xs) acc = acc @ zip xs [n..<n + length xs]"
proof (induction xs arbitrary: acc n)
  case (Cons x xs)
  then have "x \<notin> fst ` set acc" by auto
  then have "fold (\<lambda>(index, block). AList.update block index) (List.enumerate n (x # xs)) acc =
      fold (\<lambda>(index, block). AList.update block index) (List.enumerate (Suc n) xs) (acc @ [(x, n)])" by (simp add: update_new)
  also have "\<dots> = (acc @ [(x, n)]) @ zip xs [Suc n..<Suc n + length xs]" using Cons by (intro Cons.IH) auto
  also have "\<dots> = acc @ zip (x # xs) (n # [Suc n..<Suc n + length xs])" by simp
  also have "n # [Suc n..<Suc n + length xs] = [n..<n + length (x # xs)]" by (simp add: upt_conv_Cons del: upt_Suc)
  finally show ?case .
qed simp

lemma imm_fold:
  assumes "distinct xs" "fst ` set acc \<inter> set xs = {}" "\<forall>b \<in> set xs. b \<noteq> e \<longrightarrow> map_of m b \<noteq> None"
  shows "foldM (\<lambda>im block. do {
         idom \<leftarrow> (if block \<noteq> e then map_option Some (map_of m block) else Some None);
         Some (AList.update block idom im) }) acc xs = Some (acc @ map (\<lambda>b. (b, if b \<noteq> e then map_of m b else None)) xs)"
  using assms
proof (induction xs arbitrary: acc)
  case (Cons x xs)
  have x: "x \<notin> fst ` set acc" using Cons.prems(2) by auto
  have "(if x \<noteq> e then map_option Some (map_of m x) else Some None) = Some (if x \<noteq> e then map_of m x else None)"
    using Cons.prems(3) by auto
  moreover have "fst ` set (acc @ [(x, if x \<noteq> e then map_of m x else None)]) \<inter> set xs = {}" using Cons.prems(1,2) by auto
  ultimately show ?case using Cons.IH [of "acc @ [(x, if x \<noteq> e then map_of m x else None)]"] Cons.prems x
    by (simp add: update_new del: bind_eq_Some)
qed simp

lemma push_children:
  assumes "map fst ch = V" "\<forall>x \<in> set xs. \<exists>p \<in> set V. map_of m x = Some p"
  shows "\<exists>ch'. foldM (push_child m) ch xs = Some ch' \<and> map fst ch' = V \<and>
    (\<forall>b. map_of ch' b = map_option (\<lambda>cs. cs @ filter (\<lambda>x. map_of m x = Some b) xs) (map_of ch b))"
  using assms
proof (induction xs arbitrary: ch)
  case Nil
  then show ?case by (auto simp: option.map_ident)
next
  case (Cons x xs)
  obtain p where p: "p \<in> set V" "map_of m x = Some p" using Cons.prems(2) by auto
  have pk: "p \<in> set (map fst ch)" using p(1) Cons.prems(1) by simp
  obtain cs where cs: "map_of ch p = Some cs" using key_lookup [OF pk] by blast
  let ?ch = "AList.update p (cs @ [x]) ch"
  have keys: "map fst ?ch = V" using update_keys [of p _ ch] pk Cons.prems(1) by simp
  obtain ch' where ch': "foldM (push_child m) ?ch xs = Some ch'" "map fst ch' = V"
      "\<forall>b. map_of ch' b = map_option (\<lambda>cs. cs @ filter (\<lambda>x. map_of m x = Some b) xs) (map_of ?ch b)"
    using Cons.IH [OF keys] Cons.prems(2) by auto
  have "map_of ch' b = map_option (\<lambda>cs. cs @ filter (\<lambda>x. map_of m x = Some b) (x # xs)) (map_of ch b)" for b
    using ch'(3) cs p(2) by (cases "b = p") (simp_all add: update_conv')
  moreover have "push_child m ch x = Some ?ch" using p(2) cs by (simp add: push_child_def del: bind_eq_Some map_of_eq_Some_iff)
  then have "foldM (push_child m) ch (x # xs) = Some ch'" using ch'(1) by (simp del: bind_eq_Some)
  ultimately show ?case using ch'(2) by blast
qed

lemma foldM_unit: "(\<forall>x \<in> set xs. g x = Some ()) \<Longrightarrow> foldM (\<lambda>_ x. g x) () xs = Some ()"
  by (induction xs) auto

context rpo_graph
begin

lemma in_tl: "x \<in> set (tl V) \<longleftrightarrow> x \<in> set V \<and> x \<noteq> e"
  using V_nonempty V_distinct e_def by (cases V) (auto simp: rpo_graph.e_def)

lemma ranked_fold: "ranked (fold (\<lambda>(index, block). AList.update block index) (List.enumerate 0 V) [])"
proof -
  have "map_of (zip V [0..<length V]) b = Some (rank b)" if "b \<in> set V" for b
    using rank_lt [OF that] V_distinct by (auto simp: in_set_zip intro!: exI [of _ "rank b"])
  then show ?thesis using index_fold [of V "[]" 0] V_distinct by (simp add: ranked_def del: map_of_eq_Some_iff)
qed

definition ch0 :: "(basic_block \<times> basic_block list) list" where
  "ch0 = fold (\<lambda>block. AList.update block []) V []"

lemma children_ok:
  assumes "tree_ok (map_of m)" "dom (map_of m) = set V"
  shows "\<exists>ch. foldM (push_child m) ch0 (tl V) = Some ch \<and> map fst ch = V \<and> tree_of (map_of m) ch"
proof -
  have c0: "ch0 = map (\<lambda>b. (b, [])) V" using initial_preds V_distinct by (simp add: ch0_def)
  have "\<forall>x \<in> set (tl V). \<exists>p \<in> set V. map_of m x = Some p"
  proof
    fix x assume "x \<in> set (tl V)"
    then have "x \<in> dom (map_of m)" "x \<noteq> e" using in_tl assms(2) by auto
    then show "\<exists>p \<in> set V. map_of m x = Some p" using parent_exists [OF assms(1)] assms(2) by metis
  qed
  moreover have "map fst ch0 = V" by (simp add: c0 comp_def)
  ultimately obtain ch where ch: "foldM (push_child m) ch0 (tl V) = Some ch" "map fst ch = V"
      "\<forall>b. map_of ch b = map_option (\<lambda>cs. cs @ filter (\<lambda>x. map_of m x = Some b) (tl V)) (map_of ch0 b)"
    using push_children by blast
  have "map_of ch b = Some (filter (\<lambda>x. map_of m x = Some b) (tl V))" if "b \<in> set V" for b
  proof -
    have "map_of ch0 b = Some []" using that by (simp add: c0 map_of_map_restrict restrict_map_def del: map_of_eq_Some_iff)
    then show ?thesis using ch(3) by simp
  qed
  moreover have "distinct (tl V)" using V_distinct by (simp add: distinct_tl)
  moreover have "set (filter (\<lambda>x. map_of m x = Some b) (tl V)) = {x \<in> set V. x \<noteq> e \<and> map_of m x = Some b}" for b using in_tl by auto
  ultimately have "tree_of (map_of m) ch" unfolding tree_of_def using assms by (simp del: map_of_eq_Some_iff)
  then show ?thesis using ch by blast
qed

lemma number_tree_ok:
  assumes "tree_of f ch"
  shows "\<exists>st st0. number_tree e ch = Some st \<and> numbered f (set V) st0 st \<and> keys_ok st0 \<and> num_depths st0 = [] \<and> num_in st0 = [] \<and> num_out st0 = []"
proof -
  let ?st0 = "\<lparr>timestamp = 0, num_depths = [], num_in = [], num_out = [], num_stack = [DEnter e 0]\<rparr>"
  have t: "tree_ok f" "dom f = set V" using assms by (simp_all add: tree_of_def)
  have "desc f e = set V" using anc_to_root [OF t(1)] t(2) by (auto simp: desc_def)
  moreover have "num_stack ?st0 = DEnter e (dep f e) # []" by (simp add: dep_def anc_root)
  ultimately obtain st where st: "number_loop ch ?st0 = number_loop ch st" "num_stack st = []" "numbered f (set V) ?st0 st"
    using number_subtree [OF assms rank_e(2)] by metis
  have "number_tree e ch = Some st" using st(1,2) number_loop.simps [of ch st]
    by (simp add: number_tree_def number_step.simps del: bind_eq_Some)
  then show ?thesis using st(3) by (auto simp: keys_ok_def)
qed

text \<open>The result of the analysis, against the tree of parents.\<close>

definition tree_model :: "(nat \<rightharpoonup> nat) \<Rightarrow> dominance_tree \<Rightarrow> bool" where
  "tree_model f t = (dom_entry t = e \<and>
     immediate_dominators t = map (\<lambda>b. (b, if b \<noteq> e then f b else None)) V \<and> map fst (children t) = V \<and>
     distinct (map fst (depths t)) \<and> dom (map_of (depths t)) = set V \<and>
     distinct (map fst (dfs_in t)) \<and> dom (map_of (dfs_in t)) = set V \<and>
     distinct (map fst (dfs_out t)) \<and> dom (map_of (dfs_out t)) = set V \<and>
     (\<forall>b \<in> set V. depth_of t b = Some (dep f b)) \<and>
     (\<forall>b \<in> set V. \<exists>cs. children_of t b = Some cs \<and> set cs = {x \<in> set V. x \<noteq> e \<and> f x = Some b}) \<and>
     (\<forall>a \<in> set V. \<forall>b \<in> set V. dominates t a b = Some (anc f e b a)))"

lemma tree_modelD:
  assumes "tree_model f t"
  shows "dom_entry t = e" "immediate_dominators t = map (\<lambda>b. (b, if b \<noteq> e then f b else None)) V" "map fst (children t) = V"
    "distinct (map fst (depths t))" "dom (map_of (depths t)) = set V"
    "distinct (map fst (dfs_in t))" "dom (map_of (dfs_in t)) = set V"
    "distinct (map fst (dfs_out t))" "dom (map_of (dfs_out t)) = set V"
    "\<And>b. b \<in> set V \<Longrightarrow> depth_of t b = Some (dep f b)"
    "\<And>b. b \<in> set V \<Longrightarrow> \<exists>cs. children_of t b = Some cs \<and> set cs = {x \<in> set V. x \<noteq> e \<and> f x = Some b}"
    "\<And>a b. a \<in> set V \<Longrightarrow> b \<in> set V \<Longrightarrow> dominates t a b = Some (anc f e b a)"
  using assms by (simp_all add: tree_model_def)

lemma numbered_model:
  assumes "tree_of f ch" "map fst ch = V" "numbered f (set V) st0 st" "keys_ok st0" "num_depths st0 = []" "num_in st0 = []" "num_out st0 = []"
  shows "tree_model f \<lparr>dom_entry = e, immediate_dominators = map (\<lambda>b. (b, if b \<noteq> e then f b else None)) V, children = ch,
    depths = num_depths st, dfs_in = num_in st, dfs_out = num_out st\<rparr>" (is "tree_model f ?t")
proof -
  note N = numberedD [OF assms(3)]
  have inside: "\<exists>i out. map_of (num_in st) b = Some i \<and> map_of (num_out st) b = Some out" if "b \<in> set V" for b using N(7) [OF that] by blast
  have outside: "map_of (num_depths st) b = None" "map_of (num_in st) b = None" "map_of (num_out st) b = None" if "b \<notin> set V" for b
    using N(3-5) [OF that] assms(5-7) by simp_all
  have "b \<in> dom (map_of (num_depths st)) \<longleftrightarrow> b \<in> set V" "b \<in> dom (map_of (num_in st)) \<longleftrightarrow> b \<in> set V"
    "b \<in> dom (map_of (num_out st)) \<longleftrightarrow> b \<in> set V" for b
    using N(6) [of b] inside [of b] outside [of b] by (cases "b \<in> set V"; simp add: domIff del: map_of_eq_Some_iff; blast)+
  then have d: "dom (map_of (num_depths st)) = set V" and i: "dom (map_of (num_in st)) = set V" "dom (map_of (num_out st)) = set V"
    by blast+
  have q: "dominates ?t a b = Some (anc f e b a)" if ab: "a \<in> set V" "b \<in> set V" for a b
  proof -
    obtain ia oa ib ob where "map_of (num_in st) a = Some ia" "map_of (num_out st) a = Some oa"
        "map_of (num_in st) b = Some ib" "map_of (num_out st) b = Some ob"
      using inside [OF ab(1)] inside [OF ab(2)] by blast
    then show ?thesis using N(8) [OF ab] by (auto simp: dominates_def simp del: bind_eq_Some map_of_eq_Some_iff)
  qed
  have c: "\<exists>cs. children_of ?t b = Some cs \<and> set cs = {x \<in> set V. x \<noteq> e \<and> f x = Some b}" if "b \<in> set V" for b
    using assms(1) that by (auto simp: tree_of_def children_of_def simp del: map_of_eq_Some_iff)
  have "keys_ok st" using N(2) assms(4) .
  then show ?thesis unfolding tree_model_def keys_ok_def using d i q c N(6) assms(2) by (simp add: depth_of_def del: map_of_eq_Some_iff)
qed

end

context rpo_graph
begin

lemma model_idom: "tree_model f t \<Longrightarrow> b \<in> set V \<Longrightarrow> immediate_dominator t b = Some (if b \<noteq> e then f b else None)"
  by (simp add: immediate_dominator_def tree_modelD(2) map_of_map_restrict restrict_map_def del: map_of_eq_Some_iff)

lemma climb_to_entry_ok:
  assumes "tree_model f t" "tree_ok f" "dom f = set V"
  shows "x \<in> set V \<Longrightarrow> rank x \<le> n \<Longrightarrow> climb_to_entry t n x = Some e"
proof (induction n arbitrary: x)
  case 0
  then show ?case using rank_pos [of x] by auto
next
  case (Suc n)
  show ?case
  proof (cases "x = e")
    case False
    then obtain p where p: "f x = Some p" "p \<in> dom f" "rank p < rank x" using parent_exists [OF assms(2)] Suc.prems assms(3) by blast
    then have "climb_to_entry t n p = Some e" using Suc assms(3) by simp
    then show ?thesis using False p(1) model_idom [OF assms(1) Suc.prems(1)] tree_modelD(1) [OF assms(1)] by (simp del: bind_eq_Some)
  qed (use tree_modelD(1) [OF assms(1)] in simp)
qed

lemma verify_block_ok:
  assumes "tree_model f t" "tree_ok f" "dom f = set V" "graph_model c" "b \<in> set V"
  shows "verify_block t c b = Some ()"
proof -
  note T = tree_modelD [OF assms(1)]
  have self: "dominates t b b = Some True" using T(12) [OF assms(5,5)] by simp
  show ?thesis
  proof (cases "b = e")
    case True
    then show ?thesis using self T(1) by (simp add: verify_block_def rassert_def)
  next
    case False
    then obtain p where p: "f b = Some p" "p \<in> set V" "rank p < rank b" using parent_exists [OF assms(2)] assms(3,5) by blast
    have idom: "immediate_dominator t b = Some (Some p)" using model_idom [OF assms(1,5)] False p(1) by simp
    have "anc f e b p" using False p(1) by (intro r_into_rtranclp) (simp add: parent_def)
    then have "strictly_dominates t p b = Some True" using T(12) [OF p(2) assms(5)] p(3) by (auto simp: strictly_dominates_def)
    moreover have "depth_of t b = Some (dep f p + 1)" using T(10) [OF assms(5)] dep_child [OF assms(2,3,5) False p(1)] by simp
    moreover obtain cs where "children_of t p = Some cs" "b \<in> set cs" using T(11) [OF p(2)] p(1) False assms(5) by auto
    moreover have "rank b \<le> block_count c" using assms(4) rank_lt [OF assms(5)] by (simp add: graph_model_def block_count_def)
    ultimately show ?thesis
      using self idom T(10) [OF p(2)] climb_to_entry_ok [OF assms(1-3,5)] T(1) False
      by (simp add: verify_block_def rassert_def del: bind_eq_Some)
  qed
qed

lemma alist_length: "distinct (map fst xs) \<Longrightarrow> dom (map_of xs) = set V \<Longrightarrow> length xs = length V"
  using distinct_card [of "map fst xs"] distinct_card [OF V_distinct] by (simp add: dom_map_of_conv_image_fst)

lemma verify_tree_ok:
  assumes "tree_model f t" "tree_ok f" "dom f = set V" "graph_model c" "cfg_entry c = e"
  shows "verify_tree t c = Some ()"
proof -
  note T = tree_modelD [OF assms(1)]
  have V: "reverse_postorder c = V" "block_count c = length V" using assms(4) by (simp_all add: graph_model_def block_count_def)
  have "length (immediate_dominators t) = length V" "length (children t) = length V"
    using T(2) arg_cong [OF T(3), of length] by simp_all
  moreover have "immediate_dominator t e = Some None" using model_idom [OF assms(1) rank_e(2)] by simp
  moreover have "depth_of t e = Some 0" using T(10) [OF rank_e(2)] by (simp add: dep_def anc_root)
  moreover have "foldM (\<lambda>_ block. verify_block t c block) () V = Some ()"
    using verify_block_ok [OF assms(1-4)] by (intro foldM_unit) blast
  ultimately show ?thesis using alist_length [OF T(4,5)] alist_length [OF T(6,7)] alist_length [OF T(8,9)] T(1) V assms(5)
    by (simp add: verify_tree_def rassert_def del: bind_eq_Some)
qed

lemma from_cfg_ok:
  assumes "graph_model c" "cfg_entry c = e"
    and "idom_loop c (fold (\<lambda>(index, block). AList.update block index) (List.enumerate 0 V) []) [(e, e)] = Some m"
    and "dom_tree (map_of m)" "distinct (map fst m)"
  shows "\<exists>t. from_cfg c = Some t \<and> tree_model (map_of m) t"
proof -
  have t: "tree_ok (map_of m)" "dom (map_of m) = set V" using assms(4) by (simp_all add: dom_tree_def)
  have V: "reverse_postorder c = V" "block_count c = length V" using assms(1) by (simp_all add: graph_model_def block_count_def)
  obtain ch where ch: "foldM (push_child m) ch0 (tl V) = Some ch" "map fst ch = V" "tree_of (map_of m) ch" using children_ok [OF t] by blast
  obtain st st0 where st: "number_tree e ch = Some st" "numbered (map_of m) (set V) st0 st" "keys_ok st0"
      "num_depths st0 = []" "num_in st0 = []" "num_out st0 = []"
    using number_tree_ok [OF ch(3)] by blast
  let ?t = "\<lparr>dom_entry = e, immediate_dominators = map (\<lambda>b. (b, if b \<noteq> e then map_of m b else None)) V, children = ch,
    depths = num_depths st, dfs_in = num_in st, dfs_out = num_out st\<rparr>"
  have model: "tree_model (map_of m) ?t" using numbered_model [OF ch(3,2) st(2-)] .
  have v: "verify_tree ?t c = Some ()" using verify_tree_ok [OF model t assms(1,2)] .
  have imm: "foldM (\<lambda>im block. do {
         idom \<leftarrow> (if block \<noteq> e then map_option Some (map_of m block) else Some None);
         Some (AList.update block idom im) }) [] V = Some (map (\<lambda>b. (b, if b \<noteq> e then map_of m b else None)) V)"
    using imm_fold [of V "[]" e m] V_distinct t(2) by (auto simp: domIff)
  have "length m = length V" using alist_length [OF assms(5) t(2)] .
  moreover have "hd V = e" by (simp add: e_def)
  ultimately have "from_cfg c = Some ?t"
    using assms(2,3) imm ch(1) st(1) v V V_nonempty
    by (simp add: from_cfg_def ch0_def Let_def rassert_def del: bind_eq_Some)
  then show ?thesis using model by blast
qed

end

section \<open>The analysis of a function\<close>

definition rpo_of :: "layout \<Rightarrow> cfg \<Rightarrow> basic_block list" where
  "rpo_of data c = (if graph_of data c then reverse_postorder c else [0])"

definition edge_of :: "layout \<Rightarrow> cfg \<Rightarrow> basic_block \<Rightarrow> basic_block \<Rightarrow> bool" where
  "edge_of data c a b = (graph_of data c \<and> reachable data a \<and> flows data a b)"

interpretation cg: rpo_graph "rpo_of data c" "edge_of data c" for data c
proof unfold_locales
  show "distinct (rpo_of data c)" "rpo_of data c \<noteq> []"
    using graph_ofD(3,5) [of data c] by (simp_all add: rpo_of_def)
  show "a \<in> set (rpo_of data c) \<and> b \<in> set (rpo_of data c)" if "edge_of data c a b" for a b
    using that graph_ofD(4) [of data c] flows_reachable by (auto simp: rpo_of_def edge_of_def)
  show "\<exists>j < i. edge_of data c (rpo_of data c ! j) (rpo_of data c ! i)" if i: "0 < i" "i < length (rpo_of data c)" for i
  proof (cases "graph_of data c")
    case True
    then have eq: "rpo_of data c = reverse_postorder c" by (simp add: rpo_of_def)
    obtain j where j: "j < i" "flows data (reverse_postorder c ! j) (reverse_postorder c ! i)" using graph_ofD(7) [OF True] i eq by auto
    then have "reverse_postorder c ! j \<in> set (reverse_postorder c)" using i(2) eq by (intro nth_mem) simp
    then have "reachable data (reverse_postorder c ! j)" using graph_ofD(4) [OF True] by simp
    then show ?thesis using j True eq by (auto simp: edge_of_def)
  qed (use i in \<open>simp add: rpo_of_def\<close>)
qed

lemma cg_graph:
  assumes "graph_of data c"
  shows "cg.graph_model data c c" "cg.e data c = cfg_entry c" "set (rpo_of data c) = {b. reachable data b}" "reverse_postorder c = rpo_of data c"
proof -
  note G = graph_ofD [OF assms]
  show eq: "reverse_postorder c = rpo_of data c" and set: "set (rpo_of data c) = {b. reachable data b}"
    using assms G(4) by (simp_all add: rpo_of_def)
  show "cg.e data c = cfg_entry c" using G(6) eq by (simp add: cg.e_def)
  show "cg.graph_model data c c" unfolding cg.graph_model_def edge_of_def using G(12) eq set assms by fastforce
qed

definition idom_good :: "layout \<Rightarrow> cfg \<Rightarrow> index_map \<Rightarrow> idom_map \<Rightarrow> bool" where
  "idom_good data c ri m = (graph_of data c \<and> cg.ranked data c ri \<and> cg.pass_inv data c 1 (map_of m) \<and> distinct (map fst m))"

lemma idom_good_pass:
  assumes "idom_good data c ri m"
  shows "\<exists>ch m'. idom_pass c ri m = Some (ch, m') \<and> idom_good data c ri m' \<and>
    (ch \<longrightarrow> cg.weight data c (map_of m') < cg.weight data c (map_of m)) \<and> (\<not> ch \<longrightarrow> cg.dom_tree data c (map_of m'))"
proof -
  have g: "graph_of data c" "cg.ranked data c ri" "cg.pass_inv data c 1 (map_of m)" "distinct (map fst m)"
    using assms by (simp_all add: idom_good_def)
  show ?thesis using cg.idom_pass_ok [OF cg_graph(1) [OF g(1)] g(2-4)] g(1,2) unfolding idom_good_def by blast
qed

interpretation idoms: progress_loop "idom_pass c ri" "idom_loop c ri" "idom_good data c ri" "\<lambda>_. idom_good data c ri"
  "\<lambda>m. cg.weight data c (map_of m)" for data c ri
proof unfold_locales
  show "idom_loop c ri s = Option.bind (idom_pass c ri s) (\<lambda>(ch, s'). if ch then idom_loop c ri s' else Some s')" for s
    by (rule idom_loop.simps)
  show "\<exists>ch s'. idom_pass c ri s = Some (ch, s') \<and> idom_good data c ri s' \<and> (ch \<longrightarrow> cg.weight data c (map_of s') < cg.weight data c (map_of s))"
    if "idom_good data c ri s" for s using idom_good_pass [OF that] by blast
qed

lemma idom_loop_ok:
  assumes "graph_of data c" "cg.ranked data c ri"
  shows "\<exists>m. idom_loop c ri [(cfg_entry c, cfg_entry c)] = Some m \<and> cg.dom_tree data c (map_of m) \<and> distinct (map fst m)"
proof -
  have "map_of [(cfg_entry c, cfg_entry c)] = [cg.e data c \<mapsto> cg.e data c]" using cg_graph(2) [OF assms(1)] by simp
  then have "idom_good data c ri [(cfg_entry c, cfg_entry c)]" using cg.pass_start [of data c] assms by (simp add: idom_good_def)
  then obtain m m0 where m: "idom_loop c ri [(cfg_entry c, cfg_entry c)] = Some m" "idom_good data c ri m" "idom_good data c ri m0"
      "idom_pass c ri m0 = Some (False, m)"
    using idoms.loop_stops [of data c ri] by blast
  then have "cg.dom_tree data c (map_of m)" using idom_good_pass [OF m(3)] by auto
  then show ?thesis using m(1,2) by (auto simp: idom_good_def)
qed

lemma path_flows:
  assumes "graph_of data c"
  shows "path_from (edge_of data c) (cfg_entry c) xs b \<longleftrightarrow> path_from (flows data) (cfg_entry c) xs b"
proof
  assume "path_from (flows data) (cfg_entry c) xs b"
  then have "path_from (edge_of data c) (cfg_entry c) xs b \<and> reachable data b"
  proof (induction rule: path_from.induct)
    case path_root
    then show ?case using path_from.path_root entry_reachable graph_ofD(1) [OF assms] by simp
  next
    case (path_step xs a b)
    then have "edge_of data c a b" using assms by (simp add: edge_of_def)
    then show ?case using path_step path_from.path_step flows_reachable by metis
  qed
  then show "path_from (edge_of data c) (cfg_entry c) xs b" by blast
next
  assume "path_from (edge_of data c) (cfg_entry c) xs b"
  then show "path_from (flows data) (cfg_entry c) xs b"
    by (induction rule: path_from.induct) (auto simp: edge_of_def intro: path_from.intros)
qed

definition dominance_of :: "layout \<Rightarrow> basic_block \<Rightarrow> dominance_tree \<Rightarrow> bool" where
  "dominance_of data e t = (
     (\<forall>b. dom_contains t b \<longleftrightarrow> reachable data b) \<and>
     (\<forall>a b. reachable data a \<and> reachable data b \<longrightarrow> dominates t a b = Some (dominator (flows data) e a b)) \<and>
     immediate_dominator t e = Some None \<and>
     (\<forall>b. reachable data b \<and> b \<noteq> e \<longrightarrow> (\<exists>p. immediate_dominator t b = Some (Some p) \<and> p \<noteq> b \<and> dominator (flows data) e p b \<and>
        (\<forall>d. dominator (flows data) e d b \<and> d \<noteq> b \<longrightarrow> dominator (flows data) e d p))) \<and>
     (\<forall>b. reachable data b \<longrightarrow> depth_of t b = Some (card {d. dominator (flows data) e d b \<and> d \<noteq> b})) \<and>
     (\<forall>b. reachable data b \<longrightarrow> (\<exists>cs. children_of t b = Some cs \<and> set cs = {x. immediate_dominator t x = Some (Some b)})))"

lemma from_cfg_dominance:
  assumes "graph_of data c"
  shows "\<exists>t. from_cfg c = Some t \<and> dominance_of data (cfg_entry c) t"
proof -
  note C = cg_graph [OF assms]
  let ?E = "edge_of data c" and ?e = "cfg_entry c"
  have dom_eq: "dominator ?E ?e a b \<longleftrightarrow> dominator (flows data) ?e a b" for a b
    using path_flows [OF assms] by (simp add: dominator_def)
  obtain m where m: "idom_loop c (fold (\<lambda>(index, block). AList.update block index) (List.enumerate 0 (rpo_of data c)) []) [(?e, ?e)] = Some m"
      "cg.dom_tree data c (map_of m)" "distinct (map fst m)"
    using idom_loop_ok [OF assms cg.ranked_fold] by blast
  obtain t where t: "from_cfg c = Some t" "cg.tree_model data c (map_of m) t"
    using cg.from_cfg_ok [OF C(1) _ _ m(2,3)] C(2) m(1) by auto
  note T = cg.tree_modelD [OF t(2)]
  have A: "anc (map_of m) ?e b a \<longleftrightarrow> dominator (flows data) ?e a b" if "reachable data b" for a b
    using m(2) that C(2,3) dom_eq by (auto simp: cg.dom_tree_def)
  have keys: "dom_contains t b \<longleftrightarrow> reachable data b" for b
    using T(2) C(3) by (auto simp: dom_contains_def map_of_map_restrict restrict_map_def)
  have query: "dominates t a b = Some (dominator (flows data) ?e a b)" if "reachable data a" "reachable data b" for a b
    using T(12) [of a b] that C(2,3) A by simp
  have idom: "immediate_dominator t b = Some (if b \<noteq> ?e then map_of m b else None)" if "reachable data b" for b
    using cg.model_idom [OF t(2), of b] that C(2,3) by simp
  have re: "reachable data ?e" using entry_reachable graph_ofD(1) [OF assms] by blast
  have ch: "\<exists>cs. children_of t b = Some cs \<and> set cs = {x. immediate_dominator t x = Some (Some b)}" if b: "reachable data b" for b
  proof -
    obtain cs where cs: "children_of t b = Some cs" "set cs = {x. reachable data x \<and> x \<noteq> ?e \<and> map_of m x = Some b}"
      using T(11) [of b] b C(2,3) by auto
    have "immediate_dominator t x = Some (Some b) \<longleftrightarrow> reachable data x \<and> x \<noteq> ?e \<and> map_of m x = Some b" for x
    proof (cases "reachable data x")
      case False
      then show ?thesis using keys [of x] by (simp add: dom_contains_def immediate_dominator_def)
    qed (use idom [of x] in auto)
    then show ?thesis using cs by simp
  qed
  have im: "\<exists>p. immediate_dominator t b = Some (Some p) \<and> p \<noteq> b \<and> dominator (flows data) ?e p b \<and>
        (\<forall>d. dominator (flows data) ?e d b \<and> d \<noteq> b \<longrightarrow> dominator (flows data) ?e d p)" if b: "reachable data b" "b \<noteq> ?e" for b
  proof -
    have "b \<in> set (rpo_of data c)" "b \<noteq> cg.e data c" using b C(2,3) by auto
    then obtain p where "map_of m b = Some p" "p \<noteq> b" "dominator ?E (cg.e data c) p b"
        "\<forall>d. dominator ?E (cg.e data c) d b \<and> d \<noteq> b \<longrightarrow> dominator ?E (cg.e data c) d p"
      using cg.dom_tree_idom [OF m(2)] by metis
    then show ?thesis using idom [OF b(1)] b(2) C(2) dom_eq by auto
  qed
  have dp: "depth_of t b = Some (card {d. dominator (flows data) ?e d b \<and> d \<noteq> b})" if "reachable data b" for b
    using T(10) [of b] that C(2,3) A [OF that] by (simp add: cg.dep_def)
  have "dominance_of data ?e t" unfolding dominance_of_def using keys query idom [OF re] ch im dp by simp
  then show ?thesis using t(1) by blast
qed

text \<open>C3: for every function whose reachable blocks end in a terminator inside the layout, the dominator analysis returns (both the iteration to the
  fixed point and the numbering of the tree end, and none of the debug assertions fails). The tree contains exactly the reachable blocks; a dominance
  query answers whether every path from the entry to the second block visits the first; the immediate dominator of a block
  other than the entry is its strict dominator that all its other strict dominators dominate; the depth is the number of strict dominators;
  the children of a block are the blocks it immediately dominates.\<close>

theorem dominance_tree_correct:
  assumes "hash_ok hash_order" "graph_ok data" "entry_bb data = Some e"
  shows "\<exists>t. dominance_tree_new hash_order data = Some (Some t) \<and>
    (\<forall>b. dom_contains t b \<longleftrightarrow> reachable data b) \<and>
    (\<forall>a b. reachable data a \<and> reachable data b \<longrightarrow> dominates t a b = Some (dominator (flows data) e a b)) \<and>
    immediate_dominator t e = Some None \<and>
    (\<forall>b. reachable data b \<and> b \<noteq> e \<longrightarrow> (\<exists>p. immediate_dominator t b = Some (Some p) \<and> p \<noteq> b \<and> dominator (flows data) e p b \<and>
       (\<forall>d. dominator (flows data) e d b \<and> d \<noteq> b \<longrightarrow> dominator (flows data) e d p))) \<and>
    (\<forall>b. reachable data b \<longrightarrow> depth_of t b = Some (card {d. dominator (flows data) e d b \<and> d \<noteq> b})) \<and>
    (\<forall>b. reachable data b \<longrightarrow> (\<exists>cs. children_of t b = Some cs \<and> set cs = {x. immediate_dominator t x = Some (Some b)}))"
proof -
  obtain c where c: "cfg_new hash_order data = Some (Some c)" "graph_of data c" using cfg_new_graph [OF assms(1,2)] by blast
  obtain t where t: "from_cfg c = Some t" "dominance_of data (cfg_entry c) t" using from_cfg_dominance [OF c(2)] by blast
  have "cfg_entry c = e" using graph_ofD(1) [OF c(2)] assms(3) by simp
  then have "dominance_of data e t" using t(2) by simp
  moreover have "dominance_tree_new hash_order data = Some (Some t)" using c(1) t(1) by (simp add: dominance_tree_new_def)
  ultimately show ?thesis unfolding dominance_of_def by blast
qed

theorem dominance_tree_correct_witness:
  "hash_ok (\<lambda>xs. xs) \<and> graph_ok loop_layout \<and> entry_bb loop_layout = Some 0 \<and>
    (\<exists>t. dominance_tree_new (\<lambda>xs. xs) loop_layout = Some (Some t) \<and> immediate_dominator t 0 = Some None \<and>
      (\<forall>b. dom_contains t b \<longleftrightarrow> reachable loop_layout b))"
proof -
  have e: "entry_bb loop_layout = Some 0" by (simp add: entry_bb_def loop_layout_def)
  then show ?thesis using dominance_tree_correct [OF loop_layout_ok e] loop_layout_ok by blast
qed

end
