(* ===== verification/Legacy_Dom.thy ===== *)
theory Legacy_Dom
  imports Dom_Result
begin

text \<open>
  The older graph helpers that several passes still use: blocks are numbered densely by an allocator
  (\<^verbatim>\<open>raana_ir/src/opt/utils.rs\<close>), the graph is built on the numbers (\<^verbatim>\<open>analysis_passes/cfg.rs\<close>), and immediate
  dominators are kept in a vector (\<^verbatim>\<open>analysis_passes/dom_tree.rs\<close>).
\<close>

section \<open>The allocator of numbers\<close>

record ('k, 'n) id_allocator =
  id_pos :: "('k \<times> usize) list"
  id_neg :: "(usize \<times> 'n) list"
  id_cnt :: usize
  increase_by :: usize

definition id_allocator_new :: "usize \<Rightarrow> ('k, 'n) id_allocator" where
  "id_allocator_new step = \<lparr>id_pos = [], id_neg = [], id_cnt = 0, increase_by = step\<rparr>"

definition check_or_alloc_id :: "('k, 'n) id_allocator \<Rightarrow> 'k \<Rightarrow> 'n \<Rightarrow> usize \<times> ('k, 'n) id_allocator" where
  "check_or_alloc_id self pkey nkey = (case map_of (id_pos self) pkey of
      Some n \<Rightarrow> (n, self)
    | None \<Rightarrow> (id_cnt self, self\<lparr>id_pos := AList.update pkey (id_cnt self) (id_pos self),
        id_neg := AList.update (id_cnt self) nkey (id_neg self), id_cnt := id_cnt self + increase_by self\<rparr>))"

definition get_id_safe :: "('k, 'n) id_allocator \<Rightarrow> 'k \<Rightarrow> usize option" where
  "get_id_safe self key = map_of (id_pos self) key"

definition get_id :: "('k, 'n) id_allocator \<Rightarrow> 'k \<Rightarrow> usize rust" where
  "get_id self key = map_of (id_pos self) key"

definition search_id :: "('k, 'n) id_allocator \<Rightarrow> usize \<Rightarrow> 'n rust" where
  "search_id self n = map_of (id_neg self) n"

definition check_or_alloc_id_same :: "('k, 'k) id_allocator \<Rightarrow> 'k \<Rightarrow> usize \<times> ('k, 'k) id_allocator" where
  "check_or_alloc_id_same self key = check_or_alloc_id self key key"

text \<open>The allocator with step 1 keeps a bijection between the keys seen so far and the numbers below its counter.\<close>

definition id_inv :: "('k, 'k) id_allocator \<Rightarrow> bool" where
  "id_inv a = (increase_by a = 1 \<and> (\<forall>k n. get_id a k = Some n \<longleftrightarrow> search_id a n = Some k) \<and> (\<forall>n. search_id a n \<noteq> None \<longleftrightarrow> n < id_cnt a))"

lemma id_inv_new: "id_inv (id_allocator_new 1)"
  by (simp add: id_inv_def id_allocator_new_def get_id_def search_id_def)

lemma check_or_alloc_id_same_inv:
  assumes "id_inv a" "check_or_alloc_id_same a k = (n, a')"
  shows "id_inv a'" "get_id a' k = Some n" "search_id a' n = Some k" "\<And>j m. get_id a j = Some m \<Longrightarrow> get_id a' j = Some m"
proof -
  have bij: "\<And>k n. get_id a k = Some n \<longleftrightarrow> search_id a n = Some k" and lim: "\<And>n. search_id a n \<noteq> None \<longleftrightarrow> n < id_cnt a"
    and one: "increase_by a = 1" using assms(1) unfolding id_inv_def by blast+
  have "id_inv a' \<and> get_id a' k = Some n \<and> search_id a' n = Some k \<and> (\<forall>j m. get_id a j = Some m \<longrightarrow> get_id a' j = Some m)"
  proof (cases "get_id a k")
    case (Some m)
    then have "n = m" "a' = a" using assms(2) by (simp_all add: check_or_alloc_id_same_def check_or_alloc_id_def get_id_def)
    then show ?thesis using Some bij assms(1) by blast
  next
    case None
    then have n: "n = id_cnt a" "get_id a' = (get_id a)(k \<mapsto> n)" "search_id a' = (search_id a)(n \<mapsto> k)" "id_cnt a' = Suc n" "increase_by a' = 1"
      using assms(2) one
      by (auto simp: check_or_alloc_id_same_def check_or_alloc_id_def get_id_def search_id_def update_conv' fun_eq_iff)
    have "search_id a n = None" using lim [of n] n(1) by auto
    then have "get_id a' j = Some m \<longleftrightarrow> search_id a' m = Some j" for j m using bij [of j m] None n(2,3) by (auto split: if_splits)
    moreover have "search_id a' m \<noteq> None \<longleftrightarrow> m < id_cnt a'" for m using lim [of m] n(1,3,4) by auto
    ultimately have "id_inv a'" using n(5) by (simp add: id_inv_def)
    then show ?thesis using n(2,3) None by auto
  qed
  then show "id_inv a'" "get_id a' k = Some n" "search_id a' n = Some k" "\<And>j m. get_id a j = Some m \<Longrightarrow> get_id a' j = Some m" by blast+
qed

section \<open>The graph on numbers\<close>

type_synonym bid = nat
type_synonym cfg_graph = "(bid \<times> bid list) list"

text \<open>\<open>graph.entry(id).or_default()\<close>.\<close>

definition or_default :: "cfg_graph \<Rightarrow> bid \<Rightarrow> cfg_graph" where
  "or_default g n = (case map_of g n of None \<Rightarrow> AList.update n [] g | Some _ \<Rightarrow> g)"

datatype both_visit = BEnter basic_block | FalseArm bid basic_block

record both_state =
  both_alloc :: "(basic_block, basic_block) id_allocator"
  both_graph :: cfg_graph
  both_prece :: cfg_graph
  both_visited :: "basic_block set"
  both_stack :: "both_visit list"

definition get_terminator_inst :: "layout \<Rightarrow> basic_block \<Rightarrow> inst_kind rust" where
  "get_terminator_inst data bb = do {
     insts \<leftarrow> map_of data bb;
     if insts = [] then None else Some (last insts) }"

text \<open>One edge: the target gets its number, and both maps get the edge.\<close>

definition add_edge :: "both_state \<Rightarrow> bid \<Rightarrow> basic_block \<Rightarrow> both_state" where
  "add_edge st source target = (let (target_id, alloc) = check_or_alloc_id_same (both_alloc st) target
     in st\<lparr>both_alloc := alloc, both_graph := or_default_push (both_graph st) source target_id,
       both_prece := or_default_push (both_prece st) target_id source\<rparr>)"

definition enter_node :: "layout \<Rightarrow> both_state \<Rightarrow> basic_block \<Rightarrow> both_state rust" where
  "enter_node data st node = (let (id, alloc) = check_or_alloc_id_same (both_alloc st) node;
       st = st\<lparr>both_alloc := alloc, both_visited := insert node (both_visited st)\<rparr> in do {
     terminator \<leftarrow> get_terminator_inst data node;
     case terminator of
       Jump target \<Rightarrow> let st = add_edge st id target in Some (st\<lparr>both_stack := BEnter target # both_stack st\<rparr>)
     | Branch true_target false_target \<Rightarrow> let st = add_edge st id true_target
         in Some (st\<lparr>both_stack := BEnter true_target # FalseArm id false_target # both_stack st\<rparr>)
     | Return \<Rightarrow> Some (st\<lparr>both_graph := or_default (both_graph st) id\<rparr>)
     | TailCall \<Rightarrow> Some (st\<lparr>both_graph := or_default (both_graph st) id\<rparr>)
     | Other \<Rightarrow> None })"

definition both_step :: "layout \<Rightarrow> both_state \<Rightarrow> (bool \<times> both_state) rust" where
  "both_step data st = (case both_stack st of
      [] \<Rightarrow> Some (False, st)
    | BEnter node # rest \<Rightarrow>
        if node \<in> both_visited st then Some (True, st\<lparr>both_stack := rest\<rparr>)
        else do { st \<leftarrow> enter_node data (st\<lparr>both_stack := rest\<rparr>) node; Some (True, st) }
    | FalseArm source_id target # rest \<Rightarrow>
        let st = add_edge (st\<lparr>both_stack := rest\<rparr>) source_id target in Some (True, st\<lparr>both_stack := BEnter target # both_stack st\<rparr>))"

partial_function (option) both_loop :: "layout \<Rightarrow> both_state \<Rightarrow> both_state option" where
  "both_loop data st = do {
     (continue, st') \<leftarrow> both_step data st;
     if continue then both_loop data st' else Some st' }"

declare both_loop.simps [code]

definition build_cfg_both :: "layout \<Rightarrow> (basic_block, basic_block) id_allocator \<Rightarrow>
    ((cfg_graph \<times> cfg_graph) \<times> (basic_block, basic_block) id_allocator) rust" where
  "build_cfg_both data bb_alloc = do {
     entry \<leftarrow> entry_bb data;
     st \<leftarrow> both_loop data \<lparr>both_alloc = bb_alloc, both_graph = [], both_prece = or_default [] 0, both_visited = {}, both_stack = [BEnter entry]\<rparr>;
     Some ((both_graph st, both_prece st), both_alloc st) }"

section \<open>Reverse postorder of the numbers\<close>

record rpo_state =
  rpo_walk :: "bid list"
  rpo_visited :: "bid set"
  rpo_stack :: "block_visit list"

definition rpo_step :: "cfg_graph \<Rightarrow> rpo_state \<Rightarrow> (bool \<times> rpo_state) rust" where
  "rpo_step g st = (case rpo_stack st of
      [] \<Rightarrow> Some (False, st)
    | Enter node # rest \<Rightarrow>
        if node \<in> rpo_visited st then Some (True, st\<lparr>rpo_stack := rest\<rparr>)
        else do {
          ss \<leftarrow> map_of g node;
          let vis = insert node (rpo_visited st);
          Some (True, st\<lparr>rpo_visited := vis, rpo_stack := map Enter (filter (\<lambda>s. s \<notin> vis) ss) @ Exit node # rest\<rparr>) }
    | Exit node # rest \<Rightarrow> Some (True, st\<lparr>rpo_walk := rpo_walk st @ [node], rpo_stack := rest\<rparr>))"

partial_function (option) rpo_loop :: "cfg_graph \<Rightarrow> rpo_state \<Rightarrow> rpo_state option" where
  "rpo_loop g st = do {
     (continue, st') \<leftarrow> rpo_step g st;
     if continue then rpo_loop g st' else Some st' }"

declare rpo_loop.simps [code]

definition rpo_path :: "cfg_graph \<Rightarrow> bid list rust" where
  "rpo_path g = map_option (\<lambda>st. rev (rpo_walk st)) (rpo_loop g \<lparr>rpo_walk = [], rpo_visited = {}, rpo_stack = [Enter 0]\<rparr>)"

section \<open>Immediate dominators in a vector\<close>

type_synonym idom_vec = "bid list"

partial_function (option) lca_climb :: "idom_vec \<Rightarrow> bid list \<Rightarrow> bid \<Rightarrow> bid \<Rightarrow> bid option" where
  "lca_climb idoms rpo_idx p other = do {
     i \<leftarrow> vec_get rpo_idx p;
     j \<leftarrow> vec_get rpo_idx other;
     if i > j then do { up \<leftarrow> vec_get idoms p; lca_climb idoms rpo_idx up other } else Some p }"

declare lca_climb.simps [code]

partial_function (option) lca :: "idom_vec \<Rightarrow> bid list \<Rightarrow> bid \<Rightarrow> bid \<Rightarrow> bid option" where
  "lca idoms rpo_idx p1 p2 = (if p1 = p2 then Some p1 else do {
     p1' \<leftarrow> lca_climb idoms rpo_idx p1 p2;
     p2' \<leftarrow> lca_climb idoms rpo_idx p2 p1';
     lca idoms rpo_idx p1' p2' })"

declare lca.simps [code]

text \<open>\<open>it.find(..).unwrap()\<close>: the first predecessor with an entry, and what is left of the iterator.\<close>

fun find_processed :: "idom_vec \<Rightarrow> bid list \<Rightarrow> (bid \<times> bid list) rust" where
  "find_processed idoms [] = None"
| "find_processed idoms (x # xs) = do {
     m \<leftarrow> vec_get idoms x;
     if m \<noteq> usize_MAX then Some (x, xs) else find_processed idoms xs }"

definition idom_node :: "cfg_graph \<Rightarrow> bid list \<Rightarrow> idom_vec \<times> bool \<Rightarrow> bid \<Rightarrow> (idom_vec \<times> bool) rust" where
  "idom_node prece rpo = (\<lambda>(idoms, converged) node. do {
     ps \<leftarrow> map_of prece node;
     (first, it) \<leftarrow> find_processed idoms ps;
     new_idom \<leftarrow> foldM (\<lambda>new_idom other_node. do {
         m \<leftarrow> vec_get idoms other_node;
         if m \<noteq> usize_MAX then lca idoms rpo new_idom other_node else Some new_idom }) first it;
     old \<leftarrow> vec_get idoms node;
     if old \<noteq> new_idom then do { idoms' \<leftarrow> vec_set idoms node new_idom; Some (idoms', False) } else Some (idoms, converged) })"

partial_function (option) idom_fix :: "cfg_graph \<Rightarrow> bid list \<Rightarrow> idom_vec \<Rightarrow> idom_vec option" where
  "idom_fix prece rpo idoms = do {
     rassert (rpo \<noteq> []);
     (idoms', converged) \<leftarrow> foldM (idom_node prece rpo) (idoms, True) (tl rpo);
     if converged then Some idoms' else idom_fix prece rpo idoms' }"

declare idom_fix.simps [code]

definition idom :: "cfg_graph \<Rightarrow> bid list \<Rightarrow> idom_vec rust" where
  "idom prece rpo = do {
     let idoms = replicate (length rpo) usize_MAX;
     rpo_idx \<leftarrow> foldM (\<lambda>v (i, id). vec_set v id i) (replicate (length rpo) 0) (List.enumerate 0 rpo);
     idoms' \<leftarrow> vec_set idoms 0 0;
     idom_fix prece rpo idoms' }"

definition build_dominance_tree :: "idom_vec \<Rightarrow> usize \<Rightarrow> bid list list rust" where
  "build_dominance_tree idom_map rpo_len =
     foldM (\<lambda>ret (vid, pa). do { cs \<leftarrow> vec_get ret pa; vec_set ret pa (cs @ [vid]) }) (replicate rpo_len []) (tl (List.enumerate 0 idom_map))"

section \<open>A function with an early exit\<close>

definition early_exit :: layout where
  "early_exit = [(10, [Other, Branch 11 14]), (11, [Branch 12 13]), (12, [Return]), (13, [Jump 12]), (14, [Return])]"
lemma early_exit_graph: "build_cfg_both early_exit (id_allocator_new 1) = Some (([(0, [1, 4]), (1, [2, 3]), (2, []), (3, [2]), (4, [])],
    [(0, []), (1, [0]), (2, [1, 3]), (3, [1]), (4, [0])]),
   \<lparr>id_pos = [(10, 0), (11, 1), (12, 2), (13, 3), (14, 4)],
      id_neg = [(0, 10), (1, 11), (2, 12), (3, 13), (4, 14)], id_cnt = 5,
      increase_by = 1\<rparr>)"
  by code_simp
lemma early_exit_rpo: "rpo_path [(0, [1, 4]), (1, [2, 3]), (2, []), (3, [2]), (4, [])] = Some [0,4,1,3,2]"
  by code_simp

lemma early_exit_lca: "lca [0, 0, m, Suc 0, 0] [0, 4, Suc 0, 3, 2] (Suc 0) 3 = Some 0"
proof -
  have c0: "lca_climb [0, 0, m, Suc 0, 0] [0, 4, Suc 0, 3, 2] 0 n = Some 0" if "n < 5" for n
    using that by (subst lca_climb.simps) (simp add: vec_get_def)
  have c1: "lca_climb [0, 0, m, Suc 0, 0] [0, 4, Suc 0, 3, 2] (Suc 0) n = Some 0" if "n = 0 \<or> n = 3" for n
    using that by (subst lca_climb.simps) (auto simp: vec_get_def c0)
  have c3: "lca_climb [0, 0, m, Suc 0, 0] [0, 4, Suc 0, 3, 2] 3 0 = Some 0"
    by (subst lca_climb.simps) (simp add: vec_get_def c1)
  have l0: "lca [0, 0, m, Suc 0, 0] [0, 4, Suc 0, 3, 2] 0 0 = Some 0" by (subst lca.simps) simp
  show ?thesis by (subst lca.simps) (simp add: c1 c3 l0)
qed

lemma MAX_neq: "0 \<noteq> usize_MAX" "Suc 0 \<noteq> usize_MAX" "usize_MAX \<noteq> 0" "usize_MAX \<noteq> Suc 0"
  by (simp_all add: usize_MAX_def)

lemma early_exit_idom: "idom [(0, []), (1, [0]), (2, [1, 3]), (3, [1]), (4, [0])] [0,4,1,3,2] = Some [0,0,0,1,0]"
proof -
  have p: "foldM (idom_node [(0, []), (1, [0]), (2, [1, 3]), (3, [1]), (4, [0])] [0, 4, Suc 0, 3, 2]) ([0, usize_MAX, usize_MAX, usize_MAX, usize_MAX], True) [4, Suc 0, 3, 2] = Some ([0,0,0,Suc 0,0], False)"
    "foldM (idom_node [(0, []), (1, [0]), (2, [1, 3]), (3, [1]), (4, [0])] [0, 4, Suc 0, 3, 2]) ([0,0,0,Suc 0,0], True) [4, Suc 0, 3, 2] = Some ([0,0,0,Suc 0,0], True)"
    using early_exit_lca [of usize_MAX] early_exit_lca [of 0] by (simp_all add: idom_node_def vec_get_def vec_set_def MAX_neq list_update_code)
  have f: "idom_fix [(0, []), (1, [0]), (2, [1, 3]), (3, [1]), (4, [0])] [0, 4, Suc 0, 3, 2] [0, 0, 0, Suc 0, 0] = Some [0, 0, 0, Suc 0, 0]"
    using p(2) by (subst idom_fix.simps) (simp add: rassert_def del: bind_eq_Some foldM.simps)
  have "idom_fix [(0, []), (1, [0]), (2, [1, 3]), (3, [1]), (4, [0])] [0, 4, Suc 0, 3, 2] [0, usize_MAX, usize_MAX, usize_MAX, usize_MAX] = Some [0, 0, 0, Suc 0, 0]"
    using p(1) f by (subst idom_fix.simps) (simp add: rassert_def del: bind_eq_Some foldM.simps)
  then show ?thesis by (simp add: idom_def vec_set_def)
qed

lemma early_exit_flows: "flows early_exit a b \<longleftrightarrow> (a, b) \<in> {(10, 11), (10, 14), (11, 12), (11, 13), (13, 12)}"
proof -
  have "block_successors early_exit a = (if a = 10 then Some [11, 14] else if a = 11 then Some [12, 13] else if a = 13 then Some [12]
      else if a = 12 \<or> a = 14 then Some [] else None)"
    by (simp add: early_exit_def block_successors_def rassert_def)
  then show ?thesis by (auto simp: flows_def split: if_splits)
qed

lemma early_exit_dominator: "dominator (flows early_exit) 10 11 12" "dominator (flows early_exit) 10 10 11"
proof -
  have "path_from (flows early_exit) 10 xs b \<Longrightarrow> b \<in> {11, 12, 13} \<longrightarrow> 11 \<in> set xs" for xs b
    by (induction rule: path_from.induct) (auto simp: early_exit_flows)
  then show "dominator (flows early_exit) 10 11 12" by (auto simp: dominator_def)
  show "dominator (flows early_exit) 10 10 11" using path_ends by (auto simp: dominator_def)
qed

section \<open>Dominators of the older analysis\<close>

text \<open>C38: the older computation of immediate dominators compares blocks by the reverse postorder list itself instead of the positions in it. For
  a function with an early exit (numbered and traversed as the passes do it) it returns a vector in which the immediate dominator of block
  12 is the entry, block 10, although block 11 strictly dominates 12 and is strictly dominated by 10; the newer analysis gives 11.\<close>

theorem legacy_idom_not_immediate:
  "\<exists>graph prece alloc rpo idoms t. build_cfg_both early_exit (id_allocator_new 1) = Some ((graph, prece), alloc) \<and>
    rpo_path graph = Some rpo \<and> idom prece rpo = Some idoms \<and>
    get_id alloc 12 = Some 2 \<and> vec_get idoms 2 = Some 0 \<and> search_id alloc 0 = Some 10 \<and>
    dominator (flows early_exit) 10 11 12 \<and> dominator (flows early_exit) 10 10 11 \<and>
    dominance_tree_new (\<lambda>xs. xs) early_exit = Some (Some t) \<and> immediate_dominator t 12 = Some (Some 11)"
proof -
  have "Option.bind (dominance_tree_new (\<lambda>xs. xs) early_exit) (\<lambda>t. Option.bind t (\<lambda>t. immediate_dominator t 12)) = Some (Some 11)"
    by code_simp
  then have t: "\<exists>t. dominance_tree_new (\<lambda>xs. xs) early_exit = Some (Some t) \<and> immediate_dominator t 12 = Some (Some 11)" by auto
  show ?thesis using early_exit_graph early_exit_rpo early_exit_idom early_exit_dominator t
    by (simp add: get_id_def search_id_def vec_get_def del: bind_eq_Some)
qed

end
