(* ===== verification/Natural_Loops.thy ===== *)
theory Natural_Loops
  imports Dominance
begin

text \<open>
  Dominance between the nodes of a flow graph, natural loops, and why two natural loops with different headers are
  disjoint or nested.
\<close>

section \<open>Paths that avoid a node\<close>

definition reached_from :: "(nat \<Rightarrow> nat \<Rightarrow> bool) \<Rightarrow> nat \<Rightarrow> nat \<Rightarrow> bool" where
  "reached_from E e b = (\<exists>xs. path_from E e xs b)"

abbreviation avoiding :: "(nat \<Rightarrow> nat \<Rightarrow> bool) \<Rightarrow> nat set \<Rightarrow> nat \<Rightarrow> nat \<Rightarrow> bool" where
  "avoiding E A \<equiv> (\<lambda>u v. E u v \<and> v \<notin> A)\<^sup>*\<^sup>*"

lemma avoiding_mono: "avoiding E A x y \<Longrightarrow> B \<subseteq> A \<Longrightarrow> avoiding E B x y"
  by (erule rtranclp_mono [THEN predicate2D, rotated]) auto

lemma reached_step: "reached_from E e a \<Longrightarrow> E a b \<Longrightarrow> reached_from E e b"
  unfolding reached_from_def using path_step by blast

lemma reached_avoiding: "avoiding E A a b \<Longrightarrow> reached_from E e a \<Longrightarrow> reached_from E e b"
  by (induction rule: rtranclp_induct) (auto intro: reached_step)

lemma path_extend:
  assumes "avoiding E A a b" "path_from E e xs a"
  shows "\<exists>ys. path_from E e (xs @ ys) b \<and> set ys \<inter> A = {}"
  using assms(1)
proof (induction rule: rtranclp_induct)
  case base
  then show ?case using assms(2) by (intro exI [of _ "[]"]) simp
next
  case (step y z)
  then obtain ys where "path_from E e (xs @ ys) y" "set ys \<inter> A = {}" by blast
  then show ?case using step.hyps(2) path_step [of E e "xs @ ys" y z] by (intro exI [of _ "ys @ [z]"]) simp
qed

lemma path_prefix: "path_from E e xs x \<Longrightarrow> b \<in> set xs \<Longrightarrow> \<exists>ys zs. xs = ys @ zs \<and> path_from E e ys b \<and> (b \<noteq> x \<longrightarrow> zs \<noteq> [])"
proof (induction rule: path_from.induct)
  case path_root
  then show ?case using path_from.path_root [of E e] by (intro exI [of _ "[e]"] exI [of _ "[]"]) simp
next
  case (path_step xs a c)
  show ?case
  proof (cases "b = c")
    case True
    then show ?thesis using path_from.path_step [OF path_step.hyps] by (intro exI [of _ "xs @ [c]"] exI [of _ "[]"]) simp
  next
    case False
    then obtain ys zs where "xs = ys @ zs" "path_from E e ys b" using path_step by auto
    then show ?thesis by (intro exI [of _ ys] exI [of _ "zs @ [c]"]) simp
  qed
qed

text \<open>After the last visit of a node of \<open>S\<close> a path avoids \<open>S\<close>.\<close>

lemma path_last: "path_from E e xs x \<Longrightarrow> set xs \<inter> S \<noteq> {} \<Longrightarrow> \<exists>s \<in> set xs \<inter> S. avoiding E S s x"
proof (induction rule: path_from.induct)
  case (path_step xs a b)
  show ?case
  proof (cases "b \<in> S")
    case False
    then obtain s where "s \<in> set xs \<inter> S" "avoiding E S s a" using path_step by auto
    then have "avoiding E S s b" using path_step.hyps(2) False by (intro rtranclp.rtrancl_into_rtrancl [of _ s a b]) simp_all
    then show ?thesis using \<open>s \<in> set xs \<inter> S\<close> by auto
  qed auto
qed auto

section \<open>The dominance order\<close>

lemma dominator_back:
  assumes "dominator E e d x" "avoiding E {d} z x"
  shows "dominator E e d z"
  unfolding dominator_def
proof safe
  fix xs assume "path_from E e xs z"
  then obtain ys where "path_from E e (xs @ ys) x" "set ys \<inter> {d} = {}" using path_extend [OF assms(2)] by blast
  then show "d \<in> set xs" using assms(1) by (auto simp: dominator_def)
qed

lemma dominator_trans: "dominator E e a b \<Longrightarrow> dominator E e b c \<Longrightarrow> dominator E e a c"
  unfolding dominator_def by (metis Un_iff path_prefix set_append)

lemma dominator_antisym:
  assumes "reached_from E e a" "dominator E e a b" "dominator E e b a"
  shows "a = b"
proof (rule ccontr)
  assume ne: "a \<noteq> b"
  have "\<not> path_from E e xs a" for xs
  proof (induction "length xs" arbitrary: xs rule: less_induct)
    case less
    show ?case
    proof
      assume p: "path_from E e xs a"
      then obtain ys zs where b: "xs = ys @ zs" "path_from E e ys b" "zs \<noteq> []"
        using path_prefix [OF p] assms(3) ne by (metis dominator_def)
      then obtain us vs where "ys = us @ vs" "path_from E e us a"
        using path_prefix [OF b(2)] assms(2) by (metis dominator_def)
      then show False using less [of us] b by simp
    qed
  qed
  then show False using assms(1) by (simp add: reached_from_def)
qed

lemma dominator_linear:
  assumes "reached_from E e x" "dominator E e a x" "dominator E e b x"
  shows "dominator E e a b \<or> dominator E e b a"
proof (cases "a = b")
  case False
  obtain xs where xs: "path_from E e xs x" using assms(1) by (auto simp: reached_from_def)
  then have "set xs \<inter> {a, b} \<noteq> {}" using assms(2) by (auto simp: dominator_def)
  then obtain s where s: "s \<in> {a, b}" "avoiding E {a, b} s x" using path_last [OF xs, of "{a, b}"] by (metis IntD2)
  then show ?thesis
  proof (cases "s = a")
    case True
    then have "avoiding E {b} a x" using avoiding_mono [OF s(2), of "{b}"] by simp
    then show ?thesis using dominator_back [OF assms(3)] by blast
  next
    case False
    then have "avoiding E {a} b x" using avoiding_mono [OF s(2), of "{a}"] s(1) by simp
    then show ?thesis using dominator_back [OF assms(2)] by blast
  qed
qed (simp add: dominator_self)

section \<open>Natural loops\<close>

definition back_edge :: "(nat \<Rightarrow> nat \<Rightarrow> bool) \<Rightarrow> nat \<Rightarrow> nat \<Rightarrow> nat \<Rightarrow> bool" where
  "back_edge E e h l = (reached_from E e l \<and> E l h \<and> dominator E e h l)"

definition natural_loop :: "(nat \<Rightarrow> nat \<Rightarrow> bool) \<Rightarrow> nat \<Rightarrow> nat \<Rightarrow> nat set" where
  "natural_loop E e h = insert h {b. b \<noteq> h \<and> reached_from E e b \<and> (\<exists>l. back_edge E e h l \<and> avoiding E {h} b l)}"

lemma header_in: "h \<in> natural_loop E e h"
  by (simp add: natural_loop_def)

lemma loop_dominated: "b \<in> natural_loop E e h \<Longrightarrow> dominator E e h b"
  using dominator_back dominator_self by (auto simp: natural_loop_def back_edge_def)

lemma loop_reached: "back_edge E e h l \<Longrightarrow> b \<in> natural_loop E e h \<Longrightarrow> reached_from E e b"
  by (auto simp: natural_loop_def back_edge_def intro: reached_step)

lemma loop_back_edge: "back_edge E e h l \<Longrightarrow> l \<in> natural_loop E e h"
  by (auto simp: natural_loop_def back_edge_def)

text \<open>Inside the part of the graph that \<open>h2\<close> dominates no node is \<open>h1\<close>, a strict dominator of \<open>h2\<close>.\<close>

lemma dominated_avoids:
  assumes "dominator E e h1 h2" "h1 \<noteq> h2" "reached_from E e h2" "dominator E e h2 y"
  shows "y \<noteq> h1"
  using dominator_antisym [OF assms(3)] assms by metis

lemma avoiding_dominated:
  assumes "avoiding E {h2} y x" "dominator E e h2 x" "dominator E e h1 h2" "h1 \<noteq> h2" "reached_from E e h2"
  shows "avoiding E {h1} y x"
  using assms(1,2)
proof (induction rule: rtranclp_induct)
  case (step u v)
  have "dominator E e h2 u" using dominator_back [OF step.prems] step.hyps(2) by (simp add: r_into_rtranclp)
  moreover have "v \<noteq> h1" using dominated_avoids [OF assms(3-5) step.prems] .
  ultimately show ?case using step.IH step.hyps(2) by (intro rtranclp.rtrancl_into_rtrancl [of _ y u v]) simp_all
qed simp

lemma loops_nested:
  assumes "back_edge E e h1 l1" "back_edge E e h2 l2" "x \<in> natural_loop E e h1" "x \<in> natural_loop E e h2"
    and "dominator E e h1 h2" "h1 \<noteq> h2"
  shows "natural_loop E e h2 \<subseteq> natural_loop E e h1"
proof
  fix y assume y: "y \<in> natural_loop E e h2"
  have r2: "reached_from E e h2" using assms(2) loop_reached [OF assms(2), of h2] by (simp add: natural_loop_def)
  note av = avoiding_dominated [OF _ _ assms(5,6) r2] and ne = dominated_avoids [OF assms(5,6) r2]
  have x: "x \<noteq> h1" "dominator E e h2 x" "reached_from E e x" using ne loop_dominated loop_reached assms(2,4) by blast+
  obtain l where l: "back_edge E e h1 l" "avoiding E {h1} x l" using assms(3) x(1) by (auto simp: natural_loop_def)
  have h2x: "avoiding E {h1} h2 x"
  proof -
    obtain xs where xs: "path_from E e xs x" using x(3) by (auto simp: reached_from_def)
    then have "set xs \<inter> {h2} \<noteq> {}" using x(2) by (auto simp: dominator_def)
    then have "avoiding E {h2} h2 x" using path_last [OF xs] by blast
    then show ?thesis using av x(2) by blast
  qed
  have yh2: "avoiding E {h1} y h2"
  proof (cases "y = h2")
    case False
    then obtain k where k: "back_edge E e h2 k" "avoiding E {h2} y k" using y by (auto simp: natural_loop_def)
    then have "avoiding E {h1} y k" using av by (auto simp: back_edge_def)
    moreover have "E k h2" "h2 \<noteq> h1" using k(1) assms(6) by (auto simp: back_edge_def)
    ultimately show ?thesis by (intro rtranclp.rtrancl_into_rtrancl [of _ y k h2]) simp_all
  qed simp
  have "avoiding E {h1} y l" using yh2 h2x l(2) by (meson rtranclp_trans)
  then show "y \<in> natural_loop E e h1"
    using l(1) ne [OF loop_dominated [OF y]] loop_reached [OF assms(2) y] by (auto simp: natural_loop_def)
qed

theorem loops_laminar:
  assumes "back_edge E e h1 l1" "back_edge E e h2 l2" "h1 \<noteq> h2"
  shows "natural_loop E e h1 \<inter> natural_loop E e h2 = {} \<or> natural_loop E e h1 \<subset> natural_loop E e h2 \<or> natural_loop E e h2 \<subset> natural_loop E e h1"
proof (cases "natural_loop E e h1 \<inter> natural_loop E e h2 = {}")
  case False
  then obtain x where x: "x \<in> natural_loop E e h1" "x \<in> natural_loop E e h2" by blast
  have r: "reached_from E e x" "reached_from E e h1" "reached_from E e h2"
    by (rule loop_reached [OF assms(1) x(1)] loop_reached [OF assms(1) header_in] loop_reached [OF assms(2) header_in])+
  have sub: "natural_loop E e h2 \<subseteq> natural_loop E e h1 \<or> natural_loop E e h1 \<subseteq> natural_loop E e h2"
  proof (cases "dominator E e h1 h2")
    case True
    show ?thesis using loops_nested [OF assms(1,2) x True assms(3)] by (rule disjI1)
  next
    case False
    then have "dominator E e h2 h1" using dominator_linear [OF r(1)] loop_dominated x by metis
    then show ?thesis by (intro disjI2 loops_nested [OF assms(2,1) x(2,1) _ assms(3) [symmetric]])
  qed
  have out: "h1 \<notin> natural_loop E e h2 \<or> h2 \<notin> natural_loop E e h1"
    using dominator_antisym [OF r(2)] loop_dominated assms(3) by metis
  then show ?thesis using sub header_in [of h1 E e] header_in [of h2 E e] by blast
qed simp

end
