(* ===== verification/Loop_Analysis.thy ===== *)
theory Loop_Analysis
  imports Dom_Result Natural_Loops
begin

text \<open>
  Natural loops (\<^verbatim>\<open>raana_ir/src/opt/analysis_passes/loop_analysis.rs\<close>): back edges, bodies by a backward walk, and the loop forest.
  A hash set is the list of its members in order of insertion; \<open>hash_order\<close> is the order in which a hash map is iterated, and
  it also stands for the freedom of \<open>sort_unstable\<close> among loops of the same size.
\<close>

section \<open>Model\<close>

record loop =
  loop_header :: basic_block
  loop_body :: "basic_block list"
  loop_latches :: "basic_block list"

definition loop_contains :: "loop \<Rightarrow> basic_block \<Rightarrow> bool" where
  "loop_contains self block = (block \<in> set (loop_body self))"

definition exactly_one :: "'a list \<Rightarrow> 'a option" where
  "exactly_one xs = (case xs of [x] \<Rightarrow> Some x | _ \<Rightarrow> None)"

definition get_preheader :: "loop \<Rightarrow> cfg \<Rightarrow> basic_block option rust" where
  "get_preheader self cfg = do {
     ps \<leftarrow> predecessors_of cfg (loop_header self);
     case exactly_one (filter (\<lambda>b. \<not> loop_contains self b) ps) of
       None \<Rightarrow> Some None
     | Some candidate \<Rightarrow> do {
         ss \<leftarrow> successors_of cfg candidate;
         Some (case exactly_one ss of None \<Rightarrow> None | Some _ \<Rightarrow> Some candidate) } }"

definition set_insert :: "'a list \<Rightarrow> 'a \<Rightarrow> 'a list" where
  "set_insert xs x = (if x \<in> set xs then xs else xs @ [x])"

definition collect_back_edges :: "cfg \<Rightarrow> dominance_tree \<Rightarrow> (basic_block \<times> basic_block list) list rust" where
  "collect_back_edges cfg dom_tree = do {
     es \<leftarrow> cfg_edges cfg;
     foldM (\<lambda>back (src, dst). do {
       d \<leftarrow> dominates dom_tree dst src;
       Some (if d then or_default_push back dst src else back) }) [] es }"

definition check_latch :: "cfg \<Rightarrow> dominance_tree \<Rightarrow> basic_block \<Rightarrow> basic_block \<Rightarrow> unit rust" where
  "check_latch cfg dom_tree header latch = do {
     ss \<leftarrow> successors_of cfg latch;
     rassert (header \<in> set ss);
     d \<leftarrow> dominates dom_tree header latch;
     rassert d }"

text \<open>The walk from the latches: a worklist and the body found so far.\<close>

definition visit_pred :: "dominance_tree \<Rightarrow> basic_block \<Rightarrow> basic_block list \<times> basic_block list \<Rightarrow> basic_block \<Rightarrow> (basic_block list \<times> basic_block list) rust" where
  "visit_pred dom_tree header = (\<lambda>(worklist, body) pred.
     if pred \<in> set body then Some (worklist, body) else do {
       d \<leftarrow> dominates dom_tree header pred;
       rassert d;
       Some (worklist @ [pred], body @ [pred]) })"

fun body_step :: "cfg \<Rightarrow> dominance_tree \<Rightarrow> basic_block \<Rightarrow> basic_block list \<times> basic_block list \<Rightarrow> (bool \<times> basic_block list \<times> basic_block list) rust" where
  "body_step cfg dom_tree header ([], body) = Some (False, [], body)"
| "body_step cfg dom_tree header (block # worklist, body) = do {
     ps \<leftarrow> predecessors_of cfg block;
     st \<leftarrow> foldM (visit_pred dom_tree header) (worklist, body) ps;
     Some (True, st) }"

partial_function (option) body_loop :: "cfg \<Rightarrow> dominance_tree \<Rightarrow> basic_block \<Rightarrow> basic_block list \<times> basic_block list \<Rightarrow> (basic_block list \<times> basic_block list) option" where
  "body_loop cfg dom_tree header st = do {
     (continue, st') \<leftarrow> body_step cfg dom_tree header st;
     if continue then body_loop cfg dom_tree header st' else Some st' }"

declare body_loop.simps [code]

definition all_dominated :: "dominance_tree \<Rightarrow> basic_block \<Rightarrow> basic_block list \<Rightarrow> unit rust" where
  "all_dominated dom_tree header bs = foldM (\<lambda>_ block. do { d \<leftarrow> dominates dom_tree header block; rassert d }) () bs"

definition build_loop :: "cfg \<Rightarrow> dominance_tree \<Rightarrow> basic_block \<times> basic_block list \<Rightarrow> loop rust" where
  "build_loop cfg dom_tree = (\<lambda>(header, latches). do {
     foldM (\<lambda>_ latch. check_latch cfg dom_tree header latch) () latches;
     let worklist = filter (\<lambda>block. block \<noteq> header) latches;
     let body0 = set_insert (foldl set_insert [] latches) header;
     (_, body) \<leftarrow> body_loop cfg dom_tree header (worklist, body0);
     rassert (header \<in> set body);
     rassert (\<forall>latch \<in> set latches. latch \<in> set body);
     all_dominated dom_tree header body;
     Some \<lparr>loop_header = header, loop_body = body, loop_latches = latches\<rparr> })"

definition laminar_pair :: "loop \<Rightarrow> loop \<Rightarrow> bool" where
  "laminar_pair lhs rhs = (let L = set (loop_body lhs); R = set (loop_body rhs) in
     (\<exists>b \<in> L. b \<in> R) \<longrightarrow> (L \<subseteq> R \<or> R \<subseteq> L) \<and> L \<noteq> R)"

fun assert_laminar :: "loop list \<Rightarrow> unit rust" where
  "assert_laminar [] = Some ()"
| "assert_laminar (lhs # rest) = do { rassert (\<forall>rhs \<in> set rest. laminar_pair lhs rhs); assert_laminar rest }"

section \<open>Reducibility\<close>

text \<open>Kahn's algorithm on the edges that are not back edges.\<close>

record kahn =
  indegrees :: index_map
  kahn_worklist :: "basic_block list"
  kahn_visited :: usize

definition count_indegree :: "dominance_tree \<Rightarrow> index_map \<Rightarrow> basic_block \<times> basic_block \<Rightarrow> index_map rust" where
  "count_indegree dom_tree degs = (\<lambda>(src, dst). do {
     d \<leftarrow> dominates dom_tree dst src;
     Some (if d then degs else (case map_of degs dst of None \<Rightarrow> degs | Some n \<Rightarrow> AList.update dst (n + 1) degs)) })"

definition kahn_successor :: "dominance_tree \<Rightarrow> basic_block \<Rightarrow> index_map \<times> basic_block list \<Rightarrow> basic_block \<Rightarrow> (index_map \<times> basic_block list) rust" where
  "kahn_successor dom_tree block = (\<lambda>(degs, worklist) successor. do {
     d \<leftarrow> dominates dom_tree successor block;
     if d then Some (degs, worklist) else do {
       degree \<leftarrow> map_of degs successor;
       degree' \<leftarrow> usize_sub degree 1;
       Some (AList.update successor degree' degs, if degree' = 0 then worklist @ [successor] else worklist) } })"

definition kahn_step :: "cfg \<Rightarrow> dominance_tree \<Rightarrow> kahn \<Rightarrow> (bool \<times> kahn) rust" where
  "kahn_step cfg dom_tree st = (case kahn_worklist st of
      [] \<Rightarrow> Some (False, st)
    | block # rest \<Rightarrow> do {
        ss \<leftarrow> successors_of cfg block;
        (degs, worklist) \<leftarrow> foldM (kahn_successor dom_tree block) (indegrees st, rest) ss;
        Some (True, \<lparr>indegrees = degs, kahn_worklist = worklist, kahn_visited = kahn_visited st + 1\<rparr>) })"

partial_function (option) kahn_loop :: "cfg \<Rightarrow> dominance_tree \<Rightarrow> kahn \<Rightarrow> kahn option" where
  "kahn_loop cfg dom_tree st = do {
     (continue, st') \<leftarrow> kahn_step cfg dom_tree st;
     if continue then kahn_loop cfg dom_tree st' else Some st' }"

declare kahn_loop.simps [code]

definition assert_reducible :: "(basic_block list \<Rightarrow> basic_block list) \<Rightarrow> cfg \<Rightarrow> dominance_tree \<Rightarrow> unit rust" where
  "assert_reducible hash_order cfg dom_tree = do {
     rassert (cfg_entry cfg = dom_entry dom_tree);
     rassert (\<forall>block \<in> set (reverse_postorder cfg). dom_contains dom_tree block);
     let degs0 = fold (\<lambda>block. AList.update block 0) (reverse_postorder cfg) [];
     es \<leftarrow> cfg_edges cfg;
     degs \<leftarrow> foldM (count_indegree dom_tree) degs0 es;
     let worklist = filter (\<lambda>block. map_of degs block = Some 0) (hash_order (map fst degs));
     st \<leftarrow> kahn_loop cfg dom_tree \<lparr>indegrees = degs, kahn_worklist = worklist, kahn_visited = 0\<rparr>;
     rassert (kahn_visited st = block_count cfg) }"

section \<open>The loop forest\<close>

record loop_analysis =
  loops :: "loop list"
  direct_parent :: "usize list"
  loop_index :: index_map
  block_to_inner_loop :: index_map

definition parent_of :: "loop list \<Rightarrow> usize \<Rightarrow> usize" where
  "parent_of ls i = (case List.find (\<lambda>j. loop_contains (ls ! j) (loop_header (ls ! i))) [i + 1..<length ls] of Some j \<Rightarrow> j | None \<Rightarrow> i)"

definition or_insert :: "usize \<Rightarrow> basic_block \<Rightarrow> index_map \<Rightarrow> index_map" where
  "or_insert i bb m = (case map_of m bb of None \<Rightarrow> AList.update bb i m | Some _ \<Rightarrow> m)"

definition inner_loops :: "loop list \<Rightarrow> index_map" where
  "inner_loops ls = fold (\<lambda>(i, l). fold (or_insert i) (loop_body l)) (List.enumerate 0 ls) []"

definition verify_loop :: "loop_analysis \<Rightarrow> cfg \<Rightarrow> dominance_tree \<Rightarrow> usize \<times> loop \<Rightarrow> unit rust" where
  "verify_loop self cfg dom_tree = (\<lambda>(index, l). do {
     rassert (map_of (loop_index self) (loop_header l) = Some index);
     rassert (loop_header l \<in> set (loop_body l));
     rassert (loop_latches l \<noteq> []);
     foldM (\<lambda>_ latch. do {
       rassert (latch \<in> set (loop_body l));
       ss \<leftarrow> successors_of cfg latch;
       rassert (loop_header l \<in> set ss) }) () (loop_latches l);
     all_dominated dom_tree (loop_header l) (loop_body l);
     parent \<leftarrow> vec_get (direct_parent self) index;
     if parent = index then
       rassert (\<forall>(other, candidate) \<in> set (List.enumerate 0 (loops self)). other = index \<or> \<not> set (loop_body l) \<subseteq> set (loop_body candidate))
     else do {
       rassert (parent < length (loops self));
       parent_loop \<leftarrow> vec_get (loops self) parent;
       rassert (length (loop_body l) < length (loop_body parent_loop));
       rassert (set (loop_body l) \<subseteq> set (loop_body parent_loop));
       rassert (\<forall>(candidate_index, candidate) \<in> set (List.enumerate 0 (loops self)). candidate_index = index \<or> candidate_index = parent \<or>
         \<not> set (loop_body l) \<subseteq> set (loop_body candidate) \<or> length (loop_body parent_loop) \<le> length (loop_body candidate)) } })"

definition verify_inner :: "loop_analysis \<Rightarrow> basic_block \<times> usize \<Rightarrow> unit rust" where
  "verify_inner self = (\<lambda>(block, index). do {
     rassert (index < length (loops self));
     l \<leftarrow> vec_get (loops self) index;
     rassert (loop_contains l block);
     rassert (\<forall>(other, candidate) \<in> set (List.enumerate 0 (loops self)).
       \<not> loop_contains candidate block \<or> length (loop_body l) \<le> length (loop_body candidate) \<or> other = index) })"

definition verify_loops :: "loop_analysis \<Rightarrow> cfg \<Rightarrow> dominance_tree \<Rightarrow> unit rust" where
  "verify_loops self cfg dom_tree = do {
     rassert (length (direct_parent self) = length (loops self));
     rassert (length (loop_index self) = length (loops self));
     foldM (\<lambda>_ il. verify_loop self cfg dom_tree il) () (List.enumerate 0 (loops self));
     foldM (\<lambda>_ bi. verify_inner self bi) () (block_to_inner_loop self) }"

definition loops_from_cfg :: "(basic_block list \<Rightarrow> basic_block list) \<Rightarrow> cfg \<Rightarrow> (dominance_tree \<times> loop_analysis) rust" where
  "loops_from_cfg hash_order cfg = do {
     dom_tree \<leftarrow> from_cfg cfg;
     back_edges \<leftarrow> collect_back_edges cfg dom_tree;
     assert_reducible hash_order cfg dom_tree;
     ls \<leftarrow> foldM (\<lambda>acc header. do {
         latches \<leftarrow> map_of back_edges header;
         l \<leftarrow> build_loop cfg dom_tree (header, latches);
         Some (acc @ [l]) }) [] (hash_order (map fst back_edges));
     let ls = sort_key (\<lambda>l. length (loop_body l)) ls;
     assert_laminar ls;
     let index = fold (\<lambda>(i, l). AList.update (loop_header l) i) (List.enumerate 0 ls) [];
     rassert (length index = length ls);
     let analysis = \<lparr>loops = ls, direct_parent = map (parent_of ls) [0..<length ls], loop_index = index, block_to_inner_loop = inner_loops ls\<rparr>;
     verify_loops analysis cfg dom_tree;
     Some (dom_tree, analysis) }"

definition loop_analysis_new :: "(basic_block list \<Rightarrow> basic_block list) \<Rightarrow> layout \<Rightarrow> (cfg \<times> dominance_tree \<times> loop_analysis) rust" where
  "loop_analysis_new hash_order data = do {
     c \<leftarrow> cfg_new hash_order data;
     cfg \<leftarrow> c;
     (dom_tree, analysis) \<leftarrow> loops_from_cfg hash_order cfg;
     Some (cfg, dom_tree, analysis) }"

section \<open>Queries\<close>

definition min_loop_contain_index :: "loop_analysis \<Rightarrow> basic_block \<Rightarrow> usize option" where
  "min_loop_contain_index self block = map_of (block_to_inner_loop self) block"

definition min_loop_contain :: "loop_analysis \<Rightarrow> basic_block \<Rightarrow> loop option rust" where
  "min_loop_contain self block = (case min_loop_contain_index self block of
      None \<Rightarrow> Some None | Some index \<Rightarrow> do { l \<leftarrow> vec_get (loops self) index; Some (Some l) })"

definition get_loop_index :: "loop_analysis \<Rightarrow> basic_block \<Rightarrow> usize option" where
  "get_loop_index self header = map_of (loop_index self) header"

definition parent_loop_index :: "loop_analysis \<Rightarrow> usize \<Rightarrow> usize option rust" where
  "parent_loop_index self index = do {
     parent \<leftarrow> vec_get (direct_parent self) index;
     Some (if parent \<noteq> index then Some parent else None) }"

definition parent_loop :: "loop_analysis \<Rightarrow> usize \<Rightarrow> loop option rust" where
  "parent_loop self index = do {
     p \<leftarrow> parent_loop_index self index;
     case p of None \<Rightarrow> Some None | Some up \<Rightarrow> do { l \<leftarrow> vec_get (loops self) up; Some (Some l) } }"

text \<open>\<open>std::iter::successors\<close>, collected.\<close>

partial_function (option) successors_from :: "loop_analysis \<Rightarrow> usize \<Rightarrow> usize list option" where
  "successors_from self index = do {
     p \<leftarrow> parent_loop_index self index;
     case p of None \<Rightarrow> Some [index] | Some up \<Rightarrow> do { rest \<leftarrow> successors_from self up; Some (index # rest) } }"

declare successors_from.simps [code]

definition containing_loop_indices :: "loop_analysis \<Rightarrow> basic_block \<Rightarrow> usize list rust" where
  "containing_loop_indices self block = (case min_loop_contain_index self block of None \<Rightarrow> Some [] | Some index \<Rightarrow> successors_from self index)"

definition containing_loops :: "loop_analysis \<Rightarrow> basic_block \<Rightarrow> loop list rust" where
  "containing_loops self block = do {
     indices \<leftarrow> containing_loop_indices self block;
     foldM (\<lambda>acc index. do { l \<leftarrow> vec_get (loops self) index; Some (acc @ [l]) }) [] indices }"

section \<open>What the analysis relies on\<close>

text \<open>The contract of the control flow graph and of the dominator tree.\<close>

locale loop_graph =
  fixes E :: "nat \<Rightarrow> nat \<Rightarrow> bool" and e :: nat and c :: cfg and t :: dominance_tree
  assumes rpo_distinct: "distinct (reverse_postorder c)"
    and rpo_set: "set (reverse_postorder c) = {b. reached_from E e b}"
    and succ_ok: "reached_from E e b \<Longrightarrow> \<exists>ss. successors_of c b = Some ss \<and> distinct ss \<and> set ss = {s. E b s}"
    and pred_ok: "reached_from E e b \<Longrightarrow> \<exists>ps. predecessors_of c b = Some ps \<and> distinct ps \<and> set ps = {a. reached_from E e a \<and> E a b}"
    and dom_ok: "reached_from E e a \<Longrightarrow> reached_from E e b \<Longrightarrow> dominates t a b = Some (dominator E e a b)"
    and tree_blocks: "reached_from E e b \<Longrightarrow> dom_contains t b"
    and entries: "dom_entry t = cfg_entry c"
begin

lemma finite_blocks: "finite {b. reached_from E e b}" "card {b. reached_from E e b} = block_count c"
  using rpo_set rpo_distinct distinct_card by (metis List.finite_set, metis block_count_def)

definition edge_list :: "(nat \<times> nat) list" where
  "edge_list = concat (map (\<lambda>a. map (Pair a) (the (successors_of c a))) (reverse_postorder c))"

lemma edges_result: "cfg_edges c = Some edge_list" "distinct edge_list" "set edge_list = {(a, b). reached_from E e a \<and> E a b}"
proof -
  have gen: "foldM (\<lambda>acc src. do { ss \<leftarrow> successors_of c src; Some (acc @ map (Pair src) ss) }) acc bs =
      Some (acc @ concat (map (\<lambda>a. map (Pair a) (the (successors_of c a))) bs))" if "\<forall>b \<in> set bs. reached_from E e b" for acc bs
    using that
  proof (induction bs arbitrary: acc)
    case (Cons b bs)
    obtain ss where "successors_of c b = Some ss" using succ_ok [of b] Cons.prems by auto
    then show ?case using Cons by (simp del: bind_eq_Some)
  qed simp
  show "cfg_edges c = Some edge_list" using gen [of "reverse_postorder c" "[]"] rpo_set by (simp add: cfg_edges_def edge_list_def)
  have "set edge_list = (\<Union>a \<in> {b. reached_from E e b}. Pair a ` set (the (successors_of c a)))"
    using rpo_set by (simp add: edge_list_def)
  moreover have "set (the (successors_of c a)) = {s. E a s}" "distinct (the (successors_of c a))" if "reached_from E e a" for a
    using succ_ok [OF that] by auto
  ultimately show "set edge_list = {(a, b). reached_from E e a \<and> E a b}" by auto
  have "distinct (concat (map (\<lambda>a. map (Pair a) (the (successors_of c a))) bs))" if "distinct bs" "\<forall>b \<in> set bs. reached_from E e b" for bs
    using that
  proof (induction bs)
    case (Cons b bs)
    have "distinct (the (successors_of c b))" using succ_ok [of b] Cons.prems(2) by auto
    then have "distinct (map (Pair b) (the (successors_of c b)))" by (simp add: distinct_map inj_on_def)
    then show ?case using Cons by auto
  qed simp
  then show "distinct edge_list" using rpo_distinct rpo_set by (simp add: edge_list_def)
qed

section \<open>Back edges\<close>

definition back_sources :: "(nat \<times> nat) list \<Rightarrow> nat \<Rightarrow> nat list" where
  "back_sources es h = map fst (filter (\<lambda>(a, b). b = h \<and> dominator E e b a) es)"

lemma collect_fold:
  assumes "set es \<subseteq> {(a, b). reached_from E e a \<and> E a b}" "distinct (map fst bk)"
    and "\<forall>h. map_of bk h = (if back_sources seen h = [] then None else Some (back_sources seen h))"
  shows "\<exists>bk'. foldM (\<lambda>bk (src, dst). do { d \<leftarrow> dominates t dst src; Some (if d then or_default_push bk dst src else bk) }) bk es = Some bk' \<and>
    distinct (map fst bk') \<and> (\<forall>h. map_of bk' h = (if back_sources (seen @ es) h = [] then None else Some (back_sources (seen @ es) h)))"
  using assms
proof (induction es arbitrary: bk seen)
  case (Cons ab es)
  obtain a b where ab: "ab = (a, b)" by (cases ab)
  have r: "reached_from E e a" "reached_from E e b" using Cons.prems(1) ab reached_step by auto
  let ?bk = "if dominator E e b a then or_default_push bk b a else bk"
  have keys: "distinct (map fst ?bk)" using Cons.prems(2) by (simp add: or_default_push_def distinct_update)
  have "map_of ?bk h = (if back_sources (seen @ [ab]) h = [] then None else Some (back_sources (seen @ [ab]) h))" for h
    using Cons.prems(3) ab by (auto simp: or_default_push_def update_conv' back_sources_def)
  then obtain bk' where "foldM (\<lambda>bk (src, dst). do { d \<leftarrow> dominates t dst src; Some (if d then or_default_push bk dst src else bk) }) ?bk es = Some bk'"
      "distinct (map fst bk')" "\<forall>h. map_of bk' h = (if back_sources ((seen @ [ab]) @ es) h = [] then None else Some (back_sources ((seen @ [ab]) @ es) h))"
    using Cons.IH [of ?bk "seen @ [ab]"] Cons.prems(1) keys by auto
  then show ?case using ab dom_ok [OF r(2,1)] by (simp del: bind_eq_Some)
qed simp

lemma collect_result:
  "\<exists>bk. collect_back_edges c t = Some bk \<and> distinct (map fst bk) \<and>
    (\<forall>h. (\<exists>l. back_edge E e h l) \<longrightarrow> (\<exists>ls. map_of bk h = Some ls \<and> set ls = {l. back_edge E e h l})) \<and>
    (\<forall>h \<in> set (map fst bk). \<exists>l. back_edge E e h l)"
proof -
  obtain bk where bk: "collect_back_edges c t = Some bk" "distinct (map fst bk)"
      "\<forall>h. map_of bk h = (if back_sources edge_list h = [] then None else Some (back_sources edge_list h))"
    using collect_fold [of edge_list "[]" "[]"] edges_result by (auto simp: collect_back_edges_def back_sources_def)
  have set: "set (back_sources edge_list h) = {l. back_edge E e h l}" for h
    using edges_result(3) by (force simp: back_sources_def back_edge_def)
  have "\<exists>ls. map_of bk h = Some ls \<and> set ls = {l. back_edge E e h l}" if "\<exists>l. back_edge E e h l" for h
  proof -
    have "back_sources edge_list h \<noteq> []" using set [of h] that by auto
    then show ?thesis using bk(3) set by simp
  qed
  moreover have "\<exists>l. back_edge E e h l" if "h \<in> set (map fst bk)" for h
  proof -
    have "map_of bk h \<noteq> None" using that by (simp add: map_of_eq_None_iff)
    then have "back_sources edge_list h \<noteq> []" using bk(3) by (auto split: if_splits)
    then show ?thesis using set [of h] by (cases "back_sources edge_list h") auto
  qed
  ultimately show ?thesis using bk(1,2) by blast
qed

end

section \<open>The body of a loop\<close>

lemma set_insert_set [simp]: "set (set_insert xs x) = insert x (set xs)" "distinct xs \<Longrightarrow> distinct (set_insert xs x)"
  by (auto simp: set_insert_def)

lemma foldl_set_insert [simp]: "set (foldl set_insert acc xs) = set acc \<union> set xs"
  by (induction xs arbitrary: acc) auto

lemma foldl_set_insert_distinct: "distinct acc \<Longrightarrow> distinct (foldl set_insert acc xs)"
  by (induction xs arbitrary: acc) auto

context loop_graph
begin

definition body_inv :: "nat \<Rightarrow> nat list \<times> nat list \<Rightarrow> bool" where
  "body_inv h = (\<lambda>(wl, body). (\<exists>l. back_edge E e h l) \<and> distinct body \<and> set body \<subseteq> natural_loop E e h \<and> h \<in> set body \<and>
     {l. back_edge E e h l} \<subseteq> set body \<and> set wl \<subseteq> set body - {h} \<and>
     (\<forall>b \<in> set body - {h} - set wl. \<forall>a. reached_from E e a \<and> E a b \<longrightarrow> a \<in> set body))"

definition body_weight :: "nat list \<times> nat list \<Rightarrow> nat" where
  "body_weight = (\<lambda>(wl, body). 2 * (block_count c - length body) + length wl)"

lemma body_invD:
  assumes "body_inv h (wl, body)"
  shows "\<exists>l. back_edge E e h l" "distinct body" "set body \<subseteq> natural_loop E e h" "h \<in> set body" "{l. back_edge E e h l} \<subseteq> set body"
    "set wl \<subseteq> set body - {h}" "\<And>b a. b \<in> set body \<Longrightarrow> b \<noteq> h \<Longrightarrow> b \<notin> set wl \<Longrightarrow> reached_from E e a \<Longrightarrow> E a b \<Longrightarrow> a \<in> set body"
  using assms unfolding body_inv_def prod.case by blast+

lemma body_invI:
  assumes "back_edge E e h l" "distinct body" "set body \<subseteq> natural_loop E e h" "h \<in> set body" "{l. back_edge E e h l} \<subseteq> set body"
    "set wl \<subseteq> set body - {h}" "\<And>b a. b \<in> set body \<Longrightarrow> b \<noteq> h \<Longrightarrow> b \<notin> set wl \<Longrightarrow> reached_from E e a \<Longrightarrow> E a b \<Longrightarrow> a \<in> set body"
  shows "body_inv h (wl, body)"
  using assms unfolding body_inv_def prod.case by blast

lemma body_bound: "body_inv h (wl, body) \<Longrightarrow> length body \<le> block_count c"
proof -
  assume i: "body_inv h (wl, body)"
  obtain l where "back_edge E e h l" using body_invD(1) [OF i] by blast
  then have "set body \<subseteq> {b. reached_from E e b}" "distinct body" using loop_reached body_invD(2,3) [OF i] by blast+
  then show ?thesis using card_mono [OF finite_blocks(1)] finite_blocks(2) distinct_card by metis
qed

lemma loop_pred:
  assumes "b \<in> natural_loop E e h" "b \<noteq> h" "reached_from E e a" "E a b"
  shows "a \<in> natural_loop E e h"
proof -
  obtain l where l: "back_edge E e h l" "avoiding E {h} b l" using assms(1,2) by (auto simp: natural_loop_def)
  have "avoiding E {h} a l" using l(2) assms(2,4) by (intro converse_rtranclp_into_rtranclp [of _ a b l]) simp_all
  then show ?thesis using l(1) assms(3) unfolding natural_loop_def by blast
qed

text \<open>Visiting the predecessors of a block that has been taken from the worklist.\<close>

lemma visit_preds:
  assumes "set ps \<subseteq> natural_loop E e h" "\<exists>l. back_edge E e h l" "distinct body" "set body \<subseteq> natural_loop E e h" "h \<in> set body"
  shows "\<exists>new. foldM (visit_pred t h) (wl, body) ps = Some (wl @ new, body @ new) \<and> distinct (body @ new) \<and>
    set (body @ new) = set body \<union> set ps"
  using assms
proof (induction ps arbitrary: wl body)
  case Nil
  then show ?case by simp
next
  case (Cons p ps)
  obtain l where l: "back_edge E e h l" using Cons.prems(2) by blast
  show ?case
  proof (cases "p \<in> set body")
    case True
    have "\<exists>new. foldM (visit_pred t h) (wl, body) ps = Some (wl @ new, body @ new) \<and> distinct (body @ new) \<and> set (body @ new) = set body \<union> set ps"
      by (rule Cons.IH) (use Cons.prems in auto)
    moreover have "foldM (visit_pred t h) (wl, body) (p # ps) = foldM (visit_pred t h) (wl, body) ps" using True by (simp add: visit_pred_def)
    ultimately show ?thesis using True by auto
  next
    case False
    have r: "reached_from E e h" "reached_from E e p" using loop_reached [OF l] header_in Cons.prems(1) by auto
    have "dominator E e h p" using loop_dominated Cons.prems(1) by auto
    then have "visit_pred t h (wl, body) p = Some (wl @ [p], body @ [p])" using False dom_ok [OF r] by (simp add: visit_pred_def rassert_def)
    moreover have "\<exists>new. foldM (visit_pred t h) (wl @ [p], body @ [p]) ps = Some ((wl @ [p]) @ new, (body @ [p]) @ new) \<and>
        distinct ((body @ [p]) @ new) \<and> set ((body @ [p]) @ new) = set (body @ [p]) \<union> set ps"
      by (rule Cons.IH) (use Cons.prems False in auto)
    then obtain new where "foldM (visit_pred t h) (wl @ [p], body @ [p]) ps = Some ((wl @ [p]) @ new, (body @ [p]) @ new)"
        "distinct ((body @ [p]) @ new)" "set ((body @ [p]) @ new) = set (body @ [p]) \<union> set ps" by blast
    ultimately show ?thesis by (intro exI [of _ "p # new"]) (simp del: bind_eq_Some)
  qed
qed

lemma body_step_ok:
  assumes "body_inv h st"
  shows "\<exists>k st'. body_step c t h st = Some (k, st') \<and> body_inv h st' \<and> (k \<longrightarrow> body_weight st' < body_weight st)"
proof -
  obtain wl body where st: "st = (wl, body)" by (cases st)
  note I = body_invD [OF assms [unfolded st]]
  show ?thesis
  proof (cases wl)
    case Nil
    then show ?thesis using assms st by auto
  next
    case (Cons b rest)
    have b: "b \<in> natural_loop E e h" "b \<noteq> h" using I(3,6) Cons by auto
    then have "reached_from E e b" using loop_reached I(1) by blast
    then obtain ps where ps: "predecessors_of c b = Some ps" "set ps = {a. reached_from E e a \<and> E a b}" using pred_ok by blast
    have sub: "set ps \<subseteq> natural_loop E e h" using loop_pred [OF b] ps(2) by blast
    obtain new where new: "foldM (visit_pred t h) (rest, body) ps = Some (rest @ new, body @ new)" "distinct (body @ new)"
        "set (body @ new) = set body \<union> set ps"
      using visit_preds [OF sub I(1-4)] by blast
    obtain l where l: "back_edge E e h l" using I(1) by blast
    have inv: "body_inv h (rest @ new, body @ new)"
    proof (rule body_invI [OF l new(2)])
      show "set (rest @ new) \<subseteq> set (body @ new) - {h}" using I(4,6) Cons new(2) by auto
      show "set (body @ new) \<subseteq> natural_loop E e h" using new(3) I(3) sub by blast
      show "h \<in> set (body @ new)" "{l. back_edge E e h l} \<subseteq> set (body @ new)" using I(4,5) by auto
      show "a \<in> set (body @ new)" if x: "x \<in> set (body @ new)" "x \<noteq> h" "x \<notin> set (rest @ new)" "reached_from E e a" "E a x" for x a
      proof (cases "x = b")
        case True
        then show ?thesis using x ps(2) new(3) by blast
      next
        case False
        then have "x \<in> set body" "x \<notin> set wl" using x(1,3) Cons by auto
        then have "a \<in> set body" using I(7) x(2,4,5) by blast
        then show ?thesis by simp
      qed
    qed
    have "length (body @ new) \<le> block_count c" using body_bound [OF inv] .
    then have "body_weight (rest @ new, body @ new) < body_weight st" using st Cons by (simp add: body_weight_def)
    moreover have "body_step c t h st = Some (True, rest @ new, body @ new)" using st Cons ps(1) new(1) by (simp del: bind_eq_Some)
    ultimately show ?thesis using inv by blast
  qed
qed

lemma body_progress: "progress_loop (body_step c t h) (body_loop c t h) (body_inv h) (\<lambda>_. body_inv h) body_weight"
proof
  show "body_loop c t h s = Option.bind (body_step c t h s) (\<lambda>(k, s'). if k then body_loop c t h s' else Some s')" for s
    by (rule body_loop.simps)
qed (use body_step_ok in auto)

lemma body_loop_ok:
  assumes "body_inv h st"
  shows "\<exists>wl body. body_loop c t h st = Some (wl, body) \<and> distinct body \<and> set body = natural_loop E e h"
proof -
  obtain st' st0 where s: "body_loop c t h st = Some st'" "body_inv h st'" "body_step c t h st0 = Some (False, st')"
    using progress_loop.loop_stops [OF body_progress assms] by blast
  obtain body where st': "st' = ([], body)" using s(3) by (cases st0; cases "fst st0") auto
  note J = body_invD [OF s(2) [unfolded st']]
  have I: "distinct body" "set body \<subseteq> natural_loop E e h" "h \<in> set body" "{l. back_edge E e h l} \<subseteq> set body"
    "\<And>b a. b \<in> set body \<Longrightarrow> b \<noteq> h \<Longrightarrow> reached_from E e a \<Longrightarrow> E a b \<Longrightarrow> a \<in> set body"
    using J(2-5,7) by auto
  have walk: "b \<in> set body" if "avoiding E {h} b l" "reached_from E e b" "back_edge E e h l" for b l
    using that
  proof (induction rule: converse_rtranclp_induct)
    case base
    then show ?case using I(4) by blast
  next
    case (step y z)
    then have "z \<in> set body" using reached_step by blast
    then show ?case using I(5) [of z y] step by blast
  qed
  then have "natural_loop E e h \<subseteq> set body" using I(3) unfolding natural_loop_def by blast
  then show ?thesis using s(1) st' I(1,2) by blast
qed

lemma all_dominated_ok: "(\<And>b. b \<in> set bs \<Longrightarrow> dominates t h b = Some True) \<Longrightarrow> all_dominated t h bs = Some ()"
  unfolding all_dominated_def by (intro foldM_unit) (auto simp: rassert_def)

lemma build_loop_ok:
  assumes "set ls = {l. back_edge E e h l}" "ls \<noteq> []"
  shows "\<exists>body. build_loop c t (h, ls) = Some \<lparr>loop_header = h, loop_body = body, loop_latches = ls\<rparr> \<and> distinct body \<and> set body = natural_loop E e h"
proof -
  obtain l where l: "back_edge E e h l" using assms by (cases ls) auto
  let ?st = "(filter (\<lambda>block. block \<noteq> h) ls, set_insert (foldl set_insert [] ls) h)"
  have "body_inv h ?st"
  proof (rule body_invI [OF l])
    show "set (set_insert (foldl set_insert [] ls) h) \<subseteq> natural_loop E e h" using assms(1) loop_back_edge header_in by auto
  qed (use assms(1) foldl_set_insert_distinct [of "[]" ls] in auto)
  then obtain wl body where body: "body_loop c t h ?st = Some (wl, body)" "distinct body" "set body = natural_loop E e h"
    using body_loop_ok by blast
  have dominated: "dominates t h b = Some True" if "b \<in> natural_loop E e h" for b
    using dom_ok [OF loop_reached [OF l header_in] loop_reached [OF l that]] loop_dominated [OF that] by simp
  have "check_latch c t h k = Some ()" if "k \<in> set ls" for k
  proof -
    have k: "back_edge E e h k" using that assms(1) by blast
    then obtain ss where "successors_of c k = Some ss" "h \<in> set ss" using succ_ok [of k] by (auto simp: back_edge_def)
    then show ?thesis using dominated [OF loop_back_edge [OF k]] by (simp add: check_latch_def rassert_def)
  qed
  then have "foldM (\<lambda>_ latch. check_latch c t h latch) () ls = Some ()" by (intro foldM_unit) blast
  moreover have "all_dominated t h body = Some ()" using all_dominated_ok dominated body(3) by blast
  moreover have "h \<in> set body" "\<forall>k \<in> set ls. k \<in> set body" using body(3) header_in loop_back_edge assms(1) by auto
  ultimately have "build_loop c t (h, ls) = Some \<lparr>loop_header = h, loop_body = body, loop_latches = ls\<rparr>"
    using body(1) by (simp add: build_loop_def Let_def rassert_def del: bind_eq_Some)
  then show ?thesis using body(2,3) by blast
qed

end

section \<open>The check of reducibility\<close>

definition forward_edge :: "(nat \<Rightarrow> nat \<Rightarrow> bool) \<Rightarrow> nat \<Rightarrow> nat \<Rightarrow> nat \<Rightarrow> bool" where
  "forward_edge E e a b = (reached_from E e a \<and> E a b \<and> \<not> dominator E e b a)"

text \<open>Without its back edges a reducible graph has no cycle.\<close>

definition reducible :: "(nat \<Rightarrow> nat \<Rightarrow> bool) \<Rightarrow> nat \<Rightarrow> bool" where
  "reducible E e = (\<nexists>a. (forward_edge E e)\<^sup>+\<^sup>+ a a)"

context loop_graph
begin

definition pending :: "nat set \<Rightarrow> nat \<Rightarrow> nat set" where
  "pending P x = {a. forward_edge E e a x \<and> a \<notin> P}"

lemma finite_pending: "finite (pending P x)"
  by (rule finite_subset [OF _ finite_blocks(1)]) (auto simp: pending_def forward_edge_def)

lemma count_fold:
  assumes "set es \<subseteq> {(a, b). reached_from E e a \<and> E a b}"
    and "\<forall>x. reached_from E e x \<longrightarrow> map_of degs x = Some (length (filter (\<lambda>(a, b). b = x \<and> \<not> dominator E e b a) seen))"
    and "map fst degs = reverse_postorder c"
  shows "\<exists>degs'. foldM (count_indegree t) degs es = Some degs' \<and> map fst degs' = reverse_postorder c \<and>
    (\<forall>x. reached_from E e x \<longrightarrow> map_of degs' x = Some (length (filter (\<lambda>(a, b). b = x \<and> \<not> dominator E e b a) (seen @ es))))"
  using assms
proof (induction es arbitrary: degs seen)
  case (Cons ab es)
  obtain a b where ab: "ab = (a, b)" by (cases ab)
  have r: "reached_from E e a" "reached_from E e b" using Cons.prems(1) ab reached_step by auto
  obtain n where n: "map_of degs b = Some n" using Cons.prems(2) r(2) by blast
  let ?degs = "if dominator E e b a then degs else AList.update b (n + 1) degs"
  have "b \<in> set (map fst degs)" using n by (metis map_of_SomeD fst_conv imageI list.set_map)
  then have keys: "map fst ?degs = reverse_postorder c" using Cons.prems(3) by (simp add: update_keys)
  have "\<forall>x. reached_from E e x \<longrightarrow> map_of ?degs x = Some (length (filter (\<lambda>(a, b). b = x \<and> \<not> dominator E e b a) (seen @ [ab])))"
    using Cons.prems(2) ab n r(2) by (auto simp: update_conv')
  then obtain degs' where "foldM (count_indegree t) ?degs es = Some degs'" "map fst degs' = reverse_postorder c"
      "\<forall>x. reached_from E e x \<longrightarrow> map_of degs' x = Some (length (filter (\<lambda>(a, b). b = x \<and> \<not> dominator E e b a) ((seen @ [ab]) @ es)))"
    using Cons.IH [OF _ _ keys, of "seen @ [ab]"] Cons.prems(1) by auto
  moreover have "count_indegree t degs ab = Some ?degs"
    using ab n dom_ok [OF r(2,1)] by (simp add: count_indegree_def del: bind_eq_Some map_of_eq_Some_iff)
  ultimately show ?case by (simp del: bind_eq_Some map_of_eq_Some_iff)
qed auto

lemma count_pending: "length (filter (\<lambda>(a, b). b = x \<and> \<not> dominator E e b a) edge_list) = card (pending {} x)"
proof -
  have "card (pending {} x) = card ((\<lambda>a. (a, x)) ` pending {} x)" by (rule card_image [symmetric]) (simp add: inj_on_def)
  also have "(\<lambda>a. (a, x)) ` pending {} x = set (filter (\<lambda>(a, b). b = x \<and> \<not> dominator E e b a) edge_list)"
    using edges_result(3) by (auto simp: pending_def forward_edge_def)
  also have "card \<dots> = length (filter (\<lambda>(a, b). b = x \<and> \<not> dominator E e b a) edge_list)"
    using distinct_card [OF distinct_filter [OF edges_result(2)]] by simp
  finally show ?thesis by simp
qed

lemma kahn_successors:
  assumes "\<forall>x. reached_from E e x \<longrightarrow> map_of degs x = Some (n x)" "reached_from E e b" "distinct ss"
    and "\<forall>s \<in> set ss. reached_from E e s \<and> (\<not> dominator E e s b \<longrightarrow> 0 < n s)"
  shows "\<exists>degs'. foldM (kahn_successor t b) (degs, wl) ss = Some (degs', wl @ filter (\<lambda>s. \<not> dominator E e s b \<and> n s = 1) ss) \<and>
    (\<forall>x. reached_from E e x \<longrightarrow> map_of degs' x = Some (if x \<in> set ss \<and> \<not> dominator E e x b then n x - 1 else n x))"
  using assms
proof (induction ss arbitrary: degs wl n)
  case Nil
  then show ?case by simp
next
  case (Cons s ss)
  have s: "reached_from E e s" using Cons.prems(4) by simp
  have d: "dominates t s b = Some (dominator E e s b)" using dom_ok [OF s Cons.prems(2)] .
  show ?case
  proof (cases "dominator E e s b")
    case True
    then have "kahn_successor t b (degs, wl) s = Some (degs, wl)" using d by (simp add: kahn_successor_def)
    moreover obtain degs' where "foldM (kahn_successor t b) (degs, wl) ss = Some (degs', wl @ filter (\<lambda>s. \<not> dominator E e s b \<and> n s = 1) ss)"
        "\<forall>x. reached_from E e x \<longrightarrow> map_of degs' x = Some (if x \<in> set ss \<and> \<not> dominator E e x b then n x - 1 else n x)"
      using Cons.IH [OF Cons.prems(1,2), of wl] Cons.prems(3,4) by auto
    ultimately show ?thesis using True by (auto simp del: bind_eq_Some map_of_eq_Some_iff)
  next
    case False
    let ?n = "n(s := n s - 1)" and ?degs = "AList.update s (n s - 1) degs" and ?wl = "if n s - 1 = 0 then wl @ [s] else wl"
    have pos: "0 < n s" using Cons.prems(4) False by simp
    have st: "kahn_successor t b (degs, wl) s = Some (?degs, ?wl)"
      using False d Cons.prems(1) s pos by (simp add: kahn_successor_def usize_sub_def del: bind_eq_Some map_of_eq_Some_iff)
    have fresh: "s \<notin> set ss" using Cons.prems(3) by simp
    have "\<forall>x. reached_from E e x \<longrightarrow> map_of ?degs x = Some (?n x)" using Cons.prems(1) by (simp add: update_conv')
    moreover have "\<forall>x \<in> set ss. reached_from E e x \<and> (\<not> dominator E e x b \<longrightarrow> 0 < ?n x)" using Cons.prems(4) fresh by auto
    ultimately obtain degs' where r: "foldM (kahn_successor t b) (?degs, ?wl) ss = Some (degs', ?wl @ filter (\<lambda>s. \<not> dominator E e s b \<and> ?n s = 1) ss)"
        "\<forall>x. reached_from E e x \<longrightarrow> map_of degs' x = Some (if x \<in> set ss \<and> \<not> dominator E e x b then ?n x - 1 else ?n x)"
      using Cons.IH [of ?degs ?n ?wl] Cons.prems(2,3) by auto
    have "filter (\<lambda>s. \<not> dominator E e s b \<and> ?n s = 1) ss = filter (\<lambda>s. \<not> dominator E e s b \<and> n s = 1) ss"
      using fresh by (intro filter_cong) auto
    then have "?wl @ filter (\<lambda>s. \<not> dominator E e s b \<and> ?n s = 1) ss = wl @ filter (\<lambda>s. \<not> dominator E e s b \<and> n s = 1) (s # ss)"
      using False pos by auto
    then show ?thesis using st r fresh False by (auto simp del: bind_eq_Some map_of_eq_Some_iff simp: update_conv')
  qed
qed

definition kahn_inv :: "kahn \<Rightarrow> bool" where
  "kahn_inv st = (\<exists>P. P \<subseteq> {b. reached_from E e b} \<and> card P = kahn_visited st \<and> set (kahn_worklist st) \<inter> P = {} \<and>
     distinct (kahn_worklist st) \<and> set (kahn_worklist st) \<subseteq> {b. reached_from E e b} \<and>
     (\<forall>x. reached_from E e x \<longrightarrow> map_of (indegrees st) x = Some (card (pending P x))) \<and>
     (\<forall>x. reached_from E e x \<longrightarrow> (pending P x = {} \<longleftrightarrow> x \<in> P \<or> x \<in> set (kahn_worklist st))))"

lemma pending_insert: "pending (insert b P) x = pending P x - {b}"
  by (auto simp: pending_def)

lemma kahn_step_ok:
  assumes "kahn_inv st"
  shows "\<exists>k st'. kahn_step c t st = Some (k, st') \<and> kahn_inv st' \<and> (k \<longrightarrow> block_count c - kahn_visited st' < block_count c - kahn_visited st)"
proof -
  obtain P where P: "P \<subseteq> {b. reached_from E e b}" "card P = kahn_visited st" "set (kahn_worklist st) \<inter> P = {}"
     "distinct (kahn_worklist st)" "set (kahn_worklist st) \<subseteq> {b. reached_from E e b}"
     "\<forall>x. reached_from E e x \<longrightarrow> map_of (indegrees st) x = Some (card (pending P x))"
     "\<forall>x. reached_from E e x \<longrightarrow> (pending P x = {} \<longleftrightarrow> x \<in> P \<or> x \<in> set (kahn_worklist st))"
    using assms unfolding kahn_inv_def by blast
  show ?thesis
  proof (cases "kahn_worklist st")
    case Nil
    then have "kahn_step c t st = Some (False, st)" by (simp add: kahn_step_def)
    then show ?thesis using assms by blast
  next
    case (Cons b rest)
    have b: "reached_from E e b" "b \<notin> P" "b \<notin> set rest" using P(3-5) Cons by auto
    obtain ss where ss: "successors_of c b = Some ss" "distinct ss" "set ss = {s. E b s}" using succ_ok [OF b(1)] by blast
    have fwd: "s \<in> set ss \<and> \<not> dominator E e s b \<longleftrightarrow> b \<in> pending P s" for s using ss(3) b by (auto simp: pending_def forward_edge_def)
    have pos: "\<forall>s \<in> set ss. reached_from E e s \<and> (\<not> dominator E e s b \<longrightarrow> 0 < card (pending P s))"
    proof (intro ballI conjI impI)
      fix s assume s: "s \<in> set ss"
      then show "reached_from E e s" using ss(3) reached_step [OF b(1)] by blast
      assume "\<not> dominator E e s b"
      then show "0 < card (pending P s)" using s fwd [of s] finite_pending [of P s] by (auto simp: card_gt_0_iff)
    qed
    let ?new = "filter (\<lambda>s. \<not> dominator E e s b \<and> card (pending P s) = 1) ss"
    obtain degs where degs: "foldM (kahn_successor t b) (indegrees st, rest) ss = Some (degs, rest @ ?new)"
        "\<forall>x. reached_from E e x \<longrightarrow> map_of degs x = Some (if x \<in> set ss \<and> \<not> dominator E e x b then card (pending P x) - 1 else card (pending P x))"
      using kahn_successors [OF P(6) b(1) ss(2) pos] by blast
    let ?st = "\<lparr>indegrees = degs, kahn_worklist = rest @ ?new, kahn_visited = kahn_visited st + 1\<rparr>" and ?P = "insert b P"
    have fin: "finite P" using finite_subset [OF P(1) finite_blocks(1)] .
    have card: "card (pending ?P x) = (if x \<in> set ss \<and> \<not> dominator E e x b then card (pending P x) - 1 else card (pending P x))" for x
      using fwd [of x] finite_pending [of P x] by (simp add: pending_insert)
    have new: "s \<in> set ?new \<longleftrightarrow> b \<in> pending P s \<and> pending ?P s = {}" for s
      using fwd [of s] finite_pending [of P s] by (auto simp: pending_insert card_1_singleton_iff)
    have "kahn_inv ?st" unfolding kahn_inv_def
    proof (intro exI [of _ ?P] conjI)
      show "?P \<subseteq> {b. reached_from E e b}" using P(1) b(1) by simp
      show "card ?P = kahn_visited ?st" using P(2) b(2) fin by simp
      have np: "s \<notin> P \<and> s \<notin> set rest \<and> s \<noteq> b" if s: "s \<in> set ?new" for s
      proof -
        have "reached_from E e s" "pending P s \<noteq> {}" using s new [of s] pos by (simp, blast)
        then have "\<not> (s \<in> P \<or> s \<in> set (kahn_worklist st))" using P(7) by blast
        then show ?thesis using Cons by simp
      qed
      then show "set (kahn_worklist ?st) \<inter> ?P = {}" using P(3) Cons b(3) by auto
      show "distinct (kahn_worklist ?st)" using P(4) Cons ss(2) np by auto
      show "set (kahn_worklist ?st) \<subseteq> {b. reached_from E e b}" using P(5) Cons pos by auto
      show "\<forall>x. reached_from E e x \<longrightarrow> map_of (indegrees ?st) x = Some (card (pending ?P x))"
        using degs(2) card by (simp del: map_of_eq_Some_iff)
      show "\<forall>x. reached_from E e x \<longrightarrow> (pending ?P x = {} \<longleftrightarrow> x \<in> ?P \<or> x \<in> set (kahn_worklist ?st))"
      proof (intro allI impI)
        fix x assume x: "reached_from E e x"
        have "pending P x = {} \<longleftrightarrow> x \<in> P \<or> x = b \<or> x \<in> set rest" using P(7) x Cons by auto
        moreover have "pending ?P x = {} \<longleftrightarrow> pending P x = {} \<or> x \<in> set ?new" using new [of x] by (auto simp: pending_insert simp del: set_filter)
        ultimately show "pending ?P x = {} \<longleftrightarrow> x \<in> ?P \<or> x \<in> set (kahn_worklist ?st)" by auto
      qed
    qed
    moreover have "kahn_step c t st = Some (True, ?st)" using Cons ss(1) degs(1) by (simp add: kahn_step_def del: bind_eq_Some)
    moreover have "P \<subset> {b. reached_from E e b}" using P(1) b(1,2) by blast
    then have "kahn_visited st < block_count c" using psubset_card_mono [OF finite_blocks(1)] P(2) finite_blocks(2) by metis
    ultimately show ?thesis by (auto intro!: exI [of _ True])
  qed
qed

lemma kahn_progress: "progress_loop (kahn_step c t) (kahn_loop c t) kahn_inv (\<lambda>_. kahn_inv) (\<lambda>st. block_count c - kahn_visited st)"
proof
  show "kahn_loop c t s = Option.bind (kahn_step c t s) (\<lambda>(k, s'). if k then kahn_loop c t s' else Some s')" for s
    by (rule kahn_loop.simps)
qed (use kahn_step_ok in auto)

lemma kahn_result:
  assumes "reducible E e" "kahn_inv st"
  shows "\<exists>st'. kahn_loop c t st = Some st' \<and> kahn_visited st' = block_count c"
proof -
  obtain st' st0 where s: "kahn_loop c t st = Some st'" "kahn_inv st'" "kahn_step c t st0 = Some (False, st')"
    using progress_loop.loop_stops [OF kahn_progress assms(2)] by blast
  have wl: "kahn_worklist st' = []" using s(3) by (auto simp: kahn_step_def split: list.splits)
  obtain P where P: "P \<subseteq> {b. reached_from E e b}" "card P = kahn_visited st'"
     "\<forall>x. reached_from E e x \<longrightarrow> (pending P x = {} \<longleftrightarrow> x \<in> P)"
    using s(2) wl unfolding kahn_inv_def by auto
  let ?R = "{b. reached_from E e b} - P" and ?r = "{(a, b). a \<in> {b. reached_from E e b} - P \<and> b \<in> {b. reached_from E e b} - P \<and> forward_edge E e a b}"
  have "?R = {}"
  proof (rule ccontr)
    assume "?R \<noteq> {}"
    have "acyclicP (forward_edge E e)" using assms(1) by (simp add: reducible_def acyclic_def trancl_def)
    then have "acyclic ?r" by (rule acyclic_subset) auto
    moreover have "finite ?r" by (rule finite_subset [of _ "?R \<times> ?R"]) (use finite_blocks(1) in auto)
    ultimately have "wf ?r" by (rule finite_acyclic_wf [rotated])
    then obtain z where z: "z \<in> ?R" "\<And>y. (y, z) \<in> ?r \<Longrightarrow> y \<notin> ?R" using wfE_min' [of ?r ?R] \<open>?R \<noteq> {}\<close> by blast
    then obtain a where "a \<in> pending P z" using P(3) by blast
    then show False using z by (auto simp: pending_def forward_edge_def)
  qed
  then have "P = {b. reached_from E e b}" using P(1) by blast
  then show ?thesis using s(1) P(2) finite_blocks(2) by auto
qed

lemma reducible_ok:
  assumes "reducible E e" "hash_ok hash_order"
  shows "assert_reducible hash_order c t = Some ()"
proof -
  let ?degs0 = "fold (\<lambda>block. AList.update block (0::usize)) (reverse_postorder c) []"
  have d0: "?degs0 = map (\<lambda>b. (b, 0)) (reverse_postorder c)"
  proof -
    have "fold (\<lambda>block. AList.update block (0::usize)) bs [] = map (\<lambda>b. (b, 0)) bs" if "distinct bs" for bs
      using that by (induction bs rule: rev_induct) (auto simp: update_new image_image)
    then show ?thesis using rpo_distinct by blast
  qed
  have "map_of ?degs0 x = Some 0" if "reached_from E e x" for x
    unfolding d0 using that rpo_set by (simp add: map_of_map_restrict restrict_map_def del: map_of_eq_Some_iff)
  moreover have "map fst ?degs0 = reverse_postorder c" unfolding d0 by (simp add: comp_def)
  ultimately obtain degs where degs: "foldM (count_indegree t) ?degs0 edge_list = Some degs" "map fst degs = reverse_postorder c"
      "\<forall>x. reached_from E e x \<longrightarrow> map_of degs x = Some (card (pending {} x))"
    using count_fold [of edge_list ?degs0 "[]"] edges_result(3) by (auto simp: count_pending simp del: map_of_eq_Some_iff)
  let ?wl = "filter (\<lambda>block. map_of degs block = Some 0) (hash_order (map fst degs))"
  let ?st = "\<lparr>indegrees = degs, kahn_worklist = ?wl, kahn_visited = 0\<rparr>"
  have order: "distinct (hash_order (map fst degs))" "set (hash_order (map fst degs)) = {b. reached_from E e b}"
    using assms(2) degs(2) rpo_distinct rpo_set by (simp_all add: hash_ok_def)
  have "kahn_inv ?st" unfolding kahn_inv_def
    by (intro exI [of _ "{}"]) (use order degs(3) finite_pending in \<open>auto simp del: map_of_eq_Some_iff\<close>)
  then obtain st where "kahn_loop c t ?st = Some st" "kahn_visited st = block_count c" using kahn_result [OF assms(1)] by blast
  moreover have "\<forall>block \<in> set (reverse_postorder c). dom_contains t block" using tree_blocks rpo_set by auto
  ultimately show ?thesis using edges_result(1) degs(1) entries
    by (simp add: assert_reducible_def Let_def rassert_def del: bind_eq_Some)
qed

end

end
