(* ===== verification/Loop_Forest.thy ===== *)
theory Loop_Forest
  imports Loop_Analysis
begin

text \<open>
  The forest of natural loops: the loops that contain a block form a chain, the assertions of the analysis hold, and the
  result of the analysis of a function.
\<close>

section \<open>The loop forest\<close>

lemma find_app: "List.find P (xs @ ys) = (case List.find P xs of None \<Rightarrow> List.find P ys | Some x \<Rightarrow> Some x)"
  by (induction xs) auto

lemma find_upt:
  "List.find P [a..<n] = None \<Longrightarrow> filter P [a..<n] = []"
  "List.find P [a..<n] = Some j \<Longrightarrow> filter P [a..<n] = j # filter P [Suc j..<n] \<and> a \<le> j \<and> j < n \<and> P j \<and> (\<forall>k. a \<le> k \<and> k < j \<longrightarrow> \<not> P k)"
proof -
  show "List.find P [a..<n] = None \<Longrightarrow> filter P [a..<n] = []" by (simp add: find_None_iff filter_empty_conv)
  assume f: "List.find P [a..<n] = Some j"
  then obtain i where i: "i < n - a" "P (a + i)" "j = a + i" "\<forall>k<i. \<not> P (a + k)" by (auto simp: find_Some_iff)
  have "[a..<n] = [a..<j] @ j # [Suc j..<n]" using i upt_add_eq_append [of a j "n - j"] upt_conv_Cons [of j n] by simp
  moreover have no: "\<not> P k" if "a \<le> k" "k < j" for k using i(3,4) that by (metis le_add_diff_inverse nat_add_left_cancel_less)
  then have "filter P [a..<j] = []" by (auto simp: filter_empty_conv)
  ultimately have "filter P [a..<n] = j # filter P [Suc j..<n]" using i(2,3) by simp
  then show "filter P [a..<n] = j # filter P [Suc j..<n] \<and> a \<le> j \<and> j < n \<and> P j \<and> (\<forall>k. a \<le> k \<and> k < j \<longrightarrow> \<not> P k)" using i no by auto
qed

definition nested_loops :: "loop list \<Rightarrow> bool" where
  "nested_loops ls = (distinct (map loop_header ls) \<and> sorted (map (\<lambda>l. length (loop_body l)) ls) \<and>
     (\<forall>l \<in> set ls. distinct (loop_body l) \<and> loop_header l \<in> set (loop_body l)) \<and>
     (\<forall>l \<in> set ls. \<forall>k \<in> set ls. loop_header l \<noteq> loop_header k \<longrightarrow> set (loop_body l) \<inter> set (loop_body k) = {} \<or>
        set (loop_body l) \<subset> set (loop_body k) \<or> set (loop_body k) \<subset> set (loop_body l)))"

abbreviation body_of :: "loop list \<Rightarrow> usize \<Rightarrow> basic_block set" where
  "body_of ls i \<equiv> set (loop_body (ls ! i))"

lemma nest_lt:
  assumes "nested_loops ls" "i < j" "j < length ls" "x \<in> body_of ls i" "x \<in> body_of ls j"
  shows "body_of ls i \<subset> body_of ls j"
proof -
  have in_ls: "ls ! i \<in> set ls" "ls ! j \<in> set ls" using assms(2,3) by auto
  have "loop_header (ls ! i) \<noteq> loop_header (ls ! j)"
    using assms(1-3) nth_eq_iff_index_eq [of "map loop_header ls" i j] by (simp add: nested_loops_def)
  then have "body_of ls i \<subset> body_of ls j \<or> body_of ls j \<subset> body_of ls i" using assms(1,4,5) in_ls unfolding nested_loops_def by blast
  moreover have "length (loop_body (ls ! i)) \<le> length (loop_body (ls ! j))"
    using assms(1-3) sorted_nth_mono [of "map (\<lambda>l. length (loop_body l)) ls" i j] by (simp add: nested_loops_def)
  then have "card (body_of ls i) \<le> card (body_of ls j)" using assms(1) in_ls by (simp add: nested_loops_def distinct_card)
  then have "\<not> body_of ls j \<subset> body_of ls i" using psubset_card_mono [of "body_of ls i" "body_of ls j"] by auto
  ultimately show ?thesis by blast
qed

lemma header_body: "nested_loops ls \<Longrightarrow> i < length ls \<Longrightarrow> loop_header (ls ! i) \<in> body_of ls i"
  by (simp add: nested_loops_def)

lemma nest_iff:
  assumes "nested_loops ls" "i < j" "j < length ls" "x \<in> body_of ls i"
  shows "x \<in> body_of ls j \<longleftrightarrow> loop_header (ls ! i) \<in> body_of ls j"
  using nest_lt [OF assms(1-3)] assms header_body [OF assms(1), of i] by (meson less_trans psubsetD)

lemma parent_filter:
  assumes "nested_loops ls" "i < length ls" "x \<in> body_of ls i"
  shows "filter (\<lambda>j. x \<in> body_of ls j) [Suc i..<length ls] =
    (if parent_of ls i = i then [] else parent_of ls i # filter (\<lambda>j. x \<in> body_of ls j) [Suc (parent_of ls i)..<length ls])"
proof -
  let ?P = "\<lambda>j. loop_contains (ls ! j) (loop_header (ls ! i))"
  have eq: "filter (\<lambda>j. x \<in> body_of ls j) [a..<length ls] = filter ?P [a..<length ls]" if "i < a" for a
    using nest_iff [OF assms(1) _ _ assms(3)] that by (intro filter_cong) (auto simp: loop_contains_def)
  show ?thesis
  proof (cases "List.find ?P [Suc i..<length ls]")
    case None
    then show ?thesis using eq [of "Suc i"] find_upt(1) [OF None] by (simp add: parent_of_def)
  next
    case (Some j)
    then have "filter ?P [Suc i..<length ls] = j # filter ?P [Suc j..<length ls]" "i < j" using find_upt(2) [OF Some] by auto
    then show ?thesis using eq [of "Suc i"] eq [of "Suc j"] Some by (simp add: parent_of_def)
  qed
qed

lemma parent_bounds:
  assumes "i < length ls" "parent_of ls i \<noteq> i"
  shows "i < parent_of ls i" "parent_of ls i < length ls" "loop_header (ls ! i) \<in> body_of ls (parent_of ls i)"
proof -
  obtain j where j: "List.find (\<lambda>j. loop_contains (ls ! j) (loop_header (ls ! i))) [i + 1..<length ls] = Some j" "parent_of ls i = j"
    using assms(2) by (auto simp: parent_of_def split: option.splits)
  show "i < parent_of ls i" "parent_of ls i < length ls" "loop_header (ls ! i) \<in> body_of ls (parent_of ls i)"
    using find_upt(2) [OF j(1)] j(2) by (simp_all add: loop_contains_def)
qed

text \<open>The first loop that contains a block is found, and from it the parents are exactly the other loops that contain it.\<close>

lemma or_insert_fold: "map_of (fold (or_insert i) bs m) b = (case map_of m b of None \<Rightarrow> if b \<in> set bs then Some i else None | Some v \<Rightarrow> Some v)"
proof (induction bs arbitrary: m)
  case (Cons a bs)
  show ?case using Cons [of "or_insert i a m"] by (auto simp: or_insert_def update_conv' split: option.splits if_splits)
qed (simp split: option.splits)

lemma enumerate_snoc: "List.enumerate n (xs @ [x]) = List.enumerate n xs @ [(n + length xs, x)]"
  by (simp add: enumerate_append_eq)

lemma inner_loops_find: "map_of (inner_loops ls) b = List.find (\<lambda>i. b \<in> body_of ls i) [0..<length ls]"
proof (induction ls rule: rev_induct)
  case (snoc l ls)
  have "List.find (\<lambda>i. b \<in> body_of (ls @ [l]) i) [0..<length ls] = List.find (\<lambda>i. b \<in> body_of ls i) [0..<length ls]"
    by (rule find_cong) (auto simp: nth_append)
  moreover have "inner_loops (ls @ [l]) = fold (or_insert (length ls)) (loop_body l) (inner_loops ls)"
    by (simp add: inner_loops_def enumerate_snoc)
  moreover have "List.find (\<lambda>i. b \<in> body_of (ls @ [l]) i) [length ls] = (if b \<in> set (loop_body l) then Some (length ls) else None)"
    by (simp add: nth_append)
  ultimately show ?case using snoc by (simp add: or_insert_fold find_app split: option.splits)
qed (simp add: inner_loops_def)

lemma successors_from_ok:
  assumes "nested_loops (loops a)" "direct_parent a = map (parent_of (loops a)) [0..<length (loops a)]"
  shows "i < length (loops a) \<Longrightarrow> x \<in> body_of (loops a) i \<Longrightarrow>
    successors_from a i = Some (filter (\<lambda>j. x \<in> body_of (loops a) j) [i..<length (loops a)])"
proof (induction "length (loops a) - i" arbitrary: i rule: less_induct)
  case less
  let ?p = "parent_of (loops a) i" and ?n = "length (loops a)"
  have head: "filter (\<lambda>j. x \<in> body_of (loops a) j) [i..<?n] = i # filter (\<lambda>j. x \<in> body_of (loops a) j) [Suc i..<?n]"
    using less.prems by (simp add: upt_conv_Cons)
  have pf: "filter (\<lambda>j. x \<in> body_of (loops a) j) [Suc i..<?n] =
      (if ?p = i then [] else ?p # filter (\<lambda>j. x \<in> body_of (loops a) j) [Suc ?p..<?n])"
    using parent_filter [OF assms(1) less.prems] .
  have pi: "parent_loop_index a i = Some (if ?p \<noteq> i then Some ?p else None)"
    using less.prems(1) by (simp add: parent_loop_index_def vec_get_def assms(2))
  show ?case
  proof (cases "?p = i")
    case True
    then show ?thesis using pi pf head by (subst successors_from.simps) simp
  next
    case False
    have p: "i < ?p" "?p < ?n" "x \<in> body_of (loops a) ?p"
      using parent_bounds [OF less.prems(1) False] nest_iff [OF assms(1) _ _ less.prems(2)] by auto
    then have "successors_from a ?p = Some (filter (\<lambda>j. x \<in> body_of (loops a) j) [?p..<?n])" using less.hyps [of ?p] by simp
    moreover have "filter (\<lambda>j. x \<in> body_of (loops a) j) [?p..<?n] = ?p # filter (\<lambda>j. x \<in> body_of (loops a) j) [Suc ?p..<?n]"
      using p by (simp add: upt_conv_Cons)
    ultimately show ?thesis using pi pf head False by (subst successors_from.simps) simp
  qed
qed

lemma containing_ok:
  assumes "nested_loops (loops a)" "direct_parent a = map (parent_of (loops a)) [0..<length (loops a)]" "block_to_inner_loop a = inner_loops (loops a)"
  shows "containing_loop_indices a x = Some (filter (\<lambda>j. x \<in> body_of (loops a) j) [0..<length (loops a)])"
proof (cases "List.find (\<lambda>i. x \<in> body_of (loops a) i) [0..<length (loops a)]")
  case None
  then show ?thesis using find_upt(1) [OF None] by (simp add: containing_loop_indices_def min_loop_contain_index_def assms(3) inner_loops_find)
next
  case (Some i)
  note f = find_upt(2) [OF Some]
  have "successors_from a i = Some (filter (\<lambda>j. x \<in> body_of (loops a) j) [i..<length (loops a)])"
    using successors_from_ok [OF assms(1,2)] f by blast
  moreover have "filter (\<lambda>j. x \<in> body_of (loops a) j) [i..<length (loops a)] = i # filter (\<lambda>j. x \<in> body_of (loops a) j) [Suc i..<length (loops a)]"
    using f by (simp add: upt_conv_Cons)
  ultimately show ?thesis using f Some by (simp add: containing_loop_indices_def min_loop_contain_index_def assms(3) inner_loops_find)
qed

lemma assert_laminar_ok: "nested_loops ls \<Longrightarrow> assert_laminar ls = Some ()"
proof (induction ls)
  case (Cons l ls)
  have "laminar_pair l k" if "k \<in> set ls" for k
  proof -
    have "loop_header l \<noteq> loop_header k" using Cons.prems that by (auto simp: nested_loops_def)
    then have "set (loop_body l) \<inter> set (loop_body k) = {} \<or> set (loop_body l) \<subset> set (loop_body k) \<or> set (loop_body k) \<subset> set (loop_body l)"
      using Cons.prems that unfolding nested_loops_def by (meson list.set_intros)
    then show ?thesis by (auto simp: laminar_pair_def Let_def)
  qed
  moreover have "nested_loops ls" using Cons.prems by (simp add: nested_loops_def)
  ultimately show ?case using Cons.IH by (simp add: rassert_def)
qed simp

lemma loop_index_zip:
  assumes "distinct (map loop_header ls)"
  shows "fold (\<lambda>(i, l). AList.update (loop_header l) i) (List.enumerate 0 ls) [] = zip (map loop_header ls) [0..<length ls]"
proof -
  have "fold (\<lambda>(i, l). AList.update (loop_header l) i) (List.enumerate n ls) acc =
      fold (\<lambda>(index, block). AList.update block index) (List.enumerate n (map loop_header ls)) acc" for n acc
    by (induction ls arbitrary: n acc) auto
  then show ?thesis using index_fold [of "map loop_header ls" "[]" 0] assms by simp
qed

section \<open>The assertions on the forest\<close>

lemma nest_mono: "nested_loops ls \<Longrightarrow> i \<le> j \<Longrightarrow> j < length ls \<Longrightarrow> length (loop_body (ls ! i)) \<le> length (loop_body (ls ! j))"
  using sorted_nth_mono [of "map (\<lambda>l. length (loop_body l)) ls" i j] by (simp add: nested_loops_def)

lemma outer_later:
  assumes "nested_loops ls" "i < length ls" "k < length ls" "k \<noteq> i" "body_of ls i \<subseteq> body_of ls k"
  shows "i < k" "loop_header (ls ! i) \<in> body_of ls k"
proof -
  show h: "loop_header (ls ! i) \<in> body_of ls k" using header_body [OF assms(1,2)] assms(5) by blast
  show "i < k"
  proof (rule ccontr)
    assume "\<not> i < k"
    then have "k < i" using assms(4) by simp
    then show False using nest_lt [OF assms(1) _ assms(2) h header_body [OF assms(1,2)]] assms(5) by blast
  qed
qed

lemma parent_least:
  assumes "i < length ls" "i < k" "k < length ls" "loop_header (ls ! i) \<in> body_of ls k"
  shows "parent_of ls i \<noteq> i" "parent_of ls i \<le> k"
proof -
  let ?P = "\<lambda>j. loop_contains (ls ! j) (loop_header (ls ! i))"
  have k: "?P k" using assms(4) by (simp add: loop_contains_def)
  obtain j where j: "List.find ?P [i + 1..<length ls] = Some j"
    using find_upt(1) [of ?P "i + 1" "length ls"] assms(2,3) k by (cases "List.find ?P [i + 1..<length ls]") (auto simp: filter_empty_conv)
  note f = find_upt(2) [OF j]
  have "parent_of ls i = j" using j by (simp add: parent_of_def)
  then show "parent_of ls i \<noteq> i" "parent_of ls i \<le> k" using f k assms(2) by (auto simp: not_less [symmetric])
qed

definition forest_of :: "loop list \<Rightarrow> loop_analysis" where
  "forest_of ls = \<lparr>loops = ls, direct_parent = map (parent_of ls) [0..<length ls],
     loop_index = zip (map loop_header ls) [0..<length ls], block_to_inner_loop = inner_loops ls\<rparr>"

lemma in_enumerate: "(k, l) \<in> set (List.enumerate 0 ls) \<longleftrightarrow> k < length ls \<and> l = ls ! k"
  by (auto simp: in_set_enumerate_eq)

lemma ball_enumerate: "(\<forall>(k, l) \<in> set (List.enumerate 0 ls). Q k l) \<longleftrightarrow> (\<forall>k < length ls. Q k (ls ! k))"
  by (auto simp: in_set_enumerate_eq)

lemma verify_parent:
  assumes "nested_loops ls" "i < length ls"
  shows "parent_of ls i = i \<Longrightarrow> k < length ls \<Longrightarrow> k = i \<or> \<not> body_of ls i \<subseteq> body_of ls k"
    "parent_of ls i \<noteq> i \<Longrightarrow> body_of ls i \<subseteq> body_of ls (parent_of ls i) \<and> length (loop_body (ls ! i)) < length (loop_body (ls ! parent_of ls i))"
    "parent_of ls i \<noteq> i \<Longrightarrow> k < length ls \<Longrightarrow> k = i \<or> k = parent_of ls i \<or> \<not> body_of ls i \<subseteq> body_of ls k \<or>
       length (loop_body (ls ! parent_of ls i)) \<le> length (loop_body (ls ! k))"
proof -
  show "k = i \<or> \<not> body_of ls i \<subseteq> body_of ls k" if "parent_of ls i = i" "k < length ls"
    using outer_later [OF assms that(2)] parent_least(1) [OF assms(2) _ that(2)] that(1) by blast
  show "body_of ls i \<subseteq> body_of ls (parent_of ls i) \<and> length (loop_body (ls ! i)) < length (loop_body (ls ! parent_of ls i))" if p: "parent_of ls i \<noteq> i"
  proof -
    note b = parent_bounds [OF assms(2) p]
    have sub: "body_of ls i \<subset> body_of ls (parent_of ls i)" using nest_lt [OF assms(1) b(1,2) header_body [OF assms] b(3)] .
    then have "card (body_of ls i) < card (body_of ls (parent_of ls i))" by (intro psubset_card_mono) simp_all
    then show ?thesis using sub assms b(2) by (auto simp: nested_loops_def distinct_card)
  qed
  show "k = i \<or> k = parent_of ls i \<or> \<not> body_of ls i \<subseteq> body_of ls k \<or> length (loop_body (ls ! parent_of ls i)) \<le> length (loop_body (ls ! k))"
    if "parent_of ls i \<noteq> i" "k < length ls"
    using outer_later [OF assms that(2)] parent_least(2) [OF assms(2) _ that(2)] nest_mono [OF assms(1) _ that(2)] by blast
qed

lemma or_insert_keys: "distinct (map fst m) \<Longrightarrow> distinct (map fst (fold (or_insert i) bs m))"
  by (induction bs arbitrary: m) (simp_all add: or_insert_def distinct_update split: option.splits)

lemma inner_loops_keys: "distinct (map fst (inner_loops ls))"
proof (induction ls rule: rev_induct)
  case (snoc l ls)
  have "inner_loops (ls @ [l]) = fold (or_insert (length ls)) (loop_body l) (inner_loops ls)"
    by (simp add: inner_loops_def enumerate_snoc)
  then show ?case using or_insert_keys [OF snoc] by simp
qed (simp add: inner_loops_def)

lemma verify_inner_ok:
  assumes "nested_loops ls" "bi \<in> set (inner_loops ls)"
  shows "verify_inner (forest_of ls) bi = Some ()"
proof -
  obtain b i where bi: "bi = (b, i)" by (cases bi)
  have "map_of (inner_loops ls) b = Some i" using assms(2) bi inner_loops_keys by simp
  then have "List.find (\<lambda>i. b \<in> body_of ls i) [0..<length ls] = Some i" by (simp add: inner_loops_find)
  note f = find_upt(2) [OF this]
  have "length (loop_body (ls ! i)) \<le> length (loop_body (ls ! k))" if "k < length ls" "b \<in> body_of ls k" for k
    using f that nest_mono [OF assms(1), of i k] by (meson le0 not_less)
  then show ?thesis using f bi by (auto simp: verify_inner_def forest_of_def vec_get_def loop_contains_def rassert_def in_enumerate)
qed

context loop_graph
begin

definition good_loop :: "loop \<Rightarrow> bool" where
  "good_loop l = (loop_latches l \<noteq> [] \<and> set (loop_latches l) = {k. back_edge E e (loop_header l) k} \<and>
     distinct (loop_body l) \<and> set (loop_body l) = natural_loop E e (loop_header l))"

lemma good_loop_edge: "good_loop l \<Longrightarrow> \<exists>k. back_edge E e (loop_header l) k"
  unfolding good_loop_def by (metis empty_iff list.set_cases mem_Collect_eq set_empty ex_in_conv)

lemma good_nested:
  assumes "\<forall>l \<in> set ls. good_loop l" "distinct (map loop_header ls)" "sorted (map (\<lambda>l. length (loop_body l)) ls)"
  shows "nested_loops ls"
proof -
  have lam: "set (loop_body l) \<inter> set (loop_body k) = {} \<or> set (loop_body l) \<subset> set (loop_body k) \<or> set (loop_body k) \<subset> set (loop_body l)"
    if that: "l \<in> set ls" "k \<in> set ls" "loop_header l \<noteq> loop_header k" for l k
  proof -
    have g: "good_loop l" "good_loop k" using assms(1) that(1,2) by blast+
    obtain x y where "back_edge E e (loop_header l) x" "back_edge E e (loop_header k) y" using g [THEN good_loop_edge] by blast
    then have "natural_loop E e (loop_header l) \<inter> natural_loop E e (loop_header k) = {} \<or> natural_loop E e (loop_header l) \<subset> natural_loop E e (loop_header k) \<or>
        natural_loop E e (loop_header k) \<subset> natural_loop E e (loop_header l)" using that(3) by (rule loops_laminar)
    then show ?thesis using g by (simp add: good_loop_def)
  qed
  have "distinct (loop_body l) \<and> loop_header l \<in> set (loop_body l)" if "l \<in> set ls" for l
    using assms(1) that header_in by (simp add: good_loop_def)
  then show ?thesis unfolding nested_loops_def using lam assms(2,3) by (intro conjI ballI impI lam) simp_all
qed

lemma verify_loop_ok:
  assumes "\<forall>l \<in> set ls. good_loop l" "nested_loops ls" "i < length ls"
  shows "verify_loop (forest_of ls) c t (i, ls ! i) = Some ()"
proof -
  let ?l = "ls ! i" and ?h = "loop_header (ls ! i)"
  have g: "good_loop ?l" using assms(1,3) by simp
  then obtain k where k: "back_edge E e ?h k" using good_loop_edge by blast
  have b: "set (loop_body ?l) = natural_loop E e ?h" "set (loop_latches ?l) = {k. back_edge E e ?h k}" "loop_latches ?l \<noteq> []"
    using g by (simp_all add: good_loop_def)
  have "map_of (zip (map loop_header ls) [0..<length ls]) ?h = Some i"
    using assms(2,3) by (auto simp: nested_loops_def in_set_zip intro!: exI [of _ i])
  moreover have "all_dominated t ?h (loop_body ?l) = Some ()"
  proof (rule all_dominated_ok)
    fix x assume "x \<in> set (loop_body ?l)"
    then have x: "x \<in> natural_loop E e ?h" using b(1) by simp
    show "dominates t ?h x = Some True" using dom_ok [OF loop_reached [OF k header_in] loop_reached [OF k x]] loop_dominated [OF x] by simp
  qed
  moreover have "foldM (\<lambda>_ latch. do {
       rassert (latch \<in> set (loop_body ?l));
       ss \<leftarrow> successors_of c latch;
       rassert (?h \<in> set ss) }) () (loop_latches ?l) = Some ()"
  proof (rule foldM_unit, rule ballI)
    fix y assume "y \<in> set (loop_latches ?l)"
    then have y: "back_edge E e ?h y" using b(2) by simp
    then obtain ss where "successors_of c y = Some ss" "?h \<in> set ss" using succ_ok [of y] by (auto simp: back_edge_def)
    then show "do { rassert (y \<in> set (loop_body ?l)); ss \<leftarrow> successors_of c y; rassert (?h \<in> set ss) } = Some ()"
      using loop_back_edge [OF y] b(1) by (simp add: rassert_def)
  qed
  moreover have "?h \<in> set (loop_body ?l)" using b(1) header_in by simp
  moreover have "if parent_of ls i = i then \<forall>(k, l) \<in> set (List.enumerate 0 ls). k = i \<or> \<not> body_of ls i \<subseteq> set (loop_body l)
    else parent_of ls i < length ls \<and> length (loop_body ?l) < length (loop_body (ls ! parent_of ls i)) \<and> body_of ls i \<subseteq> body_of ls (parent_of ls i) \<and>
      (\<forall>(k, l) \<in> set (List.enumerate 0 ls). k = i \<or> k = parent_of ls i \<or> \<not> body_of ls i \<subseteq> set (loop_body l) \<or>
        length (loop_body (ls ! parent_of ls i)) \<le> length (loop_body l))"
  proof (cases "parent_of ls i = i")
    case True
    then show ?thesis unfolding ball_enumerate using verify_parent(1) [OF assms(2,3) True] by (simp only: refl if_True) blast
  next
    case False
    note p = verify_parent(2) [OF assms(2,3) False] parent_bounds(2) [OF assms(3) False]
    from False show ?thesis unfolding ball_enumerate using verify_parent(3) [OF assms(2,3) False] p by (simp only: if_False) blast
  qed
  ultimately show ?thesis using b(3) assms(3)
    by (simp add: verify_loop_def forest_of_def vec_get_def rassert_def del: bind_eq_Some map_of_eq_Some_iff split: if_splits)
qed

lemma verify_loops_ok:
  assumes "\<forall>l \<in> set ls. good_loop l" "nested_loops ls"
  shows "verify_loops (forest_of ls) c t = Some ()"
proof -
  have "foldM (\<lambda>_ il. verify_loop (forest_of ls) c t il) () (List.enumerate 0 ls) = Some ()"
    using verify_loop_ok [OF assms] by (intro foldM_unit) (auto simp: in_enumerate)
  moreover have "foldM (\<lambda>_ bi. verify_inner (forest_of ls) bi) () (inner_loops ls) = Some ()"
    using verify_inner_ok [OF assms(2)] by (intro foldM_unit) blast
  ultimately show ?thesis by (simp add: verify_loops_def forest_of_def rassert_def del: bind_eq_Some)
qed

lemma build_loops:
  assumes "\<forall>h \<in> set hs. \<exists>ls. map_of bk h = Some ls \<and> ls \<noteq> [] \<and> set ls = {l. back_edge E e h l}"
  shows "\<exists>L. foldM (\<lambda>acc header. do { latches \<leftarrow> map_of bk header; l \<leftarrow> build_loop c t (header, latches); Some (acc @ [l]) }) acc hs = Some (acc @ L) \<and>
    map loop_header L = hs \<and> (\<forall>l \<in> set L. good_loop l)"
  using assms
proof (induction hs arbitrary: acc)
  case (Cons h hs)
  obtain ls where ls: "map_of bk h = Some ls" "ls \<noteq> []" "set ls = {l. back_edge E e h l}" using Cons.prems by auto
  obtain body where b: "build_loop c t (h, ls) = Some \<lparr>loop_header = h, loop_body = body, loop_latches = ls\<rparr>" "distinct body" "set body = natural_loop E e h"
    using build_loop_ok [OF ls(3,2)] by blast
  let ?l = "\<lparr>loop_header = h, loop_body = body, loop_latches = ls\<rparr>"
  have "good_loop ?l" using b(2,3) ls by (simp add: good_loop_def)
  moreover obtain L where "foldM (\<lambda>acc header. do { latches \<leftarrow> map_of bk header; l \<leftarrow> build_loop c t (header, latches); Some (acc @ [l]) }) (acc @ [?l]) hs = Some ((acc @ [?l]) @ L)"
      "map loop_header L = hs" "\<forall>l \<in> set L. good_loop l"
    using Cons.IH [of "acc @ [?l]"] Cons.prems by auto
  ultimately show ?case using ls(1) b(1) by (intro exI [of _ "?l # L"]) (simp del: bind_eq_Some map_of_eq_Some_iff)
qed simp

lemma loops_from_cfg_ok:
  assumes "from_cfg c = Some t" "reducible E e" "hash_ok hash_order"
  shows "\<exists>ls. loops_from_cfg hash_order c = Some (t, forest_of ls) \<and> nested_loops ls \<and> (\<forall>l \<in> set ls. good_loop l) \<and>
    loop_header ` set ls = {h. \<exists>l. back_edge E e h l}"
proof -
  obtain bk where bk: "collect_back_edges c t = Some bk" "distinct (map fst bk)"
      "\<And>h. \<exists>l. back_edge E e h l \<Longrightarrow> \<exists>ls. map_of bk h = Some ls \<and> set ls = {l. back_edge E e h l}"
      "\<And>h. h \<in> set (map fst bk) \<Longrightarrow> \<exists>l. back_edge E e h l"
    using collect_result by blast
  let ?hs = "hash_order (map fst bk)"
  have hs: "distinct ?hs" "set ?hs = set (map fst bk)" using assms(3) bk(2) by (simp_all add: hash_ok_def)
  have "\<exists>ls. map_of bk h = Some ls \<and> ls \<noteq> [] \<and> set ls = {l. back_edge E e h l}" if "h \<in> set ?hs" for h
  proof -
    have ex: "\<exists>l. back_edge E e h l" using bk(4) that hs(2) by blast
    then show ?thesis using bk(3) [OF ex] by (metis empty_iff empty_set mem_Collect_eq)
  qed
  then obtain L where L: "foldM (\<lambda>acc header. do { latches \<leftarrow> map_of bk header; l \<leftarrow> build_loop c t (header, latches); Some (acc @ [l]) }) [] ?hs = Some L"
      "map loop_header L = ?hs" "\<forall>l \<in> set L. good_loop l"
    using build_loops [of ?hs bk "[]"] by auto
  let ?ls = "sort_key (\<lambda>l. length (loop_body l)) L"
  have dist: "distinct (map loop_header ?ls)" using hs(1) L(2) by (metis distinct_map distinct_sort set_sort)
  have good: "\<forall>l \<in> set ?ls. good_loop l" using L(3) by simp
  have nested: "nested_loops ?ls" using good_nested [OF good dist] by simp
  have heads: "loop_header ` set ?ls = {h. \<exists>l. back_edge E e h l}"
  proof -
    have "loop_header ` set ?ls = set (map fst bk)" using L(2) hs(2) by (metis list.set_map set_sort)
    moreover have "h \<in> set (map fst bk)" if "\<exists>l. back_edge E e h l" for h
      using bk(3) [OF that] by (metis map_of_SomeD fst_conv imageI list.set_map)
    ultimately show ?thesis using bk(4) by blast
  qed
  have "loops_from_cfg hash_order c = Some (t, forest_of ?ls)"
    using assms(1) bk(1) reducible_ok [OF assms(2,3)] L(1) assert_laminar_ok [OF nested] verify_loops_ok [OF good nested] loop_index_zip [OF dist]
    by (simp add: loops_from_cfg_def Let_def forest_of_def rassert_def del: bind_eq_Some)
  then show ?thesis using nested good heads by blast
qed

end

lemma exactly_one_iff: "distinct xs \<Longrightarrow> exactly_one xs = Some x \<longleftrightarrow> set xs = {x}"
proof -
  assume d: "distinct xs"
  have "exactly_one xs = Some x \<longleftrightarrow> xs = [x]" by (auto simp: exactly_one_def split: list.splits)
  also have "\<dots> \<longleftrightarrow> set xs = {x}" using d by (cases xs; cases "tl xs") auto
  finally show ?thesis .
qed

context loop_graph
begin

lemma preheader_ok:
  assumes "good_loop l"
  shows "\<exists>p. get_preheader l c = Some p"
    and "get_preheader l c = Some (Some p) \<longleftrightarrow>
      {a. reached_from E e a \<and> E a (loop_header l) \<and> a \<notin> natural_loop E e (loop_header l)} = {p} \<and> {s. E p s} = {loop_header l}"
proof -
  let ?h = "loop_header l" and ?N = "natural_loop E e (loop_header l)"
  have body: "loop_contains l b \<longleftrightarrow> b \<in> ?N" for b using assms by (simp add: good_loop_def loop_contains_def)
  obtain k where "back_edge E e ?h k" using good_loop_edge [OF assms] by blast
  then obtain ps where ps: "predecessors_of c ?h = Some ps" "distinct ps" "set ps = {a. reached_from E e a \<and> E a ?h}"
    using pred_ok [OF loop_reached [OF _ header_in]] by blast
  let ?out = "filter (\<lambda>b. \<not> loop_contains l b) ps"
  have out: "set ?out = {a. reached_from E e a \<and> E a ?h \<and> a \<notin> ?N}" "distinct ?out" using ps body by auto
  have one: "exactly_one ?out = Some a \<longleftrightarrow> {a. reached_from E e a \<and> E a ?h \<and> a \<notin> ?N} = {a}" for a
    using exactly_one_iff [OF out(2)] out(1) by simp
  show "\<exists>p. get_preheader l c = Some p" and "get_preheader l c = Some (Some p) \<longleftrightarrow> {a. reached_from E e a \<and> E a ?h \<and> a \<notin> ?N} = {p} \<and> {s. E p s} = {?h}"
  proof (atomize (full), cases "exactly_one ?out")
    case None
    then show "(\<exists>p. get_preheader l c = Some p) \<and> (get_preheader l c = Some (Some p) \<longleftrightarrow> {a. reached_from E e a \<and> E a ?h \<and> a \<notin> ?N} = {p} \<and> {s. E p s} = {?h})"
      using one ps(1) by (simp add: get_preheader_def)
  next
    case (Some q)
    then have q: "{a. reached_from E e a \<and> E a ?h \<and> a \<notin> ?N} = {q}" using one by blast
    then have "reached_from E e q" "E q ?h" by auto
    then obtain ss where ss: "successors_of c q = Some ss" "distinct ss" "set ss = {s. E q s}" using succ_ok by blast
    have "exactly_one ss = Some x \<longleftrightarrow> {s. E q s} = {x}" for x using exactly_one_iff [OF ss(2)] ss(3) by simp
    then have "(exactly_one ss \<noteq> None) \<longleftrightarrow> {s. E q s} = {?h}" using \<open>E q ?h\<close> by (metis mem_Collect_eq not_None_eq singletonD)
    moreover have "get_preheader l c = Some (case exactly_one ss of None \<Rightarrow> None | Some _ \<Rightarrow> Some q)"
      using Some ps(1) ss(1) by (simp add: get_preheader_def del: bind_eq_Some)
    ultimately show "(\<exists>p. get_preheader l c = Some p) \<and> (get_preheader l c = Some (Some p) \<longleftrightarrow> {a. reached_from E e a \<and> E a ?h \<and> a \<notin> ?N} = {p} \<and> {s. E p s} = {?h})"
      using q by (auto split: option.splits)
  qed
qed

end

section \<open>The analysis of a function\<close>

lemma reachable_path: "entry_bb data = Some e \<Longrightarrow> reached_from (flows data) e b \<longleftrightarrow> reachable data b"
proof
  assume e: "entry_bb data = Some e"
  show "reachable data b" if "reached_from (flows data) e b"
  proof -
    obtain xs where "path_from (flows data) e xs b" using \<open>reached_from (flows data) e b\<close> by (auto simp: reached_from_def)
    then show ?thesis by (induction rule: path_from.induct) (auto intro: flows_reachable entry_reachable [OF e])
  qed
  assume "reachable data b"
  then have "(flows data)\<^sup>*\<^sup>* e b" using e by (auto simp: reachable_def)
  then show "reached_from (flows data) e b"
  proof (induction rule: rtranclp_induct)
    case base
    show ?case using path_root [of "flows data" e] by (auto simp: reached_from_def)
  qed (rule reached_step)
qed

definition analysed :: "layout \<Rightarrow> cfg \<Rightarrow> dominance_tree \<Rightarrow> bool" where
  "analysed data c t = (graph_of data c \<and> dominance_of data (cfg_entry c) t \<and> dom_entry t = cfg_entry c)"

text \<open>The locale is interpreted on the graph and the tree of a function (and on a graph of one block for other arguments).\<close>

definition known_cfg :: "layout \<Rightarrow> cfg \<Rightarrow> dominance_tree \<Rightarrow> cfg" where
  "known_cfg data c t = (if analysed data c t then c else
     \<lparr>cfg_entry = 0, postorder = [0], reverse_postorder = [0], successors = [(0, [])], predecessors = [(0, [])], acyclic_flag = True\<rparr>)"

definition known_tree :: "layout \<Rightarrow> cfg \<Rightarrow> dominance_tree \<Rightarrow> dominance_tree" where
  "known_tree data c t = (if analysed data c t then t else
     \<lparr>dom_entry = 0, immediate_dominators = [(0, None)], children = [(0, [])], depths = [(0, 0)], dfs_in = [(0, 0)], dfs_out = [(0, 1)]\<rparr>)"

definition known_edge :: "layout \<Rightarrow> cfg \<Rightarrow> dominance_tree \<Rightarrow> basic_block \<Rightarrow> basic_block \<Rightarrow> bool" where
  "known_edge data c t a b = (analysed data c t \<and> flows data a b)"

lemma known_analysed:
  assumes "analysed data c t"
  shows "known_cfg data c t = c" "known_tree data c t = t" "known_edge data c t = flows data" "graph_of data c" "dominance_of data (cfg_entry c) t"
    "reached_from (flows data) (cfg_entry c) b \<longleftrightarrow> reachable data b"
  using assms reachable_path graph_ofD(1) by (auto simp: known_cfg_def known_tree_def known_edge_def fun_eq_iff analysed_def)

lemma known_other:
  assumes "\<not> analysed data c t"
  shows "known_cfg data c t = \<lparr>cfg_entry = 0, postorder = [0], reverse_postorder = [0], successors = [(0, [])], predecessors = [(0, [])], acyclic_flag = True\<rparr>"
    "reached_from (known_edge data c t) 0 b \<longleftrightarrow> b = 0" "\<not> known_edge data c t a b"
    "known_tree data c t = \<lparr>dom_entry = 0, immediate_dominators = [(0, None)], children = [(0, [])], depths = [(0, 0)], dfs_in = [(0, 0)], dfs_out = [(0, 1)]\<rparr>"
proof -
  show ne: "\<not> known_edge data c t a b" for a b using assms by (simp add: known_edge_def)
  show "reached_from (known_edge data c t) 0 b \<longleftrightarrow> b = 0"
    unfolding reached_from_def using ne by (auto elim: path_from.cases intro: path_root)
qed (use assms in \<open>simp_all add: known_cfg_def known_tree_def\<close>)

interpretation lg: loop_graph "known_edge data c t" "cfg_entry (known_cfg data c t)" "known_cfg data c t" "known_tree data c t" for data c t
proof (cases "analysed data c t")
  case True
  note K = known_analysed [OF True] and G = graph_ofD [OF known_analysed(4) [OF True]]
  note D = known_analysed(5) [OF True, unfolded dominance_of_def]
  show "loop_graph (known_edge data c t) (cfg_entry (known_cfg data c t)) (known_cfg data c t) (known_tree data c t)"
    unfolding K(1-3)
  proof
    show "distinct (reverse_postorder c)" "set (reverse_postorder c) = {b. reached_from (flows data) (cfg_entry c) b}" using G(3,4) K(6) by auto
    show "\<exists>ss. successors_of c b = Some ss \<and> distinct ss \<and> set ss = {s. flows data b s}" if "reached_from (flows data) (cfg_entry c) b" for b
    proof -
      have r: "reachable data b" using that K(6) by blast
      obtain ss where ss: "block_successors data b = Some ss" using G(10) [OF r] G(9) r key_lookup [of b "successors c"] by (auto simp: successors_of_def)
      then show ?thesis using G(10) [OF r] block_successors_distinct [OF ss] by (auto simp: flows_def)
    qed
    show "\<exists>ps. predecessors_of c b = Some ps \<and> distinct ps \<and> set ps = {a. reached_from (flows data) (cfg_entry c) a \<and> flows data a b}"
      if "reached_from (flows data) (cfg_entry c) b" for b using G(12) [of b] that K(6) by simp
    show "dominates t a b = Some (dominator (flows data) (cfg_entry c) a b)"
      if "reached_from (flows data) (cfg_entry c) a" "reached_from (flows data) (cfg_entry c) b" for a b using D that K(6) by simp
    show "dom_contains t b" if "reached_from (flows data) (cfg_entry c) b" for b using D that K(6) by simp
    show "dom_entry t = cfg_entry c" using True by (simp add: analysed_def)
  qed
next
  case False
  note K = known_other [OF False]
  show "loop_graph (known_edge data c t) (cfg_entry (known_cfg data c t)) (known_cfg data c t) (known_tree data c t)"
    by unfold_locales
      (simp_all add: K successors_of_def predecessors_of_def dominates_def dom_contains_def dominator_self)
qed

lemma from_cfg_entry: "from_cfg c = Some t \<Longrightarrow> dom_entry t = cfg_entry c"
  by (auto simp: from_cfg_def Let_def)

lemma function_analysed:
  assumes "hash_ok hash_order" "graph_ok data"
  shows "\<exists>c t. cfg_new hash_order data = Some (Some c) \<and> from_cfg c = Some t \<and> analysed data c t \<and> entry_bb data = Some (cfg_entry c)"
proof -
  obtain c where c: "cfg_new hash_order data = Some (Some c)" "graph_of data c" using cfg_new_graph [OF assms] by blast
  obtain t where t: "from_cfg c = Some t" "dominance_of data (cfg_entry c) t" using from_cfg_dominance [OF c(2)] by blast
  then show ?thesis using c graph_ofD(1) [OF c(2)] from_cfg_entry by (auto simp: analysed_def)
qed

text \<open>C4: for every well-formed function with a reducible graph and every iteration order of hash maps, the loop analysis returns (the walks and the
  reducibility check end and no assertion fails). It finds one loop for every target of a back edge; the body of a loop is its natural
  loop and its latches are the sources of its back edges. The loops that contain a block are listed exactly, from
  the innermost to the outermost, each strictly inside the next; a preheader is reported exactly when it is the only block outside
  that enters the loop and the header is its only successor.\<close>

theorem loop_analysis_correct:
  assumes "hash_ok hash_order" "graph_ok data" "entry_bb data = Some e" "reducible (flows data) e"
  shows "\<exists>c t a. loop_analysis_new hash_order data = Some (c, t, a) \<and>
    distinct (map loop_header (loops a)) \<and> loop_header ` set (loops a) = {h. \<exists>l. back_edge (flows data) e h l} \<and>
    (\<forall>l \<in> set (loops a). set (loop_body l) = natural_loop (flows data) e (loop_header l) \<and>
       set (loop_latches l) = {k. back_edge (flows data) e (loop_header l) k} \<and>
       (\<forall>p. get_preheader l c = Some (Some p) \<longleftrightarrow>
         {b. reachable data b \<and> flows data b (loop_header l) \<and> b \<notin> natural_loop (flows data) e (loop_header l)} = {p} \<and> {s. flows data p s} = {loop_header l})) \<and>
    (\<forall>i < length (loops a). get_loop_index a (loop_header (loops a ! i)) = Some i) \<and>
    (\<forall>b. containing_loop_indices a b = Some (filter (\<lambda>i. loop_contains (loops a ! i) b) [0..<length (loops a)])) \<and>
    (\<forall>b i j. i < j \<and> j < length (loops a) \<and> loop_contains (loops a ! i) b \<and> loop_contains (loops a ! j) b \<longrightarrow>
       set (loop_body (loops a ! i)) \<subset> set (loop_body (loops a ! j)))"
proof -
  obtain c t where ct: "cfg_new hash_order data = Some (Some c)" "from_cfg c = Some t" "analysed data c t" "cfg_entry c = e"
    using function_analysed [OF assms(1,2)] assms(3) by auto
  note K = known_analysed [OF ct(3), unfolded ct(4)]
  obtain ls where ls: "loops_from_cfg hash_order c = Some (t, forest_of ls)" "nested_loops ls" "\<forall>l \<in> set ls. lg.good_loop data c t l"
      "loop_header ` set ls = {h. \<exists>l. back_edge (flows data) e h l}"
    using lg.loops_from_cfg_ok [of data c t hash_order] ct(2,4) assms(1,4) K(1-3) by auto
  have good: "set (loop_body l) = natural_loop (flows data) e (loop_header l)" "set (loop_latches l) = {k. back_edge (flows data) e (loop_header l) k}"
    "get_preheader l c = Some (Some p) \<longleftrightarrow>
       {b. reachable data b \<and> flows data b (loop_header l) \<and> b \<notin> natural_loop (flows data) e (loop_header l)} = {p} \<and> {s. flows data p s} = {loop_header l}"
    if "l \<in> set ls" for l p
  proof -
    have g: "lg.good_loop data c t l" using ls(3) that by blast
    show "set (loop_body l) = natural_loop (flows data) e (loop_header l)" "set (loop_latches l) = {k. back_edge (flows data) e (loop_header l) k}"
      using g [unfolded lg.good_loop_def, unfolded K(1,3) ct(4)] by simp_all
    show "get_preheader l c = Some (Some p) \<longleftrightarrow>
       {b. reachable data b \<and> flows data b (loop_header l) \<and> b \<notin> natural_loop (flows data) e (loop_header l)} = {p} \<and> {s. flows data p s} = {loop_header l}"
      using lg.preheader_ok(2) [OF g, of p] unfolding K(1,3) ct(4) K(6) .
  qed
  let ?a = "forest_of ls"
  have fields: "loops ?a = ls" "direct_parent ?a = map (parent_of ls) [0..<length ls]" "block_to_inner_loop ?a = inner_loops ls"
    "loop_index ?a = zip (map loop_header ls) [0..<length ls]" by (simp_all add: forest_of_def)
  have dist: "distinct (map loop_header ls)" using ls(2) by (simp add: nested_loops_def)
  have idx: "get_loop_index ?a (loop_header (ls ! i)) = Some i" if "i < length ls" for i
    using dist that by (auto simp: get_loop_index_def fields in_set_zip intro!: exI [of _ i])
  have cont: "containing_loop_indices ?a b = Some (filter (\<lambda>i. loop_contains (ls ! i) b) [0..<length ls])" for b
    using containing_ok [of ?a b] ls(2) unfolding fields loop_contains_def by blast
  have nest: "body_of ls i \<subset> body_of ls j" if "i < j \<and> j < length ls \<and> loop_contains (ls ! i) b \<and> loop_contains (ls ! j) b" for b i j
    using nest_lt [OF ls(2), of i j b] that by (simp add: loop_contains_def)
  have "loop_analysis_new hash_order data = Some (c, t, ?a)"
    using ct(1) ls(1) by (simp add: loop_analysis_new_def del: bind_eq_Some)
  then show ?thesis using dist ls(4)
    by (intro exI [of _ c] exI [of _ t] exI [of _ ?a]) (unfold fields(1), intro conjI ballI allI impI good idx cont, (erule nest | simp)+)
qed

lemma loop_layout_flows: "flows loop_layout a b \<longleftrightarrow> (a, b) \<in> {(0, 1), (1, 2), (1, 3), (2, 1), (4, 3)}"
proof -
  have "block_successors loop_layout a = (if a = 0 then Some [1] else if a = 1 then Some [2, 3] else if a = 2 then Some [1]
      else if a = 3 then Some [] else if a = 4 then Some [3] else None)"
    by (simp add: loop_layout_def block_successors_def rassert_def)
  then show ?thesis by (auto simp: flows_def split: if_splits)
qed

lemma loop_layout_reducible: "reducible (flows loop_layout) 0"
proof -
  have "path_from (flows loop_layout) 0 xs b \<Longrightarrow> b \<in> {1, 2} \<longrightarrow> 1 \<in> set xs" for xs b
    by (induction rule: path_from.induct) (auto simp: loop_layout_flows)
  then have d: "dominator (flows loop_layout) 0 1 2" by (auto simp: dominator_def)
  have "a < b" if f: "forward_edge (flows loop_layout) 0 a b" for a b
  proof -
    have "flows loop_layout a b" "\<not> (a = 2 \<and> b = 1)" using f d by (auto simp: forward_edge_def)
    moreover have "a \<noteq> 4"
    proof
      assume "a = 4"
      then obtain xs where "path_from (flows loop_layout) 0 xs 4" using f by (auto simp: forward_edge_def reached_from_def)
      then show False by (cases rule: path_from.cases) (auto simp: loop_layout_flows)
    qed
    ultimately show ?thesis by (auto simp: loop_layout_flows)
  qed
  then have lt: "a < b" if "forward_edge (flows loop_layout) 0 a b" for a b using that by blast
  have "a < b" if "(forward_edge (flows loop_layout) 0)\<^sup>+\<^sup>+ a b" for a b
    using that by (induction rule: tranclp_induct) (use lt less_trans in blast)+
  then show ?thesis by (auto simp: reducible_def)
qed

theorem loop_analysis_correct_witness:
  "hash_ok (\<lambda>xs. xs) \<and> graph_ok loop_layout \<and> entry_bb loop_layout = Some 0 \<and> reducible (flows loop_layout) 0 \<and>
    (\<exists>c t a. loop_analysis_new (\<lambda>xs. xs) loop_layout = Some (c, t, a) \<and>
      loop_header ` set (loops a) = {h. \<exists>l. back_edge (flows loop_layout) 0 h l})"
proof -
  have e: "entry_bb loop_layout = Some 0" by (simp add: entry_bb_def loop_layout_def)
  obtain c t a where "loop_analysis_new (\<lambda>xs. xs) loop_layout = Some (c, t, a)" "loop_header ` set (loops a) = {h. \<exists>l. back_edge (flows loop_layout) 0 h l}"
    using loop_analysis_correct [OF loop_layout_ok e loop_layout_reducible] by (elim exE conjE)
  then show ?thesis using e loop_layout_ok loop_layout_reducible by auto
qed

end
