(* ===== verification/Abi_Layout.thy ===== *)
theory Abi_Layout
  imports Reg_Encoding Alloc_Output IR_Ops
begin

text \<open>
  The target independent half of the calling convention: \<^verbatim>\<open>taki_mir/src/abi.rs\<close> and the machine types of
  \<^verbatim>\<open>taki_mir/src/types.rs\<close>. \<open>arg_layout\<close> assigns argument registers and stack slots, \<open>callee_abi\<close> is the state
  that lowering fills in (stack objects, outgoing area, bound arguments), and \<open>compute_frame_layout\<close> turns it and
  the result of register allocation into the layout of the frame. A target (the trait \<open>ABIMachineSpec\<close>) is a
  value of the record \<open>machine_spec\<close>. The fields \<open>stackslots_offsets\<close> and \<open>stackslots_keys\<close> of \<open>CalleeABI\<close> are
  never used after construction and are left out.
\<close>

section \<open>Machine types\<close>

datatype lowered_type = LoweredType "16 word"

fun lt_combine :: "lowered_type \<Rightarrow> lowered_type \<Rightarrow> lowered_type" where
  "lt_combine (LoweredType a) (LoweredType b) = LoweredType (a + b)"

definition lt_INT :: lowered_type where "lt_INT = LoweredType 0x0001"
definition lt_FLOAT :: lowered_type where "lt_FLOAT = LoweredType 0x0010"
definition lt_VECTOR :: lowered_type where "lt_VECTOR = LoweredType 0x0002"
definition lt_B32 :: lowered_type where "lt_B32 = LoweredType 0x0100"
definition lt_B64 :: lowered_type where "lt_B64 = LoweredType 0x1000"
definition lt_LANE2 :: lowered_type where "lt_LANE2 = LoweredType 0x0040"
definition lt_LANE4 :: lowered_type where "lt_LANE4 = LoweredType 0x0080"

definition lt_I32 :: lowered_type where "lt_I32 = lt_combine lt_INT lt_B32"
definition lt_I64 :: lowered_type where "lt_I64 = lt_combine lt_INT lt_B64"
definition lt_F32 :: lowered_type where "lt_F32 = lt_combine lt_FLOAT lt_B32"
definition lt_V4I32 :: lowered_type where
  "lt_V4I32 = lt_combine (lt_combine (lt_combine lt_INT lt_B32) lt_VECTOR) lt_LANE4"
definition lt_V2I64 :: lowered_type where
  "lt_V2I64 = lt_combine (lt_combine (lt_combine lt_INT lt_B64) lt_VECTOR) lt_LANE2"
definition lt_V4F32 :: lowered_type where
  "lt_V4F32 = lt_combine (lt_combine (lt_combine lt_FLOAT lt_B32) lt_VECTOR) lt_LANE4"
definition lt_V2F64 :: lowered_type where
  "lt_V2F64 = lt_combine (lt_combine (lt_combine lt_FLOAT lt_B64) lt_VECTOR) lt_LANE2"

lemmas lowered_types = lt_INT_def lt_FLOAT_def lt_VECTOR_def lt_B32_def lt_B64_def lt_LANE2_def lt_LANE4_def
  lt_I32_def lt_I64_def lt_F32_def lt_V4I32_def lt_V2I64_def lt_V4F32_def lt_V2F64_def

fun lt_is_vector :: "lowered_type \<Rightarrow> bool" where
  "lt_is_vector (LoweredType t) = (t AND 0x0002 \<noteq> 0)"

fun lt_lanes :: "lowered_type \<Rightarrow> u32" where
  "lt_lanes (LoweredType t) = drop_bit 5 (ucast t) AND 0x7"

definition lt_size :: "lowered_type \<Rightarrow> u32" where
  "lt_size t = (if lt_is_vector t then 16 else if t = lt_I64 then 8 else 4)"

fun lt_from_vector_type :: "ty \<Rightarrow> usize \<Rightarrow> lowered_type rust" where
  "lt_from_vector_type Int32 lanes = (if lanes = 4 then Some lt_V4I32 else None)"
| "lt_from_vector_type Float32 lanes = (if lanes = 4 then Some lt_V4F32 else None)"
| "lt_from_vector_type (PointerTy _) lanes = (if lanes = 2 then Some lt_V2I64 else None)"
| "lt_from_vector_type _ lanes = None"

fun lt_from_hir :: "ty \<Rightarrow> lowered_type rust" where
  "lt_from_hir Int32 = Some (lt_combine lt_INT lt_B32)"
| "lt_from_hir Float32 = Some (lt_combine lt_FLOAT lt_B32)"
| "lt_from_hir (VectorTy elem lanes) = lt_from_vector_type elem lanes"
| "lt_from_hir (PointerTy _) = Some (lt_combine lt_INT lt_B64)"
| "lt_from_hir _ = None"

section \<open>Argument locations\<close>

datatype stack_amode = IncomingArg i64 u32 | Slot i64 | OutgoingArg i64

definition i64_add :: "i64 \<Rightarrow> i64 \<Rightarrow> i64 rust" where
  "i64_add a b = (if - (2 ^ 63) \<le> sint a + sint b \<and> sint a + sint b < 2 ^ 63 then Some (a + b) else None)"

fun offset_by :: "stack_amode \<Rightarrow> u32 \<Rightarrow> stack_amode rust" where
  "offset_by (IncomingArg off sz) offset = do { o' \<leftarrow> i64_add off (ucast offset); Some (IncomingArg o' sz) }"
| "offset_by (Slot off) offset = do { o' \<leftarrow> i64_add off (ucast offset); Some (Slot o') }"
| "offset_by (OutgoingArg off) offset = do { o' \<leftarrow> i64_add off (ucast offset); Some (OutgoingArg o') }"

datatype arg_slot = RegArg preg ty | StackArg i64 ty

datatype arg_reg_bank = IntBank | FloatBank | VectorBank

record arg_planner =
  int_regs :: "reg list"
  float_regs :: "reg list"
  vector_regs :: "reg list"

definition planner_new :: "reg list \<Rightarrow> reg list \<Rightarrow> arg_planner" where
  "planner_new is fs = \<lparr>int_regs = is, float_regs = fs, vector_regs = []\<rparr>"

definition planner_with_vector_regs :: "reg list \<Rightarrow> reg list \<Rightarrow> reg list \<Rightarrow> arg_planner" where
  "planner_with_vector_regs is fs vs = \<lparr>int_regs = is, float_regs = fs, vector_regs = vs\<rparr>"

text \<open>The locals of \<open>compute\<close>.\<close>

record arg_state =
  as_slots :: "arg_slot list"
  int_index :: usize
  float_index :: usize
  vector_index :: usize
  stack_offset :: u32

fun bank_regs :: "arg_planner \<Rightarrow> arg_reg_bank \<Rightarrow> reg list" where
  "bank_regs p IntBank = int_regs p" | "bank_regs p FloatBank = float_regs p" | "bank_regs p VectorBank = vector_regs p"

fun bank_index :: "arg_state \<Rightarrow> arg_reg_bank \<Rightarrow> usize" where
  "bank_index s IntBank = int_index s" | "bank_index s FloatBank = float_index s" | "bank_index s VectorBank = vector_index s"

fun bump_index :: "arg_state \<Rightarrow> arg_reg_bank \<Rightarrow> arg_state" where
  "bump_index s IntBank = s\<lparr>int_index := int_index s + 1\<rparr>"
| "bump_index s FloatBank = s\<lparr>float_index := float_index s + 1\<rparr>"
| "bump_index s VectorBank = s\<lparr>vector_index := vector_index s + 1\<rparr>"

definition place_arg :: "arg_planner \<Rightarrow> (ty \<Rightarrow> arg_reg_bank rust) \<Rightarrow> (ty \<Rightarrow> u32) \<Rightarrow> arg_state \<Rightarrow> ty \<Rightarrow> arg_state rust" where
  "place_arg p classify stack_slot_size s t = do {
     bank \<leftarrow> classify t;
     let r = vec_get (bank_regs p bank) (bank_index s bank);
     let s = bump_index s bank;
     case r of
       Some r \<Rightarrow> do {
         preg \<leftarrow> reg_to_physical_reg r;
         Some (s\<lparr>as_slots := as_slots s @ [RegArg preg t]\<rparr>) }
     | None \<Rightarrow> do {
         off \<leftarrow> u32_add (stack_offset s) (stack_slot_size t);
         Some (s\<lparr>as_slots := as_slots s @ [StackArg (ucast (stack_offset s)) t], stack_offset := off\<rparr>) } }"

definition planner_compute ::
    "arg_planner \<Rightarrow> ty list \<Rightarrow> (ty \<Rightarrow> arg_reg_bank rust) \<Rightarrow> (ty \<Rightarrow> u32) \<Rightarrow> (arg_slot list \<times> u32) rust" where
  "planner_compute p types classify stack_slot_size = do {
     s \<leftarrow> foldM (place_arg p classify stack_slot_size)
       \<lparr>as_slots = [], int_index = 0, float_index = 0, vector_index = 0, stack_offset = 0\<rparr> types;
     Some (as_slots s, stack_offset s) }"

section \<open>The frame layout\<close>

record frame_layout =
  callee_saved :: "preg list"
  setup_area_size :: u32
  clobber_size :: u32
  spill_size :: u32
  stackslots_size :: u32
  outgoing_args_size :: u32
  total_size :: u32

definition spill_base_bytes :: "frame_layout \<Rightarrow> u32 rust" where
  "spill_base_bytes f = u32_add (outgoing_args_size f) (stackslots_size f)"

definition spill_region_end :: "frame_layout \<Rightarrow> u32 rust" where
  "spill_region_end f = do { base \<leftarrow> spill_base_bytes f; u32_add base (spill_size f) }"

text \<open>The 64-bit products and sums of \<open>spill_slot_offset\<close> are computed as naturals and checked.\<close>

definition spill_slot_offset :: "frame_layout \<Rightarrow> spill_slot \<Rightarrow> u32 \<Rightarrow> i64 rust" where
  "spill_slot_offset f slot unit_bytes = do {
     rassert (unit_bytes > 0);
     let prod = unat (spill_raw_bits slot) * unat unit_bytes;
     rassert (prod < 2 ^ 64);
     base \<leftarrow> spill_base_bytes f;
     let offset = prod + unat base;
     rassert (offset < 2 ^ 64);
     let stop = offset + unat unit_bytes;
     rassert (stop < 2 ^ 64);
     region_end \<leftarrow> spill_region_end f;
     rassert (stop \<le> unat region_end);
     rassert (offset < 2 ^ 63);
     Some (word_of_nat offset) }"

text \<open>The hardware number of a physical register.\<close>

definition hw :: "reg \<Rightarrow> nat" where
  "hw r = (case reg_to_physical_reg r of Some p \<Rightarrow> preg_hw_enc p | None \<Rightarrow> 0)"

record arg_pair =
  ap_vreg :: reg
  ap_preg :: reg

text \<open>The trait \<open>ABIMachineSpec\<close>: the operations that frame and argument handling call.\<close>

record 'i machine_spec =
  word_bytes :: u32
  stack_align :: u32
  spillslot_size :: "reg_class \<Rightarrow> u32"
  spill_unit_bytes :: u32
  is_callee_saved :: "preg \<Rightarrow> bool rust"
  compute_call_arg_loc :: "ty list \<Rightarrow> (arg_slot list \<times> u32) rust"
  gen_incoming_arg_load :: "i64 \<Rightarrow> reg \<Rightarrow> lowered_type \<Rightarrow> 'i list rust"
  gen_args :: "arg_pair list \<Rightarrow> 'i"
  gen_prologue_frame_setup :: "frame_layout \<Rightarrow> 'i list rust"
  gen_epilogue_frame_restore :: "frame_layout \<Rightarrow> 'i list rust"
  gen_clobber_save :: "frame_layout \<Rightarrow> 'i list rust"
  gen_clobber_restore :: "frame_layout \<Rightarrow> 'i list rust"

section \<open>The callee's side of the convention\<close>

type_synonym hir_inst = nat

record callee_abi =
  abi_args :: "arg_slot list"
  total_stackslots_size :: u32
  sized_stack_arg_size :: u32
  alloc_to_ss :: "hir_inst \<rightharpoonup> u32"
  outgoing_arg_size :: u32
  has_calls :: bool
  abi_frame_layout :: "frame_layout option"
  reg_args :: "arg_pair list"
  bound_register_args :: nat
  unused_register_args_skipped :: nat
  incoming_stack_args_loaded :: nat

text \<open>\<open>compute_arg_loc\<close> reads the types of the function's parameters; they are the argument here.\<close>

definition callee_abi_new :: "'i machine_spec \<Rightarrow> ty list \<Rightarrow> callee_abi rust" where
  "callee_abi_new m params = do {
     (args, sz) \<leftarrow> compute_call_arg_loc m params;
     Some \<lparr>abi_args = args, total_stackslots_size = 0, sized_stack_arg_size = sz, alloc_to_ss = Map.empty,
       outgoing_arg_size = 0, has_calls = False, abi_frame_layout = None, reg_args = [],
       bound_register_args = 0, unused_register_args_skipped = 0, incoming_stack_args_loaded = 0\<rparr> }"

definition u32_next_multiple_of :: "u32 \<Rightarrow> u32 \<Rightarrow> u32 rust" where
  "u32_next_multiple_of a b = do {
     r \<leftarrow> u32_rem a b;
     if r = 0 then Some a else u32_add a (b - r) }"

definition allocate_stackslot :: "'i machine_spec \<Rightarrow> callee_abi \<Rightarrow> ty \<Rightarrow> (u32 \<times> callee_abi) rust" where
  "allocate_stackslot m self t = do {
     let ret = total_stackslots_size self;
     actual_size \<leftarrow> u32_next_multiple_of (word_of_nat (ty_size t)) (stack_align m);
     total \<leftarrow> u32_add (total_stackslots_size self) actual_size;
     Some (ret, self\<lparr>total_stackslots_size := total\<rparr>) }"

definition alloc_stackslot_or_get :: "'i machine_spec \<Rightarrow> callee_abi \<Rightarrow> hir_inst \<Rightarrow> ty \<Rightarrow> (u32 \<times> callee_abi) rust" where
  "alloc_stackslot_or_get m self alloc t = (case alloc_to_ss self alloc of
     Some offset \<Rightarrow> Some (offset, self)
   | None \<Rightarrow> do {
       (offset, self) \<leftarrow> allocate_stackslot m self t;
       Some (offset, self\<lparr>alloc_to_ss := (alloc_to_ss self)(alloc \<mapsto> offset)\<rparr>) })"

definition set_outgoing_arg_size :: "callee_abi \<Rightarrow> usize \<Rightarrow> callee_abi" where
  "set_outgoing_arg_size self sz = self\<lparr>outgoing_arg_size := max (outgoing_arg_size self) (word_of_nat sz)\<rparr>"

definition set_has_calls :: "callee_abi \<Rightarrow> callee_abi" where
  "set_has_calls self = self\<lparr>has_calls := True\<rparr>"

text \<open>Register arguments are recorded for the entry pseudo-instruction, stack arguments are loaded.\<close>

definition gen_copy_arg_to_reg :: "'i machine_spec \<Rightarrow> callee_abi \<Rightarrow> usize \<Rightarrow> reg \<Rightarrow> ('i list \<times> callee_abi) rust" where
  "gen_copy_arg_to_reg m self idx into_reg = do {
     slot \<leftarrow> vec_get (abi_args self) idx;
     case slot of
       RegArg preg t \<Rightarrow> do {
         r \<leftarrow> reg_from_physical_reg preg;
         Some ([], self\<lparr>bound_register_args := bound_register_args self + 1,
           reg_args := reg_args self @ [\<lparr>ap_vreg = into_reg, ap_preg = r\<rparr>]\<rparr>) }
     | StackArg offset t \<Rightarrow> do {
         lt \<leftarrow> lt_from_hir t;
         insts \<leftarrow> gen_incoming_arg_load m offset into_reg lt;
         Some (insts, self\<lparr>incoming_stack_args_loaded := incoming_stack_args_loaded self + 1\<rparr>) } }"

definition note_unused_register_arg :: "callee_abi \<Rightarrow> callee_abi" where
  "note_unused_register_arg self = self\<lparr>unused_register_args_skipped := unused_register_args_skipped self + 1\<rparr>"

definition get_frame_layout :: "callee_abi \<Rightarrow> frame_layout rust" where
  "get_frame_layout self = abi_frame_layout self"

definition get_arg_slot :: "callee_abi \<Rightarrow> usize \<Rightarrow> arg_slot rust" where
  "get_arg_slot self idx = vec_get (abi_args self) idx"

definition take_args :: "'i machine_spec \<Rightarrow> callee_abi \<Rightarrow> 'i option \<times> callee_abi" where
  "take_args m self =
    (if reg_args self = [] then (None, self) else (Some (gen_args m (reg_args self)), self\<lparr>reg_args := []\<rparr>))"

definition gen_prologue :: "'i machine_spec \<Rightarrow> callee_abi \<Rightarrow> 'i list rust" where
  "gen_prologue m self = do {
     frame \<leftarrow> get_frame_layout self;
     setup \<leftarrow> gen_prologue_frame_setup m frame;
     save \<leftarrow> gen_clobber_save m frame;
     Some (setup @ save) }"

definition gen_epilogue :: "'i machine_spec \<Rightarrow> callee_abi \<Rightarrow> 'i list rust" where
  "gen_epilogue m self = do {
     frame \<leftarrow> get_frame_layout self;
     restore \<leftarrow> gen_clobber_restore m frame;
     teardown \<leftarrow> gen_epilogue_frame_restore m frame;
     Some (restore @ teardown) }"

section \<open>Computing the frame layout\<close>

text \<open>Results with an error message: the outer \<open>option\<close> is the panic, the sum is \<open>Result\<close>.\<close>

type_synonym 'a result = "string + 'a"

definition ok_or :: "'a option \<Rightarrow> string \<Rightarrow> 'a result" where
  "ok_or x e = (case x of Some v \<Rightarrow> Inr v | None \<Rightarrow> Inl e)"

definition and_then :: "'a result rust \<Rightarrow> ('a \<Rightarrow> 'b result rust) \<Rightarrow> 'b result rust" where
  "and_then x f = do { r \<leftarrow> x; case r of Inl e \<Rightarrow> Some (Inl e) | Inr v \<Rightarrow> f v }"

definition used_regs :: "ra_output \<Rightarrow> preg list rust" where
  "used_regs output = do {
     as \<leftarrow> foldM (\<lambda>acc a. do { r \<leftarrow> allocation_as_reg a; Some (acc @ (case r of Some p \<Rightarrow> [p] | None \<Rightarrow> [])) }) []
       (out_allocs output);
     foldM (\<lambda>acc (_, edit). case edit of Move from to _ _ \<Rightarrow> do {
         r1 \<leftarrow> allocation_as_reg from;
         r2 \<leftarrow> allocation_as_reg to;
         Some (acc @ (case r1 of Some p \<Rightarrow> [p] | None \<Rightarrow> []) @ (case r2 of Some p \<Rightarrow> [p] | None \<Rightarrow> [])) }) as
       (out_edits output) }"

definition filter_callee_saved :: "'i machine_spec \<Rightarrow> preg list \<Rightarrow> preg list rust" where
  "filter_callee_saved m ps =
    foldM (\<lambda>acc p. do { c \<leftarrow> is_callee_saved m p; Some (if c then acc @ [p] else acc) }) [] ps"

text \<open>\<open>sort_unstable\<close> and \<open>dedup\<close> on \<open>PReg\<close>, which is ordered by its bits.\<close>

definition sort_dedup :: "preg list \<Rightarrow> preg list" where
  "sort_dedup ps = remdups_adj (sort_key preg_repr ps)"

definition clobber_step :: "'i machine_spec \<Rightarrow> u32 \<Rightarrow> preg \<Rightarrow> u32 result rust" where
  "clobber_step m offset p = do {
     cls \<leftarrow> preg_class p;
     and_then (Some (ok_or (u32_mul (spillslot_size m cls) (spill_unit_bytes m)) ''callee-save slot size overflow'')) (\<lambda>sz.
       and_then (if sz > word_bytes m
         then Some (ok_or (map_option (\<lambda>x. x AND NOT (sz - 1)) (u32_add offset (sz - 1))) ''callee-save alignment overflow'')
         else Some (Inr offset)) (\<lambda>offset.
       Some (ok_or (u32_add offset sz) ''callee-save area exceeds frame range''))) }"

fun clobber_area :: "'i machine_spec \<Rightarrow> u32 \<Rightarrow> preg list \<Rightarrow> u32 result rust" where
  "clobber_area m offset [] = Some (Inr offset)"
| "clobber_area m offset (p # ps) = and_then (clobber_step m offset p) (\<lambda>offset. clobber_area m offset ps)"

definition compute_frame_layout :: "'i machine_spec \<Rightarrow> callee_abi \<Rightarrow> u32 \<Rightarrow> ra_output \<Rightarrow> callee_abi result rust" where
  "compute_frame_layout m self spills output = do {
     used \<leftarrow> used_regs output;
     saved \<leftarrow> filter_callee_saved m used;
     let saved = sort_dedup saved;
     let slots = total_stackslots_size self;
     let outgoing = outgoing_arg_size self;
     and_then (clobber_area m 0 saved) (\<lambda>clobber. do {
       setup \<leftarrow> (if has_calls self \<or> sized_stack_arg_size self > 0 \<or> total_stackslots_size self > 0
           \<or> clobber > 0 \<or> spills > 0
         then u32_mul 2 (word_bytes m) else Some 0);
       and_then (Some (ok_or (do { t \<leftarrow> u32_add setup clobber; t \<leftarrow> u32_add t spills; t \<leftarrow> u32_add t slots; u32_add t outgoing })
           ''frame size exceeds frame range'')) (\<lambda>total.
       and_then (Some (ok_or (u32_sub (stack_align m) 1) ''invalid stack alignment'')) (\<lambda>pad.
       and_then (Some (ok_or (map_option (\<lambda>sz. sz div stack_align m * stack_align m) (u32_add total pad))
           ''aligned frame size exceeds frame range'')) (\<lambda>total.
         Some (Inr (self\<lparr>abi_frame_layout := Some \<lparr>callee_saved = saved, setup_area_size = setup, clobber_size = clobber,
           spill_size = spills, stackslots_size = slots, outgoing_args_size = outgoing, total_size = total\<rparr>\<rparr>))))) }) }"

section \<open>What the argument planner computes\<close>

text \<open>The number of earlier arguments of the same bank, whether an argument goes to the stack, and the bytes that
  the stack arguments before position \<open>i\<close> take.\<close>

definition bank_rank :: "(ty \<Rightarrow> arg_reg_bank) \<Rightarrow> ty list \<Rightarrow> nat \<Rightarrow> nat" where
  "bank_rank bank types i = length (filter (\<lambda>t. bank t = bank (types ! i)) (take i types))"

definition on_stack :: "arg_planner \<Rightarrow> (ty \<Rightarrow> arg_reg_bank) \<Rightarrow> ty list \<Rightarrow> nat \<Rightarrow> bool" where
  "on_stack p bank types i = (length (bank_regs p (bank (types ! i))) \<le> bank_rank bank types i)"

definition stack_before :: "arg_planner \<Rightarrow> (ty \<Rightarrow> arg_reg_bank) \<Rightarrow> (ty \<Rightarrow> u32) \<Rightarrow> ty list \<Rightarrow> nat \<Rightarrow> nat" where
  "stack_before p bank slot_size types i =
    sum_list (map (\<lambda>j. if on_stack p bank types j then unat (slot_size (types ! j)) else 0) [0..<i])"

definition arg_location :: "arg_planner \<Rightarrow> (ty \<Rightarrow> arg_reg_bank) \<Rightarrow> (ty \<Rightarrow> u32) \<Rightarrow> ty list \<Rightarrow> nat \<Rightarrow> arg_slot" where
  "arg_location p bank slot_size types i =
    (if on_stack p bank types i then StackArg (word_of_nat (stack_before p bank slot_size types i)) (types ! i)
     else RegArg (the (reg_to_physical_reg (bank_regs p (bank (types ! i)) ! bank_rank bank types i))) (types ! i))"

lemma bank_rank_append: "i < length xs \<Longrightarrow> bank_rank bank (xs @ ys) i = bank_rank bank xs i"
  by (simp add: bank_rank_def nth_append)

lemma on_stack_append: "i < length xs \<Longrightarrow> on_stack p bank (xs @ ys) i = on_stack p bank xs i"
  by (simp add: on_stack_def bank_rank_append nth_append)

lemma stack_before_append: "i \<le> length xs \<Longrightarrow> stack_before p bank ss (xs @ ys) i = stack_before p bank ss xs i"
  by (auto simp: stack_before_def on_stack_append nth_append intro!: arg_cong [where f = sum_list])

lemma arg_location_append: "i < length xs \<Longrightarrow> arg_location p bank ss (xs @ ys) i = arg_location p bank ss xs i"
  by (simp add: arg_location_def on_stack_append stack_before_append bank_rank_append nth_append)

lemmas prefix_simps = bank_rank_append on_stack_append stack_before_append arg_location_append

lemma stack_before_Suc: "stack_before p bank ss types (Suc i)
    = stack_before p bank ss types i + (if on_stack p bank types i then unat (ss (types ! i)) else 0)"
  by (simp add: stack_before_def)

lemma stack_before_mono: "i \<le> j \<Longrightarrow> stack_before p bank ss types i \<le> stack_before p bank ss types j"
  by (rule lift_Suc_mono_le [of "stack_before p bank ss types"]) (simp_all add: stack_before_Suc)

lemma foldM_snoc: "foldM f s (xs @ [x]) = do { s' \<leftarrow> foldM f s xs; f s' x }"
  by (induction xs arbitrary: s) (simp_all split: bind_split)

definition planned :: "arg_planner \<Rightarrow> (ty \<Rightarrow> arg_reg_bank) \<Rightarrow> (ty \<Rightarrow> u32) \<Rightarrow> ty list \<Rightarrow> arg_state" where
  "planned p bank ss types = \<lparr>as_slots = map (arg_location p bank ss types) [0..<length types],
     int_index = length (filter (\<lambda>t. bank t = IntBank) types),
     float_index = length (filter (\<lambda>t. bank t = FloatBank) types),
     vector_index = length (filter (\<lambda>t. bank t = VectorBank) types),
     stack_offset = word_of_nat (stack_before p bank ss types (length types))\<rparr>"

lemma bank_index_planned: "bank_index (planned p bank ss xs) (bank t) = bank_rank bank (xs @ [t]) (length xs)"
  by (cases "bank t") (simp_all add: planned_def bank_rank_def)

lemma place_arg_planned:
  assumes cl: "classify t = Some (bank t)"
    and phys: "\<And>r. r \<in> set (bank_regs p (bank t)) \<Longrightarrow> reg_to_physical_reg r \<noteq> None"
    and lt: "stack_before p bank ss xs (length xs) < 2 ^ 32"
  shows "place_arg p classify ss (planned p bank ss xs) t =
    (if stack_before p bank ss (xs @ [t]) (Suc (length xs)) < 2 ^ 32 then Some (planned p bank ss (xs @ [t])) else None)"
proof -
  let ?n = "length xs" and ?s = "planned p bank ss xs"
  let ?rank = "bank_rank bank (xs @ [t]) ?n" and ?regs = "bank_regs p (bank t)"
  have slots: "map (arg_location p bank ss (xs @ [t])) [0..<?n] = as_slots ?s"
    by (auto simp: planned_def prefix_simps)
  have bump: "bump_index ?s (bank t) = (planned p bank ss (xs @ [t]))\<lparr>as_slots := as_slots ?s, stack_offset := stack_offset ?s\<rparr>"
    by (cases "bank t") (simp_all add: planned_def)
  have keep: "as_slots (bump_index ?s (bank t)) = as_slots ?s" "stack_offset (bump_index ?s (bank t)) = stack_offset ?s"
    by (cases "bank t"; simp)+
  have off: "unat (stack_offset ?s) = stack_before p bank ss xs ?n"
    using lt by (simp add: planned_def unat_of_nat_lt)
  have get: "vec_get ?regs (bank_index ?s (bank t)) = (if on_stack p bank (xs @ [t]) ?n then None else Some (?regs ! ?rank))"
    by (auto simp: vec_get_def bank_index_planned on_stack_def)
  show ?thesis
  proof (cases "on_stack p bank (xs @ [t]) ?n")
    case True
    have sum: "stack_before p bank ss (xs @ [t]) (Suc ?n) = stack_before p bank ss xs ?n + unat (ss t)"
      using True by (simp add: stack_before_Suc prefix_simps)
    have "ucast (stack_offset ?s) = (word_of_nat (unat (stack_offset ?s)) :: i64)" by simp
    then have loc: "arg_location p bank ss (xs @ [t]) ?n = StackArg (ucast (stack_offset ?s)) t"
      using True off by (simp add: arg_location_def prefix_simps)
    have add: "u32_add (stack_offset ?s) (ss t) = (if stack_before p bank ss (xs @ [t]) (Suc ?n) < 2 ^ 32
        then Some (word_of_nat (stack_before p bank ss (xs @ [t]) (Suc ?n))) else None)"
    proof (cases "stack_before p bank ss (xs @ [t]) (Suc ?n) < 2 ^ 32")
      case le: True
      then have "u32_add (stack_offset ?s) (ss t) = Some (stack_offset ?s + ss t)" by (simp add: u32_add_eq_Some sum off)
      moreover have "stack_offset ?s + ss t = word_of_nat (stack_before p bank ss (xs @ [t]) (Suc ?n))"
        unfolding sum off [symmetric] by simp
      ultimately show ?thesis using le by simp
    next
      case False
      have "\<nexists>y. u32_add (stack_offset ?s) (ss t) = Some y" using False by (simp add: u32_add_eq_Some sum off)
      then show ?thesis using False by simp
    qed
    show ?thesis
      using True cl add loc slots
      by (simp add: place_arg_def get bump del: bind_eq_Some) (auto simp: planned_def)
  next
    case False
    then have "?rank < length ?regs" by (simp add: on_stack_def)
    then obtain pr where pr: "reg_to_physical_reg (?regs ! ?rank) = Some pr" using phys nth_mem by blast
    have sum: "stack_before p bank ss (xs @ [t]) (Suc ?n) = stack_before p bank ss xs ?n"
      using False by (simp add: stack_before_Suc prefix_simps)
    have "arg_location p bank ss (xs @ [t]) ?n = RegArg pr t" using False pr by (simp add: arg_location_def)
    then show ?thesis
      using False cl pr slots lt sum
      by (simp add: place_arg_def get bump del: bind_eq_Some) (simp add: planned_def)
  qed
qed

lemma planner_compute_planned:
  assumes "\<And>t. t \<in> set types \<Longrightarrow> classify t = Some (bank t)"
    and "\<And>b r. r \<in> set (bank_regs p b) \<Longrightarrow> reg_to_physical_reg r \<noteq> None"
  shows "foldM (place_arg p classify ss) (planned p bank ss []) types
    = (if stack_before p bank ss types (length types) < 2 ^ 32 then Some (planned p bank ss types) else None)"
  using assms
proof (induction types rule: rev_induct)
  case Nil
  then show ?case by (simp add: stack_before_def)
next
  case (snoc t xs)
  have ih: "foldM (place_arg p classify ss) (planned p bank ss []) xs
      = (if stack_before p bank ss xs (length xs) < 2 ^ 32 then Some (planned p bank ss xs) else None)"
    using snoc by simp
  have le: "stack_before p bank ss xs (length xs) \<le> stack_before p bank ss (xs @ [t]) (Suc (length xs))"
    by (simp add: stack_before_Suc prefix_simps)
  show ?case
  proof (cases "stack_before p bank ss xs (length xs) < 2 ^ 32")
    case True
    show ?thesis using place_arg_planned [where xs = xs and classify = classify and t = t and p = p and bank = bank and ss = ss]
        snoc.prems True ih by (simp add: foldM_snoc del: bind_eq_Some)
  qed (use ih le in \<open>simp add: foldM_snoc del: bind_eq_Some\<close>)
qed

text \<open>An argument goes to the next register of its bank, or, when the bank is used up, to the stack right after
  the stack arguments before it; the size returned is the sum of the stack slots. The planner panics exactly when
  that sum does not fit in 32 bits.\<close>

lemma argument_layout:
  assumes "\<And>t. t \<in> set types \<Longrightarrow> classify t = Some (bank t)"
    and "\<And>b r. r \<in> set (bank_regs p b) \<Longrightarrow> reg_to_physical_reg r \<noteq> None"
  shows "planner_compute p types classify slot_size =
    (if stack_before p bank slot_size types (length types) < 2 ^ 32
     then Some (map (arg_location p bank slot_size types) [0..<length types],
       word_of_nat (stack_before p bank slot_size types (length types)))
     else None)"
proof -
  have "planned p bank slot_size [] = \<lparr>as_slots = [], int_index = 0, float_index = 0, vector_index = 0, stack_offset = 0\<rparr>"
    by (simp add: planned_def stack_before_def)
  moreover have "foldM (place_arg p classify slot_size) (planned p bank slot_size []) types
    = (if stack_before p bank slot_size types (length types) < 2 ^ 32 then Some (planned p bank slot_size types) else None)"
    using assms by (rule planner_compute_planned)
  ultimately show ?thesis unfolding planner_compute_def by (simp add: planned_def del: bind_eq_Some)
qed

text \<open>Two arguments on the stack do not overlap.\<close>

lemma stack_arguments_disjoint:
  assumes "i < j" and "on_stack p bank types i"
  shows "stack_before p bank ss types i + unat (ss (types ! i)) \<le> stack_before p bank ss types j"
  using stack_before_mono [of "Suc i" j p bank ss types] assms by (simp add: stack_before_Suc)

text \<open>Two arguments of a bank in registers are in different registers of the bank.\<close>

lemma bank_rank_strict:
  assumes "i < j" and "j < length types" and "bank (types ! i) = bank (types ! j)"
  shows "bank_rank bank types i < bank_rank bank types j"
proof -
  have "take j types = take (Suc i) types @ take (j - Suc i) (drop (Suc i) types)"
    using assms(1) take_add [of "Suc i" "j - Suc i" types] by simp
  also have "take (Suc i) types = take i types @ [types ! i]" using assms by (simp add: take_Suc_conv_app_nth)
  finally show ?thesis using assms(3) by (simp add: bank_rank_def)
qed

section \<open>Spill slots\<close>

lemma spill_slot_offset_eq:
  assumes "spill_slot_offset f slot u = Some off"
  shows "unat off = unat (outgoing_args_size f) + unat (stackslots_size f) + unat (spill_raw_bits slot) * unat u"
    and "unat off + unat u \<le> unat (outgoing_args_size f) + unat (stackslots_size f) + unat (spill_size f)"
proof -
  obtain base e where b: "spill_base_bytes f = Some base" and e: "u32_add base (spill_size f) = Some e"
    and lt: "unat (spill_raw_bits slot) * unat u + unat base < 2 ^ 63"
    and le: "unat (spill_raw_bits slot) * unat u + unat base + unat u \<le> unat e"
    and off: "off = word_of_nat (unat (spill_raw_bits slot) * unat u + unat base)"
    using assms unfolding spill_slot_offset_def spill_region_end_def Let_def by auto
  have base: "unat base = unat (outgoing_args_size f) + unat (stackslots_size f)"
    using b by (auto simp: spill_base_bytes_def u32_add_eq_Some unat_u32_add)
  have "unat e = unat base + unat (spill_size f)" using e by (auto simp: u32_add_eq_Some unat_u32_add)
  moreover have "unat off = unat (spill_raw_bits slot) * unat u + unat base"
    unfolding off using lt by (intro unat_of_nat_lt) simp
  ultimately show "unat off = unat (outgoing_args_size f) + unat (stackslots_size f) + unat (spill_raw_bits slot) * unat u"
    and "unat off + unat u \<le> unat (outgoing_args_size f) + unat (stackslots_size f) + unat (spill_size f)"
    using base le by simp_all
qed

lemma spill_slots_disjoint:
  assumes "spill_slot_offset f s1 u = Some o1" and "spill_slot_offset f s2 u = Some o2"
    and "spill_raw_bits s1 < spill_raw_bits s2"
  shows "unat o1 + unat u \<le> unat o2"
proof -
  have "Suc (unat (spill_raw_bits s1)) * unat u \<le> unat (spill_raw_bits s2) * unat u"
    using assms(3) by (intro mult_le_mono1) (simp add: word_less_nat_alt)
  then show ?thesis using spill_slot_offset_eq(1) [OF assms(1)] spill_slot_offset_eq(1) [OF assms(2)] by simp
qed

section \<open>Stack objects\<close>

text \<open>Every stack object fits into the object area and is aligned, and two objects do not overlap.\<close>

definition objects_ok :: "u32 \<Rightarrow> (hir_inst \<Rightarrow> ty) \<Rightarrow> callee_abi \<Rightarrow> bool" where
  "objects_ok align tyof self =
    (unat align dvd unat (total_stackslots_size self)
     \<and> (\<forall>a off. alloc_to_ss self a = Some off \<longrightarrow>
         unat align dvd unat off \<and> unat off + ty_size (tyof a) \<le> unat (total_stackslots_size self))
     \<and> (\<forall>a b o1 o2. alloc_to_ss self a = Some o1 \<longrightarrow> alloc_to_ss self b = Some o2 \<longrightarrow> a \<noteq> b
         \<longrightarrow> unat o1 + ty_size (tyof a) \<le> unat o2 \<or> unat o2 + ty_size (tyof b) \<le> unat o1))"

lemma next_multiple_of_ge:
  assumes "u32_next_multiple_of a b = Some c"
  shows "unat a \<le> unat c" and "unat b dvd unat c"
proof -
  have b: "b \<noteq> 0" and c: "(if a mod b = 0 then Some a else u32_add a (b - a mod b)) = Some c"
    using assms by (auto simp: u32_next_multiple_of_def u32_rem_def split: if_splits)
  have pos: "0 < unat b" using b by (simp add: unat_gt_0)
  have r: "unat (a mod b) = unat a mod unat b" by (simp add: unat_mod)
  have "unat a \<le> unat c \<and> unat b dvd unat c"
  proof (cases "a mod b = 0")
    case True
    then have "unat a mod unat b = 0" using r by simp
    then show ?thesis using c True by auto
  next
    case False
    have "unat (a mod b) < unat b" using r pos by simp
    then have d: "unat (b - a mod b) = unat b - unat a mod unat b" using r by (subst unat_sub) (auto simp: word_le_nat_alt)
    have "unat c = unat a + (unat b - unat a mod unat b)"
      using c False d by (auto simp: u32_add_eq_Some unat_u32_add)
    also have "\<dots> = (unat a - unat a mod unat b) + unat b"
      using pos mod_less_divisor [of "unat b" "unat a"] mod_less_eq_dividend [of "unat a" "unat b"] by linarith
    finally have e: "unat c = (unat a - unat a mod unat b) + unat b" .
    have "unat a \<le> unat c" using e mod_less_divisor [OF pos, of "unat a"] by linarith
    moreover have "unat b dvd unat c" unfolding e by (rule dvd_add [OF dvd_minus_mod dvd_refl])
    ultimately show ?thesis by simp
  qed
  then show "unat a \<le> unat c" and "unat b dvd unat c" by simp_all
qed

lemma allocate_stackslot_eq:
  assumes "allocate_stackslot m self t = Some (off, self')" and "ty_size t < 2 ^ 32"
  shows "off = total_stackslots_size self"
    and "self' = self\<lparr>total_stackslots_size := total_stackslots_size self'\<rparr>"
    and "unat off + ty_size t \<le> unat (total_stackslots_size self')"
    and "unat (stack_align m) dvd unat (total_stackslots_size self) \<Longrightarrow> unat (stack_align m) dvd unat (total_stackslots_size self')"
proof -
  obtain n tot where n: "u32_next_multiple_of (word_of_nat (ty_size t)) (stack_align m) = Some n"
    and tot: "u32_add (total_stackslots_size self) n = Some tot" and off: "off = total_stackslots_size self"
    and self': "self' = self\<lparr>total_stackslots_size := tot\<rparr>"
    using assms(1) unfolding allocate_stackslot_def Let_def by auto
  have sum: "unat tot = unat (total_stackslots_size self) + unat n" using tot by (auto simp: u32_add_eq_Some unat_u32_add)
  have "ty_size t \<le> unat n" using next_multiple_of_ge(1) [OF n] assms(2) by (simp add: unat_of_nat_lt)
  then show "unat off + ty_size t \<le> unat (total_stackslots_size self')" using sum off self' by simp
  show "off = total_stackslots_size self" by (fact off)
  show "self' = self\<lparr>total_stackslots_size := total_stackslots_size self'\<rparr>" using self' by simp
  show "unat (stack_align m) dvd unat (total_stackslots_size self')"
    if "unat (stack_align m) dvd unat (total_stackslots_size self)"
    using that next_multiple_of_ge(2) [OF n] sum self' by simp
qed

lemma alloc_stackslot_or_get_ok:
  assumes ok: "objects_ok (stack_align m) tyof self" and sz: "ty_size (tyof a) < 2 ^ 32"
    and run: "alloc_stackslot_or_get m self a (tyof a) = Some (off, self')"
  shows "objects_ok (stack_align m) tyof self'" and "alloc_to_ss self' a = Some off"
    and "alloc_to_ss self \<subseteq>\<^sub>m alloc_to_ss self'"
proof -
  have "objects_ok (stack_align m) tyof self' \<and> alloc_to_ss self' a = Some off \<and> alloc_to_ss self \<subseteq>\<^sub>m alloc_to_ss self'"
  proof (cases "alloc_to_ss self a")
    case (Some o')
    then show ?thesis using run ok by (auto simp: alloc_stackslot_or_get_def)
  next
    case None
    obtain s where s: "allocate_stackslot m self (tyof a) = Some (off, s)"
      and self': "self' = s\<lparr>alloc_to_ss := (alloc_to_ss s)(a \<mapsto> off)\<rparr>"
      using run None by (auto simp: alloc_stackslot_or_get_def)
    note eq = allocate_stackslot_eq [OF s sz]
    have ss: "alloc_to_ss s = alloc_to_ss self" by (subst eq(2)) simp
    have old: "unat o1 + ty_size (tyof b) \<le> unat off" if "alloc_to_ss self b = Some o1" for b o1
      using ok that eq(1) by (simp add: objects_ok_def)
    have "unat off \<le> unat (total_stackslots_size s)" using eq(3) by simp
    then have "unat o1 + ty_size (tyof b) \<le> unat (total_stackslots_size s)" if "alloc_to_ss self b = Some o1" for b o1
      using old [OF that] by simp
    then have "objects_ok (stack_align m) tyof self'"
      using ok eq(1,3,4) old unfolding objects_ok_def self' by (auto simp: ss)
    then show ?thesis using None by (auto simp: self' ss map_le_def)
  qed
  then show "objects_ok (stack_align m) tyof self'" and "alloc_to_ss self' a = Some off"
    and "alloc_to_ss self \<subseteq>\<^sub>m alloc_to_ss self'" by blast+
qed

section \<open>The layout that is computed\<close>

lemma and_then_eq: "(and_then x f = Some (Inr y)) = (\<exists>v. x = Some (Inr v) \<and> f v = Some (Inr y))"
proof (cases x)
  case (Some r)
  then show ?thesis by (cases r) (simp_all add: and_then_def)
qed (simp add: and_then_def)

lemma ok_or_eq: "(ok_or x e = Inr v) = (x = Some v)"
  by (cases x) (simp_all add: ok_or_def)

lemma round_up:
  assumes "u32_sub al 1 = Some pad" and "u32_add t pad = Some x" and "r = x div al * al"
  shows "unat t \<le> unat r" and "unat r < unat t + unat al" and "unat al dvd unat r"
proof -
  have al: "0 < unat al" and pad: "unat pad = unat al - 1"
    using assms(1) by (auto simp: u32_sub_eq_Some unat_u32_sub word_le_nat_alt)
  have x: "unat x = unat t + (unat al - 1)" using assms(2) pad by (auto simp: u32_add_eq_Some unat_u32_add)
  have "unat x div unat al * unat al < 2 ^ 32" using le_less_trans [OF div_times_less_eq_dividend unat_lt [of x]] by simp
  then have r: "unat r = unat x div unat al * unat al"
    unfolding assms(3) by (subst unat_u32_mul) (simp_all add: unat_div)
  have "unat x div unat al * unat al + unat x mod unat al = unat x" by simp
  moreover have "unat x mod unat al < unat al" using al by simp
  ultimately show "unat t \<le> unat r" and "unat r < unat t + unat al" using r x al by linarith+
  show "unat al dvd unat r" unfolding r by simp
qed

text \<open>Everything the layout records, in terms of the inputs.\<close>

definition area_sum :: "frame_layout \<Rightarrow> nat" where
  "area_sum f = unat (setup_area_size f) + unat (clobber_size f) + unat (spill_size f) + unat (stackslots_size f)
     + unat (outgoing_args_size f)"

lemma compute_frame_layout_eq:
  assumes "compute_frame_layout m self spills output = Some (Inr self')"
  obtains f used saved where "self' = self\<lparr>abi_frame_layout := Some f\<rparr>"
    and "used_regs output = Some used" and "filter_callee_saved m used = Some saved"
    and "callee_saved f = sort_dedup saved" and "clobber_area m 0 (callee_saved f) = Some (Inr (clobber_size f))"
    and "spill_size f = spills" and "stackslots_size f = total_stackslots_size self"
    and "outgoing_args_size f = outgoing_arg_size self"
    and "setup_area_size f = (if has_calls self \<or> sized_stack_arg_size self > 0 \<or> total_stackslots_size self > 0
           \<or> clobber_size f > 0 \<or> spills > 0 then 2 * word_bytes m else 0)"
    and "area_sum f \<le> unat (total_size f)" and "unat (total_size f) < area_sum f + unat (stack_align m)"
    and "unat (stack_align m) dvd unat (total_size f)"
proof -
  obtain used saved0 clobber su ta tb tc total0 pad total1 total where
    used: "used_regs output = Some used" "filter_callee_saved m used = Some saved0"
    and cl: "clobber_area m 0 (sort_dedup saved0) = Some (Inr clobber)"
    and su: "(if has_calls self \<or> sized_stack_arg_size self > 0 \<or> total_stackslots_size self > 0
           \<or> clobber > 0 \<or> spills > 0 then u32_mul 2 (word_bytes m) else Some 0) = Some su"
    and t0: "u32_add su clobber = Some ta" "u32_add ta spills = Some tb" "u32_add tb (total_stackslots_size self) = Some tc"
       "u32_add tc (outgoing_arg_size self) = Some total0"
    and pad: "u32_sub (stack_align m) 1 = Some pad" and t1: "u32_add total0 pad = Some total1"
    and total: "total = total1 div stack_align m * stack_align m"
    and self': "self\<lparr>abi_frame_layout := Some \<lparr>callee_saved = sort_dedup saved0, setup_area_size = su,
        clobber_size = clobber, spill_size = spills, stackslots_size = total_stackslots_size self,
        outgoing_args_size = outgoing_arg_size self, total_size = total\<rparr>\<rparr> = self'"
    using assms unfolding compute_frame_layout_def Let_def bind_eq_Some and_then_eq option.inject sum.inject ok_or_eq
      map_option_eq_Some by (elim exE conjE) (rule that, assumption+, rule sym, assumption+)
  let ?f = "\<lparr>callee_saved = sort_dedup saved0, setup_area_size = su,
        clobber_size = clobber, spill_size = spills, stackslots_size = total_stackslots_size self,
        outgoing_args_size = outgoing_arg_size self, total_size = total\<rparr>"
  have sum: "unat total0 = area_sum ?f"
    using t0 by (auto simp: u32_add_eq_Some unat_u32_add area_sum_def)
  have st: "su = (if has_calls self \<or> sized_stack_arg_size self > 0 \<or> total_stackslots_size self > 0
           \<or> clobber > 0 \<or> spills > 0 then 2 * word_bytes m else 0)"
    using su by (auto simp: u32_mul_eq_Some split: if_splits)
  note r = round_up [OF pad t1 total, unfolded sum]
  show ?thesis
    by (rule that [of ?f used saved0]) (use self' used cl st r in \<open>simp_all add: area_sum_def\<close>)
qed

section \<open>The registers to save\<close>

text \<open>Registers that an allocation or an end of a move names.\<close>

definition allocated_regs :: "ra_output \<Rightarrow> preg set" where
  "allocated_regs output = {p. (\<exists>a \<in> set (out_allocs output). allocation_as_reg a = Some (Some p))
     \<or> (\<exists>pt from to cls v. (pt, Move from to cls v) \<in> set (out_edits output)
         \<and> (allocation_as_reg from = Some (Some p) \<or> allocation_as_reg to = Some (Some p)))}"

lemma foldM_collect:
  "foldM (\<lambda>acc x. do { r \<leftarrow> g x; Some (acc @ r) }) acc xs = Some ys
    \<Longrightarrow> set ys = set acc \<union> {p. \<exists>x \<in> set xs. \<exists>r. g x = Some r \<and> p \<in> set r} \<and> (\<forall>x \<in> set xs. g x \<noteq> None)"
proof (induction xs arbitrary: acc)
  case (Cons x xs)
  obtain r where r: "g x = Some r" and rest: "foldM (\<lambda>acc x. do { r \<leftarrow> g x; Some (acc @ r) }) (acc @ r) xs = Some ys"
    using Cons.prems by auto
  show ?case using Cons.IH [OF rest] r by auto
qed simp

definition alloc_reg_list :: "allocation \<Rightarrow> preg list rust" where
  "alloc_reg_list a = do { r \<leftarrow> allocation_as_reg a; Some (case r of Some p \<Rightarrow> [p] | None \<Rightarrow> []) }"

definition edit_reg_list :: "prog_point \<times> edit \<Rightarrow> preg list rust" where
  "edit_reg_list e = (case snd e of Move from to _ _ \<Rightarrow> do { r1 \<leftarrow> alloc_reg_list from; r2 \<leftarrow> alloc_reg_list to; Some (r1 @ r2) })"

lemma used_regs_collect: "used_regs output = do {
    as \<leftarrow> foldM (\<lambda>acc a. do { r \<leftarrow> alloc_reg_list a; Some (acc @ r) }) [] (out_allocs output);
    foldM (\<lambda>acc e. do { r \<leftarrow> edit_reg_list e; Some (acc @ r) }) as (out_edits output) }"
proof -
  have "do { r \<leftarrow> allocation_as_reg a; Some (acc @ (case r of Some p \<Rightarrow> [p] | None \<Rightarrow> [])) }
      = do { r \<leftarrow> alloc_reg_list a; Some (acc @ r) }" for acc a
    by (cases "allocation_as_reg a") (simp_all add: alloc_reg_list_def)
  moreover have "(case e of (_, edit) \<Rightarrow> (case edit of Move from to _ _ \<Rightarrow> do {
         r1 \<leftarrow> allocation_as_reg from;
         r2 \<leftarrow> allocation_as_reg to;
         Some (acc @ (case r1 of Some p \<Rightarrow> [p] | None \<Rightarrow> []) @ (case r2 of Some p \<Rightarrow> [p] | None \<Rightarrow> [])) }))
      = do { r \<leftarrow> edit_reg_list e; Some (acc @ r) }" for acc e
    by (cases e; cases "snd e") (simp add: edit_reg_list_def alloc_reg_list_def)
  ultimately show ?thesis unfolding used_regs_def by presburger
qed

lemma in_alloc_reg_list: "(\<exists>r. alloc_reg_list a = Some r \<and> p \<in> set r) = (allocation_as_reg a = Some (Some p))"
  by (auto simp: alloc_reg_list_def split: option.splits)

lemma used_regs_set:
  assumes "used_regs output = Some used"
  shows "set used = allocated_regs output"
proof -
  obtain as where as: "foldM (\<lambda>acc a. do { r \<leftarrow> alloc_reg_list a; Some (acc @ r) }) [] (out_allocs output) = Some as"
    and es: "foldM (\<lambda>acc e. do { r \<leftarrow> edit_reg_list e; Some (acc @ r) }) as (out_edits output) = Some used"
    using assms unfolding used_regs_collect by auto
  have a: "set as = {p. \<exists>a \<in> set (out_allocs output). allocation_as_reg a = Some (Some p)}"
    using foldM_collect [OF as] by (simp add: in_alloc_reg_list)
  have "(\<exists>e \<in> set (out_edits output). \<exists>r. edit_reg_list e = Some r \<and> p \<in> set r)
      = (\<exists>pt from to cls v. (pt, Move from to cls v) \<in> set (out_edits output)
         \<and> (allocation_as_reg from = Some (Some p) \<or> allocation_as_reg to = Some (Some p)))" (is "?L = ?R") for p
  proof
    assume ?L
    then obtain pt a b cls v r where e: "(pt, Move a b cls v) \<in> set (out_edits output)"
      and r: "edit_reg_list (pt, Move a b cls v) = Some r" "p \<in> set r" by (metis edit.exhaust surj_pair)
    then have "allocation_as_reg a = Some (Some p) \<or> allocation_as_reg b = Some (Some p)"
      using in_alloc_reg_list [of a p] in_alloc_reg_list [of b p] by (auto simp: edit_reg_list_def)
    then show ?R using e by blast
  next
    assume ?R
    then obtain pt a b cls v where e: "(pt, Move a b cls v) \<in> set (out_edits output)"
      and r: "allocation_as_reg a = Some (Some p) \<or> allocation_as_reg b = Some (Some p)" by blast
    obtain l where l: "edit_reg_list (pt, Move a b cls v) = Some l"
      using foldM_collect [OF es] e by blast
    then have "p \<in> set l" using r by (auto simp: edit_reg_list_def alloc_reg_list_def)
    then show ?L using e l by blast
  qed
  then show ?thesis using foldM_collect [OF es] a by (auto simp: allocated_regs_def)
qed

lemma filter_callee_saved_fold:
  "foldM (\<lambda>acc p. do { c \<leftarrow> is_callee_saved m p; Some (if c then acc @ [p] else acc) }) acc ps = Some saved
    \<Longrightarrow> set saved = set acc \<union> {p \<in> set ps. is_callee_saved m p = Some True} \<and> (\<forall>p \<in> set ps. is_callee_saved m p \<noteq> None)"
proof (induction ps arbitrary: acc)
  case (Cons p ps)
  obtain c where c: "is_callee_saved m p = Some c"
    and rest: "foldM (\<lambda>acc p. do { c \<leftarrow> is_callee_saved m p; Some (if c then acc @ [p] else acc) })
      (if c then acc @ [p] else acc) ps = Some saved"
    using Cons.prems by auto
  show ?case using Cons.IH [OF rest] c by auto
qed simp

lemma filter_callee_saved_set:
  "filter_callee_saved m ps = Some saved \<Longrightarrow> set saved = {p \<in> set ps. is_callee_saved m p = Some True}"
  "filter_callee_saved m ps = Some saved \<Longrightarrow> p \<in> set ps \<Longrightarrow> is_callee_saved m p \<noteq> None"
  using filter_callee_saved_fold [of m "[]" ps saved] by (simp_all add: filter_callee_saved_def)

lemma preg_repr_inj: "inj preg_repr"
  by (rule injI) (metis preg.exhaust preg_repr.simps)

lemma set_sort_dedup [simp]: "set (sort_dedup ps) = set ps"
  by (simp add: sort_dedup_def)

lemma sorted_remdups_adj_strict: "sorted xs \<Longrightarrow> sorted_wrt (<) (remdups_adj xs)" for xs :: "'a::linorder list"
  by (induction xs rule: remdups_adj.induct) (auto simp: less_le)

lemma sort_dedup_strict: "sorted_wrt (\<lambda>a b. preg_repr a < preg_repr b) (sort_dedup ps)"
proof -
  have "sorted_wrt (<) (remdups_adj (map preg_repr (sort_key preg_repr ps)))"
    by (intro sorted_remdups_adj_strict) simp
  then show ?thesis
    by (simp add: sort_dedup_def remdups_adj_map_injective [OF preg_repr_inj] sorted_wrt_map)
qed

lemma sort_dedup_distinct: "distinct (sort_dedup ps)"
proof -
  have "distinct (map preg_repr (sort_dedup ps))"
    using sort_dedup_strict [of ps] strict_sorted_iff [of "map preg_repr (sort_dedup ps)"] by (simp add: sorted_wrt_map)
  then show ?thesis by (simp add: distinct_map)
qed

text \<open>The frame layout saves exactly the callee-saved registers that an allocation or a move of the allocator names,
  once each and in order of their encoding; its areas (outgoing arguments, stack objects, spill slots, saved
  registers, frame setup) fit into the frame one after another with less than one alignment unit of padding, and
  the frame is aligned. A function that saves a register has a setup area.\<close>

lemma frame_layout_facts:
  assumes "compute_frame_layout m self spills output = Some (Inr self')" and "get_frame_layout self' = Some f"
  shows "set (callee_saved f) = {p \<in> allocated_regs output. is_callee_saved m p = Some True}"
    and "distinct (callee_saved f)" and "sorted_wrt (\<lambda>a b. preg_repr a < preg_repr b) (callee_saved f)"
    and "clobber_area m 0 (callee_saved f) = Some (Inr (clobber_size f))"
    and "unat (outgoing_args_size f) + unat (stackslots_size f) + unat (spill_size f) + unat (clobber_size f)
      + unat (setup_area_size f) \<le> unat (total_size f)"
    and "unat (stack_align m) dvd unat (total_size f)"
proof -
  obtain f' used saved where f': "self' = self\<lparr>abi_frame_layout := Some f'\<rparr>"
    and used: "used_regs output = Some used" "filter_callee_saved m used = Some saved"
    and saved: "callee_saved f' = sort_dedup saved" "clobber_area m 0 (callee_saved f') = Some (Inr (clobber_size f'))"
    and total: "area_sum f' \<le> unat (total_size f')" "unat (stack_align m) dvd unat (total_size f')"
    by (rule compute_frame_layout_eq [OF assms(1)]) blast
  have f: "f' = f" using assms(2) f' by (simp add: get_frame_layout_def)
  show "set (callee_saved f) = {p \<in> allocated_regs output. is_callee_saved m p = Some True}"
    using saved(1) used_regs_set [OF used(1)] filter_callee_saved_set(1) [OF used(2)] by (simp add: f)
  show "distinct (callee_saved f)" "sorted_wrt (\<lambda>a b. preg_repr a < preg_repr b) (callee_saved f)"
    using sort_dedup_distinct sort_dedup_strict saved(1) f by simp_all
  show "clobber_area m 0 (callee_saved f) = Some (Inr (clobber_size f))" using saved(2) f by simp
  show "unat (outgoing_args_size f) + unat (stackslots_size f) + unat (spill_size f) + unat (clobber_size f)
      + unat (setup_area_size f) \<le> unat (total_size f)" using total(1) by (simp add: f area_sum_def)
  show "unat (stack_align m) dvd unat (total_size f)" using total(2) f by simp
qed

end
