(* ===== verification/Machine_Memory.thy ===== *)
theory Machine_Memory
  imports Rust_Prelude
begin

text \<open>
  The machine on which generated frame code is executed: a file of 64-bit integer registers, a file of 128-bit
  floating point and vector registers, and a byte addressed little endian memory with 64-bit addresses that wrap
  around. The locale \<open>frame_code\<close> is the contract between the code that saves registers and
  the code that restores them, with the theorem that a function body that respects the frame leaves the saved
  registers unchanged.
\<close>

type_synonym memory = "u64 \<Rightarrow> u8"

record machine =
  xregs :: "nat \<Rightarrow> u64"
  vregs :: "nat \<Rightarrow> 128 word"
  mem :: memory

definition mem_write :: "memory \<Rightarrow> u64 \<Rightarrow> nat \<Rightarrow> 128 word \<Rightarrow> memory" where
  "mem_write m a n v = (\<lambda>x. if unat (x - a) < n then ucast (drop_bit (8 * unat (x - a)) v) else m x)"

fun mem_read :: "memory \<Rightarrow> u64 \<Rightarrow> nat \<Rightarrow> 128 word" where
  "mem_read m a 0 = 0"
| "mem_read m a (Suc n) = ucast (m a) OR push_bit 8 (mem_read m (a + 1) n)"

text \<open>The bytes of an access.\<close>

definition bytes_at :: "u64 \<Rightarrow> nat \<Rightarrow> u64 set" where
  "bytes_at a n = (\<lambda>d. a + word_of_nat d) ` {..<n}"

section \<open>Reading what was written\<close>

lemma unat_u64: "i < 2 ^ 64 \<Longrightarrow> unat (word_of_nat i :: u64) = i"
  by (rule unat_of_nat_lt) simp

lemma word_of_nat_inj_u64: "(word_of_nat i :: u64) = word_of_nat j \<Longrightarrow> i < 2 ^ 64 \<Longrightarrow> j < 2 ^ 64 \<Longrightarrow> i = j"
  by (metis unat_u64)

lemma in_bytes_at: "n \<le> 2 ^ 64 \<Longrightarrow> (x \<in> bytes_at a n) = (unat (x - a) < n)"
proof
  assume n: "n \<le> 2 ^ 64" and "x \<in> bytes_at a n"
  then obtain d where "d < n" "x = a + word_of_nat d" by (auto simp: bytes_at_def)
  then show "unat (x - a) < n" using n by (simp add: unat_u64)
next
  assume "unat (x - a) < n"
  moreover have "x = a + word_of_nat (unat (x - a))" by simp
  ultimately show "x \<in> bytes_at a n" unfolding bytes_at_def by blast
qed

lemma bit_mem_read:
  "bit (mem_read m a n) k = (k < 128 \<and> k div 8 < n \<and> bit (m (a + word_of_nat (k div 8))) (k mod 8))"
proof (induction n arbitrary: a k)
  case (Suc n)
  show ?case
  proof (cases "k < 8")
    case True
    then show ?thesis by (auto simp: bit_simps)
  next
    case False
    then obtain j where j: "k = j + 8" by (metis add.commute le_Suc_ex not_less)
    have d: "k div 8 = Suc (j div 8)" by (simp add: j)
    have "a + 1 + word_of_nat (j div 8) = a + word_of_nat (k div 8)" by (simp add: d)
    moreover have "k mod 8 = j mod 8" by (simp add: j)
    moreover have "\<not> bit (m a) k" using False bit_imp_le_length [of "m a" k] by auto
    ultimately show ?thesis using False Suc.IH [of "a + 1" j] by (auto simp: bit_simps d add.assoc) (auto simp: j)
  qed
qed simp

lemma mem_read_cong:
  assumes "\<And>x. x \<in> bytes_at a n \<Longrightarrow> m x = m' x"
  shows "mem_read m a n = mem_read m' a n"
  by (rule bit_eqI) (auto simp: bit_mem_read assms bytes_at_def)

lemma mem_read_write_same: "n \<le> 16 \<Longrightarrow> mem_read (mem_write m a n v) a n = take_bit (8 * n) v"
proof (rule bit_eqI)
  fix k assume n: "n \<le> 16" and "possible_bit TYPE(128 word) k"
  then have k: "k < 128" by simp
  show "bit (mem_read (mem_write m a n v) a n) k = bit (take_bit (8 * n) v) k"
  proof (cases "k div 8 < n")
    case True
    have "unat (word_of_nat (k div 8) :: u64) = k div 8" using k by (intro unat_u64) simp
    moreover have "8 * (k div 8) + k mod 8 = k" by simp
    ultimately show ?thesis using True k by (auto simp: bit_mem_read mem_write_def bit_simps)
  qed (auto simp: bit_mem_read bit_simps)
qed

lemma mem_write_other: "n \<le> 2 ^ 64 \<Longrightarrow> x \<notin> bytes_at a n \<Longrightarrow> mem_write m a n v x = m x"
  by (simp add: in_bytes_at mem_write_def)

lemma mem_read_write_disjoint:
  "n' \<le> 2 ^ 64 \<Longrightarrow> bytes_at a n \<inter> bytes_at b n' = {} \<Longrightarrow> mem_read (mem_write m b n' v) a n = mem_read m a n"
  by (rule mem_read_cong) (auto intro: mem_write_other)

text \<open>Accesses at offsets from a common base.\<close>

lemma bytes_disjoint:
  assumes "i + n \<le> j \<or> j + n' \<le> i" and "i + n \<le> 2 ^ 64" and "j + n' \<le> 2 ^ 64"
  shows "bytes_at (base + word_of_nat i) n \<inter> bytes_at (base + word_of_nat j) n' = {}"
proof -
  have False if "base + word_of_nat i + word_of_nat d = base + word_of_nat j + word_of_nat d'" "d < n" "d' < n'" for d d'
  proof -
    have "(word_of_nat (i + d) :: u64) = word_of_nat (j + d')" using that(1) by simp
    then have "i + d = j + d'" using that(2,3) assms(2,3) by (intro word_of_nat_inj_u64) auto
    then show False using that assms(1) by auto
  qed
  then show ?thesis by (auto simp: bytes_at_def)
qed

lemma bytes_subset:
  assumes "i \<le> j" and "j + n' \<le> i + n"
  shows "bytes_at (base + word_of_nat j) n' \<subseteq> bytes_at (base + word_of_nat i) n"
proof
  fix x assume "x \<in> bytes_at (base + word_of_nat j) n'"
  then obtain d where d: "d < n'" "x = base + word_of_nat j + word_of_nat d" by (auto simp: bytes_at_def)
  have "x = base + word_of_nat i + word_of_nat (j - i + d)" using d(2) assms(1) by simp
  moreover have "j - i + d < n" using d(1) assms by simp
  ultimately show "x \<in> bytes_at (base + word_of_nat i) n" unfolding bytes_at_def by blast
qed

section \<open>Agreement up to some integer registers\<close>

definition same_except :: "nat set \<Rightarrow> machine \<Rightarrow> machine \<Rightarrow> bool" where
  "same_except S s s' = (vregs s' = vregs s \<and> mem s' = mem s \<and> (\<forall>i. i \<notin> S \<longrightarrow> xregs s' i = xregs s i))"

lemma same_except_refl [simp]: "same_except S s s"
  by (simp add: same_except_def)

lemma same_except_trans: "same_except S s s' \<Longrightarrow> same_except S s' s'' \<Longrightarrow> same_except S s s''"
  by (simp add: same_except_def)

lemma same_except_mono: "same_except S s s' \<Longrightarrow> S \<subseteq> T \<Longrightarrow> same_except T s s'"
  by (auto simp: same_except_def)

section \<open>Saved registers\<close>

text \<open>Every saved register is in memory at its offset from the stack pointer.\<close>

definition saved_in :: "memory \<Rightarrow> u64 \<Rightarrow> ('r \<times> nat \<times> nat) list \<Rightarrow> ('r \<Rightarrow> 128 word) \<Rightarrow> bool" where
  "saved_in m sp slots val = (\<forall>(r, k, n) \<in> set slots. mem_read m (sp + word_of_nat k) n = val r)"

lemma saved_in_cong:
  assumes "saved_in m sp slots val" and "\<And>r k n. (r, k, n) \<in> set slots \<Longrightarrow> lo \<le> k \<and> k + n \<le> hi"
    and "\<And>x. x \<in> bytes_at (sp + word_of_nat lo) (hi - lo) \<Longrightarrow> m' x = m x"
  shows "saved_in m' sp slots val"
proof -
  have "mem_read m' (sp + word_of_nat k) n = mem_read m (sp + word_of_nat k) n" if "(r, k, n) \<in> set slots" for r k n
  proof (rule mem_read_cong)
    fix x assume x: "x \<in> bytes_at (sp + word_of_nat k) n"
    have "bytes_at (sp + word_of_nat k) n \<subseteq> bytes_at (sp + word_of_nat lo) (hi - lo)"
      using assms(2) [OF that] by (intro bytes_subset) auto
    then show "m' x = m x" using x assms(3) by blast
  qed
  then show ?thesis using assms(1) by (auto simp: saved_in_def)
qed

locale frame_code =
  fixes ok :: "'f \<Rightarrow> bool" and enter leave :: "'f \<Rightarrow> machine \<Rightarrow> machine option"
    and sp :: "machine \<Rightarrow> u64" and get :: "machine \<Rightarrow> 'r \<Rightarrow> 128 word" and kept :: "'r set"
    and covered :: "'f \<Rightarrow> 'r \<Rightarrow> bool" and slots :: "'f \<Rightarrow> ('r \<times> nat \<times> nat) list" and low total :: "'f \<Rightarrow> nat"
  assumes slots_in_frame: "ok f \<Longrightarrow> (r, k, n) \<in> set (slots f) \<Longrightarrow> low f \<le> k \<and> k + n \<le> total f"
    and enter_saves: "ok f \<Longrightarrow> \<exists>s1. enter f s = Some s1 \<and> sp s1 = sp s - word_of_nat (total f)
      \<and> saved_in (mem s1) (sp s1) (slots f) (get s)
      \<and> (\<forall>x. x \<notin> bytes_at (sp s1 + word_of_nat (low f)) (total f - low f) \<longrightarrow> mem s1 x = mem s x)
      \<and> (\<forall>r \<in> kept. \<not> covered f r \<longrightarrow> get s1 r = get s r)"
    and leave_restores: "ok f \<Longrightarrow> saved_in (mem s2) (sp s2) (slots f) (get s) \<Longrightarrow>
      \<exists>s3. leave f s2 = Some s3 \<and> sp s3 = sp s2 + word_of_nat (total f) \<and> mem s3 = mem s2
      \<and> (\<forall>r \<in> kept. get s3 r = (if covered f r then get s r else get s2 r))"
begin

lemma call_preserves:
  assumes f: "ok f" and s1: "enter f s = Some s1" and sp: "sp s2 = sp s1"
    and area: "\<And>x. x \<in> bytes_at (sp s1 + word_of_nat (low f)) (total f - low f) \<Longrightarrow> mem s2 x = mem s1 x"
    and body: "\<And>r. r \<in> kept \<Longrightarrow> \<not> covered f r \<Longrightarrow> get s2 r = get s1 r"
  shows "\<exists>s3. leave f s2 = Some s3 \<and> sp s3 = sp s \<and> mem s3 = mem s2 \<and> (\<forall>r \<in> kept. get s3 r = get s r)"
proof -
  have e: "sp s1 = sp s - word_of_nat (total f)" "saved_in (mem s1) (sp s1) (slots f) (get s)"
    "\<forall>r \<in> kept. \<not> covered f r \<longrightarrow> get s1 r = get s r"
    using enter_saves [OF f, of s] s1 by auto
  have "saved_in (mem s2) (sp s2) (slots f) (get s)"
    unfolding sp by (rule saved_in_cong [OF e(2) slots_in_frame [OF f] area])
  from leave_restores [OF f this] obtain s3 where s3: "leave f s2 = Some s3" "sp s3 = sp s2 + word_of_nat (total f)"
    "mem s3 = mem s2" "\<forall>r \<in> kept. get s3 r = (if covered f r then get s r else get s2 r)" by blast
  have "get s3 r = get s r" if "r \<in> kept" for r using s3(4) e(3) body that by auto
  then show ?thesis using s3 e(1) sp by auto
qed

end

end
