(* ===== verification/Reg_Policy.thy ===== *)
theory Reg_Policy
  imports PReg_Sets
begin

text \<open>
  Register sets written as chains of \<open>with\<close>, as the allocation policy of the AArch64 back end is, and their members.
\<close>

definition with_pregs :: "(nat \<Rightarrow> preg rust) \<Rightarrow> nat list \<Rightarrow> preg_set \<Rightarrow> preg_set rust" where
  "with_pregs mk is s = foldM (\<lambda>s i. do { p \<leftarrow> mk i; pset_with s p }) s is"

text \<open>The registers of a class with the given numbers.\<close>

definition pregs_of :: "reg_class \<Rightarrow> nat set \<Rightarrow> preg set" where
  "pregs_of cls is = {p. preg_class p = Some cls \<and> preg_hw_enc p \<in> is}"

lemma pregs_of_union: "pregs_of cls is \<union> pregs_of cls js = pregs_of cls (is \<union> js)"
  by (auto simp: pregs_of_def)

lemma pset_with_add: "pset_with = pset_add"
  by (simp add: fun_eq_iff pset_with_def pset_add_def)

lemma with_pregs_members:
  assumes "pset_wf s" and "\<And>i. i \<in> set is \<Longrightarrow> i \<le> 63 \<and> mk i = preg_new i cls"
  shows "\<exists>s'. with_pregs mk is s = Some s' \<and> pset_wf s' \<and> members s' = members s \<union> pregs_of cls (set is)"
  using assms
proof (induction "is" arbitrary: s)
  case Nil
  then show ?case by (simp add: with_pregs_def pregs_of_def)
next
  case (Cons i "is")
  obtain p where p: "mk i = Some p" "preg_new i cls = Some p" using Cons.prems(2) [of i] by (simp add: preg_new_Some)
  obtain s1 where s1: "pset_with s p = Some s1" "pset_wf s1" "members s1 = insert p (members s)"
    unfolding pset_with_add using add_members [OF Cons.prems(1)] by blast
  have "q = p" if "preg_class q = Some cls" "preg_hw_enc q = i" for q using preg_encode [OF that(1)] that(2) p(2) by simp
  then have "pregs_of cls {i} = {p}" unfolding pregs_of_def using preg_decode [OF p(2)] by blast
  moreover obtain s' where "with_pregs mk is s1 = Some s'" "pset_wf s'" "members s' = members s1 \<union> pregs_of cls (set is)"
    using Cons.IH [OF s1(2)] Cons.prems(2) by auto
  moreover have "pregs_of cls (set (i # is)) = pregs_of cls {i} \<union> pregs_of cls (set is)" by (auto simp: pregs_of_def)
  ultimately show ?case using p s1 by (simp add: with_pregs_def)
qed

end
