(* ===== verification/Arm_Constants.thy ===== *)
theory Arm_Constants
  imports Rust_Prelude
begin

text \<open>
  The immediates of the AArch64 back end (\<^verbatim>\<open>anon_armv8/src/instructions.rs\<close>) and the planning of integer
  constants (\<^verbatim>\<open>anon_armv8/src/constants.rs\<close>). The validating constructors of the immediate types are
  \<open>option\<close>-valued as in the source. The plan for a constant is a list of steps; \<open>step_value\<close> gives the steps
  the meaning the architecture gives \<open>movz\<close>, \<open>movn\<close>, \<open>movk\<close> and \<open>orr\<close> with the zero register, and the
  theorems show that a plan always exists, is at most as long as the number of 16-bit chunks, and leaves exactly
  the constant in the register; that \<open>is_logical_immediate\<close> recognises exactly the replicated rotations of runs
  of ones that the architecture can encode; and that each immediate type stands for the offset it was built from.
\<close>

section \<open>Operand sizes and immediates\<close>

type_synonym u16 = "16 word"
type_synonym i16 = "16 word"
type_synonym i8 = "8 word"

datatype operand_size = Size32 | Size64

fun size_bits :: "operand_size \<Rightarrow> nat" where
  "size_bits Size32 = 32" | "size_bits Size64 = 64"

record imm12 =
  imm12_value :: u16
  imm12_shift12 :: bool

definition imm12_new :: "u16 \<Rightarrow> bool \<Rightarrow> imm12 option" where
  "imm12_new value sh = (if value \<le> 0xfff then Some \<lparr>imm12_value = value, imm12_shift12 = sh\<rparr> else None)"

definition imm12_maybe_from_u64 :: "u64 \<Rightarrow> imm12 option" where
  "imm12_maybe_from_u64 val =
    (if val AND NOT 0xfff = 0 then Some \<lparr>imm12_value = ucast val, imm12_shift12 = False\<rparr>
     else if val AND NOT (push_bit 12 0xfff) = 0
     then Some \<lparr>imm12_value = ucast (drop_bit 12 val), imm12_shift12 = True\<rparr>
     else None)"

datatype imm_shift = ImmShift u8

definition imm_shift_new :: "u8 \<Rightarrow> operand_size \<Rightarrow> imm_shift option" where
  "imm_shift_new value sz =
    (let limit = (case sz of Size32 \<Rightarrow> 32 | Size64 \<Rightarrow> 64) in if value < limit then Some (ImmShift value) else None)"

record move_wide_const =
  mw_bits :: u16
  mw_shift :: u8

definition move_wide_new :: "u16 \<Rightarrow> u8 \<Rightarrow> operand_size \<Rightarrow> move_wide_const option" where
  "move_wide_new bits shift sz =
    (let valid_shift = (case sz of
         Size32 \<Rightarrow> shift = 0 \<or> shift = 16
       | Size64 \<Rightarrow> shift = 0 \<or> shift = 16 \<or> shift = 32 \<or> shift = 48)
     in if valid_shift then Some \<lparr>mw_bits = bits, mw_shift = shift\<rparr> else None)"

datatype simm9 = SImm9 i16

definition simm9_new :: "i16 \<Rightarrow> simm9 option" where
  "simm9_new value = (if -256 \<le>s value \<and> value \<le>s 255 then Some (SImm9 value) else None)"

fun simm9_value :: "simm9 \<Rightarrow> i16" where
  "simm9_value (SImm9 v) = v"

record uimm12_scaled =
  u12_value :: u16
  u12_access :: u8

definition uimm12_scaled_new :: "u64 \<Rightarrow> u8 \<Rightarrow> uimm12_scaled option" where
  "uimm12_scaled_new value access_size =
    (let access = ucast access_size :: u64 in
     if \<not> (access = 4 \<or> access = 8 \<or> access = 16) \<or> value mod access \<noteq> 0 then None
     else let scaled = value div access in
       if scaled \<le> 0xfff then Some \<lparr>u12_value = ucast scaled, u12_access = ucast access\<rparr> else None)"

definition u12_byte_offset :: "uimm12_scaled \<Rightarrow> u64" where
  "u12_byte_offset i = ucast (u12_value i) * ucast (u12_access i)"

record simm7_scaled =
  s7_value :: i8
  s7_access :: u8

definition simm7_scaled_new :: "i64 \<Rightarrow> u8 \<Rightarrow> simm7_scaled option" where
  "simm7_scaled_new value access_size =
    (let access = ucast access_size :: i64 in
     if \<not> (access = 4 \<or> access = 8 \<or> access = 16) \<or> sint value smod sint access \<noteq> 0 then None
     else let scaled = word_of_int (sint value sdiv sint access) :: i64 in
       if -64 \<le>s scaled \<and> scaled \<le>s 63 then Some \<lparr>s7_value = ucast scaled, s7_access = ucast access\<rparr> else None)"

definition s7_byte_offset :: "simm7_scaled \<Rightarrow> i64" where
  "s7_byte_offset i = scast (s7_value i) * ucast (s7_access i)"

section \<open>Logical immediates\<close>

definition low_mask :: "nat \<Rightarrow> u64" where
  "low_mask width = (if width = 64 then -1 else push_bit width 1 - 1)"

definition rotated_ones :: "nat \<Rightarrow> nat \<Rightarrow> nat \<Rightarrow> u64" where
  "rotated_ones e ones rot =
    (let pattern = push_bit ones 1 - 1 :: u64 in
     if rot = 0 then pattern
     else (drop_bit rot pattern OR push_bit (e - rot) pattern) AND low_mask e)"

definition repeated :: "nat \<Rightarrow> nat \<Rightarrow> u64 \<Rightarrow> u64" where
  "repeated width e rotated =
    fold (\<lambda>offset acc. acc OR push_bit offset rotated) (map (\<lambda>i. i * e) [0..<(width + e - 1) div e]) 0"

definition is_logical_immediate :: "u64 \<Rightarrow> operand_size \<Rightarrow> bool" where
  "is_logical_immediate val sz =
    (let width = size_bits sz; m = low_mask width; value = val AND m in
     if value = 0 \<or> value = m then False
     else list_ex (\<lambda>e. \<not> (e > width \<or> width mod e \<noteq> 0)
       \<and> list_ex (\<lambda>ones. list_ex (\<lambda>rot. repeated width e (rotated_ones e ones rot) = value) [0..<e]) [1..<e])
       [2, 4, 8, 16, 32, 64])"

record imm_logic =
  il_value :: u64
  il_size :: operand_size

definition imm_logic_new :: "u64 \<Rightarrow> operand_size \<Rightarrow> imm_logic option" where
  "imm_logic_new val sz =
    (let value = (case sz of Size32 \<Rightarrow> val AND 0xFFFFFFFF | Size64 \<Rightarrow> val) in
     if is_logical_immediate value sz then Some \<lparr>il_value = value, il_size = sz\<rparr> else None)"

section \<open>The constant planner\<close>

datatype const_plan_step =
    ZeroStep
  | LogicalStep imm_logic
  | MovZStep move_wide_const
  | MovNStep move_wide_const
  | MovKStep move_wide_const

definition truncate_to_size :: "u64 \<Rightarrow> operand_size \<Rightarrow> u64" where
  "truncate_to_size value sz = (case sz of Size32 \<Rightarrow> value AND 0xFFFFFFFF | Size64 \<Rightarrow> value)"

definition chunk_count :: "operand_size \<Rightarrow> nat" where
  "chunk_count sz = (case sz of Size32 \<Rightarrow> 2 | Size64 \<Rightarrow> 4)"

definition const_chunks :: "u64 \<Rightarrow> operand_size \<Rightarrow> u16 list" where
  "const_chunks value sz = map (\<lambda>index. ucast (drop_bit (index * 16) value AND 0xFFFF)) [0..<chunk_count sz]"

fun iter_position :: "('a \<Rightarrow> bool) \<Rightarrow> 'a list \<Rightarrow> usize option" where
  "iter_position p [] = None"
| "iter_position p (x # xs) = (if p x then Some 0 else map_option Suc (iter_position p xs))"

definition chunk_shift :: "usize \<Rightarrow> u8" where
  "chunk_shift index = word_of_nat (index * 16)"

definition plan_integer_constant :: "u64 \<Rightarrow> operand_size \<Rightarrow> const_plan_step list rust" where
  "plan_integer_constant val sz =
    (let value = truncate_to_size val sz in
     if value = 0 then Some [ZeroStep] else
     let cs = const_chunks value sz;
         zero_cost = length (filter (\<lambda>c. c \<noteq> 0) cs);
         ones_cost = length (filter (\<lambda>c. c \<noteq> -1) cs) in
     if zero_cost = 1 then do {
       index \<leftarrow> iter_position (\<lambda>c. c \<noteq> 0) cs;
       c \<leftarrow> vec_get cs index;
       imm \<leftarrow> move_wide_new c (chunk_shift index) sz;
       Some [MovZStep imm] }
     else if ones_cost = 0 then do {
       imm \<leftarrow> move_wide_new 0 0 sz;
       Some [MovNStep imm] }
     else if ones_cost = 1 then do {
       index \<leftarrow> iter_position (\<lambda>c. c \<noteq> -1) cs;
       c \<leftarrow> vec_get cs index;
       imm \<leftarrow> move_wide_new (NOT c) (chunk_shift index) sz;
       Some [MovNStep imm] }
     else case imm_logic_new value sz of
       Some imm \<Rightarrow> Some [LogicalStep imm]
     | None \<Rightarrow> do {
         let use_movn = ones_cost < zero_cost;
         let seed_value = (if use_movn then -1 else 0);
         seed_index \<leftarrow> iter_position (\<lambda>c. c \<noteq> seed_value) cs;
         c \<leftarrow> vec_get cs seed_index;
         let seed_bits = (if use_movn then NOT c else c);
         seed \<leftarrow> move_wide_new seed_bits (chunk_shift seed_index) sz;
         foldM (\<lambda>plan (index, chunk).
             if index \<noteq> seed_index \<and> chunk \<noteq> seed_value then do {
               patch \<leftarrow> move_wide_new chunk (chunk_shift index) sz;
               Some (plan @ [MovKStep patch]) }
             else Some plan)
           [if use_movn then MovNStep seed else MovZStep seed] (enumerate 0 cs) })"

section \<open>What the steps compute\<close>

text \<open>The value of the destination register after a step: \<open>mov\<close> from the zero register, \<open>orr\<close> of the zero
  register with the immediate, and the three wide moves. A 32-bit form clears the upper half.\<close>

fun step_value :: "operand_size \<Rightarrow> u64 \<Rightarrow> const_plan_step \<Rightarrow> u64" where
  "step_value sz old ZeroStep = 0"
| "step_value sz old (LogicalStep imm) = take_bit (size_bits sz) (il_value imm)"
| "step_value sz old (MovZStep imm) =
    take_bit (size_bits sz) (push_bit (unat (mw_shift imm)) (ucast (mw_bits imm)))"
| "step_value sz old (MovNStep imm) =
    take_bit (size_bits sz) (NOT (push_bit (unat (mw_shift imm)) (ucast (mw_bits imm))))"
| "step_value sz old (MovKStep imm) =
    take_bit (size_bits sz) ((old AND NOT (push_bit (unat (mw_shift imm)) 0xFFFF))
      OR push_bit (unat (mw_shift imm)) (ucast (mw_bits imm)))"

text \<open>The logical immediates of the architecture: for an element size \<open>e\<close> that is a power of two, a run of
  \<open>ones\<close> ones rotated right by \<open>rot\<close> within the element, replicated over the register.\<close>

definition encodable_bitmask :: "u64 \<Rightarrow> nat \<Rightarrow> bool" where
  "encodable_bitmask value width = (\<exists>e \<in> {2, 4, 8, 16, 32, 64}. \<exists>ones rot. e \<le> width \<and> 0 < ones \<and> ones < e \<and> rot < e
     \<and> (\<forall>i. bit value i = (i < width \<and> (i + rot) mod e < ones)))"

section \<open>Logical immediates are exactly the encodable ones\<close>

lemma bit_ones_pattern: "n < 64 \<Longrightarrow> bit (2 ^ n - 1 :: u64) j = (j < n)"
  unfolding mask_eq_exp_minus_1 [symmetric] by (auto simp: bit_mask_iff)

lemma bit_low_mask: "e \<le> 64 \<Longrightarrow> bit (low_mask e) j = (j < e)"
  by (cases "e = 64") (auto simp: low_mask_def bit_ones_pattern bit_minus_1_iff)

lemma bit_rotated_ones:
  assumes "e \<le> 64" and "0 < ones" and "ones < e" and "rot < e"
  shows "bit (rotated_ones e ones rot) j = (j < e \<and> (j + rot) mod e < ones)"
proof (cases "rot = 0")
  case True
  then show ?thesis using assms by (auto simp: rotated_ones_def bit_ones_pattern)
next
  case False
  have md: "j < e \<Longrightarrow> (j + rot) mod e = (if j + rot < e then j + rot else j + rot - e)"
    using assms by (simp add: mod_if [of "j + rot"])
  have "bit (rotated_ones e ones rot) j
      = ((rot + j < ones \<or> (e - rot \<le> j \<and> j < 64 \<and> j - (e - rot) < ones)) \<and> j < e)"
    using False assms by (simp add: rotated_ones_def Let_def bit_simps bit_ones_pattern bit_low_mask)
  then show ?thesis using md assms False by (auto split: if_splits)
qed

lemma bit_or_fold:
  "bit (fold (\<lambda>offset acc. acc OR push_bit offset r) os a) i
    = (bit a i \<or> (\<exists>off \<in> set os. off \<le> i \<and> i < 64 \<and> bit r (i - off)))" for r :: u64
  by (induction os arbitrary: a) (auto simp: bit_simps)

lemma bit_repeated:
  assumes "0 < e" and "e dvd width" and "width \<le> 64" and r: "\<And>j. bit r j \<Longrightarrow> j < e"
  shows "bit (repeated width e r) i = (i < width \<and> bit r (i mod e))"
proof -
  have n: "(width + e - 1) div e = width div e"
  proof -
    obtain q where q: "width = e * q" using assms(2) by (elim dvdE)
    have "(q * e + (e - 1)) div e = q + (e - 1) div e" using assms(1) by (subst div_mult_self3) simp_all
    then have "(q * e + (e - 1)) div e = q" using assms(1) by simp
    then show ?thesis using q assms(1) by (simp add: ac_simps)
  qed
  have "bit (repeated width e r) i = (\<exists>k < width div e. k * e \<le> i \<and> i < 64 \<and> bit r (i - k * e))"
    unfolding repeated_def bit_or_fold n by auto
  also have "\<dots> = (i < width \<and> bit r (i mod e))"
  proof
    assume "\<exists>k < width div e. k * e \<le> i \<and> i < 64 \<and> bit r (i - k * e)"
    then obtain k where k: "k < width div e" "k * e \<le> i" "bit r (i - k * e)" by blast
    have lt: "i - k * e < e" using r k(3) by blast
    have i: "i = (i - k * e) + k * e" using k(2) by simp
    have "i mod e = i - k * e" using lt by (subst i) simp
    moreover have "i < (k + 1) * e" using lt k(2) by simp
    moreover have "(k + 1) * e \<le> width div e * e" using k(1) by (intro mult_le_mono1) simp
    ultimately show "i < width \<and> bit r (i mod e)" using k(3) assms(2) by simp
  next
    assume a: "i < width \<and> bit r (i mod e)"
    have "i div e < width div e" using a assms by (simp add: div_less_iff_less_mult dvd_div_mult_self)
    moreover have "i - i div e * e = i mod e" by (simp add: minus_div_mult_eq_mod)
    ultimately show "\<exists>k < width div e. k * e \<le> i \<and> i < 64 \<and> bit r (i - k * e)"
      using a assms(3) by (intro exI [of _ "i div e"]) auto
  qed
  finally show ?thesis .
qed

lemma bit_repeated_rotated:
  assumes "e \<in> {2, 4, 8, 16, 32, 64}" and "e \<le> width" and "width = 32 \<or> width = 64"
    and "0 < ones" and "ones < e" and "rot < e"
  shows "bit (repeated width e (rotated_ones e ones rot)) i = (i < width \<and> (i + rot) mod e < ones)"
proof -
  have e: "0 < e" "e \<le> 64" "e dvd width" using assms(1,2,3) by auto
  have "bit (repeated width e (rotated_ones e ones rot)) i = (i < width \<and> bit (rotated_ones e ones rot) (i mod e))"
  proof (rule bit_repeated [OF e(1,3)])
    show "width \<le> 64" using assms(3) by auto
    show "j < e" if "bit (rotated_ones e ones rot) j" for j
      using that bit_rotated_ones [OF e(2) assms(4,5,6)] by simp
  qed
  also have "\<dots> = (i < width \<and> (i + rot) mod e < ones)"
    using e bit_rotated_ones [OF e(2) assms(4,5,6)] by (simp add: mod_add_left_eq)
  finally show ?thesis .
qed

lemma encodable_not_trivial:
  assumes "encodable_bitmask value width" and "width = 32 \<or> width = 64"
  shows "value \<noteq> 0" and "value \<noteq> low_mask width"
proof -
  obtain e ones rot where e: "e \<le> width" "0 < ones" "ones < e" "rot < e"
    and b: "\<And>i. bit value i = (i < width \<and> (i + rot) mod e < ones)"
    using assms(1) unfolding encodable_bitmask_def by blast
  let ?z = "if rot = 0 then 0 else e - rot" and ?o = "if rot < e - 1 then e - 1 - rot else e - 1 - rot"
  have z: "?z < width \<and> (?z + rot) mod e = 0" using e by auto
  then have "bit value ?z" using b e(2) by (metis)
  then show "value \<noteq> 0" by auto
  have o': "e - 1 - rot < width" "(e - 1 - rot + rot) mod e = e - 1" using e by auto
  then have "\<not> bit value (e - 1 - rot)" using b e by simp
  moreover have "bit (low_mask width) (e - 1 - rot)" using o'(1) assms(2) by (auto simp: bit_low_mask)
  ultimately show "value \<noteq> low_mask width" by auto
qed

lemma size_bits_cases: "size_bits sz = 32 \<or> size_bits sz = 64"
  by (cases sz) simp_all

lemma list_ex_upt: "list_ex P [a..<b] = (\<exists>i. a \<le> i \<and> i < b \<and> P i)"
  by (auto simp: list_ex_iff)

lemma encodable_elements:
  assumes w: "width = 32 \<or> width = 64"
  shows "encodable_bitmask value width = list_ex (\<lambda>e. \<not> (e > width \<or> width mod e \<noteq> 0)
       \<and> list_ex (\<lambda>ones. list_ex (\<lambda>rot. repeated width e (rotated_ones e ones rot) = value) [0..<e]) [1..<e])
       [2, 4, 8, 16, 32, 64]"
proof -
  let ?E = "{2, 4, 8, 16, 32, 64} :: nat set"
  have eq: "(repeated width e (rotated_ones e ones rot) = value)
      = (\<forall>i. bit value i = (i < width \<and> (i + rot) mod e < ones))"
    if "e \<in> ?E" "e \<le> width" "0 < ones" "ones < e" "rot < e" for e ones rot
    using bit_repeated_rotated [OF that(1,2) w that(3,4,5)] by (metis bit_eqI)
  have dv: "width mod e = 0" if "e \<in> ?E" "e \<le> width" for e using that w by auto
  have "list_ex (\<lambda>ones. list_ex (\<lambda>rot. repeated width e (rotated_ones e ones rot) = value) [0..<e]) [1..<e]
      = (\<exists>ones rot. 0 < ones \<and> ones < e \<and> rot < e \<and> repeated width e (rotated_ones e ones rot) = value)" for e
    by (simp add: list_ex_upt Suc_le_eq)
  then have "list_ex (\<lambda>e. \<not> (e > width \<or> width mod e \<noteq> 0)
       \<and> list_ex (\<lambda>ones. list_ex (\<lambda>rot. repeated width e (rotated_ones e ones rot) = value) [0..<e]) [1..<e])
       [2, 4, 8, 16, 32, 64] = (\<exists>e \<in> ?E. e \<le> width \<and> width mod e = 0
       \<and> (\<exists>ones rot. 0 < ones \<and> ones < e \<and> rot < e \<and> repeated width e (rotated_ones e ones rot) = value))"
    unfolding list_ex_iff [of _ "[2, 4, 8, 16, 32, 64]"] by (simp only: list.set de_Morgan_disj not_less not_not conj_assoc)
  also have "\<dots> = encodable_bitmask value width"
    unfolding encodable_bitmask_def
  proof (intro bex_cong refl)
    fix e assume e: "e \<in> ?E"
    show "(e \<le> width \<and> width mod e = 0
       \<and> (\<exists>ones rot. 0 < ones \<and> ones < e \<and> rot < e \<and> repeated width e (rotated_ones e ones rot) = value))
      = (\<exists>ones rot. e \<le> width \<and> 0 < ones \<and> ones < e \<and> rot < e
         \<and> (\<forall>i. bit value i = (i < width \<and> (i + rot) mod e < ones)))"
    proof (cases "e \<le> width")
      case True
      show ?thesis using eq [OF e True] dv [OF e True] True by (metis (no_types, lifting))
    qed simp
  qed
  finally show ?thesis by simp
qed

text \<open>C7: the search for a logical immediate accepts a value exactly when its low 32 or 64 bits are a replicated
  rotation of a run of ones.\<close>

theorem is_logical_immediate_iff:
  "is_logical_immediate value sz = encodable_bitmask (take_bit (size_bits sz) value) (size_bits sz)"
proof -
  have m: "value AND low_mask (size_bits sz) = take_bit (size_bits sz) value"
    by (rule bit_eqI) (use size_bits_cases [of sz] in \<open>auto simp: bit_simps bit_low_mask\<close>)
  show ?thesis
    using encodable_not_trivial [of "take_bit (size_bits sz) value" "size_bits sz"] size_bits_cases [of sz]
    unfolding is_logical_immediate_def Let_def m encodable_elements [OF size_bits_cases] by auto
qed

section \<open>The planned steps compute the constant\<close>

definition chunk_at :: "nat \<Rightarrow> u64 \<Rightarrow> u16" where
  "chunk_at i w = ucast (drop_bit (i * 16) w)"

lemma bit_chunk_at: "bit (chunk_at i w) j = (j < 16 \<and> bit w (i * 16 + j))"
  by (auto simp: chunk_at_def bit_simps)

lemma mask16_eq: "(0xFFFF :: u64) = mask 16"
  by (simp add: mask_eq_exp_minus_1)

lemma mask32_eq: "(0xFFFFFFFF :: u64) = mask 32"
  by (simp add: mask_eq_exp_minus_1)

lemma chunk_count_bits: "chunk_count sz * 16 = size_bits sz"
  by (cases sz) (simp_all add: chunk_count_def)

lemma chunk_count_le: "chunk_count sz \<le> 4"
  by (cases sz) (simp_all add: chunk_count_def)

lemma chunk_in_size: "i < chunk_count sz \<Longrightarrow> j < 16 \<Longrightarrow> i * 16 + j < size_bits sz"
  using chunk_count_bits [of sz] mult_le_mono1 [of "Suc i" "chunk_count sz" 16] by simp

lemma length_const_chunks [simp]: "length (const_chunks v sz) = chunk_count sz"
  by (simp add: const_chunks_def)

lemma const_chunks_nth [simp]: "i < chunk_count sz \<Longrightarrow> const_chunks v sz ! i = chunk_at i v"
  unfolding const_chunks_def
  by (simp, rule bit_eqI) (auto simp: bit_simps chunk_at_def mask16_eq bit_mask_iff)

lemma chunks_determine:
  assumes "fits (size_bits sz) v" and "fits (size_bits sz) w"
    and "\<And>i. i < chunk_count sz \<Longrightarrow> chunk_at i v = chunk_at i w"
  shows "v = w"
proof (rule bit_eqI)
  fix k
  show "bit v k = bit w k"
  proof (cases "k < size_bits sz")
    case True
    then have "k div 16 < chunk_count sz" using chunk_count_bits [of sz] by (metis div_less_iff_less_mult zero_less_numeral)
    then have "bit (chunk_at (k div 16) v) (k mod 16) = bit (chunk_at (k div 16) w) (k mod 16)" using assms(3) by simp
    then show ?thesis by (simp add: bit_chunk_at)
  next
    case False
    then show ?thesis using assms(1,2) fits_bit by metis
  qed
qed

lemma unat_chunk_shift: "i < chunk_count sz \<Longrightarrow> unat (chunk_shift i) = i * 16"
  using chunk_count_le [of sz] by (simp add: chunk_shift_def unat_of_nat_lt del: of_nat_mult)

lemma move_wide_new_chunk:
  "i < chunk_count sz \<Longrightarrow> move_wide_new b (chunk_shift i) sz = Some \<lparr>mw_bits = b, mw_shift = chunk_shift i\<rparr>"
  by (cases sz) (auto simp: move_wide_new_def chunk_shift_def chunk_count_def numeral_eq_Suc less_Suc_eq)

lemma step_value_fits: "fits (size_bits sz) (step_value sz old st)"
  by (cases st) (simp_all add: fits_def)

lemma truncate_take_bit: "truncate_to_size v sz = take_bit (size_bits sz) v"
proof (cases sz)
  case Size32
  show ?thesis by (rule bit_eqI) (auto simp: Size32 truncate_to_size_def bit_simps mask32_eq bit_mask_iff)
qed (simp add: truncate_to_size_def take_bit_word_eq_self)

lemma wide_move_bits:
  assumes "i < chunk_count sz" and "k < chunk_count sz" and "j < 16"
  shows "bit (push_bit (i * 16) (ucast b) :: u64) (k * 16 + j) = (k = i \<and> bit (b :: u16) j)"
proof -
  have "k * 16 + j < 64" using chunk_in_size [OF assms(2,3)] size_bits_cases [of sz] by auto
  moreover have "i * 16 \<le> k * 16 + j \<and> k * 16 + j - i * 16 < 16 \<longleftrightarrow> k = i" using assms(3) by auto
  ultimately show ?thesis using assms(3) by (auto simp: bit_simps dest: bit_imp_le_length)
qed

lemma wide_mask_bits:
  assumes "i < chunk_count sz" and "k < chunk_count sz" and "j < 16"
  shows "bit (push_bit (i * 16) 0xFFFF :: u64) (k * 16 + j) = (k = i)"
proof -
  have "(0xFFFF :: u64) = ucast (-1 :: u16)" by (rule bit_eqI) (auto simp: mask16_eq bit_simps)
  then show ?thesis using wide_move_bits [OF assms, of "-1"] assms(3) by (simp add: bit_minus_1_iff)
qed

lemmas chunk_bit_simps = bit_chunk_at bit_take_bit_iff bit_not_iff bit_and_iff bit_or_iff chunk_in_size
  wide_move_bits wide_mask_bits unat_chunk_shift bit_minus_1_iff

lemma chunk_movz:
  assumes i: "i < chunk_count sz" and k: "k < chunk_count sz"
  shows "chunk_at k (step_value sz old (MovZStep \<lparr>mw_bits = b, mw_shift = chunk_shift i\<rparr>)) = (if k = i then b else 0)"
  by (rule bit_eqI) (use i k in \<open>auto simp: chunk_bit_simps\<close>)

lemma chunk_movn:
  assumes i: "i < chunk_count sz" and k: "k < chunk_count sz"
  shows "chunk_at k (step_value sz old (MovNStep \<lparr>mw_bits = b, mw_shift = chunk_shift i\<rparr>)) = (if k = i then NOT b else -1)"
proof (rule bit_eqI)
  fix j assume "possible_bit TYPE(u16) j"
  then have j: "j < 16" by simp
  then have "k * 16 + j < 64" using chunk_in_size [OF k j] size_bits_cases [of sz] by auto
  then show "bit (chunk_at k (step_value sz old (MovNStep \<lparr>mw_bits = b, mw_shift = chunk_shift i\<rparr>))) j
      = bit (if k = i then NOT b else -1) j"
    using i k j by (auto simp: chunk_bit_simps)
qed

lemma chunk_movk:
  assumes i: "i < chunk_count sz" and k: "k < chunk_count sz"
  shows "chunk_at k (step_value sz old (MovKStep \<lparr>mw_bits = b, mw_shift = chunk_shift i\<rparr>))
    = (if k = i then b else chunk_at k old)"
proof (rule bit_eqI)
  fix j assume "possible_bit TYPE(u16) j"
  then have j: "j < 16" by simp
  then have "k * 16 + j < 64" using chunk_in_size [OF k j] size_bits_cases [of sz] by auto
  then show "bit (chunk_at k (step_value sz old (MovKStep \<lparr>mw_bits = b, mw_shift = chunk_shift i\<rparr>))) j
      = bit (if k = i then b else chunk_at k old) j"
    using i k j by (auto simp: chunk_bit_simps)
qed

lemma chunks_of_zero: "chunk_at k 0 = 0"
  by (rule bit_eqI) (simp add: bit_chunk_at)

lemma patches_set_chunks:
  assumes "\<And>i c. (i, c) \<in> set ps \<Longrightarrow> i < chunk_count sz \<and> c = chunk_at i v" and k: "k < chunk_count sz"
  shows "chunk_at k (foldl (step_value sz) w (map (\<lambda>(i, c). MovKStep \<lparr>mw_bits = c, mw_shift = chunk_shift i\<rparr>) ps))
    = (if k \<in> fst ` set ps then chunk_at k v else chunk_at k w)"
  using assms(1)
proof (induction ps arbitrary: w)
  case (Cons p ps)
  obtain i c where p: "p = (i, c)" by (cases p)
  then have i: "i < chunk_count sz" and c: "c = chunk_at i v" using Cons.prems by auto
  have "\<And>j d. (j, d) \<in> set ps \<Longrightarrow> j < chunk_count sz \<and> d = chunk_at j v" using Cons.prems by auto
  from Cons.IH [OF this] show ?case
    using p c k chunk_movk [OF i k] by (cases "k = i") (simp_all del: step_value.simps)
qed simp

lemma foldl_fits:
  "ps \<noteq> [] \<or> fits (size_bits sz) w \<Longrightarrow> fits (size_bits sz) (foldl (step_value sz) w ps)"
  by (induction ps arbitrary: w) (auto simp: step_value_fits)

lemma iter_position_Some:
  "iter_position p xs = Some i \<Longrightarrow> i < length xs \<and> p (xs ! i)"
  by (induction xs arbitrary: i) (auto split: if_splits)

lemma iter_position_exists: "\<exists>x \<in> set xs. p x \<Longrightarrow> \<exists>i. iter_position p xs = Some i"
  by (induction xs) auto

declare step_value.simps [simp del]

definition computes :: "operand_size \<Rightarrow> const_plan_step list \<Rightarrow> u64 \<Rightarrow> bool" where
  "computes sz plan v = (\<forall>old. foldl (step_value sz) old plan = v)"

lemma computesI:
  assumes "fits (size_bits sz) v" and "plan \<noteq> []"
    and "\<And>old k. k < chunk_count sz \<Longrightarrow> chunk_at k (foldl (step_value sz) old plan) = chunk_at k v"
  shows "computes sz plan v"
  unfolding computes_def using assms foldl_fits by (blast intro: chunks_determine)

text \<open>Exactly one chunk differs from a given value: the position found is that chunk.\<close>

lemma filter_single_chunk:
  assumes "length (filter p xs) = 1" and "iter_position p xs = Some i" and "k < length xs" and "k \<noteq> i"
  shows "\<not> p (xs ! k)"
proof
  assume pk: "p (xs ! k)"
  have i: "i < length xs" "p (xs ! i)" using iter_position_Some [OF assms(2)] by auto
  have "{i, k} \<subseteq> {n. n < length xs \<and> p (xs ! n)}" using i pk assms(3) by auto
  then have "card {i, k} \<le> card {n. n < length xs \<and> p (xs ! n)}" by (intro card_mono) auto
  then show False using assms(1,4) by (simp add: length_filter_conv_card)
qed

lemma filter_position:
  "0 < length (filter p xs) \<Longrightarrow> \<exists>i. iter_position p xs = Some i"
  by (intro iter_position_exists) (auto simp: filter_empty_conv)

text \<open>A single wide move.\<close>

lemma single_move:
  fixes neg :: bool
  defines "seed \<equiv> if neg then -1 else 0" and "b \<equiv> \<lambda>c. if neg then NOT c else c"
    and "mov \<equiv> if neg then MovNStep else MovZStep"
  assumes v: "fits (size_bits sz) v" and one: "length (filter (\<lambda>c. c \<noteq> seed) (const_chunks v sz)) = 1"
  shows "\<exists>i < chunk_count sz. iter_position (\<lambda>c. c \<noteq> seed) (const_chunks v sz) = Some i
    \<and> computes sz [mov \<lparr>mw_bits = b (chunk_at i v), mw_shift = chunk_shift i\<rparr>] v"
proof -
  obtain i where pos: "iter_position (\<lambda>c. c \<noteq> seed) (const_chunks v sz) = Some i"
    using filter_position one by (metis zero_less_one)
  have i: "i < chunk_count sz" using iter_position_Some [OF pos] by simp
  have other: "chunk_at k v = seed" if "k < chunk_count sz" "k \<noteq> i" for k
    using filter_single_chunk [OF one pos, of k] that by simp
  have "computes sz [mov \<lparr>mw_bits = b (chunk_at i v), mw_shift = chunk_shift i\<rparr>] v"
    by (rule computesI [OF v])
      (use i other in \<open>auto simp: mov_def b_def seed_def chunk_movz chunk_movn\<close>)
  then show ?thesis using pos i by blast
qed

text \<open>A seed followed by the patches of the chunks that differ from it.\<close>

definition patches :: "u64 \<Rightarrow> operand_size \<Rightarrow> nat \<Rightarrow> u16 \<Rightarrow> (nat \<times> u16) list" where
  "patches v sz seed_index seed = filter (\<lambda>(i, c). i \<noteq> seed_index \<and> c \<noteq> seed) (enumerate 0 (const_chunks v sz))"

abbreviation movk_of :: "nat \<times> u16 \<Rightarrow> const_plan_step" where
  "movk_of \<equiv> \<lambda>(i, c). MovKStep \<lparr>mw_bits = c, mw_shift = chunk_shift i\<rparr>"

lemma patch_loop:
  assumes "\<And>i c. (i, c) \<in> set ps \<Longrightarrow> i < chunk_count sz"
  shows "foldM (\<lambda>plan (index, chunk).
             if index \<noteq> seed_index \<and> chunk \<noteq> seed_value then do {
               patch \<leftarrow> move_wide_new chunk (chunk_shift index) sz;
               Some (plan @ [MovKStep patch]) }
             else Some plan) plan ps
    = Some (plan @ map movk_of (filter (\<lambda>(i, c). i \<noteq> seed_index \<and> c \<noteq> seed_value) ps))"
  using assms
proof (induction ps arbitrary: plan)
  case (Cons p ps)
  obtain i c where p: "p = (i, c)" by (cases p)
  have i: "i < chunk_count sz" using Cons.prems p by auto
  have "\<And>j d. (j, d) \<in> set ps \<Longrightarrow> j < chunk_count sz" using Cons.prems by auto
  from Cons.IH [OF this] show ?case using i p by (simp add: move_wide_new_chunk)
qed simp

lemma in_enumerate_chunks: "(i, c) \<in> set (enumerate 0 (const_chunks v sz)) \<longleftrightarrow> i < chunk_count sz \<and> c = chunk_at i v"
  by (auto simp: in_set_enumerate_eq)

lemma seeded_plan:
  fixes neg :: bool
  defines "seed \<equiv> if neg then -1 else 0" and "b \<equiv> \<lambda>c. if neg then NOT c else c"
    and "mov \<equiv> if neg then MovNStep else MovZStep"
  assumes v: "fits (size_bits sz) v" and i: "i < chunk_count sz"
  shows "computes sz (mov \<lparr>mw_bits = b (chunk_at i v), mw_shift = chunk_shift i\<rparr> # map movk_of (patches v sz i seed)) v"
proof (rule computesI [OF v])
  fix old k assume k: "k < chunk_count sz"
  let ?w = "step_value sz old (mov \<lparr>mw_bits = b (chunk_at i v), mw_shift = chunk_shift i\<rparr>)"
  have w: "chunk_at k ?w = (if k = i then chunk_at i v else seed)"
    using i k by (auto simp: mov_def b_def seed_def chunk_movz chunk_movn)
  have ps: "j < chunk_count sz \<and> c = chunk_at j v" if "(j, c) \<in> set (patches v sz i seed)" for j c
    using that by (auto simp: patches_def in_enumerate_chunks)
  have "k \<in> fst ` set (patches v sz i seed) \<longleftrightarrow> k \<noteq> i \<and> chunk_at k v \<noteq> seed"
    using k by (force simp: patches_def in_enumerate_chunks)
  then show "chunk_at k (foldl (step_value sz) old (mov \<lparr>mw_bits = b (chunk_at i v), mw_shift = chunk_shift i\<rparr>
      # map movk_of (patches v sz i seed))) = chunk_at k v"
    using patches_set_chunks [OF ps k, where w = ?w] w by auto
qed simp

lemma patches_length:
  assumes "i < chunk_count sz" and "chunk_at i v \<noteq> seed"
  shows "Suc (length (patches v sz i seed)) = length (filter (\<lambda>c. c \<noteq> seed) (const_chunks v sz))"
proof -
  let ?D = "{n. n < chunk_count sz \<and> const_chunks v sz ! n \<noteq> seed}"
  have "length (patches v sz i seed) = card {n. n < chunk_count sz \<and> n \<noteq> i \<and> const_chunks v sz ! n \<noteq> seed}"
    unfolding patches_def length_filter_conv_card
    by (intro arg_cong [where f = card]) (auto simp: nth_enumerate_eq)
  also have "{n. n < chunk_count sz \<and> n \<noteq> i \<and> const_chunks v sz ! n \<noteq> seed} = ?D - {i}" by auto
  finally have "length (patches v sz i seed) = card (?D - {i})" .
  moreover have "i \<in> ?D" using assms by simp
  ultimately have "Suc (length (patches v sz i seed)) = card ?D" by (simp add: card.remove)
  then show ?thesis by (simp add: length_filter_conv_card)
qed

lemma imm_logic_new_value: "imm_logic_new v sz = Some imm \<Longrightarrow> il_value imm = take_bit (size_bits sz) v"
  using truncate_take_bit [of v sz]
  by (auto simp: imm_logic_new_def truncate_to_size_def Let_def split: if_splits operand_size.splits)

lemma all_ones_plan:
  assumes "fits (size_bits sz) v" and "length (filter (\<lambda>c. c \<noteq> -1) (const_chunks v sz)) = 0"
  shows "computes sz [MovNStep \<lparr>mw_bits = 0, mw_shift = 0\<rparr>] v"
proof -
  have sh: "0 < chunk_count sz" "chunk_shift 0 = 0" by (simp_all add: chunk_count_def chunk_shift_def split: operand_size.splits)
  have "chunk_at k v = -1" if "k < chunk_count sz" for k
    using assms(2) that nth_mem [of k "const_chunks v sz"] by (simp add: filter_empty_conv)
  then show ?thesis using chunk_movn [OF sh(1), of _ _ 0] by (intro computesI assms(1)) (simp_all add: sh(2))
qed

lemma plan_correct:
  "\<exists>plan. plan_integer_constant val sz = Some plan \<and> 1 \<le> length plan \<and> length plan \<le> chunk_count sz
    \<and> (\<forall>old. foldl (step_value sz) old plan = take_bit (size_bits sz) val)"
proof -
  define v where "v = take_bit (size_bits sz) val"
  let ?cs = "const_chunks v sz"
  let ?z = "length (filter (\<lambda>c. c \<noteq> 0) ?cs)" and ?o = "length (filter (\<lambda>c. c \<noteq> -1) ?cs)"
  have v: "fits (size_bits sz) v" by (simp add: v_def fits_def)
  have n: "1 \<le> chunk_count sz" by (simp add: chunk_count_def split: operand_size.splits)
  have goal: ?thesis if "plan_integer_constant val sz = Some plan" "computes sz plan v"
      "1 \<le> length plan" "length plan \<le> chunk_count sz" for plan
    using that by (auto simp: computes_def v_def)
  note plan_def = plan_integer_constant_def [of val sz, unfolded truncate_take_bit Let_def, folded v_def]
  consider "v = 0" | (z) "v \<noteq> 0" "?z = 1" | (o0) "v \<noteq> 0" "?z \<noteq> 1" "?o = 0" | (o1) "v \<noteq> 0" "?z \<noteq> 1" "?o = 1"
    | (l) imm where "v \<noteq> 0" "?z \<noteq> 1" "?o \<noteq> 0" "?o \<noteq> 1" "imm_logic_new v sz = Some imm"
    | (s) "v \<noteq> 0" "?z \<noteq> 1" "?o \<noteq> 0" "?o \<noteq> 1" "imm_logic_new v sz = None"
    by (cases "imm_logic_new v sz") auto
  then show ?thesis
  proof cases
    case 1
    then show ?thesis using n by (intro goal [of "[ZeroStep]"]) (auto simp: plan_def computes_def step_value.simps)
  next
    case z
    obtain i where i: "i < chunk_count sz" "iter_position (\<lambda>c. c \<noteq> 0) ?cs = Some i"
      "computes sz [MovZStep \<lparr>mw_bits = chunk_at i v, mw_shift = chunk_shift i\<rparr>] v"
      using single_move [OF v, of False] z(2) by auto
    then show ?thesis using z n by (intro goal [OF _ i(3)]) (auto simp: plan_def vec_get_def move_wide_new_chunk)
  next
    case o0
    have "move_wide_new 0 0 sz = Some \<lparr>mw_bits = 0, mw_shift = 0\<rparr>" by (simp add: move_wide_new_def split: operand_size.splits)
    then show ?thesis using o0 n by (intro goal [OF _ all_ones_plan [OF v o0(3)]]) (auto simp: plan_def)
  next
    case o1
    obtain i where i: "i < chunk_count sz" "iter_position (\<lambda>c. c \<noteq> -1) ?cs = Some i"
      "computes sz [MovNStep \<lparr>mw_bits = NOT (chunk_at i v), mw_shift = chunk_shift i\<rparr>] v"
      using single_move [OF v, of True] o1(3) by auto
    then show ?thesis using o1 n by (intro goal [OF _ i(3)]) (auto simp: plan_def vec_get_def move_wide_new_chunk)
  next
    case l
    have "computes sz [LogicalStep imm] v"
      using imm_logic_new_value [OF l(5)] v by (simp add: computes_def step_value.simps fits_def)
    then show ?thesis using l n by (intro goal [of "[LogicalStep imm]"]) (auto simp: plan_def)
  next
    case s
    define neg where "neg = (?o < ?z)"
    define seed :: u16 where "seed = (if neg then -1 else 0)"
    have "?z \<noteq> 0"
    proof
      assume "?z = 0"
      then have "chunk_at k v = chunk_at k 0" if "k < chunk_count sz" for k
        using that nth_mem [of k ?cs] by (simp add: filter_empty_conv chunks_of_zero)
      then show False using s(1) chunks_determine [OF v, of 0] by (simp add: fits_def)
    qed
    then have cnt: "0 < length (filter (\<lambda>c. c \<noteq> seed) ?cs)" using s(3) by (auto simp: seed_def)
    then obtain i where pos: "iter_position (\<lambda>c. c \<noteq> seed) ?cs = Some i" using filter_position [OF cnt] by (elim exE)
    have i: "i < chunk_count sz" "chunk_at i v \<noteq> seed" using iter_position_Some [OF pos] by auto
    let ?mov = "if neg then MovNStep else MovZStep" and ?b = "\<lambda>c. if neg then NOT c else c"
    let ?plan = "?mov \<lparr>mw_bits = ?b (chunk_at i v), mw_shift = chunk_shift i\<rparr> # map movk_of (patches v sz i seed)"
    have "plan_integer_constant val sz = Some ?plan"
      using s pos i patch_loop [of "enumerate 0 ?cs" sz i seed "[?mov \<lparr>mw_bits = ?b (chunk_at i v), mw_shift = chunk_shift i\<rparr>]"]
      by (simp add: plan_def neg_def [symmetric] seed_def [symmetric] vec_get_def move_wide_new_chunk patches_def
          in_enumerate_chunks if_distribR del: bind_eq_Some split del: if_split)
    moreover have "length ?plan \<le> chunk_count sz"
      using patches_length [OF i] length_filter_le [of "\<lambda>c. c \<noteq> seed" ?cs] by simp
    ultimately show ?thesis using seeded_plan [OF v i(1), of neg] by (intro goal [of ?plan]) (auto simp: seed_def)
  qed
qed

text \<open>C6: for every constant and operand size the planner returns a plan, of one step up to one per 16-bit chunk,
  and executing the plan leaves the constant, cut to the operand size, in the destination whatever it held before.\<close>

theorem plan_integer_constant_correct:
  "\<exists>plan. plan_integer_constant val sz = Some plan \<and> 1 \<le> length plan \<and> length plan \<le> chunk_count sz
    \<and> (\<forall>old. foldl (step_value sz) old plan = take_bit (size_bits sz) val)"
  by (rule plan_correct)

section \<open>Immediates stand for the values they were built from\<close>

lemma imm12_maybe_from_u64_value:
  assumes "imm12_maybe_from_u64 val = Some imm"
  shows "push_bit (if imm12_shift12 imm then 12 else 0) (ucast (imm12_value imm)) = val" and "unat (imm12_value imm) < 2 ^ 12"
proof -
  have m12: "(0xfff :: u64) = mask 12" by (simp add: mask_eq_exp_minus_1)
  have low: "bit val j \<Longrightarrow> j < n + 12 \<and> n \<le> j" if "val AND NOT (push_bit n (mask 12)) = 0" "n = 0 \<or> n = 12" for n j
  proof -
    assume b: "bit val j"
    then have "j < 64" using bit_imp_le_length [of val j] by simp
    moreover have "\<not> bit (val AND NOT (push_bit n (mask 12))) j" using that(1) by simp
    ultimately show "j < n + 12 \<and> n \<le> j" using b that(2) by (auto simp: bit_simps)
  qed
  obtain n where n: "n = 0 \<or> n = 12" and z: "val AND NOT (push_bit n (mask 12)) = 0"
    and imm: "imm12_value imm = ucast (drop_bit n val)" "(if imm12_shift12 imm then 12 else 0) = n"
    using assms unfolding imm12_maybe_from_u64_def m12 by (fastforce split: if_splits)
  have b: "j < n + 12 \<and> n \<le> j" if "bit val j" for j using low [OF z n that] .
  show "push_bit (if imm12_shift12 imm then 12 else 0) (ucast (imm12_value imm)) = val"
  proof (rule bit_eqI)
    fix j assume "possible_bit TYPE(u64) j"
    then show "bit (push_bit (if imm12_shift12 imm then 12 else 0) (ucast (imm12_value imm)) :: u64) j = bit val j"
      unfolding imm using n b [of j] by (cases "bit val j") (auto simp: bit_simps)
  qed
  have "fits 12 (imm12_value imm)"
    unfolding imm fits_def by (rule bit_eqI) (use n in \<open>auto simp: bit_simps dest: b\<close>)
  then show "unat (imm12_value imm) < 2 ^ 12" by (simp only: fits_unat)
qed

lemma narrow_wide_u8: "ucast (ucast a :: u64) = (a :: u8)"
  by (rule bit_eqI) (auto simp: bit_simps)

lemma uimm12_scaled_new_offset:
  assumes "uimm12_scaled_new v access = Some imm"
  shows "u12_byte_offset imm = v" and "u12_access imm = access"
proof -
  let ?a = "ucast access :: u64"
  have a: "?a = 4 \<or> ?a = 8 \<or> ?a = 16" and md: "v mod ?a = 0" and sc: "v div ?a \<le> 0xfff"
    and imm: "imm = \<lparr>u12_value = ucast (v div ?a), u12_access = ucast ?a\<rparr>"
    using assms by (auto simp: uimm12_scaled_new_def Let_def split: if_splits)
  show "u12_access imm = access" by (simp add: imm narrow_wide_u8)
  have "unat (v div ?a) < 2 ^ 16" using sc by (simp add: word_le_nat_alt)
  then have "ucast (ucast (v div ?a) :: u16) = v div ?a"
    by (simp add: unsigned_ucast_eq unsigned_take_bit_eq word_unat_eq_iff take_bit_nat_eq_self)
  then have "u12_byte_offset imm = v div ?a * ?a" by (simp add: u12_byte_offset_def imm narrow_wide_u8)
  also have "\<dots> = v" using md by (metis add.right_neutral div_mult_mod_eq)
  finally show "u12_byte_offset imm = v" .
qed

lemma sdiv_exact: "(a :: int) smod b = 0 \<Longrightarrow> a sdiv b * b = a"
  by (metis diff_zero minus_smod_eq_sdiv_mult)

lemma access_size_sint: "ucast a = (4 :: i64) \<or> ucast a = (8 :: i64) \<or> ucast a = (16 :: i64) \<Longrightarrow> 0 < sint (ucast (a :: u8) :: i64)"
  by auto

lemma word_of_sint_mult: "word_of_int (a * sint w) = word_of_int a * (w :: i64)"
  by simp

lemma simm7_scaled_new_offset:
  assumes "simm7_scaled_new v access = Some imm"
  shows "s7_byte_offset imm = v" and "s7_access imm = access"
proof -
  let ?a = "ucast access :: i64" and ?q = "word_of_int (sint v sdiv sint (ucast access :: i64)) :: i64"
  have md: "sint v smod sint ?a = 0" and sc: "-64 \<le>s ?q" "?q \<le>s 63"
    and imm: "imm = \<lparr>s7_value = ucast ?q, s7_access = ucast ?a\<rparr>"
    using assms by (auto simp: simm7_scaled_new_def Let_def split: if_splits)
  show "s7_access imm = access" by (simp add: imm narrow_wide_u8)
  have "-64 \<le> sint ?q \<and> sint ?q \<le> 63" using sc by (simp add: word_sle_eq)
  then have "signed_take_bit 7 (sint ?q) = sint ?q" by (intro signed_take_bit_int_eq_self) auto
  then have q8: "sint (ucast ?q :: i8) = sint ?q"
    by (simp add: signed_ucast_eq uint_sint signed_take_bit_take_bit)
  have "scast (ucast ?q :: i8) = (word_of_int (sint (ucast ?q :: i8)) :: i64)" by simp
  then have "scast (ucast ?q :: i8) = ?q" unfolding q8 by simp
  then have "s7_byte_offset imm = ?q * ?a" by (simp add: s7_byte_offset_def imm narrow_wide_u8)
  also have "\<dots> = word_of_int (sint v sdiv sint ?a * sint ?a)" by (simp only: word_of_sint_mult)
  also have "\<dots> = v" by (simp add: sdiv_exact [OF md])
  finally show "s7_byte_offset imm = v" .
qed

lemma simm9_new_value: "simm9_new v = Some imm \<Longrightarrow> simm9_value imm = v \<and> -256 \<le> sint v \<and> sint v \<le> 255"
  by (auto simp: simm9_new_def word_sle_eq split: if_splits)

end
