(* ===== verification/Arm_Frame.thy ===== *)
theory Arm_Frame
  imports Abi_Layout Arm_Constants Machine_Memory
begin

text \<open>
  The AArch64 calling convention and frame code: \<^verbatim>\<open>anon_armv8/src/abi.rs\<close>, the register conventions of
  \<^verbatim>\<open>anon_armv8/src/regs.rs\<close> and \<open>materialize_integer_constant\<close> of \<^verbatim>\<open>anon_armv8/src/constants.rs\<close>. The instructions
  are those of \<open>MInst\<close> that frame code is made of; their execution is defined in \<open>Arm_Exec\<close>.
\<close>

section \<open>Registers\<close>

definition FP :: nat where "FP = 29"
definition LR :: nat where "LR = 30"
definition INT_POST_RA_SCRATCH :: "nat list" where "INT_POST_RA_SCRATCH = [14, 15, 16, 17]"
definition SP_HW_ENC :: nat where "SP_HW_ENC = 63"

definition int_preg :: "nat \<Rightarrow> preg rust" where
  "int_preg index = do { rassert (index \<le> LR); preg_new index IntClass }"

definition float_preg :: "nat \<Rightarrow> preg rust" where
  "float_preg index = do { rassert (index \<le> 31); preg_new index FloatClass }"

definition vector_preg :: "nat \<Rightarrow> preg rust" where
  "vector_preg index = do { rassert (index \<le> 31); preg_new index VectorClass }"

definition int_reg :: "nat \<Rightarrow> reg rust" where
  "int_reg index = do { p \<leftarrow> int_preg index; reg_from_physical_reg p }"

definition float_reg :: "nat \<Rightarrow> reg rust" where
  "float_reg index = do { p \<leftarrow> float_preg index; reg_from_physical_reg p }"

definition vector_reg :: "nat \<Rightarrow> reg rust" where
  "vector_reg index = do { p \<leftarrow> vector_preg index; reg_from_physical_reg p }"

definition stack_preg :: "preg rust" where
  "stack_preg = preg_new SP_HW_ENC IntClass"

definition stack_reg :: "reg rust" where
  "stack_reg = do { p \<leftarrow> stack_preg; reg_from_physical_reg p }"

text \<open>The constant arrays are evaluated at compile time: a panic there would be a compile error.\<close>

definition const_regs :: "(nat \<Rightarrow> reg rust) \<Rightarrow> nat list \<Rightarrow> reg list" where
  "const_regs mk is = List.map_filter mk is"

definition INT_ARG_REGS :: "reg list" where "INT_ARG_REGS = const_regs int_reg [0, 1, 2, 3, 4, 5, 6, 7]"
definition FLOAT_ARG_REGS :: "reg list" where "FLOAT_ARG_REGS = const_regs float_reg [0, 1, 2, 3, 4, 5, 6, 7]"
definition VECTOR_ARG_REGS :: "reg list" where "VECTOR_ARG_REGS = const_regs vector_reg [0, 1, 2, 3, 4, 5, 6, 7]"

definition arm_is_callee_saved :: "preg \<Rightarrow> bool rust" where
  "arm_is_callee_saved p = do {
     cls \<leftarrow> preg_class p;
     Some (case cls of
         IntClass \<Rightarrow> preg_hw_enc p \<ge> 19 \<and> preg_hw_enc p \<le> 28
       | FloatClass \<Rightarrow> preg_hw_enc p \<ge> 8 \<and> preg_hw_enc p \<le> 15
       | VectorClass \<Rightarrow> preg_hw_enc p \<ge> 8 \<and> preg_hw_enc p \<le> 15) }"

definition INT_REG_NAMES :: "string list" where
  "INT_REG_NAMES = [''x0'', ''x1'', ''x2'', ''x3'', ''x4'', ''x5'', ''x6'', ''x7'', ''x8'', ''x9'', ''x10'', ''x11'', ''x12'',
    ''x13'', ''x14'', ''x15'', ''x16'', ''x17'', ''x18'', ''x19'', ''x20'', ''x21'', ''x22'', ''x23'', ''x24'', ''x25'',
    ''x26'', ''x27'', ''x28'', ''x29'', ''x30'']"

definition FLOAT_REG_NAMES :: "string list" where
  "FLOAT_REG_NAMES = [''v0'', ''v1'', ''v2'', ''v3'', ''v4'', ''v5'', ''v6'', ''v7'', ''v8'', ''v9'', ''v10'', ''v11'', ''v12'',
    ''v13'', ''v14'', ''v15'', ''v16'', ''v17'', ''v18'', ''v19'', ''v20'', ''v21'', ''v22'', ''v23'', ''v24'', ''v25'',
    ''v26'', ''v27'', ''v28'', ''v29'', ''v30'', ''v31'']"

definition preg_name :: "preg \<Rightarrow> string rust" where
  "preg_name p = do {
     cls \<leftarrow> preg_class p;
     vec_get (case cls of IntClass \<Rightarrow> INT_REG_NAMES | FloatClass \<Rightarrow> FLOAT_REG_NAMES | VectorClass \<Rightarrow> FLOAT_REG_NAMES)
       (preg_hw_enc p) }"

section \<open>Instructions\<close>

datatype memory_type = MemI32 | MemI64 | MemF32 | MemF64 | MemVec128

fun byte_size :: "memory_type \<Rightarrow> u8" where
  "byte_size MemI32 = 4" | "byte_size MemF32 = 4" | "byte_size MemI64 = 8" | "byte_size MemF64 = 8"
| "byte_size MemVec128 = 16"

datatype extend_op = Uxtb | Uxth | Uxtw | Uxtx | Sxtb | Sxth | Sxtw | Sxtx

datatype amode =
    AReg reg
  | AUnsignedOffset reg uimm12_scaled
  | ASignedOffset reg simm9
  | ARegOffset reg reg
  | AScaledRegOffset reg reg u8
  | AExtendedRegOffset reg reg extend_op u8
  | AFrameSlot i64
  | ASpOffset i64
  | AIncomingArg i64
  | AOutgoingArg i64

fun amode_from :: "stack_amode \<Rightarrow> amode" where
  "amode_from (IncomingArg offset _) = AIncomingArg offset"
| "amode_from (Slot offset) = AFrameSlot offset"
| "amode_from (OutgoingArg offset) = AOutgoingArg offset"

datatype pair_amode = PSignedOffset reg simm7_scaled | PPreIndex reg simm7_scaled | PPostIndex reg simm7_scaled

datatype alu_op = AluAdd | AluSub | AluMul | AluAnd | AluOrr | AluOrn | AluEor | AluLsl | AluLsr | AluAsr

datatype reg_or_zr = RegZ reg | Zr

datatype minst =
    AluRRR alu_op operand_size reg reg_or_zr reg_or_zr
  | AluRRImm12 alu_op operand_size reg reg imm12
  | AluRRImmLogic alu_op operand_size reg reg_or_zr imm_logic
  | AluRRRExtend alu_op operand_size reg reg reg extend_op u8
  | Mov operand_size reg reg
  | MovPhys operand_size reg reg
  | LoadImm operand_size reg u64
  | MovZ operand_size reg move_wide_const
  | MovN operand_size reg move_wide_const
  | MovK operand_size reg reg move_wide_const
  | MovFromZero operand_size reg
  | FMov reg reg
  | VecMov reg reg
  | Load memory_type reg amode
  | Store memory_type reg amode
  | LoadPair memory_type reg reg pair_amode
  | StorePair memory_type reg reg pair_amode
  | LoadAddr reg hir_inst
  | StackAddr reg amode
  | ArgsPseudo "arg_pair list"

fun step_inst :: "operand_size \<Rightarrow> reg \<Rightarrow> const_plan_step \<Rightarrow> minst" where
  "step_inst sz dst ZeroStep = MovFromZero sz dst"
| "step_inst sz dst (LogicalStep imm) = AluRRImmLogic AluOrr sz dst Zr imm"
| "step_inst sz dst (MovZStep imm) = MovZ sz dst imm"
| "step_inst sz dst (MovNStep imm) = MovN sz dst imm"
| "step_inst sz dst (MovKStep imm) = MovK sz dst dst imm"

definition materialize_integer_constant :: "u64 \<Rightarrow> operand_size \<Rightarrow> reg \<Rightarrow> minst list rust" where
  "materialize_integer_constant val sz dst = do {
     plan \<leftarrow> plan_integer_constant val sz;
     Some (map (step_inst sz dst) plan) }"

section \<open>Hooks of the calling convention\<close>

definition operand_size_of :: "lowered_type \<Rightarrow> operand_size" where
  "operand_size_of t = (if t = lt_I32 then Size32 else Size64)"

definition memory_type_of :: "lowered_type \<Rightarrow> memory_type" where
  "memory_type_of t = (if lt_is_vector t then MemVec128 else if t = lt_F32 then MemF32 else if t = lt_I32 then MemI32 else MemI64)"

definition gen_load_stack :: "stack_amode \<Rightarrow> reg \<Rightarrow> lowered_type \<Rightarrow> minst" where
  "gen_load_stack m dst t = Load (memory_type_of t) dst (amode_from m)"

definition gen_store_stack :: "reg \<Rightarrow> stack_amode \<Rightarrow> lowered_type \<Rightarrow> minst" where
  "gen_store_stack src m t = Store (memory_type_of t) src (amode_from m)"

definition gen_spill_store_at_sp :: "reg \<Rightarrow> i64 \<Rightarrow> lowered_type \<Rightarrow> minst list" where
  "gen_spill_store_at_sp src spill_off t = [Store (memory_type_of t) src (ASpOffset spill_off)]"

definition gen_spill_load_at_sp :: "i64 \<Rightarrow> reg \<Rightarrow> lowered_type \<Rightarrow> minst list" where
  "gen_spill_load_at_sp spill_off dst t = [Load (memory_type_of t) dst (ASpOffset spill_off)]"

definition gen_load_imm :: "reg \<Rightarrow> u64 \<Rightarrow> lowered_type \<Rightarrow> minst rust" where
  "gen_load_imm dst val t = do {
     sz \<leftarrow> (if t = lt_I32 then Some Size32 else if t = lt_I64 then Some Size64 else None);
     Some (LoadImm sz dst val) }"

definition gen_get_stack_addr :: "stack_amode \<Rightarrow> reg \<Rightarrow> minst" where
  "gen_get_stack_addr m dst = StackAddr dst (amode_from m)"

definition gen_move :: "reg \<Rightarrow> reg \<Rightarrow> lowered_type \<Rightarrow> minst" where
  "gen_move src dst t =
    (if lt_is_vector t then VecMov dst src else if t = lt_F32 then FMov dst src else Mov (operand_size_of t) dst src)"

fun arm_classify :: "ty \<Rightarrow> arg_reg_bank rust" where
  "arm_classify Float32 = Some FloatBank"
| "arm_classify (VectorTy _ _) = Some VectorBank"
| "arm_classify Int32 = Some IntBank"
| "arm_classify (PointerTy _) = Some IntBank"
| "arm_classify StringTy = Some IntBank"
| "arm_classify _ = None"

definition arm_slot_size :: "ty \<Rightarrow> u32" where
  "arm_slot_size t = (if is_vector t then 16 else 8)"

definition arm_compute_call_arg_loc :: "ty list \<Rightarrow> (arg_slot list \<times> u32) rust" where
  "arm_compute_call_arg_loc types =
    planner_compute (planner_with_vector_regs INT_ARG_REGS FLOAT_ARG_REGS VECTOR_ARG_REGS) types arm_classify arm_slot_size"

section \<open>Constants added to registers\<close>

definition append_sp_adjust :: "minst list \<Rightarrow> i64 \<Rightarrow> minst list rust" where
  "append_sp_adjust insts amount = (if amount = 0 then Some insts else do {
     let (abs, op) = (if amount <s 0 then (- amount, AluSub) else (amount, AluAdd));
     sp \<leftarrow> stack_reg;
     case imm12_maybe_from_u64 abs of
       Some imm \<Rightarrow> Some (insts @ [AluRRImm12 op Size64 sp sp imm])
     | None \<Rightarrow> do {
         scratch \<leftarrow> vec_get INT_POST_RA_SCRATCH 0;
         tmp \<leftarrow> int_reg scratch;
         c \<leftarrow> materialize_integer_constant abs Size64 tmp;
         Some (insts @ c @ [AluRRRExtend op Size64 sp sp tmp Uxtx 0]) } })"

text \<open>The part of \<open>append_add_constant\<close> for amounts that are not immediates.\<close>

definition add_large_constant :: "minst list \<Rightarrow> reg \<Rightarrow> reg \<Rightarrow> i64 \<Rightarrow> minst list rust" where
  "add_large_constant insts dst base amount = do {
     sp \<leftarrow> stack_reg;
     copy \<leftarrow> int_reg 17;
     let (insts, base) = (if base = sp then (insts @ [MovPhys Size64 copy sp], copy) else (insts, base));
     s0 \<leftarrow> vec_get INT_POST_RA_SCRATCH 0;
     scratch \<leftarrow> int_reg s0;
     c \<leftarrow> materialize_integer_constant amount Size64 scratch;
     Some (insts @ c @ [AluRRR AluAdd Size64 dst (RegZ base) (RegZ scratch)]) }"

definition append_add_constant :: "minst list \<Rightarrow> reg \<Rightarrow> reg \<Rightarrow> i64 \<Rightarrow> minst list rust" where
  "append_add_constant insts dst base amount =
    (case (if 0 \<le>s amount then imm12_maybe_from_u64 amount else None) of
       Some imm \<Rightarrow> Some (insts @ [AluRRImm12 AluAdd Size64 dst base imm])
     | None \<Rightarrow> add_large_constant insts dst base amount)"

section \<open>Prologue and epilogue\<close>

definition arm_prologue_frame_setup :: "frame_layout \<Rightarrow> minst list rust" where
  "arm_prologue_frame_setup frame = do {
     sp \<leftarrow> stack_reg;
     fp \<leftarrow> int_reg FP;
     lr \<leftarrow> int_reg LR;
     insts \<leftarrow> (if setup_area_size frame \<noteq> 0 then do {
         off \<leftarrow> simm7_scaled_new (-16) 8;
         Some [StorePair MemI64 fp lr (PPreIndex sp off)] }
       else Some []);
     insts \<leftarrow> append_sp_adjust insts (- (ucast (total_size frame) - ucast (setup_area_size frame)));
     if setup_area_size frame \<noteq> 0 then append_add_constant insts fp sp (ucast (total_size frame)) else Some insts }"

definition arm_epilogue_frame_restore :: "frame_layout \<Rightarrow> minst list rust" where
  "arm_epilogue_frame_restore frame = do {
     sp \<leftarrow> stack_reg;
     fp \<leftarrow> int_reg FP;
     lr \<leftarrow> int_reg LR;
     insts \<leftarrow> append_sp_adjust [] (ucast (total_size frame) - ucast (setup_area_size frame));
     if setup_area_size frame \<noteq> 0 then do {
       off \<leftarrow> simm7_scaled_new 16 8;
       Some (insts @ [LoadPair MemI64 fp lr (PPostIndex sp off)]) }
     else Some insts }"

definition clobber_slot_size :: "preg \<Rightarrow> u32 rust" where
  "clobber_slot_size p = do { cls \<leftarrow> preg_class p; Some (case cls of VectorClass \<Rightarrow> 16 | _ \<Rightarrow> 8) }"

definition clobber_memory_type :: "preg \<Rightarrow> memory_type rust" where
  "clobber_memory_type p = do {
     cls \<leftarrow> preg_class p;
     Some (case cls of FloatClass \<Rightarrow> MemF64 | VectorClass \<Rightarrow> MemVec128 | IntClass \<Rightarrow> MemI64) }"

text \<open>The slots that \<open>gen_clobber_save\<close> and \<open>gen_clobber_restore\<close> compute before they emit code. The offsets are below
  \<open>2 ^ 33\<close> in absolute value, so that the 64-bit arithmetic does not overflow.\<close>

fun clobber_slots :: "i64 \<Rightarrow> i64 \<Rightarrow> preg list \<Rightarrow> (preg \<times> i64) list rust" where
  "clobber_slots base offset [] = Some []"
| "clobber_slots base offset (p # ps) = do {
     n \<leftarrow> clobber_slot_size p;
     let sz = ucast n;
     let offset = (if 8 <s sz then (offset + sz - 1) AND NOT (sz - 1) else offset);
     let offset = offset + sz;
     rest \<leftarrow> clobber_slots base offset ps;
     Some ((p, base - offset) # rest) }"

definition is_pair :: "preg \<times> i64 \<Rightarrow> preg \<times> i64 \<Rightarrow> bool rust" where
  "is_pair x y = do {
     t1 \<leftarrow> clobber_memory_type (fst x);
     if t1 \<noteq> MemI64 then Some False else do {
       t2 \<leftarrow> clobber_memory_type (fst y);
       Some (t2 = MemI64 \<and> snd x - snd y = 8) } }"

definition save_one :: "preg \<times> i64 \<Rightarrow> minst rust" where
  "save_one x = do { t \<leftarrow> clobber_memory_type (fst x); r \<leftarrow> reg_from_physical_reg (fst x); Some (Store t r (ASpOffset (snd x))) }"

fun save_slots :: "(preg \<times> i64) list \<Rightarrow> minst list rust" where
  "save_slots [] = Some []"
| "save_slots [x] = do { i \<leftarrow> save_one x; Some [i] }"
| "save_slots (x # y # rest) = do {
     pair \<leftarrow> is_pair x y;
     case (if pair then simm7_scaled_new (snd y) 8 else None) of
       Some offset \<Rightarrow> do {
         r1 \<leftarrow> reg_from_physical_reg (fst y);
         r2 \<leftarrow> reg_from_physical_reg (fst x);
         sp \<leftarrow> stack_reg;
         more \<leftarrow> save_slots rest;
         Some (StorePair MemI64 r1 r2 (PSignedOffset sp offset) # more) }
     | None \<Rightarrow> do { i \<leftarrow> save_one x; more \<leftarrow> save_slots (y # rest); Some (i # more) } }"

definition restore_one :: "preg \<times> i64 \<Rightarrow> minst rust" where
  "restore_one x = do { t \<leftarrow> clobber_memory_type (fst x); r \<leftarrow> reg_from_physical_reg (fst x); Some (Load t r (ASpOffset (snd x))) }"

fun restore_slots :: "(preg \<times> i64) list \<Rightarrow> minst list rust" where
  "restore_slots [] = Some []"
| "restore_slots [x] = do { i \<leftarrow> restore_one x; Some [i] }"
| "restore_slots (x # y # rest) = do {
     pair \<leftarrow> is_pair x y;
     case (if pair then simm7_scaled_new (snd y) 8 else None) of
       Some offset \<Rightarrow> do {
         r1 \<leftarrow> reg_from_physical_reg (fst y);
         r2 \<leftarrow> reg_from_physical_reg (fst x);
         sp \<leftarrow> stack_reg;
         more \<leftarrow> restore_slots rest;
         Some (LoadPair MemI64 r1 r2 (PSignedOffset sp offset) # more) }
     | None \<Rightarrow> do { i \<leftarrow> restore_one x; more \<leftarrow> restore_slots (y # rest); Some (i # more) } }"

definition arm_clobber_save :: "frame_layout \<Rightarrow> minst list rust" where
  "arm_clobber_save frame = do {
     base \<leftarrow> u32_sub (total_size frame) (setup_area_size frame);
     slots \<leftarrow> clobber_slots (ucast base) 0 (callee_saved frame);
     save_slots slots }"

definition arm_clobber_restore :: "frame_layout \<Rightarrow> minst list rust" where
  "arm_clobber_restore frame = do {
     base \<leftarrow> u32_sub (total_size frame) (setup_area_size frame);
     slots \<leftarrow> clobber_slots (ucast base) 0 (callee_saved frame);
     restore_slots slots }"

section \<open>Legalization\<close>

definition i16_of_i64 :: "i64 \<Rightarrow> i16" where
  "i16_of_i64 x = ucast x"

fun option_all :: "'a option list \<Rightarrow> 'a list option" where
  "option_all [] = Some []"
| "option_all (x # xs) = do { y \<leftarrow> x; ys \<leftarrow> option_all xs; Some (y # ys) }"

definition large_address :: "reg \<Rightarrow> i64 \<Rightarrow> reg option \<Rightarrow> (amode \<times> minst list) rust" where
  "large_address base offset store_src = do {
     all \<leftarrow> option_all (map int_reg INT_POST_RA_SCRATCH);
     let scratches = filter (\<lambda>r. Some r \<noteq> store_src) all;
     address \<leftarrow> vec_get scratches 0;
     offset_reg \<leftarrow> vec_get scratches 1;
     insts \<leftarrow> materialize_integer_constant offset Size64 offset_reg;
     sp \<leftarrow> stack_reg;
     let (insts, base) = (if base = sp then (insts @ [MovPhys Size64 address sp], address) else (insts, base));
     Some (AReg address, insts @ [AluRRR AluAdd Size64 address (RegZ base) (RegZ offset_reg)]) }"

definition legalize_amode :: "frame_layout \<Rightarrow> amode \<Rightarrow> memory_type \<Rightarrow> reg option \<Rightarrow> (amode \<times> minst list) rust" where
  "legalize_amode frame addr t store_src = do {
     sp \<leftarrow> stack_reg;
     fp \<leftarrow> int_reg FP;
     target \<leftarrow> (case addr of
         AFrameSlot offset \<Rightarrow> do { o' \<leftarrow> i64_add (ucast (outgoing_args_size frame)) offset; Some (Some (sp, o')) }
       | ASpOffset offset \<Rightarrow> Some (Some (sp, offset))
       | AOutgoingArg offset \<Rightarrow> Some (Some (sp, offset))
       | AIncomingArg offset \<Rightarrow> Some (Some (fp, offset))
       | _ \<Rightarrow> Some None);
     case target of
       None \<Rightarrow> Some (addr, [])
     | Some (base, offset) \<Rightarrow>
         (case (if 0 \<le>s offset then uimm12_scaled_new offset (byte_size t) else None) of
            Some imm \<Rightarrow> Some (AUnsignedOffset base imm, [])
          | None \<Rightarrow>
            (case (case simm9_new (i16_of_i64 offset) of
                 Some imm \<Rightarrow> if -256 \<le>s offset \<and> offset \<le>s 255 then Some imm else None
               | None \<Rightarrow> None) of
               Some imm \<Rightarrow> Some (ASignedOffset base imm, [])
             | None \<Rightarrow> large_address base offset store_src)) }"

fun arm_legalize_inst :: "frame_layout \<Rightarrow> minst \<Rightarrow> minst list rust" where
  "arm_legalize_inst frame (StackAddr dst (AFrameSlot offset)) = do {
     sp \<leftarrow> stack_reg;
     o' \<leftarrow> i64_add (ucast (outgoing_args_size frame)) offset;
     append_add_constant [] dst sp o' }"
| "arm_legalize_inst frame (Load t dst addr) = do {
     (addr, prefix) \<leftarrow> legalize_amode frame addr t None;
     Some (prefix @ [Load t dst addr]) }"
| "arm_legalize_inst frame (Store t src addr) = do {
     (addr, prefix) \<leftarrow> legalize_amode frame addr t (Some src);
     Some (prefix @ [Store t src addr]) }"
| "arm_legalize_inst frame inst = Some [inst]"

definition gen_stack_to_stack_move :: "i64 \<Rightarrow> i64 \<Rightarrow> minst list rust" where
  "gen_stack_to_stack_move from to = do {
     s0 \<leftarrow> vec_get INT_POST_RA_SCRATCH 0;
     scratch \<leftarrow> int_reg s0;
     Some [Load MemI64 scratch (ASpOffset from), Store MemI64 scratch (ASpOffset to)] }"

definition arm_spillslot_size :: "reg_class \<Rightarrow> u32" where
  "arm_spillslot_size cls = (case cls of VectorClass \<Rightarrow> 2 | _ \<Rightarrow> 1)"

definition aarch64_abi :: "minst machine_spec" where
  "aarch64_abi = \<lparr>word_bytes = 64 div 8, stack_align = 16, spillslot_size = arm_spillslot_size, spill_unit_bytes = 8,
     is_callee_saved = arm_is_callee_saved, compute_call_arg_loc = arm_compute_call_arg_loc,
     gen_incoming_arg_load = (\<lambda>off dst t. Some [gen_load_stack (IncomingArg off 0) dst t]),
     gen_args = ArgsPseudo, gen_prologue_frame_setup = arm_prologue_frame_setup,
     gen_epilogue_frame_restore = arm_epilogue_frame_restore, gen_clobber_save = arm_clobber_save,
     gen_clobber_restore = arm_clobber_restore\<rparr>"

text \<open>\<open>emit_legalized\<close>: the instructions of a list, legalized one by one.\<close>

fun legalize_all :: "frame_layout \<Rightarrow> minst list \<Rightarrow> minst list rust" where
  "legalize_all frame [] = Some []"
| "legalize_all frame (i # is) = do { x \<leftarrow> arm_legalize_inst frame i; xs \<leftarrow> legalize_all frame is; Some (x @ xs) }"

end
