(* ===== verification/Arm_Exec.thy ===== *)
theory Arm_Exec
  imports Arm_Frame
begin

text \<open>
  Execution of AArch64 frame code on the machine of \<open>Machine_Memory\<close>, with lemmas on each sequence the back end
  emits: a materialized constant, an adjustment of the stack pointer, an address, and a legalized load or store
  compute what they should and change only the declared scratch registers.
\<close>

section \<open>Semantics\<close>

definition xget :: "machine \<Rightarrow> reg \<Rightarrow> u64" where
  "xget s r = xregs s (hw r)"

definition xset :: "machine \<Rightarrow> reg \<Rightarrow> u64 \<Rightarrow> machine" where
  "xset s r v = s\<lparr>xregs := (xregs s)(hw r := v)\<rparr>"

definition vset :: "machine \<Rightarrow> reg \<Rightarrow> 128 word \<Rightarrow> machine" where
  "vset s r v = s\<lparr>vregs := (vregs s)(hw r := v)\<rparr>"

text \<open>Where encoding 31 means the zero register, the stack pointer reads as zero and is not written.\<close>

fun zget :: "machine \<Rightarrow> reg_or_zr \<Rightarrow> u64" where
  "zget s (RegZ r) = (if hw r = SP_HW_ENC then 0 else xget s r)" | "zget s Zr = 0"

definition zset :: "machine \<Rightarrow> reg \<Rightarrow> u64 \<Rightarrow> machine" where
  "zset s r v = (if hw r = SP_HW_ENC then s else xset s r v)"

fun alu_value :: "alu_op \<Rightarrow> u64 \<Rightarrow> u64 \<Rightarrow> u64 option" where
  "alu_value AluAdd a b = Some (a + b)"
| "alu_value AluSub a b = Some (a - b)"
| "alu_value AluOrr a b = Some (a OR b)"
| "alu_value AluAnd a b = Some (a AND b)"
| "alu_value AluEor a b = Some (a XOR b)"
| "alu_value AluMul a b = Some (a * b)"
| "alu_value _ a b = None"

definition cut :: "operand_size \<Rightarrow> u64 \<Rightarrow> u64" where
  "cut sz v = take_bit (size_bits sz) v"

definition imm12_val :: "imm12 \<Rightarrow> u64" where
  "imm12_val imm = push_bit (if imm12_shift12 imm then 12 else 0) (ucast (imm12_value imm))"

fun amode_address :: "machine \<Rightarrow> amode \<Rightarrow> u64 option" where
  "amode_address s (AReg b) = Some (xget s b)"
| "amode_address s (AUnsignedOffset b i) = Some (xget s b + u12_byte_offset i)"
| "amode_address s (ASignedOffset b i) = Some (xget s b + scast (simm9_value i))"
| "amode_address s _ = None"

fun load_reg :: "memory_type \<Rightarrow> machine \<Rightarrow> reg \<Rightarrow> u64 \<Rightarrow> machine" where
  "load_reg MemI32 s r a = xset s r (ucast (mem_read (mem s) a 4))"
| "load_reg MemI64 s r a = xset s r (ucast (mem_read (mem s) a 8))"
| "load_reg MemF32 s r a = vset s r (mem_read (mem s) a 4)"
| "load_reg MemF64 s r a = vset s r (mem_read (mem s) a 8)"
| "load_reg MemVec128 s r a = vset s r (mem_read (mem s) a 16)"

fun store_val :: "memory_type \<Rightarrow> machine \<Rightarrow> reg \<Rightarrow> 128 word" where
  "store_val MemI32 s r = ucast (xget s r)"
| "store_val MemI64 s r = ucast (xget s r)"
| "store_val _ s r = vregs s (hw r)"

definition mem_bytes :: "memory_type \<Rightarrow> nat" where
  "mem_bytes t = unat (byte_size t)"

definition store_reg :: "memory_type \<Rightarrow> machine \<Rightarrow> reg \<Rightarrow> u64 \<Rightarrow> machine" where
  "store_reg t s r a = s\<lparr>mem := mem_write (mem s) a (mem_bytes t) (store_val t s r)\<rparr>"

text \<open>A pair accesses two consecutive locations; pre-indexing changes the base before the access, post-indexing
  after it. A load pair writes its first register first.\<close>

fun pair_base :: "pair_amode \<Rightarrow> reg" where
  "pair_base (PSignedOffset b _) = b" | "pair_base (PPreIndex b _) = b" | "pair_base (PPostIndex b _) = b"

fun pair_address :: "machine \<Rightarrow> pair_amode \<Rightarrow> u64" where
  "pair_address s (PSignedOffset b i) = xget s b + s7_byte_offset i"
| "pair_address s (PPreIndex b i) = xget s b + s7_byte_offset i"
| "pair_address s (PPostIndex b i) = xget s b"

fun pair_writeback :: "machine \<Rightarrow> pair_amode \<Rightarrow> u64" where
  "pair_writeback s (PSignedOffset b i) = xget s b"
| "pair_writeback s (PPreIndex b i) = xget s b + s7_byte_offset i"
| "pair_writeback s (PPostIndex b i) = xget s b + s7_byte_offset i"

fun exec_inst :: "minst \<Rightarrow> machine \<Rightarrow> machine option" where
  "exec_inst (AluRRR op sz d a b) s = map_option (\<lambda>v. zset s d (cut sz v)) (alu_value op (zget s a) (zget s b))"
| "exec_inst (AluRRImm12 op sz d a imm) s = map_option (\<lambda>v. xset s d (cut sz v)) (alu_value op (xget s a) (imm12_val imm))"
| "exec_inst (AluRRImmLogic op sz d a imm) s = map_option (\<lambda>v. xset s d (cut sz v)) (alu_value op (zget s a) (il_value imm))"
| "exec_inst (AluRRRExtend op sz d a b ext sh) s =
    (if ext = Uxtx \<and> sh = 0 then map_option (\<lambda>v. xset s d (cut sz v)) (alu_value op (xget s a) (zget s (RegZ b))) else None)"
| "exec_inst (Mov sz d a) s = Some (xset s d (cut sz (xget s a)))"
| "exec_inst (MovPhys sz d a) s = Some (xset s d (cut sz (xget s a)))"
| "exec_inst (MovZ sz d imm) s = Some (zset s d (step_value sz (xget s d) (MovZStep imm)))"
| "exec_inst (MovN sz d imm) s = Some (zset s d (step_value sz (xget s d) (MovNStep imm)))"
| "exec_inst (MovK sz d a imm) s = Some (zset s d (step_value sz (xget s a) (MovKStep imm)))"
| "exec_inst (MovFromZero sz d) s = Some (zset s d 0)"
| "exec_inst (FMov d a) s = Some (vset s d (take_bit 32 (vregs s (hw a))))"
| "exec_inst (VecMov d a) s = Some (vset s d (vregs s (hw a)))"
| "exec_inst (Load t d m) s = map_option (load_reg t s d) (amode_address s m)"
| "exec_inst (Store t r m) s = map_option (store_reg t s r) (amode_address s m)"
| "exec_inst (LoadPair t d1 d2 m) s =
    (let a = pair_address s m; s' = load_reg t (load_reg t s d1 a) d2 (a + word_of_nat (mem_bytes t))
     in Some (case m of PSignedOffset b i \<Rightarrow> s' | _ \<Rightarrow> xset s' (pair_base m) (pair_writeback s m)))"
| "exec_inst (StorePair t r1 r2 m) s =
    (let a = pair_address s m;
         s' = s\<lparr>mem := mem_write (mem_write (mem s) a (mem_bytes t) (store_val t s r1))
                (a + word_of_nat (mem_bytes t)) (mem_bytes t) (store_val t s r2)\<rparr>
     in Some (xset s' (pair_base m) (pair_writeback s m)))"
| "exec_inst (ArgsPseudo args) s = Some s"
| "exec_inst _ s = None"

fun exec :: "minst list \<Rightarrow> machine \<Rightarrow> machine option" where
  "exec [] s = Some s"
| "exec (i # is) s = do { s \<leftarrow> exec_inst i s; exec is s }"

lemma exec_append: "exec (is @ js) s = do { s \<leftarrow> exec is s; exec js s }"
  by (induction "is" arbitrary: s) (simp_all split: bind_split)

section \<open>The registers of frame code\<close>

lemmas reg_eval = stack_reg_def stack_preg_def int_reg_def int_preg_def reg_from_physical_reg_def preg_to_pinned_vreg_def
  preg_class_def class_of_code_def preg_new_def vreg_new_def preg_index_def SPILLSLOT_MASK_def SPILLSLOT_BIT_def SP_HW_ENC_def
  LR_def PREG_MAX_def PREG_MAX_BITS_def VREG_MAX_def hw_def reg_to_physical_reg_def pinned_vreg_to_preg_def vreg_vreg_def
  vreg_from_bits_def PINNED_PREG_def preg_from_index_def PREG_NUM_INDEX_def preg_hw_enc_def

lemma stack_reg_eq: "stack_reg = Some (Reg 252)"
  by (simp add: reg_eval)

lemma int_reg_eqs:
  "int_reg 14 = Some (Reg 56)" "int_reg 15 = Some (Reg 60)" "int_reg 16 = Some (Reg 64)" "int_reg 17 = Some (Reg 68)"
  "int_reg 29 = Some (Reg 116)" "int_reg 30 = Some (Reg 120)"
  by (simp_all add: reg_eval)

lemma hw_eqs: "hw (Reg 252) = 63" "hw (Reg 56) = 14" "hw (Reg 60) = 15" "hw (Reg 64) = 16" "hw (Reg 68) = 17"
  "hw (Reg 116) = 29" "hw (Reg 120) = 30"
  by (simp_all add: reg_eval mask_eq_exp_minus_1)

lemmas frame_regs = stack_reg_eq int_reg_eqs hw_eqs FP_def LR_def SP_HW_ENC_def INT_POST_RA_SCRATCH_def

section \<open>Writes to integer registers\<close>

lemma same_except_xset: "hw r \<in> S \<Longrightarrow> same_except S s (xset s r v)"
  by (auto simp: same_except_def xset_def)

lemma xregs_xset [simp]: "xregs (xset s r v) = (xregs s)(hw r := v)"
  by (simp add: xset_def)

lemma xset_other [simp]: "mem (xset s r v) = mem s" "vregs (xset s r v) = vregs s"
  by (simp_all add: xset_def)

lemma xset_twice [simp]: "xset (xset s r v) r w = xset s r w"
  by (simp add: xset_def)

lemma cut_64 [simp]: "cut Size64 v = v"
  by (simp add: cut_def take_bit_word_eq_self)

section \<open>Constants\<close>

text \<open>Instructions that legalization leaves alone.\<close>

fun plain :: "minst \<Rightarrow> bool" where
  "plain (Load _ _ _) = False" | "plain (Store _ _ _) = False" | "plain (StackAddr _ _) = False" | "plain _ = True"

lemma legalize_plain: "list_all plain is \<Longrightarrow> legalize_all frame is = Some is"
proof (induction "is")
  case (Cons i "is")
  then show ?case by (cases i) simp_all
qed simp

lemma legalize_all_append: "legalize_all frame (is @ js) = do { x \<leftarrow> legalize_all frame is; y \<leftarrow> legalize_all frame js; Some (x @ y) }"
  by (induction "is") (simp_all split: bind_split)

lemma plain_step_inst: "plain (step_inst sz d st)"
  by (cases st) simp_all

lemma exec_step_inst:
  assumes "hw d \<noteq> SP_HW_ENC"
  shows "exec_inst (step_inst sz d st) s = Some (xset s d (step_value sz (xget s d) st))"
  using assms by (cases st) (simp_all add: zset_def step_value.simps cut_def)

lemma exec_steps:
  assumes "hw d \<noteq> SP_HW_ENC"
  shows "exec (map (step_inst sz d) plan) (xset s d v) = Some (xset s d (foldl (step_value sz) v plan))"
  by (induction plan arbitrary: v) (simp_all add: exec_step_inst [OF assms] xget_def)

lemma exec_materialize:
  assumes "hw d \<noteq> SP_HW_ENC"
  shows "\<exists>is. materialize_integer_constant val Size64 d = Some is \<and> list_all plain is \<and> (\<forall>s. exec is s = Some (xset s d val))"
proof -
  obtain plan where p: "plan_integer_constant val Size64 = Some plan" "\<And>old. foldl (step_value Size64) old plan = val"
    using plan_correct [of val Size64] by (auto simp: take_bit_word_eq_self)
  have "exec (map (step_inst Size64 d) plan) s = Some (xset s d val)" for s
  proof -
    have "xset s d (xget s d) = s" by (simp add: xset_def xget_def)
    then show ?thesis using exec_steps [OF assms, of Size64 plan s "xget s d"] p(2) by simp
  qed
  then show ?thesis using p(1) by (simp add: materialize_integer_constant_def list_all_iff plain_step_inst)
qed

lemma imm12_val_eq: "imm12_maybe_from_u64 v = Some imm \<Longrightarrow> imm12_val imm = v"
  unfolding imm12_val_def by (rule imm12_maybe_from_u64_value(1))

lemma exec_sp_adjust:
  "\<exists>is. append_sp_adjust insts amount = Some (insts @ is) \<and> list_all plain is \<and>
    (\<forall>s. \<exists>s'. exec is s = Some s' \<and> same_except {14, 63} s s' \<and> xregs s' 63 = xregs s 63 + amount)"
proof (cases "amount = 0")
  case True
  then show ?thesis by (intro exI [of _ "[]"]) (simp add: append_sp_adjust_def)
next
  case False
  define abs op where ao: "abs = (if amount <s 0 then - amount else amount)" "op = (if amount <s 0 then AluSub else AluAdd)"
  have alu: "alu_value op a abs = Some (a + amount)" for a by (simp add: ao)
  have eq: "append_sp_adjust insts amount = (case imm12_maybe_from_u64 abs of
       Some imm \<Rightarrow> Some (insts @ [AluRRImm12 op Size64 (Reg 252) (Reg 252) imm])
     | None \<Rightarrow> do { c \<leftarrow> materialize_integer_constant abs Size64 (Reg 56);
         Some (insts @ c @ [AluRRRExtend op Size64 (Reg 252) (Reg 252) (Reg 56) Uxtx 0]) })"
    using False by (cases "amount <s 0") (simp_all add: append_sp_adjust_def ao frame_regs vec_get_def split: option.split)
  show ?thesis
  proof (cases "imm12_maybe_from_u64 abs")
    case (Some imm)
    then show ?thesis using eq alu
      by (auto simp: imm12_val_eq [OF Some] xget_def hw_eqs intro!: same_except_xset)
  next
    case None
    obtain c where c: "materialize_integer_constant abs Size64 (Reg 56) = Some c"
      "\<And>s. exec c s = Some (xset s (Reg 56) abs)" "list_all plain c"
      using exec_materialize [of "Reg 56" abs] by (auto simp: frame_regs)
    have "\<exists>s'. exec (c @ [AluRRRExtend op Size64 (Reg 252) (Reg 252) (Reg 56) Uxtx 0]) s = Some s'
        \<and> same_except {14, 63} s s' \<and> xregs s' 63 = xregs s 63 + amount" for s
      using alu by (auto simp: exec_append c(2) xget_def frame_regs
          intro!: same_except_trans [OF same_except_xset same_except_xset])
    then show ?thesis using eq None c(1,3) by (simp del: bind_eq_Some)
  qed
qed

lemma exec_add_constant:
  assumes d: "hw d \<noteq> 63"
  shows "\<exists>is. append_add_constant insts d (Reg 252) amount = Some (insts @ is) \<and> list_all plain is \<and>
    (\<forall>s. \<exists>s'. exec is s = Some s' \<and> same_except {14, 17, hw d} s s' \<and> xregs s' (hw d) = xregs s 63 + amount)"
proof (cases "if 0 \<le>s amount then imm12_maybe_from_u64 amount else None")
  case (Some imm)
  then have i: "imm12_maybe_from_u64 amount = Some imm" by (simp split: if_splits)
  then show ?thesis using Some
    by (auto simp: append_add_constant_def imm12_val_eq [OF i] xget_def hw_eqs intro!: same_except_xset)
next
  case None
  obtain c where c: "materialize_integer_constant amount Size64 (Reg 56) = Some c"
    "\<And>s. exec c s = Some (xset s (Reg 56) amount)" "list_all plain c"
    using exec_materialize [of "Reg 56" amount] by (auto simp: frame_regs)
  let ?is = "MovPhys Size64 (Reg 68) (Reg 252) # c @ [AluRRR AluAdd Size64 d (RegZ (Reg 68)) (RegZ (Reg 56))]"
  have "append_add_constant insts d (Reg 252) amount = Some (insts @ ?is)"
    using None c(1) by (simp add: append_add_constant_def add_large_constant_def frame_regs vec_get_def)
  moreover have "\<exists>s'. exec ?is s = Some s' \<and> same_except {14, 17, hw d} s s' \<and> xregs s' (hw d) = xregs s 63 + amount" for s
    using d by (auto simp: exec_append c(2) zset_def xget_def frame_regs
        intro!: same_except_trans [OF same_except_xset same_except_trans [OF same_except_xset same_except_xset]])
  moreover have "list_all plain ?is" using c(3) by simp
  ultimately show ?thesis by blast
qed

section \<open>Addresses\<close>

text \<open>The base register and offset of a frame relative address.\<close>

fun frame_address :: "frame_layout \<Rightarrow> amode \<Rightarrow> (nat \<times> i64) option" where
  "frame_address frame (AFrameSlot offset) =
    (if i64_add (ucast (outgoing_args_size frame)) offset = None then None else Some (63, ucast (outgoing_args_size frame) + offset))"
| "frame_address frame (ASpOffset offset) = Some (63, offset)"
| "frame_address frame (AOutgoingArg offset) = Some (63, offset)"
| "frame_address frame (AIncomingArg offset) = Some (29, offset)"
| "frame_address frame _ = None"

text \<open>Scratch registers that an address may use: those that are not the register to store.\<close>

definition address_scratch :: "reg option \<Rightarrow> nat set" where
  "address_scratch src = hw ` {r \<in> {Reg 56, Reg 60, Reg 64}. Some r \<noteq> src}"

lemma address_scratch_range: "i \<in> address_scratch src \<Longrightarrow> i \<in> {14, 15, 16}"
  by (auto simp: address_scratch_def hw_eqs)

lemma in_scratch: "r \<in> {Reg 56, Reg 60, Reg 64} \<Longrightarrow> Some r \<noteq> src \<Longrightarrow> hw r \<in> address_scratch src"
  unfolding address_scratch_def by blast

lemma pick_scratches:
  obtains a b rest where "filter (\<lambda>r. Some r \<noteq> src) [Reg 56, Reg 60, Reg 64, Reg 68] = a # b # rest"
    and "hw a \<in> address_scratch src" and "hw b \<in> address_scratch src" and "hw a \<noteq> hw b"
proof -
  consider "src = Some (Reg 56)" | "src = Some (Reg 60)" | "src \<noteq> Some (Reg 56)" "src \<noteq> Some (Reg 60)" by blast
  then show ?thesis
  proof cases
    case 1
    then show ?thesis by (intro that [OF _ in_scratch in_scratch, of "Reg 60" "Reg 64"]) (simp_all add: hw_eqs)
  next
    case 2
    then show ?thesis by (intro that [OF _ in_scratch in_scratch, of "Reg 56" "Reg 64"]) (simp_all add: hw_eqs)
  next
    case 3
    then show ?thesis by (intro that [OF _ in_scratch in_scratch, of "Reg 56" "Reg 60"]) (simp_all add: hw_eqs)
  qed
qed

lemma exec_large_address:
  assumes base: "base = Reg 252 \<or> base = Reg 116"
  shows "\<exists>m is. large_address base offset src = Some (m, is) \<and> (\<forall>s. \<exists>s'. exec is s = Some s'
    \<and> same_except (address_scratch src) s s' \<and> amode_address s' m = Some (xregs s (hw base) + offset))"
proof -
  obtain a b rest where ab: "filter (\<lambda>r. Some r \<noteq> src) [Reg 56, Reg 60, Reg 64, Reg 68] = a # b # rest"
    and sc: "hw a \<in> address_scratch src" "hw b \<in> address_scratch src" "hw a \<noteq> hw b"
    by (rule pick_scratches)
  have n: "hw a \<noteq> 63" "hw b \<noteq> 63" "hw a \<noteq> 29" "hw b \<noteq> 29" using sc address_scratch_range by force+
  obtain c where c: "materialize_integer_constant offset Size64 b = Some c" "\<And>s. exec c s = Some (xset s b offset)"
    using exec_materialize [of b offset] n by (auto simp: frame_regs)
  have all: "option_all (map int_reg INT_POST_RA_SCRATCH) = Some [Reg 56, Reg 60, Reg 64, Reg 68]"
    by (simp add: frame_regs)
  let ?is = "c @ (if base = Reg 252 then [MovPhys Size64 a (Reg 252)] else [])
     @ [AluRRR AluAdd Size64 a (RegZ (if base = Reg 252 then a else base)) (RegZ b)]"
  have "large_address base offset src = Some (AReg a, ?is)"
    using ab c(1) by (auto simp: large_address_def all vec_get_def stack_reg_eq)
  moreover have "\<exists>s'. exec ?is s = Some s' \<and> same_except (address_scratch src) s s'
      \<and> amode_address s' (AReg a) = Some (xregs s (hw base) + offset)" for s
    using base n sc by (auto simp: exec_append c(2) zset_def xget_def frame_regs
        intro!: same_except_trans [OF same_except_xset same_except_trans [OF same_except_xset same_except_xset]]
          same_except_trans [OF same_except_xset same_except_xset])
  ultimately show ?thesis by blast
qed

lemma small_offset_value:
  assumes "simm9_new (i16_of_i64 offset) = Some imm" and "-256 \<le>s offset" and "offset \<le>s 255"
  shows "scast (simm9_value imm) = offset"
proof -
  have "-256 \<le> sint offset \<and> sint offset \<le> 255" using assms(2,3) by (simp add: word_sle_eq)
  then have "signed_take_bit 15 (sint offset) = sint offset" by (intro signed_take_bit_int_eq_self) auto
  then have q: "sint (ucast offset :: i16) = sint offset"
    by (simp add: signed_ucast_eq uint_sint signed_take_bit_take_bit)
  have "scast (ucast offset :: i16) = (word_of_int (sint (ucast offset :: i16)) :: i64)" by simp
  then have "scast (ucast offset :: i16) = offset" unfolding q by simp
  then show ?thesis using simm9_new_value [OF assms(1)] by (simp add: i16_of_i64_def)
qed

lemma exec_legalize_amode:
  assumes "frame_address frame m = Some (b, offset)"
  shows "\<exists>m' is. legalize_amode frame m t src = Some (m', is) \<and> (\<forall>s. \<exists>s'. exec is s = Some s'
    \<and> same_except (address_scratch src) s s' \<and> amode_address s' m' = Some (xregs s b + offset))"
proof -
  define base where "base = (if b = 63 then Reg 252 else Reg 116)"
  have base: "base = Reg 252 \<or> base = Reg 116" "hw base = b"
    using assms by (cases m; auto simp: base_def hw_eqs split: if_splits)+
  let ?u = "if 0 \<le>s offset then uimm12_scaled_new offset (byte_size t) else None"
  let ?i = "case simm9_new (i16_of_i64 offset) of Some imm \<Rightarrow> if -256 \<le>s offset \<and> offset \<le>s 255 then Some imm else None | None \<Rightarrow> None"
  have eq: "legalize_amode frame m t src = (case ?u of Some imm \<Rightarrow> Some (AUnsignedOffset base imm, [])
      | None \<Rightarrow> (case ?i of Some imm \<Rightarrow> Some (ASignedOffset base imm, []) | None \<Rightarrow> large_address base offset src))"
  proof (cases "b = 63")
    case True
    then have r: "base = Reg 252" by (simp add: base_def)
    show ?thesis unfolding r using assms True by (cases m) (auto simp: legalize_amode_def frame_regs i64_add_def split: if_splits)
  next
    case False
    then have r: "base = Reg 116" by (simp add: base_def)
    show ?thesis unfolding r using assms False by (cases m) (auto simp: legalize_amode_def frame_regs i64_add_def split: if_splits)
  qed
  show ?thesis
  proof (cases ?u)
    case (Some imm)
    then have "u12_byte_offset imm = offset" using uimm12_scaled_new_offset(1) by (simp split: if_splits)
    then show ?thesis using eq Some base by (simp add: xget_def)
  next
    case None
    show ?thesis
    proof (cases ?i)
      case (Some imm)
      then have "scast (simm9_value imm) = offset" using small_offset_value by (auto split: if_splits option.splits)
      then show ?thesis using eq None Some base by (simp add: xget_def)
    next
      case n: None
      show ?thesis using eq None n exec_large_address [OF base(1), of offset src] base(2) by simp
    qed
  qed
qed

section \<open>Legalized loads and stores\<close>

lemma load_reg_same: "same_except S s s' \<Longrightarrow> mem (load_reg t s' d a) = mem s"
  by (cases t) (simp_all add: same_except_def vset_def)

text \<open>A legalized store writes the register; besides, only scratch registers change.\<close>

lemma exec_legalized_store:
  assumes "frame_address frame m = Some (b, offset)" and "t = MemI32 \<or> t = MemI64 \<Longrightarrow> hw r \<notin> {14, 15, 16}"
  shows "\<exists>is. arm_legalize_inst frame (Store t r m) = Some is \<and> (\<forall>s. \<exists>s'. exec is s = Some s'
    \<and> same_except {14, 15, 16} s (s'\<lparr>mem := mem s\<rparr>)
    \<and> mem s' = mem_write (mem s) (xregs s b + offset) (mem_bytes t) (store_val t s r))"
proof -
  obtain m' pre where l: "legalize_amode frame m t (Some r) = Some (m', pre)"
    and e: "\<And>s. \<exists>s'. exec pre s = Some s' \<and> same_except (address_scratch (Some r)) s s'
      \<and> amode_address s' m' = Some (xregs s b + offset)"
    using exec_legalize_amode [OF assms(1), of t "Some r"] by blast
  have "\<exists>s'. exec (pre @ [Store t r m']) s = Some s' \<and> same_except {14, 15, 16} s (s'\<lparr>mem := mem s\<rparr>)
    \<and> mem s' = mem_write (mem s) (xregs s b + offset) (mem_bytes t) (store_val t s r)" for s
  proof -
    obtain s1 where s1: "exec pre s = Some s1" "same_except (address_scratch (Some r)) s s1"
      "amode_address s1 m' = Some (xregs s b + offset)" using e by blast
    have same: "same_except {14, 15, 16} s s1" using s1(2) address_scratch_range by (auto intro: same_except_mono)
    then have "store_val t s1 r = store_val t s r" using assms(2) by (cases t) (auto simp: same_except_def xget_def)
    then show ?thesis using s1 same by (auto simp: exec_append store_reg_def same_except_def)
  qed
  then show ?thesis using l by auto
qed

lemma exec_legalized_load:
  assumes "frame_address frame m = Some (b, offset)"
  shows "\<exists>is. arm_legalize_inst frame (Load t d m) = Some is \<and> (\<forall>s. \<exists>s1. same_except {14, 15, 16} s s1
    \<and> exec is s = Some (load_reg t s1 d (xregs s b + offset)))"
proof -
  obtain m' pre where l: "legalize_amode frame m t None = Some (m', pre)"
    and e: "\<And>s. \<exists>s'. exec pre s = Some s' \<and> same_except (address_scratch None) s s'
      \<and> amode_address s' m' = Some (xregs s b + offset)"
    using exec_legalize_amode [OF assms, of t None] by blast
  have "\<exists>s1. same_except {14, 15, 16} s s1 \<and> exec (pre @ [Load t d m']) s = Some (load_reg t s1 d (xregs s b + offset))" for s
  proof -
    obtain s1 where s1: "exec pre s = Some s1" "same_except (address_scratch None) s s1"
      "amode_address s1 m' = Some (xregs s b + offset)" using e by blast
    have "same_except {14, 15, 16} s s1" using s1(2) address_scratch_range by (auto intro: same_except_mono)
    then show ?thesis using s1 by (auto simp: exec_append)
  qed
  then show ?thesis using l by auto
qed

end
