(* ===== verification/Arm_Prologue.thy ===== *)
theory Arm_Prologue
  imports Arm_Exec
begin

text \<open>
  AArch64 prologue and epilogue: where the saved registers are, that the code of \<^verbatim>\<open>anon_armv8/src/abi.rs\<close> saves and
  restores them, and that a function keeps the registers the procedure call standard wants it to keep. The locale
  \<open>frame_code\<close> is interpreted on the prologue and epilogue of a function whose frame layout was computed.
\<close>

section \<open>The area of saved registers\<close>

definition slot_bytes :: "preg \<Rightarrow> nat" where
  "slot_bytes p = (if preg_class p = Some VectorClass then 16 else 8)"

definition slot_start :: "nat \<Rightarrow> preg \<Rightarrow> nat" where
  "slot_start off p = (if slot_bytes p = 16 then (off + 15) div 16 * 16 else off)"

fun area_end :: "nat \<Rightarrow> preg list \<Rightarrow> nat" where
  "area_end off [] = off"
| "area_end off (p # ps) = area_end (slot_start off p + slot_bytes p) ps"

text \<open>The slots below \<open>base\<close>, with the offset from the stack pointer and the size of each.\<close>

fun area_slots :: "nat \<Rightarrow> nat \<Rightarrow> preg list \<Rightarrow> (preg \<times> nat \<times> nat) list" where
  "area_slots base off [] = []"
| "area_slots base off (p # ps) =
    (p, base - (slot_start off p + slot_bytes p), slot_bytes p) # area_slots base (slot_start off p + slot_bytes p) ps"

lemma slot_start_ge: "off \<le> slot_start off p"
proof -
  have "off + 15 = (off + 15) div 16 * 16 + (off + 15) mod 16" by simp
  moreover have "(off + 15) mod 16 < 16" by simp
  ultimately show ?thesis unfolding slot_start_def by auto
qed

lemma area_end_ge: "off \<le> area_end off ps"
  by (induction ps arbitrary: off) (simp_all, meson add_leD1 order_trans slot_start_ge)

lemma area_end_step: "slot_start off p + slot_bytes p \<le> area_end off (p # ps)"
  by (simp add: area_end_ge)

lemma area_slots_bounds:
  assumes "area_end off ps \<le> base" and "(p, k, n) \<in> set (area_slots base off ps)"
  shows "base - area_end off ps \<le> k" and "k + n \<le> base - off" and "n = slot_bytes p" and "p \<in> set ps"
proof -
  have "base - area_end off ps \<le> k \<and> k + n \<le> base - off \<and> n = slot_bytes p \<and> p \<in> set ps"
    using assms
  proof (induction ps arbitrary: off)
    case (Cons q ps)
    let ?e = "slot_start off q + slot_bytes q"
    have e: "?e \<le> base" "off \<le> slot_start off q" "?e \<le> area_end ?e ps"
      using Cons.prems(1) area_end_step [of off q ps] slot_start_ge [of off q] area_end_ge [of ?e ps] by simp_all
    show ?case
    proof (cases "(p, k, n) \<in> set (area_slots base ?e ps)")
      case True
      then show ?thesis using Cons.IH [of ?e] Cons.prems e by auto
    next
      case False
      then have "p = q" "k = base - ?e" "n = slot_bytes q" using Cons.prems(2) by auto
      then show ?thesis using e Cons.prems(1) by auto
    qed
  qed simp
  then show "base - area_end off ps \<le> k" and "k + n \<le> base - off" and "n = slot_bytes p" and "p \<in> set ps" by simp_all
qed

text \<open>Later registers are below earlier ones.\<close>

lemma area_slots_ordered:
  assumes "area_end off ps \<le> base"
  shows "sorted_wrt (\<lambda>(_, k, _) (_, k', n'). k' + n' \<le> k) (area_slots base off ps)"
  using assms
proof (induction ps arbitrary: off)
  case (Cons q ps)
  let ?e = "slot_start off q + slot_bytes q"
  have "k' + n' \<le> base - ?e" if "(r, k', n') \<in> set (area_slots base ?e ps)" for r k' n'
    using area_slots_bounds(2) [of ?e ps base r k' n'] Cons.prems that by simp
  then show ?case using Cons by auto
qed simp

lemma map_fst_area_slots: "map fst (area_slots base off ps) = ps"
  by (induction ps arbitrary: off) simp_all

section \<open>The computed slots\<close>

lemma and_not_15: "unat (x AND - 16) = unat x div 16 * 16" for x :: "'a::len word"
proof -
  have m: "(- 16 :: 'a word) = NOT (mask 4)" by (simp flip: minus_exp_eq_not_mask)
  have "x AND - 16 = push_bit 4 (drop_bit 4 x)"
    unfolding m by (rule bit_eqI) (auto simp: bit_simps not_less)
  then have "unat (x AND - 16) = take_bit LENGTH('a) (push_bit 4 (unat x div 16))"
    by (simp add: unsigned_push_bit_eq unat_drop_bit)
  also have "\<dots> = take_bit LENGTH('a) (unat x div 16 * 16)" by (simp add: push_bit_eq_mult)
  also have "\<dots> = unat x div 16 * 16"
    using le_less_trans [OF div_times_less_eq_dividend unat_lt [of x]] by (rule take_bit_nat_eq_self)
  finally show ?thesis .
qed

lemma u32_mul_sizes: "u32_mul 1 8 = Some 8" "u32_mul 2 8 = Some 16"
  by (simp_all add: u32_mul_def)

lemma arm_clobber_step:
  assumes "clobber_step aarch64_abi off p = Some (Inr off')"
  shows "unat off' = slot_start (unat off) p + slot_bytes p \<and> preg_class p \<noteq> None"
proof -
  obtain c where c: "preg_class p = Some c" using assms by (auto simp: clobber_step_def)
  show ?thesis
  proof (cases "c = VectorClass")
    case True
    obtain x where x: "u32_add off 15 = Some x" "u32_add (x AND NOT 15) 16 = Some off'"
      using assms c True
      by (auto simp: clobber_step_def aarch64_abi_def arm_spillslot_size_def u32_mul_sizes ok_or_eq and_then_eq)
    have "unat x = unat off + 15" using x(1) by (auto simp: u32_add_eq_Some unat_u32_add)
    moreover have "unat off' = unat (x AND NOT 15) + 16" using x(2) by (auto simp: u32_add_eq_Some unat_u32_add)
    ultimately show ?thesis using c True by (simp add: and_not_15 slot_start_def slot_bytes_def)
  next
    case False
    have "u32_add off 8 = Some off'"
      using assms c False
      by (cases c) (auto simp: clobber_step_def aarch64_abi_def arm_spillslot_size_def u32_mul_sizes ok_or_eq and_then_eq)
    then have "unat off' = unat off + 8" by (auto simp: u32_add_eq_Some unat_u32_add)
    then show ?thesis using c False by (simp add: slot_start_def slot_bytes_def)
  qed
qed

lemma arm_clobber_area:
  assumes "clobber_area aarch64_abi off ps = Some (Inr c)"
  shows "unat c = area_end (unat off) ps \<and> (\<forall>p \<in> set ps. preg_class p \<noteq> None)"
  using assms
proof (induction ps arbitrary: off)
  case (Cons p ps)
  obtain off' where o': "clobber_step aarch64_abi off p = Some (Inr off')" "clobber_area aarch64_abi off' ps = Some (Inr c)"
    using Cons.prems by (auto simp: and_then_eq)
  show ?case using Cons.IH [OF o'(2)] arm_clobber_step [OF o'(1)] by simp
qed simp

lemma word_i64_sub: "k \<le> base \<Longrightarrow> (word_of_nat base - word_of_nat k :: i64) = word_of_nat (base - k)"
  by (simp add: of_nat_diff)

lemma clobber_slots_eq:
  assumes "area_end off ps \<le> base" and "base < 2 ^ 32" and "\<forall>p \<in> set ps. preg_class p \<noteq> None"
  shows "clobber_slots (word_of_nat base) (word_of_nat off) ps
    = Some (map (\<lambda>(p, k, n). (p, word_of_nat k)) (area_slots base off ps))"
  using assms
proof (induction ps arbitrary: off)
  case (Cons p ps)
  let ?e = "slot_start off p + slot_bytes p"
  obtain c where c: "preg_class p = Some c" using Cons.prems(3) by auto
  have e: "?e \<le> base" using Cons.prems(1) area_end_step [of off p ps] by simp
  have ih: "clobber_slots (word_of_nat base) (word_of_nat ?e) ps
      = Some (map (\<lambda>(p, k, n). (p, word_of_nat k)) (area_slots base ?e ps))"
    using Cons.IH [of ?e] Cons.prems by (simp del: of_nat_add)
  have step: "(let sz = ucast (if c = VectorClass then 16 else 8 :: u32) :: i64;
       offset = if 8 <s sz then (word_of_nat off + sz - 1) AND NOT (sz - 1) else word_of_nat off in offset + sz) = word_of_nat ?e"
  proof (cases "c = VectorClass")
    case True
    have lt: "off + 15 < 2 ^ 64" using e slot_start_ge [of off p] Cons.prems(2) by simp
    have "unat ((word_of_nat off + 15 :: i64) AND - 16) = (off + 15) div 16 * 16"
      using unat_of_nat_lt [where 'a = 64, of "off + 15"] lt by (simp add: and_not_15)
    then have "(word_of_nat off + 15 :: i64) AND - 16 = word_of_nat ((off + 15) div 16 * 16)"
      by (metis of_nat_unat ucast_id)
    then have "(15 + word_of_nat off :: i64) AND - 16 = word_of_nat ((off + 15) div 16 * 16)" by (simp only: add.commute)
    then show ?thesis using True c by (simp add: Let_def word_sless_alt slot_start_def slot_bytes_def)
  next
    case False
    then show ?thesis using c by (simp add: Let_def word_sless_alt slot_start_def slot_bytes_def)
  qed
  have sz: "clobber_slot_size p = Some (if c = VectorClass then 16 else 8)"
    by (cases c) (simp_all add: clobber_slot_size_def c)
  show ?case
    using ih step by (simp add: sz Let_def word_i64_sub [OF e] del: bind_eq_Some of_nat_add)
qed simp

section \<open>Saving registers\<close>

text \<open>Hardware registers: an integer register, the low half of a vector register, a whole vector register.\<close>

datatype hwreg = X nat | D nat | Q nat

fun reg_val :: "machine \<Rightarrow> hwreg \<Rightarrow> 128 word" where
  "reg_val s (X i) = ucast (xregs s i)"
| "reg_val s (D i) = take_bit 64 (vregs s i)"
| "reg_val s (Q i) = vregs s i"

definition hw_of :: "preg \<Rightarrow> hwreg" where
  "hw_of p = (case preg_class p of Some IntClass \<Rightarrow> X (preg_hw_enc p) | Some FloatClass \<Rightarrow> D (preg_hw_enc p)
     | _ \<Rightarrow> Q (preg_hw_enc p))"

type_synonym 'r slot = "'r \<times> nat \<times> nat"

definition slot_of :: "preg slot \<Rightarrow> hwreg slot" where
  "slot_of = (\<lambda>(p, k, n). (hw_of p, k, n))"

definition outside :: "u64 \<Rightarrow> 'r slot list \<Rightarrow> u64 \<Rightarrow> bool" where
  "outside sp L x = (\<forall>(r, k, n) \<in> set L. x \<notin> bytes_at (sp + word_of_nat k) n)"

text \<open>Registers that the code for addresses leaves alone.\<close>

fun untouched :: "hwreg \<Rightarrow> bool" where
  "untouched (X i) = (i \<notin> {14, 15, 16, 63})" | "untouched _ = True"

definition saver :: "hwreg slot list \<Rightarrow> minst list \<Rightarrow> bool" where
  "saver L js = (\<forall>s. \<exists>s'. exec js s = Some s' \<and> same_except {14, 15, 16} s (s'\<lparr>mem := mem s\<rparr>)
     \<and> saved_in (mem s') (xregs s 63) L (reg_val s) \<and> (\<forall>x. outside (xregs s 63) L x \<longrightarrow> mem s' x = mem s x))"

definition apart :: "'r slot list \<Rightarrow> 'r slot list \<Rightarrow> bool" where
  "apart L M = (\<forall>(r, k, n) \<in> set L. \<forall>(r', k', n') \<in> set M. k' + n' \<le> k \<or> k + n \<le> k')"

definition in_reach :: "'r slot list \<Rightarrow> bool" where
  "in_reach L = (\<forall>(r, k, n) \<in> set L. k + n \<le> 2 ^ 32 \<and> n \<le> 16)"

lemma same_except_reg_val: "same_except {14, 15, 16} s (s'\<lparr>mem := m\<rparr>) \<Longrightarrow> untouched r \<Longrightarrow> reg_val s' r = reg_val s r"
  by (cases r) (auto simp: same_except_def)

lemma saver_append:
  assumes a: "saver L is" and b: "saver M js" and ap: "apart L M" and r: "in_reach L" "in_reach M"
    and st: "\<forall>(r, _) \<in> set M. untouched r"
  shows "saver (L @ M) (is @ js)"
  unfolding saver_def
proof
  fix s
  obtain s1 where s1: "exec is s = Some s1" "same_except {14, 15, 16} s (s1\<lparr>mem := mem s\<rparr>)"
    "saved_in (mem s1) (xregs s 63) L (reg_val s)" "\<And>x. outside (xregs s 63) L x \<Longrightarrow> mem s1 x = mem s x"
    using a unfolding saver_def by blast
  have sp: "xregs s1 63 = xregs s 63" using s1(2) by (simp add: same_except_def)
  obtain s2 where s2: "exec js s1 = Some s2" "same_except {14, 15, 16} s1 (s2\<lparr>mem := mem s1\<rparr>)"
    "saved_in (mem s2) (xregs s 63) M (reg_val s1)" "\<And>x. outside (xregs s 63) M x \<Longrightarrow> mem s2 x = mem s1 x"
    using b sp unfolding saver_def by metis
  have "saved_in (mem s2) (xregs s 63) L (reg_val s)"
    unfolding saved_in_def
  proof (clarify)
    fix r k n assume L: "(r, k, n) \<in> set L"
    have "outside (xregs s 63) M x" if "x \<in> bytes_at (xregs s 63 + word_of_nat k) n" for x
      unfolding outside_def
    proof (clarify)
      fix r' k' n' assume M: "(r', k', n') \<in> set M" and x: "x \<in> bytes_at (xregs s 63 + word_of_nat k') n'"
      have "k' + n' \<le> k \<or> k + n \<le> k'" "k + n \<le> 2 ^ 64" "k' + n' \<le> 2 ^ 64"
        using ap r L M unfolding apart_def in_reach_def by fastforce+
      then have "bytes_at (xregs s 63 + word_of_nat k) n \<inter> bytes_at (xregs s 63 + word_of_nat k') n' = {}"
        by (intro bytes_disjoint) auto
      then show False using that x by blast
    qed
    then have "mem_read (mem s2) (xregs s 63 + word_of_nat k) n = mem_read (mem s1) (xregs s 63 + word_of_nat k) n"
      by (intro mem_read_cong s2(4))
    then show "mem_read (mem s2) (xregs s 63 + word_of_nat k) n = reg_val s r" using s1(3) L by (auto simp: saved_in_def)
  qed
  moreover have "saved_in (mem s2) (xregs s 63) M (reg_val s)"
    using s2(3) st same_except_reg_val [OF s1(2)] by (force simp: saved_in_def)
  ultimately have "saved_in (mem s2) (xregs s 63) (L @ M) (reg_val s)" by (auto simp: saved_in_def)
  moreover have "mem s2 x = mem s x" if "outside (xregs s 63) (L @ M) x" for x
    using that s1(4) s2(4) by (simp add: outside_def)
  moreover have "same_except {14, 15, 16} s (s2\<lparr>mem := mem s\<rparr>)" using s1(2) s2(2) by (simp add: same_except_def)
  ultimately show "\<exists>s'. exec (is @ js) s = Some s' \<and> same_except {14, 15, 16} s (s'\<lparr>mem := mem s\<rparr>)
      \<and> saved_in (mem s') (xregs s 63) (L @ M) (reg_val s)
      \<and> (\<forall>x. outside (xregs s 63) (L @ M) x \<longrightarrow> mem s' x = mem s x)"
    using s1(1) s2(1) by (intro exI [of _ s2]) (simp add: exec_append)
qed

lemma slot_bytes_le: "slot_bytes p \<le> 16"
  by (simp add: slot_bytes_def)

definition saved_reg :: "preg \<Rightarrow> bool" where
  "saved_reg p = (preg_class p \<noteq> None \<and> untouched (hw_of p))"

lemma saved_reg_code:
  assumes "saved_reg p"
  obtains r t where "reg_from_physical_reg p = Some r" and "hw r = preg_hw_enc p" and "clobber_memory_type p = Some t"
    and "mem_bytes t = slot_bytes p" and "\<And>s. take_bit (8 * mem_bytes t) (store_val t s r) = reg_val s (hw_of p)"
    and "t = MemI32 \<or> t = MemI64 \<Longrightarrow> hw r \<notin> {14, 15, 16, 63}" and "t \<in> {MemI64, MemF64, MemVec128}"
    and "t = MemI64 \<longleftrightarrow> hw_of p = X (preg_hw_enc p)"
proof -
  obtain c where c: "preg_class p = Some c" using assms by (auto simp: saved_reg_def)
  obtain r where r: "reg_from_physical_reg p = Some r" "reg_to_physical_reg r = Some p" using reg_physical_decode [OF c] by blast
  have h: "hw r = preg_hw_enc p" by (simp add: hw_def r(2))
  have low: "take_bit 64 (ucast x :: 128 word) = ucast x" for x :: u64 by (rule bit_eqI) (auto simp: bit_simps dest: bit_imp_le_length)
  note defs = clobber_memory_type_def mem_bytes_def slot_bytes_def hw_of_def saved_reg_def xget_def take_bit_word_eq_self
  show ?thesis
  proof (cases c)
    case IntClass
    show ?thesis by (rule that [of r MemI64]) (use assms c h low r(1) IntClass in \<open>simp_all add: defs\<close>)
  next
    case FloatClass
    show ?thesis by (rule that [of r MemF64]) (use c h r(1) FloatClass in \<open>simp_all add: defs\<close>)
  next
    case VectorClass
    show ?thesis by (rule that [of r MemVec128]) (use c h r(1) VectorClass in \<open>simp_all add: defs\<close>)
  qed
qed

lemma exec_store_saver:
  assumes n: "n \<le> 16"
    and run: "\<forall>s. \<exists>s'. exec js s = Some s' \<and> same_except {14, 15, 16} s (s'\<lparr>mem := mem s\<rparr>)
      \<and> mem s' = mem_write (mem s) (xregs s 63 + word_of_nat k) n (v s)"
    and v: "\<And>s. take_bit (8 * n) (v s) = reg_val s r"
  shows "saver [(r, k, n)] js"
  unfolding saver_def
proof
  fix s
  obtain s' where s': "exec js s = Some s'" "same_except {14, 15, 16} s (s'\<lparr>mem := mem s\<rparr>)"
    "mem s' = mem_write (mem s) (xregs s 63 + word_of_nat k) n (v s)" using run by blast
  then have "saved_in (mem s') (xregs s 63) [(r, k, n)] (reg_val s)"
    using n v by (simp add: saved_in_def mem_read_write_same)
  moreover have "mem s' x = mem s x" if "outside (xregs s 63) [(r, k, n)] x" for x
    using that s'(3) n by (simp add: outside_def mem_write_other)
  ultimately show "\<exists>s'. exec js s = Some s' \<and> same_except {14, 15, 16} s (s'\<lparr>mem := mem s\<rparr>)
      \<and> saved_in (mem s') (xregs s 63) [(r, k, n)] (reg_val s)
      \<and> (\<forall>x. outside (xregs s 63) [(r, k, n)] x \<longrightarrow> mem s' x = mem s x)" using s' by blast
qed

lemma saver_one:
  assumes "saved_reg p"
  shows "\<exists>i js. save_one (p, word_of_nat k) = Some i \<and> legalize_all frame [i] = Some js \<and> saver [(hw_of p, k, slot_bytes p)] js"
proof -
  obtain r t where r: "reg_from_physical_reg p = Some r" "hw r = preg_hw_enc p" "clobber_memory_type p = Some t"
    "mem_bytes t = slot_bytes p" "\<And>s. take_bit (8 * mem_bytes t) (store_val t s r) = reg_val s (hw_of p)"
    "t = MemI32 \<or> t = MemI64 \<Longrightarrow> hw r \<notin> {14, 15, 16, 63}" "t \<in> {MemI64, MemF64, MemVec128}"
    by (rule saved_reg_code [OF assms]) blast
  obtain js where js: "arm_legalize_inst frame (Store t r (ASpOffset (word_of_nat k))) = Some js"
    "\<forall>s. \<exists>s'. exec js s = Some s' \<and> same_except {14, 15, 16} s (s'\<lparr>mem := mem s\<rparr>)
      \<and> mem s' = mem_write (mem s) (xregs s 63 + word_of_nat k) (mem_bytes t) (store_val t s r)"
    using exec_legalized_store [of frame "ASpOffset (word_of_nat k)" 63 "word_of_nat k" t r] r(6) by auto
  have "saver [(hw_of p, k, slot_bytes p)] js"
    using js(2) r(5) unfolding r(4) by (intro exec_store_saver) (simp_all add: slot_bytes_le)
  moreover have "legalize_all frame [Store t r (ASpOffset (word_of_nat k))] = Some js"
    using js(1) by (simp del: arm_legalize_inst.simps)
  moreover have "save_one (p, word_of_nat k) = Some (Store t r (ASpOffset (word_of_nat k)))"
    using r(1,3) by (simp add: save_one_def)
  ultimately show ?thesis by blast
qed

lemma xset_same: "xset (s\<lparr>mem := m\<rparr>) r (xget s r) = s\<lparr>mem := m\<rparr>"
  by (simp add: xset_def xget_def)

lemma saver_pair:
  assumes p: "reg_from_physical_reg p = Some rp" "hw rp = preg_hw_enc p" "hw_of p = X (preg_hw_enc p)"
    and q: "reg_from_physical_reg q = Some rq" "hw rq = preg_hw_enc q" "hw_of q = X (preg_hw_enc q)"
    and off: "s7_byte_offset off = word_of_nat k" and k: "k + 16 \<le> 2 ^ 32"
  shows "saver [(hw_of p, k + 8, 8), (hw_of q, k, 8)] [StorePair MemI64 rq rp (PSignedOffset (Reg 252) off)]"
proof -
  have low: "take_bit 64 (ucast x :: 128 word) = ucast x" for x :: u64
    by (rule bit_eqI) (auto simp: bit_simps dest: bit_imp_le_length)
  show ?thesis
    unfolding saver_def
  proof
    fix s :: machine
    let ?a = "xregs s 63 + word_of_nat k" and ?b = "xregs s 63 + word_of_nat (k + 8)"
    let ?m = "mem_write (mem_write (mem s) ?a 8 (ucast (xregs s (hw rq)))) ?b 8 (ucast (xregs s (hw rp)))"
    have ex: "exec [StorePair MemI64 rq rp (PSignedOffset (Reg 252) off)] s = Some (s\<lparr>mem := ?m\<rparr>)"
      using off by (simp add: mem_bytes_def xset_same xget_def hw_eqs add.assoc)
    have dis: "bytes_at ?a 8 \<inter> bytes_at ?b 8 = {}" using k by (intro bytes_disjoint) auto
    have "mem_read ?m ?b 8 = ucast (xregs s (hw rp))" "mem_read ?m ?a 8 = ucast (xregs s (hw rq))"
      using dis low by (simp_all add: mem_read_write_same mem_read_write_disjoint del: of_nat_add)
    then have "saved_in ?m (xregs s 63) [(hw_of p, k + 8, 8), (hw_of q, k, 8)] (reg_val s)"
      using p(2,3) q(2,3) by (simp add: saved_in_def del: of_nat_add)
    moreover have "?m x = mem s x" if "outside (xregs s 63) [(hw_of p, k + 8, 8), (hw_of q, k, 8)] x" for x
      using that by (simp add: outside_def mem_write_other del: of_nat_add)
    ultimately show "\<exists>s'. exec [StorePair MemI64 rq rp (PSignedOffset (Reg 252) off)] s = Some s'
        \<and> same_except {14, 15, 16} s (s'\<lparr>mem := mem s\<rparr>)
        \<and> saved_in (mem s') (xregs s 63) [(hw_of p, k + 8, 8), (hw_of q, k, 8)] (reg_val s)
        \<and> (\<forall>x. outside (xregs s 63) [(hw_of p, k + 8, 8), (hw_of q, k, 8)] x \<longrightarrow> mem s' x = mem s x)"
      unfolding ex by (intro exI [of _ "s\<lparr>mem := ?m\<rparr>"]) (simp add: same_except_def)
  qed
qed

section \<open>Restoring registers\<close>

definition restorer :: "hwreg slot list \<Rightarrow> minst list \<Rightarrow> bool" where
  "restorer L js = (\<forall>s t. saved_in (mem s) (xregs s 63) L (reg_val t) \<longrightarrow> (\<exists>s'. exec js s = Some s' \<and> mem s' = mem s
     \<and> (\<forall>i. i \<notin> {14, 15, 16} \<longrightarrow> xregs s' i = (if X i \<in> fst ` set L then xregs t i else xregs s i))
     \<and> (\<forall>i. take_bit 64 (vregs s' i) = take_bit 64 (if D i \<in> fst ` set L \<or> Q i \<in> fst ` set L then vregs t i else vregs s i))))"

lemma restorer_append:
  assumes a: "restorer L is" and b: "restorer M js" and sp: "X 63 \<notin> fst ` set L"
  shows "restorer (L @ M) (is @ js)"
  unfolding restorer_def
proof (intro allI impI)
  fix s t :: machine assume sv: "saved_in (mem s) (xregs s 63) (L @ M) (reg_val t)"
  then have l: "saved_in (mem s) (xregs s 63) L (reg_val t)" and m: "saved_in (mem s) (xregs s 63) M (reg_val t)"
    by (auto simp: saved_in_def)
  obtain s1 where s1: "exec is s = Some s1" "mem s1 = mem s"
    "\<And>i. i \<notin> {14, 15, 16} \<Longrightarrow> xregs s1 i = (if X i \<in> fst ` set L then xregs t i else xregs s i)"
    "\<And>i. take_bit 64 (vregs s1 i) = take_bit 64 (if D i \<in> fst ` set L \<or> Q i \<in> fst ` set L then vregs t i else vregs s i)"
    using a l unfolding restorer_def by metis
  have "saved_in (mem s1) (xregs s1 63) M (reg_val t)" using m s1(2) s1(3) [of 63] sp by simp
  then obtain s2 where s2: "exec js s1 = Some s2" "mem s2 = mem s1"
    "\<And>i. i \<notin> {14, 15, 16} \<Longrightarrow> xregs s2 i = (if X i \<in> fst ` set M then xregs t i else xregs s1 i)"
    "\<And>i. take_bit 64 (vregs s2 i) = take_bit 64 (if D i \<in> fst ` set M \<or> Q i \<in> fst ` set M then vregs t i else vregs s1 i)"
    using b unfolding restorer_def by metis
  have "xregs s2 i = (if X i \<in> fst ` set (L @ M) then xregs t i else xregs s i)" if "i \<notin> {14, 15, 16}" for i
    using s1(3) s2(3) that by (auto simp: image_Un)
  moreover have "take_bit 64 (vregs s2 i)
      = take_bit 64 (if D i \<in> fst ` set (L @ M) \<or> Q i \<in> fst ` set (L @ M) then vregs t i else vregs s i)" for i
    using s1(4) [of i] s2(4) [of i] by (auto simp: image_Un split: if_splits)
  ultimately show "\<exists>s'. exec (is @ js) s = Some s' \<and> mem s' = mem s
     \<and> (\<forall>i. i \<notin> {14, 15, 16} \<longrightarrow> xregs s' i = (if X i \<in> fst ` set (L @ M) then xregs t i else xregs s i))
     \<and> (\<forall>i. take_bit 64 (vregs s' i)
         = take_bit 64 (if D i \<in> fst ` set (L @ M) \<or> Q i \<in> fst ` set (L @ M) then vregs t i else vregs s i))"
    using s1(1,2) s2(1,2) by (intro exI [of _ s2]) (simp add: exec_append)
qed

lemma load_reg_mem: "mem (load_reg t s d a) = mem s"
  by (cases t) (simp_all add: vset_def)

lemma ucast_back: "ucast (ucast x :: 128 word) = (x :: u64)"
  by (rule bit_eqI) (auto simp: bit_simps)

lemma restorer_one:
  assumes "saved_reg p"
  shows "\<exists>i js. restore_one (p, word_of_nat k) = Some i \<and> legalize_all frame [i] = Some js \<and> restorer [(hw_of p, k, slot_bytes p)] js"
proof -
  obtain r t where r: "reg_from_physical_reg p = Some r" "hw r = preg_hw_enc p" "clobber_memory_type p = Some t"
    "mem_bytes t = slot_bytes p" "t \<in> {MemI64, MemF64, MemVec128}"
    by (rule saved_reg_code [OF assms]) blast
  obtain js where js: "arm_legalize_inst frame (Load t r (ASpOffset (word_of_nat k))) = Some js"
    "\<And>s. \<exists>s1. same_except {14, 15, 16} s s1 \<and> exec js s = Some (load_reg t s1 r (xregs s 63 + word_of_nat k))"
    using exec_legalized_load [of frame "ASpOffset (word_of_nat k)" 63 "word_of_nat k" t r] by auto
  obtain c where c: "preg_class p = Some c" using assms by (auto simp: saved_reg_def)
  have "restorer [(hw_of p, k, slot_bytes p)] js"
    unfolding restorer_def
  proof (intro allI impI)
    fix s t' :: machine assume "saved_in (mem s) (xregs s 63) [(hw_of p, k, slot_bytes p)] (reg_val t')"
    then have v: "mem_read (mem s) (xregs s 63 + word_of_nat k) (slot_bytes p) = reg_val t' (hw_of p)" by (simp add: saved_in_def)
    obtain s1 where s1: "same_except {14, 15, 16} s s1" "exec js s = Some (load_reg t s1 r (xregs s 63 + word_of_nat k))"
      using js(2) by blast
    have m: "mem s1 = mem s" using s1(1) by (simp add: same_except_def)
    have "(\<forall>i. i \<notin> {14, 15, 16} \<longrightarrow> xregs (load_reg t s1 r (xregs s 63 + word_of_nat k)) i
        = (if X i \<in> fst ` set [(hw_of p, k, slot_bytes p)] then xregs t' i else xregs s i))
      \<and> (\<forall>i. take_bit 64 (vregs (load_reg t s1 r (xregs s 63 + word_of_nat k)) i)
        = take_bit 64 (if D i \<in> fst ` set [(hw_of p, k, slot_bytes p)] \<or> Q i \<in> fst ` set [(hw_of p, k, slot_bytes p)]
            then vregs t' i else vregs s i))"
      using s1(1) v r(2,3) c m
      by (cases c) (auto simp: same_except_def clobber_memory_type_def hw_of_def slot_bytes_def vset_def ucast_back)
    then show "\<exists>s'. exec js s = Some s' \<and> mem s' = mem s
      \<and> (\<forall>i. i \<notin> {14, 15, 16} \<longrightarrow> xregs s' i = (if X i \<in> fst ` set [(hw_of p, k, slot_bytes p)] then xregs t' i else xregs s i))
      \<and> (\<forall>i. take_bit 64 (vregs s' i) = take_bit 64 (if D i \<in> fst ` set [(hw_of p, k, slot_bytes p)]
          \<or> Q i \<in> fst ` set [(hw_of p, k, slot_bytes p)] then vregs t' i else vregs s i))"
      using s1(2) m by (auto simp: load_reg_mem)
  qed
  moreover have "legalize_all frame [Load t r (ASpOffset (word_of_nat k))] = Some js"
    using js(1) by (simp del: arm_legalize_inst.simps)
  moreover have "restore_one (p, word_of_nat k) = Some (Load t r (ASpOffset (word_of_nat k)))"
    using r(1,3) by (simp add: restore_one_def)
  ultimately show ?thesis by blast
qed

lemma restorer_pair:
  assumes p: "hw rp = preg_hw_enc p" "hw_of p = X (preg_hw_enc p)"
    and q: "hw rq = preg_hw_enc q" "hw_of q = X (preg_hw_enc q)"
    and off: "s7_byte_offset off = word_of_nat k"
  shows "restorer [(hw_of p, k + 8, 8), (hw_of q, k, 8)] [LoadPair MemI64 rq rp (PSignedOffset (Reg 252) off)]"
  unfolding restorer_def
proof (intro allI impI)
  fix s t :: machine assume sv: "saved_in (mem s) (xregs s 63) [(hw_of p, k + 8, 8), (hw_of q, k, 8)] (reg_val t)"
  let ?s = "xset (xset s rq (ucast (mem_read (mem s) (xregs s 63 + word_of_nat k) 8))) rp
    (ucast (mem_read (mem s) (xregs s 63 + word_of_nat (k + 8)) 8))"
  have ex: "exec [LoadPair MemI64 rq rp (PSignedOffset (Reg 252) off)] s = Some ?s"
    using off by (simp add: Let_def mem_bytes_def xget_def hw_eqs add.assoc)
  have "?s = xset (xset s rq (xregs t (preg_hw_enc q))) rp (xregs t (preg_hw_enc p))"
    using sv p q by (simp add: saved_in_def ucast_back del: of_nat_add)
  then show "\<exists>s'. exec [LoadPair MemI64 rq rp (PSignedOffset (Reg 252) off)] s = Some s' \<and> mem s' = mem s
     \<and> (\<forall>i. i \<notin> {14, 15, 16} \<longrightarrow> xregs s' i
         = (if X i \<in> fst ` set [(hw_of p, k + 8, 8), (hw_of q, k, 8)] then xregs t i else xregs s i))
     \<and> (\<forall>i. take_bit 64 (vregs s' i) = take_bit 64 (if D i \<in> fst ` set [(hw_of p, k + 8, 8), (hw_of q, k, 8)]
         \<or> Q i \<in> fst ` set [(hw_of p, k + 8, 8), (hw_of q, k, 8)] then vregs t i else vregs s i))"
    unfolding ex using p q by auto
qed

section \<open>The code for all saved registers\<close>

definition slots_good :: "preg slot list \<Rightarrow> bool" where
  "slots_good L = (sorted_wrt (\<lambda>(_, k, _) (_, k', n'). k' + n' \<le> k) L
     \<and> (\<forall>(p, k, n) \<in> set L. saved_reg p \<and> n = slot_bytes p \<and> k + n \<le> 2 ^ 32))"

definition with_addr :: "preg slot list \<Rightarrow> (preg \<times> i64) list" where
  "with_addr L = map (\<lambda>(p, k, n). (p, word_of_nat k)) L"

lemma is_pair_total:
  assumes "saved_reg p" and "saved_reg q"
  shows "\<exists>b. is_pair (p, a) (q, a') = Some b"
  by (rule saved_reg_code [OF assms(1)]; rule saved_reg_code [OF assms(2)]) (auto simp: is_pair_def)

lemma is_pair_true:
  assumes "saved_reg p" and "saved_reg q" and "is_pair (p, word_of_nat k) (q, word_of_nat k') = Some True"
    and "k \<le> 2 ^ 32" and "k' \<le> 2 ^ 32"
  shows "hw_of p = X (preg_hw_enc p)" and "hw_of q = X (preg_hw_enc q)" and "k = k' + 8"
proof -
  have t: "clobber_memory_type p = Some MemI64" "clobber_memory_type q = Some MemI64" "word_of_nat k - word_of_nat k' = (8 :: i64)"
    using assms(3) by (auto simp: is_pair_def split: if_splits)
  show "hw_of p = X (preg_hw_enc p)" by (rule saved_reg_code [OF assms(1)]) (use t(1) in auto)
  show "hw_of q = X (preg_hw_enc q)" by (rule saved_reg_code [OF assms(2)]) (use t(2) in auto)
  have "(word_of_nat k :: u64) = word_of_nat (k' + 8)" using t(3) by (simp add: algebra_simps)
  then show "k = k' + 8" using assms(4,5) by (intro word_of_nat_inj_u64) simp_all
qed

lemma slots_good_Cons:
  assumes "slots_good ((p, k, n) # L)"
  shows "saved_reg p" and "n = slot_bytes p" and "k + n \<le> 2 ^ 32" and "slots_good L"
    and "apart [slot_of (p, k, n)] (map slot_of L)"
    using assms by (auto simp: slots_good_def apart_def slot_of_def)

lemma slots_good_reach: "slots_good L \<Longrightarrow> in_reach (map slot_of L)"
  by (auto simp: slots_good_def in_reach_def slot_of_def slot_bytes_le)

lemma slots_good_stable: "slots_good L \<Longrightarrow> \<forall>(r, _) \<in> set (map slot_of L). untouched r"
  by (auto simp: slots_good_def slot_of_def saved_reg_def)

text \<open>The walk over the slots that merges pairs, for the code that saves and the code that restores.\<close>

locale paired_slots =
  fixes emit :: "(preg \<times> i64) list \<Rightarrow> minst list rust" and one :: "preg \<times> i64 \<Rightarrow> minst rust"
    and pair :: "reg \<Rightarrow> reg \<Rightarrow> simm7_scaled \<Rightarrow> minst" and does :: "hwreg slot list \<Rightarrow> minst list \<Rightarrow> bool"
  assumes emit_nil: "emit [] = Some []" and emit_one: "emit [x] = do { i \<leftarrow> one x; Some [i] }"
    and emit_two: "emit (x # y # rest) = do {
      b \<leftarrow> is_pair x y;
      case (if b then simm7_scaled_new (snd y) 8 else None) of
        Some offset \<Rightarrow> do {
          r1 \<leftarrow> reg_from_physical_reg (fst y);
          r2 \<leftarrow> reg_from_physical_reg (fst x);
          sp \<leftarrow> stack_reg;
          more \<leftarrow> emit rest;
          Some (pair r1 r2 offset # more) }
      | None \<Rightarrow> do { i \<leftarrow> one x; more \<leftarrow> emit (y # rest); Some (i # more) } }"
    and pair_plain: "plain (pair r1 r2 off)"
    and does_nil: "does [] []"
    and one_does: "saved_reg p \<Longrightarrow> \<exists>i js. one (p, word_of_nat k) = Some i \<and> legalize_all frame [i] = Some js
      \<and> does [(hw_of p, k, slot_bytes p)] js"
    and pair_does: "reg_from_physical_reg p = Some rp \<Longrightarrow> hw rp = preg_hw_enc p \<Longrightarrow> hw_of p = X (preg_hw_enc p)
      \<Longrightarrow> reg_from_physical_reg q = Some rq \<Longrightarrow> hw rq = preg_hw_enc q \<Longrightarrow> hw_of q = X (preg_hw_enc q)
      \<Longrightarrow> s7_byte_offset off = word_of_nat k \<Longrightarrow> k + 16 \<le> 2 ^ 32
      \<Longrightarrow> does [(hw_of p, k + 8, 8), (hw_of q, k, 8)] [pair rq rp off]"
    and does_append: "slots_good (L @ M) \<Longrightarrow> does (map slot_of L) is \<Longrightarrow> does (map slot_of M) js
      \<Longrightarrow> does (map slot_of L @ map slot_of M) (is @ js)"
begin

lemma emit_correct:
  assumes "slots_good L"
  shows "\<exists>is js. emit (with_addr L) = Some is \<and> legalize_all frame is = Some js \<and> does (map slot_of L) js"
  using assms
proof (induction L rule: length_induct)
  case (1 L)
  show ?case
  proof (cases L)
    case Nil
    then show ?thesis using emit_nil does_nil by (auto simp: with_addr_def)
  next
    case (Cons x M)
    obtain p k n where x: "x = (p, k, n)" by (cases x)
    note g = slots_good_Cons [OF 1(2) [unfolded Cons x]]
    obtain i js where o1: "one (p, word_of_nat k) = Some i" "legalize_all frame [i] = Some js" "does [slot_of (p, k, n)] js"
      using one_does [OF g(1), of k frame] g(2) by (auto simp: slot_of_def)
    have single: ?thesis if "emit (with_addr L) = do { i \<leftarrow> one (p, word_of_nat k); more \<leftarrow> emit (with_addr M); Some (i # more) }"
    proof -
      obtain is2 js2 where more: "emit (with_addr M) = Some is2" "legalize_all frame is2 = Some js2" "does (map slot_of M) js2"
        using 1(1) g(4) Cons by auto
      have "does ([slot_of (p, k, n)] @ map slot_of M) (js @ js2)"
        using does_append [of "[(p, k, n)]" M js js2] 1(2) Cons x o1(3) more(3) by simp
      moreover have "legalize_all frame (i # is2) = Some (js @ js2)" using o1(2) more(2) by auto
      moreover have "emit (with_addr L) = Some (i # is2)" using that o1(1) more(1) by simp
      ultimately show ?thesis by (auto simp: Cons x)
    qed
    show ?thesis
    proof (cases M)
      case Nil
      then show ?thesis by (intro single) (simp add: Cons x with_addr_def emit_one emit_nil)
    next
      case M: (Cons y N)
      obtain q k' n' where y: "y = (q, k', n')" by (cases y)
      note h = slots_good_Cons [OF g(4) [unfolded M y]]
      obtain b where b: "is_pair (p, word_of_nat k) (q, word_of_nat k') = Some b" using is_pair_total [OF g(1) h(1)] by blast
      show ?thesis
      proof (cases "if b then simm7_scaled_new (word_of_nat k') 8 else None")
        case None
        then show ?thesis using b by (intro single) (cases b; simp add: Cons x M y with_addr_def emit_two del: bind_eq_Some)
      next
        case (Some off)
        then have b': "b" and off: "s7_byte_offset off = word_of_nat k'" using simm7_scaled_new_offset(1) by (auto split: if_splits)
        note pr = is_pair_true [OF g(1) h(1) b [unfolded eqTrueI [OF b']]]
        have hx: "hw_of p = X (preg_hw_enc p)" "hw_of q = X (preg_hw_enc q)" "k = k' + 8" using pr g(3) h(3) by simp_all
        have nn: "n = 8" "n' = 8" using hx(1,2) g(1,2) h(1,2) by (auto simp: slot_bytes_def hw_of_def split: option.splits reg_class.splits)
        obtain rp where rp: "reg_from_physical_reg p = Some rp" "hw rp = preg_hw_enc p" by (rule saved_reg_code [OF g(1)]) blast
        obtain rq where rq: "reg_from_physical_reg q = Some rq" "hw rq = preg_hw_enc q" by (rule saved_reg_code [OF h(1)]) blast
        obtain is2 js2 where more: "emit (with_addr N) = Some is2" "legalize_all frame is2 = Some js2" "does (map slot_of N) js2"
          using 1(1) [rule_format, of N] h(4) Cons M by auto
        let ?i = "pair rq rp off"
        have sv: "does [slot_of (p, k, n), slot_of (q, k', n')] [?i]"
          using pair_does [OF rp hx(1) rq hx(2) off] g(3) hx(3) nn by (simp add: slot_of_def)
        have "does ([slot_of (p, k, n), slot_of (q, k', n')] @ map slot_of N) ([pair rq rp off] @ js2)"
          using does_append [of "[(p, k, n), (q, k', n')]" N "[pair rq rp off]" js2] 1(2) Cons x M y sv more(3) by simp
        moreover have "emit (with_addr L) = Some (?i # is2)"
          using b b' Some rp(1) rq(1) more(1) by (simp add: Cons x M y with_addr_def stack_reg_eq emit_two del: bind_eq_Some)
        moreover have "legalize_all frame (?i # is2) = Some ([?i] @ js2)" using more(2) pair_plain [of rq rp off] legalize_plain [of "[pair rq rp off]"] by simp
        ultimately show ?thesis by (auto simp: Cons x M y)
      qed
    qed
  qed
qed

end

lemma slots_good_append:
  assumes "slots_good (L @ M)"
  shows "slots_good L" and "slots_good M" and "apart (map slot_of L) (map slot_of M)"
  using assms by (auto simp: slots_good_def sorted_wrt_append apart_def slot_of_def)

lemma saved_reg_not_sp: "saved_reg p \<Longrightarrow> hw_of p \<noteq> X 63"
  by (auto simp: saved_reg_def)

interpretation save: paired_slots save_slots save_one "\<lambda>r1 r2 off. StorePair MemI64 r1 r2 (PSignedOffset (Reg 252) off)" saver
proof unfold_locales
  show "saver (map slot_of L @ map slot_of M) (is @ js)"
    if "slots_good (L @ M)" "saver (map slot_of L) is" "saver (map slot_of M) js" for L M "is" js
    using slots_good_append [OF that(1)] that(2,3)
    by (intro saver_append) (simp_all add: slots_good_reach slots_good_stable)
  show "saver [] []" by (simp add: saver_def saved_in_def)
qed (rule saver_one saver_pair | simp only: save_slots.simps plain.simps stack_reg_eq Option.bind.bind_lunit; assumption?)+

interpretation restore: paired_slots restore_slots restore_one "\<lambda>r1 r2 off. LoadPair MemI64 r1 r2 (PSignedOffset (Reg 252) off)" restorer
proof unfold_locales
  show "restorer (map slot_of L @ map slot_of M) (is @ js)"
    if "slots_good (L @ M)" "restorer (map slot_of L) is" "restorer (map slot_of M) js" for L M "is" js
    using slots_good_append(1) [OF that(1)] that(2,3)
    by (intro restorer_append) (auto simp: slots_good_def slot_of_def dest!: saved_reg_not_sp)
  show "restorer [] []" by (simp add: restorer_def)
qed (rule restorer_one restorer_pair | simp only: restore_slots.simps plain.simps stack_reg_eq Option.bind.bind_lunit; assumption?)+

section \<open>Setting up and taking down the frame\<close>

definition arm_frame_ok :: "frame_layout \<Rightarrow> bool" where
  "arm_frame_ok f = (clobber_area aarch64_abi 0 (callee_saved f) = Some (Inr (clobber_size f))
     \<and> (setup_area_size f = 0 \<or> setup_area_size f = 16) \<and> area_sum f \<le> unat (total_size f)
     \<and> (\<forall>p \<in> set (callee_saved f). arm_is_callee_saved p = Some True))"

abbreviation frame_total :: "frame_layout \<Rightarrow> nat" where
  "frame_total f \<equiv> unat (total_size f)"

abbreviation frame_base :: "frame_layout \<Rightarrow> nat" where
  "frame_base f \<equiv> unat (total_size f) - unat (setup_area_size f)"

text \<open>The slots of the frame pointer and the link register.\<close>

definition setup_slots :: "frame_layout \<Rightarrow> hwreg slot list" where
  "setup_slots f = (if setup_area_size f = 0 then [] else [(X 29, frame_total f - 16, 8), (X 30, frame_total f - 8, 8)])"

lemma simm7_16:
  obtains a b where "simm7_scaled_new (-16) 8 = Some a" and "s7_byte_offset a = -16"
    and "simm7_scaled_new 16 8 = Some b" and "s7_byte_offset b = 16"
proof -
  obtain a where a: "simm7_scaled_new (-16) 8 = Some a"
    by (simp add: simm7_scaled_new_def Let_def word_sle_eq)
  obtain b where b: "simm7_scaled_new 16 8 = Some b"
    by (simp add: simm7_scaled_new_def Let_def word_sle_eq)
  show ?thesis using that [OF a _ b] simm7_scaled_new_offset(1) [OF a] simm7_scaled_new_offset(1) [OF b] by simp
qed

lemma frame_size_word: "ucast (total_size f) = (word_of_nat (frame_total f) :: i64)"
  "ucast (setup_area_size f) = (word_of_nat (unat (setup_area_size f)) :: i64)"
  by simp_all

lemma frame_total_lt: "frame_total f < 2 ^ 32"
  using unat_lt [of "total_size f"] by simp

lemma setup_le_total: "arm_frame_ok f \<Longrightarrow> unat (setup_area_size f) \<le> frame_total f"
  by (auto simp: arm_frame_ok_def area_sum_def)

lemma exec_setup_pair:
  assumes off: "s7_byte_offset off = -16"
  shows "\<exists>s'. exec [StorePair MemI64 (Reg 116) (Reg 120) (PPreIndex (Reg 252) off)] s = Some s' \<and> vregs s' = vregs s
    \<and> xregs s' = (xregs s)(63 := xregs s 63 - 16) \<and> mem_read (mem s') (xregs s' 63) 8 = ucast (xregs s 29)
    \<and> mem_read (mem s') (xregs s' 63 + 8) 8 = ucast (xregs s 30) \<and> (\<forall>x. x \<notin> bytes_at (xregs s' 63) 16 \<longrightarrow> mem s' x = mem s x)"
proof -
  let ?a = "xregs s 63 - 16" and ?b = "xregs s 63 - 16 + word_of_nat 8"
  let ?m = "mem_write (mem_write (mem s) ?a 8 (ucast (xregs s 29))) ?b 8 (ucast (xregs s 30))"
  have low: "take_bit 64 (ucast x :: 128 word) = ucast x" for x :: u64
    by (rule bit_eqI) (auto simp: bit_simps dest: bit_imp_le_length)
  have ex: "exec [StorePair MemI64 (Reg 116) (Reg 120) (PPreIndex (Reg 252) off)] s = Some (xset (s\<lparr>mem := ?m\<rparr>) (Reg 252) ?a)"
    using off by (simp add: Let_def mem_bytes_def xget_def hw_eqs)
  have dis: "bytes_at ?a 8 \<inter> bytes_at ?b 8 = {}" using bytes_disjoint [of 0 8 8 8 ?a] by simp
  have rd: "mem_read ?m ?a 8 = ucast (xregs s 29)" "mem_read ?m ?b 8 = ucast (xregs s 30)"
    using dis low by (simp_all add: mem_read_write_same mem_read_write_disjoint del: of_nat_numeral)
  have "bytes_at ?a 8 \<subseteq> bytes_at ?a 16" "bytes_at ?b 8 \<subseteq> bytes_at ?a 16"
    using bytes_subset [of 0 0 8 16 ?a] bytes_subset [of 0 8 8 16 ?a] by simp_all
  then have "?m x = mem s x" if "x \<notin> bytes_at ?a 16" for x
    using that by (subst mem_write_other, simp, blast)+ simp
  then show ?thesis unfolding ex using rd by (simp add: hw_eqs)
qed

definition set_up :: "frame_layout \<Rightarrow> machine \<Rightarrow> machine \<Rightarrow> bool" where
  "set_up f s s' = (xregs s' 63 = xregs s 63 - word_of_nat (frame_total f) \<and> vregs s' = vregs s
     \<and> (\<forall>i. i \<notin> {14, 17, 29, 63} \<longrightarrow> xregs s' i = xregs s i)
     \<and> xregs s' 29 = (if setup_area_size f = 0 then xregs s 29 else xregs s 63)
     \<and> saved_in (mem s') (xregs s' 63) (setup_slots f) (reg_val s)
     \<and> (\<forall>x. x \<notin> bytes_at (xregs s' 63 + word_of_nat (frame_base f)) (unat (setup_area_size f)) \<longrightarrow> mem s' x = mem s x))"

lemma exec_frame_setup:
  assumes ok: "arm_frame_ok f"
  shows "\<exists>is. arm_prologue_frame_setup f = Some is \<and> list_all plain is \<and> (\<forall>s. \<exists>s'. exec is s = Some s' \<and> set_up f s s')"
proof (cases "setup_area_size f = 0")
  case True
  obtain js where js: "append_sp_adjust [] (- (word_of_nat (frame_total f) - 0)) = Some ([] @ js)" "list_all plain js"
    "\<And>s. \<exists>s'. exec js s = Some s' \<and> same_except {14, 63} s s' \<and> xregs s' 63 = xregs s 63 + (- (word_of_nat (frame_total f) - 0))"
    using exec_sp_adjust [of "[]" "- (word_of_nat (frame_total f) - 0)"] by blast
  have "arm_prologue_frame_setup f = Some js"
    using True js(1) by (simp add: arm_prologue_frame_setup_def frame_regs)
  moreover have "\<exists>s'. exec js s = Some s' \<and> set_up f s s'" for s
    using js(3) [of s] True by (auto simp: set_up_def same_except_def setup_slots_def saved_in_def)
  ultimately show ?thesis using js(2) by blast
next
  case False
  then have su: "setup_area_size f = 16" "unat (setup_area_size f) = 16" using ok by (auto simp: arm_frame_ok_def)
  have le: "16 \<le> frame_total f" using setup_le_total [OF ok] su by simp
  define n where "n = frame_total f - 16"
  have tot: "(word_of_nat (frame_total f) :: i64) = word_of_nat n + 16" using le by (simp add: n_def of_nat_diff)
  obtain off where off: "simm7_scaled_new (-16) 8 = Some off" "s7_byte_offset off = -16" by (rule simm7_16)
  let ?st = "StorePair MemI64 (Reg 116) (Reg 120) (PPreIndex (Reg 252) off)"
  obtain js where js: "append_sp_adjust [?st] (- word_of_nat n) = Some ([?st] @ js)" "list_all plain js"
    "\<And>s. \<exists>s'. exec js s = Some s' \<and> same_except {14, 63} s s' \<and> xregs s' 63 = xregs s 63 + (- word_of_nat n)"
    using exec_sp_adjust [of "[?st]" "- word_of_nat n"] by blast
  obtain ks where ks: "append_add_constant ([?st] @ js) (Reg 116) (Reg 252) (word_of_nat (frame_total f)) = Some (([?st] @ js) @ ks)"
    "list_all plain ks"
    "\<And>s. \<exists>s'. exec ks s = Some s' \<and> same_except {14, 17, 29} s s' \<and> xregs s' 29 = xregs s 63 + word_of_nat (frame_total f)"
    using exec_add_constant [of "Reg 116" "[?st] @ js" "word_of_nat (frame_total f)"] by (auto simp: hw_eqs)
  have "arm_prologue_frame_setup f = Some ([?st] @ js @ ks)"
    using False su off(1) js(1) ks(1) tot by (simp add: arm_prologue_frame_setup_def frame_regs)
  moreover have "\<exists>s'. exec ([?st] @ js @ ks) s = Some s' \<and> set_up f s s'" for s
  proof -
    obtain s1 where s1: "exec [?st] s = Some s1" "vregs s1 = vregs s" "xregs s1 = (xregs s)(63 := xregs s 63 - 16)"
      "mem_read (mem s1) (xregs s1 63) 8 = ucast (xregs s 29)" "mem_read (mem s1) (xregs s1 63 + 8) 8 = ucast (xregs s 30)"
      "\<And>x. x \<notin> bytes_at (xregs s1 63) 16 \<Longrightarrow> mem s1 x = mem s x"
      using exec_setup_pair [OF off(2), of s] by blast
    obtain s2 where s2: "exec js s1 = Some s2" "same_except {14, 63} s1 s2" "xregs s2 63 = xregs s1 63 + (- word_of_nat n)"
      using js(3) by blast
    obtain s3 where s3: "exec ks s2 = Some s3" "same_except {14, 17, 29} s2 s3" "xregs s3 29 = xregs s2 63 + word_of_nat (frame_total f)"
      using ks(3) by blast
    have sp: "xregs s3 63 = xregs s 63 - word_of_nat (frame_total f)" "xregs s3 63 + word_of_nat n = xregs s1 63"
      using s1(3) s2(3) s3(2) tot by (simp_all add: same_except_def)
    have m: "mem s3 = mem s1" using s2(2) s3(2) by (simp add: same_except_def)
    have fp: "xregs s3 29 = xregs s 63" using s1(3) s2(3) s3(3) tot by simp
    have "xregs s3 63 + word_of_nat (frame_total f - 8) = xregs s1 63 + 8"
      using sp(2) le by (simp add: n_def of_nat_diff algebra_simps)
    then have "saved_in (mem s3) (xregs s3 63) (setup_slots f) (reg_val s)"
      using s1(4,5) sp(2) False m by (simp add: setup_slots_def saved_in_def n_def)
    moreover have "mem s3 x = mem s x" if "x \<notin> bytes_at (xregs s3 63 + word_of_nat (frame_base f)) (unat (setup_area_size f))" for x
      using that s1(6) sp(2) su(2) m by (simp add: n_def)
    ultimately have "set_up f s s3"
      using sp s1(2,3) s2(2) s3(2) fp False by (simp add: set_up_def same_except_def)
    then show ?thesis using s1(1) s2(1) s3(1) by (auto simp: exec_append)
  qed
  ultimately show ?thesis using js(2) ks(2) by (intro exI [of _ "[?st] @ js @ ks"]) simp
qed

definition torn_down :: "frame_layout \<Rightarrow> machine \<Rightarrow> machine \<Rightarrow> machine \<Rightarrow> bool" where
  "torn_down f s t s' = (xregs s' 63 = xregs s 63 + word_of_nat (frame_total f) \<and> vregs s' = vregs s \<and> mem s' = mem s
     \<and> (\<forall>i. i \<notin> {14, 29, 30, 63} \<longrightarrow> xregs s' i = xregs s i)
     \<and> (\<forall>i \<in> {29, 30}. xregs s' i = (if setup_area_size f = 0 then xregs s i else xregs t i)))"

lemma exec_frame_restore:
  assumes ok: "arm_frame_ok f"
  shows "\<exists>is. arm_epilogue_frame_restore f = Some is \<and> list_all plain is
    \<and> (\<forall>s t. saved_in (mem s) (xregs s 63) (setup_slots f) (reg_val t) \<longrightarrow> (\<exists>s'. exec is s = Some s' \<and> torn_down f s t s'))"
proof -
  obtain js where js: "append_sp_adjust [] (word_of_nat (frame_base f)) = Some ([] @ js)" "list_all plain js"
    "\<And>s. \<exists>s'. exec js s = Some s' \<and> same_except {14, 63} s s' \<and> xregs s' 63 = xregs s 63 + word_of_nat (frame_base f)"
    using exec_sp_adjust [of "[]" "word_of_nat (frame_base f)"] by blast
  have diff: "ucast (total_size f) - ucast (setup_area_size f) = (word_of_nat (frame_base f) :: i64)"
    using setup_le_total [OF ok] by (simp add: of_nat_diff)
  show ?thesis
  proof (cases "setup_area_size f = 0")
    case True
    have "arm_epilogue_frame_restore f = Some js"
      using js(1) diff True by (simp add: arm_epilogue_frame_restore_def frame_regs)
    moreover have "\<exists>s'. exec js s = Some s' \<and> torn_down f s t s'" for s t
      using js(3) [of s] True by (auto simp: torn_down_def same_except_def)
    ultimately show ?thesis using js(2) by blast
  next
    case False
    then have su: "unat (setup_area_size f) = 16" using ok by (auto simp: arm_frame_ok_def)
    have le: "16 \<le> frame_total f" using setup_le_total [OF ok] su by simp
    obtain off where off: "simm7_scaled_new 16 8 = Some off" "s7_byte_offset off = 16" by (rule simm7_16)
    let ?ld = "LoadPair MemI64 (Reg 116) (Reg 120) (PPostIndex (Reg 252) off)"
    have "arm_epilogue_frame_restore f = Some (js @ [?ld])"
      using js(1) diff off(1) False by (simp add: arm_epilogue_frame_restore_def frame_regs)
    moreover have "\<exists>s'. exec (js @ [?ld]) s = Some s' \<and> torn_down f s t s'"
      if sv: "saved_in (mem s) (xregs s 63) (setup_slots f) (reg_val t)" for s t
    proof -
      obtain s1 where s1: "exec js s = Some s1" "same_except {14, 63} s s1" "xregs s1 63 = xregs s 63 + word_of_nat (frame_base f)"
        using js(3) by blast
      have a: "xregs s1 63 + 8 = xregs s 63 + word_of_nat (frame_total f - 8)"
        using s1(3) su le by (simp add: of_nat_diff algebra_simps)
      have v: "mem_read (mem s1) (xregs s1 63) 8 = ucast (xregs t 29)" "mem_read (mem s1) (xregs s1 63 + 8) 8 = ucast (xregs t 30)"
        using sv s1(2,3) False su unfolding a by (simp_all add: setup_slots_def saved_in_def same_except_def)
      have "word_of_nat (frame_base f) + 16 = (word_of_nat (frame_total f) :: u64)" using su le by (simp add: of_nat_diff)
      then have sp: "xregs s1 63 + 16 = xregs s 63 + word_of_nat (frame_total f)" using s1(3) by (simp add: algebra_simps)
      have "exec (js @ [?ld]) s = Some (xset (xset (xset s1 (Reg 116) (xregs t 29)) (Reg 120) (xregs t 30)) (Reg 252) (xregs s1 63 + 16))"
        using off(2) v by (simp add: exec_append s1(1) Let_def mem_bytes_def xget_def hw_eqs ucast_back)
      then show ?thesis using s1(2) False sp by (simp add: torn_down_def same_except_def hw_eqs)
    qed
    ultimately show ?thesis using js(2) by (intro exI [of _ "js @ [?ld]"]) simp
  qed
qed

section \<open>Calls keep the registers of the caller\<close>

definition area_of :: "frame_layout \<Rightarrow> preg slot list" where
  "area_of f = area_slots (frame_base f) 0 (callee_saved f)"

definition frame_slots :: "frame_layout \<Rightarrow> hwreg slot list" where
  "frame_slots f = setup_slots f @ map slot_of (area_of f)"

definition frame_low :: "frame_layout \<Rightarrow> nat" where
  "frame_low f = frame_base f - unat (clobber_size f)"

lemma callee_saved_reg:
  assumes "arm_is_callee_saved p = Some True"
  shows "saved_reg p" and "hw_of p \<noteq> X 29" and "hw_of p \<noteq> X 30" and "hw_of p \<noteq> X 17"
proof -
  obtain c where c: "preg_class p = Some c" using assms by (auto simp: arm_is_callee_saved_def)
  show "saved_reg p" and "hw_of p \<noteq> X 29" and "hw_of p \<noteq> X 30" and "hw_of p \<noteq> X 17"
    using assms c by (cases c; simp add: arm_is_callee_saved_def saved_reg_def hw_of_def; linarith)+
qed

lemma frame_facts:
  assumes ok: "arm_frame_ok f"
  shows "area_end 0 (callee_saved f) = unat (clobber_size f)" and "unat (clobber_size f) \<le> frame_base f"
    and "slots_good (area_of f)" and "clobber_slots (word_of_nat (frame_base f)) 0 (callee_saved f) = Some (with_addr (area_of f))"
    and "u32_sub (total_size f) (setup_area_size f) = Some (total_size f - setup_area_size f)"
    and "ucast (total_size f - setup_area_size f) = (word_of_nat (frame_base f) :: i64)"
    and "\<And>r k n. (r, k, n) \<in> set (map slot_of (area_of f)) \<Longrightarrow> frame_low f \<le> k \<and> k + n \<le> frame_base f \<and> r \<noteq> X 17 \<and> r \<noteq> X 29 \<and> r \<noteq> X 30"
proof -
  have ca: "clobber_area aarch64_abi 0 (callee_saved f) = Some (Inr (clobber_size f))"
    and cs: "\<And>p. p \<in> set (callee_saved f) \<Longrightarrow> arm_is_callee_saved p = Some True" using ok by (auto simp: arm_frame_ok_def)
  show e: "area_end 0 (callee_saved f) = unat (clobber_size f)" using arm_clobber_area [OF ca] by simp
  show b: "unat (clobber_size f) \<le> frame_base f" using ok by (auto simp: arm_frame_ok_def area_sum_def)
  have eb: "area_end 0 (callee_saved f) \<le> frame_base f" using e b by simp
  note bnd = area_slots_bounds [OF eb, folded area_of_def]
  show "slots_good (area_of f)"
    unfolding slots_good_def
  proof (intro conjI ballI, goal_cases)
    case 1
    show ?case unfolding area_of_def by (rule area_slots_ordered [OF eb])
  next
    case (2 x)
    obtain p k n where x: "x = (p, k, n)" by (cases x)
    have "k + n \<le> 2 ^ 32" using bnd(2) [of p k n] 2 x frame_total_lt [of f] by simp
    then show ?case using bnd(3,4) [of p k n] 2 callee_saved_reg(1) [OF cs, of p] by (simp add: x)
  qed
  show "clobber_slots (word_of_nat (frame_base f)) 0 (callee_saved f) = Some (with_addr (area_of f))"
    using clobber_slots_eq [OF eb, of] arm_clobber_area [OF ca] frame_total_lt [of f]
    by (simp add: with_addr_def area_of_def)
  have "setup_area_size f \<le> total_size f" using setup_le_total [OF ok] by (simp add: word_le_nat_alt)
  then have d: "u32_sub (total_size f) (setup_area_size f) = Some (total_size f - setup_area_size f)"
    "unat (total_size f - setup_area_size f) = frame_base f" by (simp_all add: u32_sub_def unat_u32_sub)
  show "u32_sub (total_size f) (setup_area_size f) = Some (total_size f - setup_area_size f)" by (fact d(1))
  have "ucast w = (word_of_nat (unat w) :: i64)" for w :: u32 by simp
  then show "ucast (total_size f - setup_area_size f) = (word_of_nat (frame_base f) :: i64)" by (simp only: d(2))
  show "frame_low f \<le> k \<and> k + n \<le> frame_base f \<and> r \<noteq> X 17 \<and> r \<noteq> X 29 \<and> r \<noteq> X 30" if m: "(r, k, n) \<in> set (map slot_of (area_of f))" for r k n
  proof -
    obtain p where p: "r = hw_of p" "(p, k, n) \<in> set (area_of f)" using m by (auto simp: slot_of_def)
    show ?thesis using bnd [OF p(2)] callee_saved_reg [OF cs, of p] p(1) e by (simp add: frame_low_def)
  qed
qed

definition arm_enter :: "callee_abi \<Rightarrow> machine \<Rightarrow> machine option" where
  "arm_enter self s = do { f \<leftarrow> get_frame_layout self; is \<leftarrow> gen_prologue aarch64_abi self; js \<leftarrow> legalize_all f is; exec js s }"

definition arm_leave :: "callee_abi \<Rightarrow> machine \<Rightarrow> machine option" where
  "arm_leave self s = do { f \<leftarrow> get_frame_layout self; is \<leftarrow> gen_epilogue aarch64_abi self; js \<leftarrow> legalize_all f is; exec js s }"

text \<open>Registers a function has to preserve: x19 to x30 and the low halves of v8 to v15.\<close>

definition aapcs_kept :: "hwreg set" where
  "aapcs_kept = X ` {19..30} \<union> D ` {8..15}"

definition saved_by :: "frame_layout \<Rightarrow> hwreg \<Rightarrow> bool" where
  "saved_by f r = (r \<in> fst ` set (frame_slots f) \<or> (\<exists>i. r = D i \<and> Q i \<in> fst ` set (frame_slots f)))"

definition framed :: "callee_abi \<Rightarrow> bool" where
  "framed self = (case get_frame_layout self of Some f \<Rightarrow> arm_frame_ok f | None \<Rightarrow> False)"

abbreviation frame_of :: "callee_abi \<Rightarrow> frame_layout" where
  "frame_of self \<equiv> the (get_frame_layout self)"

lemma arm_enter_saves:
  assumes "get_frame_layout self = Some f" and ok: "arm_frame_ok f"
  shows "\<exists>s1. arm_enter self s = Some s1 \<and> xregs s1 63 = xregs s 63 - word_of_nat (frame_total f)
    \<and> saved_in (mem s1) (xregs s1 63) (frame_slots f) (reg_val s)
    \<and> (\<forall>x. x \<notin> bytes_at (xregs s1 63 + word_of_nat (frame_low f)) (frame_total f - frame_low f) \<longrightarrow> mem s1 x = mem s x)
    \<and> (\<forall>r \<in> aapcs_kept. \<not> saved_by f r \<longrightarrow> reg_val s1 r = reg_val s r)
    \<and> (setup_area_size f \<noteq> 0 \<longrightarrow> xregs s1 29 = xregs s 63)"
proof -
  note ff = frame_facts [OF ok]
  obtain is1 where i1: "arm_prologue_frame_setup f = Some is1" "list_all plain is1"
    "\<And>s. \<exists>s'. exec is1 s = Some s' \<and> set_up f s s'" using exec_frame_setup [OF ok] by blast
  obtain is2 js2 where i2: "save_slots (with_addr (area_of f)) = Some is2" "legalize_all f is2 = Some js2"
    "saver (map slot_of (area_of f)) js2" using save.emit_correct [OF ff(3)] by blast
  obtain sa where sa: "exec is1 s = Some sa" "set_up f s sa" using i1(3) by blast
  obtain sb where sb: "exec js2 sa = Some sb" "same_except {14, 15, 16} sa (sb\<lparr>mem := mem sa\<rparr>)"
    "saved_in (mem sb) (xregs sa 63) (map slot_of (area_of f)) (reg_val sa)"
    "\<And>x. outside (xregs sa 63) (map slot_of (area_of f)) x \<Longrightarrow> mem sb x = mem sa x"
    using i2(3) unfolding saver_def by blast
  have sp: "xregs sb 63 = xregs sa 63" using sb(2) by (simp add: same_except_def)
  have run: "arm_enter self s = Some sb"
    using assms(1) i1(1) i2(1,2) sa(1) sb(1) ff(4,5,6) legalize_plain [OF i1(2)]
    by (simp add: arm_enter_def gen_prologue_def aarch64_abi_def arm_clobber_save_def legalize_all_append exec_append)
  have sets: "xregs sa 63 = xregs s 63 - word_of_nat (frame_total f)" "vregs sa = vregs s"
    "\<And>i. i \<notin> {14, 17, 29, 63} \<Longrightarrow> xregs sa i = xregs s i" "xregs sa 29 = (if setup_area_size f = 0 then xregs s 29 else xregs s 63)"
    "saved_in (mem sa) (xregs sa 63) (setup_slots f) (reg_val s)"
    "\<And>x. x \<notin> bytes_at (xregs sa 63 + word_of_nat (frame_base f)) (unat (setup_area_size f)) \<Longrightarrow> mem sa x = mem s x"
    using sa(2) unfolding set_up_def by blast+
  have area: "saved_in (mem sb) (xregs sb 63) (map slot_of (area_of f)) (reg_val s)"
    unfolding saved_in_def
  proof (clarify)
    fix r k n assume m: "(r, k, n) \<in> set (map slot_of (area_of f))"
    have "untouched r" using slots_good_stable [OF ff(3)] m by blast
    then have "reg_val sa r = reg_val s r" using ff(7) [OF m] sets(2,3) by (cases r) auto
    then show "mem_read (mem sb) (xregs sb 63 + word_of_nat k) n = reg_val s r"
      using sb(3) m sp by (auto simp: saved_in_def)
  qed
  have out: "outside (xregs sa 63) (map slot_of (area_of f)) x"
    if "x \<in> bytes_at (xregs sa 63 + word_of_nat (frame_base f)) (frame_total f - frame_base f)
      \<or> x \<notin> bytes_at (xregs sa 63 + word_of_nat (frame_low f)) (frame_total f - frame_low f)" for x
    unfolding outside_def
  proof (clarify)
    fix r k n assume m: "(r, k, n) \<in> set (map slot_of (area_of f))" and x: "x \<in> bytes_at (xregs sa 63 + word_of_nat k) n"
    note b = ff(7) [OF m]
    have "bytes_at (xregs sa 63 + word_of_nat k) n \<subseteq> bytes_at (xregs sa 63 + word_of_nat (frame_low f)) (frame_total f - frame_low f)"
      using b by (intro bytes_subset) auto
    moreover have "bytes_at (xregs sa 63 + word_of_nat k) n \<inter> bytes_at (xregs sa 63 + word_of_nat (frame_base f)) (frame_total f - frame_base f) = {}"
      using b frame_total_lt [of f] by (intro bytes_disjoint) auto
    ultimately show False using that x by blast
  qed
  have "saved_in (mem sb) (xregs sb 63) (setup_slots f) (reg_val s)"
    unfolding sp
  proof (rule saved_in_cong [OF sets(5)])
    show "frame_base f \<le> k \<and> k + n \<le> frame_total f" if "(r, k, n) \<in> set (setup_slots f)" for r k n
      using that ok by (auto simp: setup_slots_def arm_frame_ok_def area_sum_def split: if_splits)
    show "mem sb x = mem sa x" if "x \<in> bytes_at (xregs sa 63 + word_of_nat (frame_base f)) (frame_total f - frame_base f)" for x
      using sb(4) [OF out] that by blast
  qed
  with area have all: "saved_in (mem sb) (xregs sb 63) (frame_slots f) (reg_val s)" by (auto simp: saved_in_def frame_slots_def)
  have memo: "mem sb x = mem s x" if "x \<notin> bytes_at (xregs sb 63 + word_of_nat (frame_low f)) (frame_total f - frame_low f)" for x
  proof -
    have "bytes_at (xregs sa 63 + word_of_nat (frame_base f)) (unat (setup_area_size f))
        \<subseteq> bytes_at (xregs sa 63 + word_of_nat (frame_low f)) (frame_total f - frame_low f)"
      using setup_le_total [OF ok] by (intro bytes_subset) (auto simp: frame_low_def)
    then have "x \<notin> bytes_at (xregs sa 63 + word_of_nat (frame_base f)) (unat (setup_area_size f))" using that sp by auto
    then show ?thesis using sets(6) sb(4) [OF out [OF disjI2], of x] that sp by simp
  qed
  have kept: "reg_val sb r = reg_val s r" if "r \<in> aapcs_kept" "\<not> saved_by f r" for r
  proof -
    have "r \<noteq> X 29 \<or> setup_area_size f = 0" using that(2)
      by (cases "setup_area_size f = 0") (auto simp: saved_by_def frame_slots_def setup_slots_def image_Un)
    then have "xregs sa i = xregs s i" if i: "r = X i" for i
    proof (cases "i = 29")
      case False
      have "19 \<le> i \<and> i \<le> 30" using \<open>r \<in> aapcs_kept\<close> i by (auto simp: aapcs_kept_def)
      then show ?thesis using False by (intro sets(3)) auto
    qed (use sets(4) i in auto)
    then show ?thesis using that(1) sets(2) sb(2) by (auto simp: aapcs_kept_def same_except_def)
  qed
  have "setup_area_size f \<noteq> 0 \<longrightarrow> xregs sb 29 = xregs s 63" using sets(4) sb(2) by (simp add: same_except_def)
  then show ?thesis using run sp sets(1) all memo kept by auto
qed

lemma arm_leave_restores:
  assumes "get_frame_layout self = Some f" and ok: "arm_frame_ok f"
    and sv: "saved_in (mem s2) (xregs s2 63) (frame_slots f) (reg_val s)"
  shows "\<exists>s3. arm_leave self s2 = Some s3 \<and> xregs s3 63 = xregs s2 63 + word_of_nat (frame_total f) \<and> mem s3 = mem s2
    \<and> (\<forall>r \<in> aapcs_kept. reg_val s3 r = (if saved_by f r then reg_val s r else reg_val s2 r))"
proof -
  note ff = frame_facts [OF ok]
  obtain is1 where i1: "arm_epilogue_frame_restore f = Some is1" "list_all plain is1"
    "\<And>s t. saved_in (mem s) (xregs s 63) (setup_slots f) (reg_val t) \<Longrightarrow> \<exists>s'. exec is1 s = Some s' \<and> torn_down f s t s'"
    using exec_frame_restore [OF ok] by blast
  obtain is2 js2 where i2: "restore_slots (with_addr (area_of f)) = Some is2" "legalize_all f is2 = Some js2"
    "restorer (map slot_of (area_of f)) js2" using restore.emit_correct [OF ff(3)] by blast
  let ?A = "fst ` set (map slot_of (area_of f))"
  have sv': "saved_in (mem s2) (xregs s2 63) (map slot_of (area_of f)) (reg_val s)"
    "saved_in (mem s2) (xregs s2 63) (setup_slots f) (reg_val s)" using sv by (auto simp: saved_in_def frame_slots_def)
  obtain sa where sa: "exec js2 s2 = Some sa" "mem sa = mem s2"
    "\<And>i. i \<notin> {14, 15, 16} \<Longrightarrow> xregs sa i = (if X i \<in> ?A then xregs s i else xregs s2 i)"
    "\<And>i. take_bit 64 (vregs sa i) = take_bit 64 (if D i \<in> ?A \<or> Q i \<in> ?A then vregs s i else vregs s2 i)"
    using i2(3) sv'(1) unfolding restorer_def by metis
  have no: "X 63 \<notin> ?A" "X 29 \<notin> ?A" "X 30 \<notin> ?A" using ff(7) slots_good_stable [OF ff(3)] by fastforce+
  have sp: "xregs sa 63 = xregs s2 63" using sa(3) [of 63] no(1) by simp
  have "saved_in (mem sa) (xregs sa 63) (setup_slots f) (reg_val s)" using sv'(2) sa(2) sp by simp
  then obtain sb where sb: "exec is1 sa = Some sb" "torn_down f sa s sb" using i1(3) by blast
  have run: "arm_leave self s2 = Some sb"
    using assms(1) i1(1) i2(1,2) sa(1) sb(1) ff(4,5,6) legalize_plain [OF i1(2)]
    by (simp add: arm_leave_def gen_epilogue_def aarch64_abi_def arm_clobber_restore_def legalize_all_append exec_append)
  have tx: "xregs sb i = xregs sa i" if "i \<notin> {14, 29, 30, 63}" for i using sb(2) that by (simp add: torn_down_def)
  have cov: "saved_by f (X i) = (X i \<in> ?A \<or> i \<in> {29, 30} \<and> setup_area_size f \<noteq> 0)" for i
    by (auto simp: saved_by_def frame_slots_def setup_slots_def)
  have covd: "saved_by f (D i) = (D i \<in> ?A \<or> Q i \<in> ?A)" for i
    by (auto simp: saved_by_def frame_slots_def setup_slots_def)
  have "reg_val sb r = (if saved_by f r then reg_val s r else reg_val s2 r)" if r: "r \<in> aapcs_kept" for r
  proof (cases r)
    case (X i)
    have i: "19 \<le> i \<and> i \<le> 30" using r X by (auto simp: aapcs_kept_def)
    show ?thesis
    proof (cases "i \<in> {29, 30}")
      case True
      then show ?thesis using sb(2) no(2,3) sa(3) [of i] by (auto simp: X cov torn_down_def)
    next
      case False
      then show ?thesis using tx [of i] sa(3) [of i] i by (auto simp: X cov)
    qed
  next
    case (D i)
    show ?thesis using sa(4) [of i] sb(2) by (simp add: D covd torn_down_def)
  qed (use r in \<open>auto simp: aapcs_kept_def\<close>)
  then show ?thesis using run sb(2) sp sa(2) by (auto simp: torn_down_def)
qed

interpretation arm_call: frame_code framed arm_enter arm_leave "\<lambda>s. xregs s 63" reg_val aapcs_kept
  "\<lambda>self. saved_by (frame_of self)" "\<lambda>self. frame_slots (frame_of self)" "\<lambda>self. frame_low (frame_of self)"
  "\<lambda>self. frame_total (frame_of self)"
proof unfold_locales
  fix self r k n assume "framed self" and m: "(r, k, n) \<in> set (frame_slots (frame_of self))"
  then obtain f where f: "get_frame_layout self = Some f" "arm_frame_ok f" by (auto simp: framed_def split: option.splits)
  show "frame_low (frame_of self) \<le> k \<and> k + n \<le> frame_total (frame_of self)"
  proof (cases "(r, k, n) \<in> set (map slot_of (area_of f))")
    case True
    then show ?thesis using frame_facts(7) [OF f(2) True] f(1) by (auto intro: le_trans [OF _ diff_le_self])
  next
    case False
    then show ?thesis using m f by (auto simp: frame_slots_def setup_slots_def frame_low_def arm_frame_ok_def area_sum_def split: if_splits)
  qed
next
  fix self s assume "framed self"
  then obtain f where "get_frame_layout self = Some f" "arm_frame_ok f" by (auto simp: framed_def split: option.splits)
  then show "\<exists>s1. arm_enter self s = Some s1 \<and> xregs s1 63 = xregs s 63 - word_of_nat (frame_total (frame_of self))
      \<and> saved_in (mem s1) (xregs s1 63) (frame_slots (frame_of self)) (reg_val s)
      \<and> (\<forall>x. x \<notin> bytes_at (xregs s1 63 + word_of_nat (frame_low (frame_of self))) (frame_total (frame_of self) - frame_low (frame_of self)) \<longrightarrow> mem s1 x = mem s x)
      \<and> (\<forall>r \<in> aapcs_kept. \<not> saved_by (frame_of self) r \<longrightarrow> reg_val s1 r = reg_val s r)"
    using arm_enter_saves [of self f s] by auto
next
  fix self and s2 s :: machine assume "framed self" and sv: "saved_in (mem s2) (xregs s2 63) (frame_slots (frame_of self)) (reg_val s)"
  then obtain f where "get_frame_layout self = Some f" "arm_frame_ok f" by (auto simp: framed_def split: option.splits)
  then show "\<exists>s3. arm_leave self s2 = Some s3 \<and> xregs s3 63 = xregs s2 63 + word_of_nat (frame_total (frame_of self)) \<and> mem s3 = mem s2
      \<and> (\<forall>r \<in> aapcs_kept. reg_val s3 r = (if saved_by (frame_of self) r then reg_val s r else reg_val s2 r))"
    using arm_leave_restores [of self f s2 s] sv by simp
qed

section \<open>Functions with a computed layout\<close>

lemma layout_framed:
  assumes "compute_frame_layout aarch64_abi self spills output = Some (Inr self')"
  obtains f where "get_frame_layout self' = Some f" and "arm_frame_ok f"
    and "set (callee_saved f) = {p \<in> allocated_regs output. arm_is_callee_saved p = Some True}"
    and "has_calls self \<or> sized_stack_arg_size self > 0 \<or> callee_saved f \<noteq> [] \<Longrightarrow> setup_area_size f = 16"
    and "\<And>p. p \<in> allocated_regs output \<Longrightarrow> preg_class p \<noteq> None"
proof -
  have spec: "word_bytes aarch64_abi = 8" "is_callee_saved aarch64_abi = arm_is_callee_saved"
    by (simp_all add: aarch64_abi_def)
  obtain f used saved where f: "self' = self\<lparr>abi_frame_layout := Some f\<rparr>"
    and used: "used_regs output = Some used" "filter_callee_saved aarch64_abi used = Some saved"
    and saved: "callee_saved f = sort_dedup saved" "clobber_area aarch64_abi 0 (callee_saved f) = Some (Inr (clobber_size f))"
    and su: "setup_area_size f = (if has_calls self \<or> sized_stack_arg_size self > 0 \<or> total_stackslots_size self > 0
           \<or> clobber_size f > 0 \<or> spills > 0 then 2 * word_bytes aarch64_abi else 0)"
    and total: "area_sum f \<le> unat (total_size f)"
    by (rule compute_frame_layout_eq [OF assms]) blast
  have set: "set (callee_saved f) = {p \<in> allocated_regs output. arm_is_callee_saved p = Some True}"
    using saved(1) used_regs_set [OF used(1)] filter_callee_saved_set(1) [OF used(2)] spec(2) by simp
  have cls: "\<And>p. p \<in> allocated_regs output \<Longrightarrow> preg_class p \<noteq> None"
    using used_regs_set [OF used(1)] filter_callee_saved_set(2) [OF used(2)] spec(2) by (fastforce simp: arm_is_callee_saved_def)
  have ok: "arm_frame_ok f" using saved(2) su total set spec(1) by (auto simp: arm_frame_ok_def)
  have pos: "clobber_size f > 0" if ne: "callee_saved f \<noteq> []"
  proof -
    obtain p ps where ps: "callee_saved f = p # ps" using ne by (cases "callee_saved f") auto
    have "0 < slot_start 0 p + slot_bytes p" by (simp add: slot_bytes_def)
    then have "0 < area_end 0 (callee_saved f)" using less_le_trans [OF _ area_end_step [of 0 p ps]] by (simp only: ps)
    then show ?thesis using arm_clobber_area [OF saved(2)] by (simp add: word_less_nat_alt)
  qed
  have "setup_area_size f = 16" if "has_calls self \<or> sized_stack_arg_size self > 0 \<or> callee_saved f \<noteq> []"
    using that pos su spec(1) by auto
  moreover have "get_frame_layout self' = Some f" using f by (simp add: get_frame_layout_def)
  ultimately show ?thesis using that [of f] ok set cls by blast
qed

text \<open>The part of a hardware register that a physical register gives access to.\<close>

definition touches :: "preg \<Rightarrow> hwreg \<Rightarrow> bool" where
  "touches p r = (hw_of p = r \<or> (\<exists>i. hw_of p = Q i \<and> r = D i))"

lemma touches_saved:
  assumes "get_frame_layout self = Some f" and "arm_frame_ok f" and "p \<in> set (callee_saved f)" and "touches p r"
  shows "saved_by f r"
proof -
  have "p \<in> fst ` set (area_of f)" using assms(3) map_fst_area_slots [of "frame_base f" 0 "callee_saved f"]
    by (metis area_of_def list.set_map)
  then have "hw_of p \<in> fst ` set (frame_slots f)" by (force simp: frame_slots_def slot_of_def)
  then show ?thesis using assms(4) unfolding saved_by_def touches_def by metis
qed

lemma touches_callee_saved:
  assumes t: "touches p r" and r: "r \<in> aapcs_kept" "r \<notin> {X 29, X 30}" and c: "preg_class p \<noteq> None"
  shows "arm_is_callee_saved p = Some True"
proof -
  obtain c where c: "preg_class p = Some c" using c by blast
  have "X i \<in> aapcs_kept \<Longrightarrow> X i \<notin> {X 29, X 30} \<Longrightarrow> 19 \<le> i \<and> i \<le> 28" for i by (auto simp: aapcs_kept_def)
  moreover have "D i \<in> aapcs_kept \<Longrightarrow> 8 \<le> i \<and> i \<le> 15" for i by (auto simp: aapcs_kept_def)
  moreover have "Q i \<notin> aapcs_kept" for i by (auto simp: aapcs_kept_def)
  ultimately show ?thesis
    using t r c by (cases c) (auto simp: touches_def hw_of_def arm_is_callee_saved_def)
qed

text \<open>C5: the prologue and epilogue of an AArch64 function, with the layout computed from the result of register
  allocation, keep what the procedure call standard requires. The prologue runs, moves the stack pointer down by the
  size of the frame, writes only in the area of the saved registers, and makes the frame pointer the caller's stack
  pointer when there are stack arguments. Whatever the body does, as long as it leaves the stack pointer and that area
  alone and changes a preserved register only if allocation names it (the link register if it makes calls),
  the epilogue runs and the stack pointer and all preserved registers have the values they had on entry.\<close>

theorem arm_function_keeps_registers:
  assumes layout: "compute_frame_layout aarch64_abi self spills output = Some (Inr self')"
  shows "\<exists>f s1. get_frame_layout self' = Some f \<and> arm_enter self' s = Some s1
    \<and> xregs s1 63 = xregs s 63 - word_of_nat (frame_total f)
    \<and> (sized_stack_arg_size self > 0 \<longrightarrow> xregs s1 29 = xregs s 63)
    \<and> (\<forall>x. x \<notin> bytes_at (xregs s1 63 + word_of_nat (frame_low f)) (frame_total f - frame_low f) \<longrightarrow> mem s1 x = mem s x)
    \<and> (\<forall>s2. xregs s2 63 = xregs s1 63
        \<and> (\<forall>x \<in> bytes_at (xregs s1 63 + word_of_nat (frame_low f)) (frame_total f - frame_low f). mem s2 x = mem s1 x)
        \<and> (\<forall>r \<in> aapcs_kept. reg_val s2 r \<noteq> reg_val s1 r \<longrightarrow>
             r \<notin> {X 29, X 30} \<and> (\<exists>p \<in> allocated_regs output. touches p r) \<or> r = X 30 \<and> has_calls self)
      \<longrightarrow> (\<exists>s3. arm_leave self' s2 = Some s3 \<and> xregs s3 63 = xregs s 63 \<and> mem s3 = mem s2
        \<and> (\<forall>r \<in> aapcs_kept. reg_val s3 r = reg_val s r)))"
proof -
  obtain f where f: "get_frame_layout self' = Some f" and ok: "arm_frame_ok f"
    and saved: "set (callee_saved f) = {p \<in> allocated_regs output. arm_is_callee_saved p = Some True}"
    and su: "has_calls self \<or> sized_stack_arg_size self > 0 \<or> callee_saved f \<noteq> [] \<Longrightarrow> setup_area_size f = 16"
    and cls: "\<And>p. p \<in> allocated_regs output \<Longrightarrow> preg_class p \<noteq> None"
    by (rule layout_framed [OF layout]) blast
  have fr: "framed self'" "frame_of self' = f" using f ok by (simp_all add: framed_def)
  obtain s1 where s1: "arm_enter self' s = Some s1" "xregs s1 63 = xregs s 63 - word_of_nat (frame_total f)"
    "\<forall>x. x \<notin> bytes_at (xregs s1 63 + word_of_nat (frame_low f)) (frame_total f - frame_low f) \<longrightarrow> mem s1 x = mem s x"
    "setup_area_size f \<noteq> 0 \<longrightarrow> xregs s1 29 = xregs s 63"
    using arm_enter_saves [OF f ok, of s] by blast
  have "\<exists>s3. arm_leave self' s2 = Some s3 \<and> xregs s3 63 = xregs s 63 \<and> mem s3 = mem s2 \<and> (\<forall>r \<in> aapcs_kept. reg_val s3 r = reg_val s r)"
    if sp: "xregs s2 63 = xregs s1 63"
      and m: "\<forall>x \<in> bytes_at (xregs s1 63 + word_of_nat (frame_low f)) (frame_total f - frame_low f). mem s2 x = mem s1 x"
      and b: "\<forall>r \<in> aapcs_kept. reg_val s2 r \<noteq> reg_val s1 r \<longrightarrow>
             r \<notin> {X 29, X 30} \<and> (\<exists>p \<in> allocated_regs output. touches p r) \<or> r = X 30 \<and> has_calls self" for s2
  proof (rule arm_call.call_preserves [OF fr(1) s1(1) sp, unfolded fr(2)])
    show "mem s2 x = mem s1 x" if "x \<in> bytes_at (xregs s1 63 + word_of_nat (frame_low f)) (frame_total f - frame_low f)" for x
      using m that by blast
    fix r assume r: "r \<in> aapcs_kept" "\<not> saved_by f r"
    show "reg_val s2 r = reg_val s1 r"
    proof (rule ccontr)
      assume "reg_val s2 r \<noteq> reg_val s1 r"
      then consider p where "r \<notin> {X 29, X 30}" "p \<in> allocated_regs output" "touches p r" | "r = X 30" "has_calls self"
        using b r(1) by blast
      then show False
      proof cases
        case 1
        then have "p \<in> set (callee_saved f)" using saved touches_callee_saved [OF 1(3) r(1) 1(1) cls] by simp
        then show False using touches_saved [OF f ok _ 1(3)] r(2) by blast
      next
        case 2
        then have "X 30 \<in> fst ` set (frame_slots f)" using su by (simp add: frame_slots_def setup_slots_def)
        then show False using r(2) 2(1) by (simp add: saved_by_def)
      qed
    qed
  qed
  then show ?thesis using f s1 su by (intro exI [of _ f] exI [of _ s1]) auto
qed

abbreviation sample_abi :: callee_abi where
  "sample_abi \<equiv> \<lparr>abi_args = [], total_stackslots_size = 0, sized_stack_arg_size = 0, alloc_to_ss = Map.empty,
     outgoing_arg_size = 0, has_calls = True, abi_frame_layout = None, reg_args = [],
     bound_register_args = 0, unused_register_args_skipped = 0, incoming_stack_args_loaded = 0\<rparr>"

abbreviation sample_output :: ra_output where
  "sample_output \<equiv> \<lparr>num_spillslots = 0, out_edits = [], out_allocs = [Allocation 0x20000013], inst_alloc_offsets = [0]\<rparr>"

abbreviation sample_frame :: frame_layout where
  "sample_frame \<equiv> \<lparr>callee_saved = [PReg 19], setup_area_size = 16, clobber_size = 8, spill_size = 0,
     stackslots_size = 0, outgoing_args_size = 0, total_size = 32\<rparr>"

lemma sample_layout:
  "compute_frame_layout aarch64_abi sample_abi 0 sample_output = Some (Inr (sample_abi\<lparr>abi_frame_layout := Some sample_frame\<rparr>))"
proof -
  have a: "allocation_as_reg (Allocation 0x20000013) = Some (Some (PReg 19))" by code_simp
  have c: "preg_class (PReg 19) = Some IntClass" "preg_hw_enc (PReg 19) = 19" by code_simp+
  have u: "used_regs sample_output = Some [PReg 19]" by (simp add: used_regs_def a)
  have s: "is_callee_saved aarch64_abi (PReg 19) = Some True" "word_bytes aarch64_abi = 8" "stack_align aarch64_abi = 16"
    using c by (simp_all add: aarch64_abi_def arm_is_callee_saved_def)
  have d: "sort_dedup [PReg 19] = [PReg 19]" by (simp add: sort_dedup_def)
  have k: "clobber_step aarch64_abi 0 (PReg 19) = Some (Inr 8)" by code_simp
  have n: "u32_mul 2 8 = Some 16" "u32_add 16 8 = Some 24" "u32_add 24 0 = Some 24" "u32_sub 16 1 = Some 15"
    "u32_add 24 15 = Some 39" by code_simp+
  have q: "(39::32 word) div 16 * 16 = 32" by code_simp
  show ?thesis
    by (simp add: compute_frame_layout_def u filter_callee_saved_def s d k n q ok_or_def and_then_eq)
qed

text \<open>A function that makes calls and uses x19: its frame is 32 bytes, and x19 is restored after a body that writes it.\<close>

theorem arm_function_keeps_registers_witness:
  "\<exists>self' f s1 s3. compute_frame_layout aarch64_abi sample_abi 0 sample_output = Some (Inr self')
    \<and> get_frame_layout self' = Some f \<and> callee_saved f = [PReg 19] \<and> total_size f = 32
    \<and> arm_enter self' \<lparr>xregs = \<lambda>_. 4096, vregs = \<lambda>_. 0, mem = \<lambda>_. 0\<rparr> = Some s1 \<and> xregs s1 63 = 4064
    \<and> arm_leave self' (s1\<lparr>xregs := (xregs s1)(19 := 7)\<rparr>) = Some s3 \<and> xregs s3 63 = 4096 \<and> reg_val s3 (X 19) = 4096"
proof -
  let ?s = "\<lparr>xregs = \<lambda>_. 4096, vregs = \<lambda>_. 0, mem = \<lambda>_. 0\<rparr> :: machine"
  let ?self = "sample_abi\<lparr>abi_frame_layout := Some sample_frame\<rparr>"
  obtain f s1 where f: "get_frame_layout ?self = Some f" and s1: "arm_enter ?self ?s = Some s1"
      "xregs s1 63 = xregs ?s 63 - word_of_nat (frame_total f)"
    and body: "\<forall>s2. xregs s2 63 = xregs s1 63
        \<and> (\<forall>x \<in> bytes_at (xregs s1 63 + word_of_nat (frame_low f)) (frame_total f - frame_low f). mem s2 x = mem s1 x)
        \<and> (\<forall>r \<in> aapcs_kept. reg_val s2 r \<noteq> reg_val s1 r \<longrightarrow>
             r \<notin> {X 29, X 30} \<and> (\<exists>p \<in> allocated_regs sample_output. touches p r) \<or> r = X 30 \<and> has_calls sample_abi)
      \<longrightarrow> (\<exists>s3. arm_leave ?self s2 = Some s3 \<and> xregs s3 63 = xregs ?s 63 \<and> mem s3 = mem s2
        \<and> (\<forall>r \<in> aapcs_kept. reg_val s3 r = reg_val ?s r))"
    using arm_function_keeps_registers [OF sample_layout, of ?s] by (elim exE conjE)
  have sp: "xregs s1 63 = 4064" using f s1(2) by (auto simp: get_frame_layout_def)
  let ?s2 = "s1\<lparr>xregs := (xregs s1)(19 := 7)\<rparr>"
  have "allocation_as_reg (Allocation 0x20000013) = Some (Some (PReg 19))" by code_simp
  then have "PReg 19 \<in> allocated_regs sample_output" by (simp add: allocated_regs_def)
  moreover have "hw_of (PReg 19) = X 19" by code_simp
  then have "touches (PReg 19) (X 19)" by (simp add: touches_def)
  moreover have "r = X 19" if "reg_val ?s2 r \<noteq> reg_val s1 r" for r using that by (cases r) (auto split: if_splits)
  ultimately have "\<forall>r \<in> aapcs_kept. reg_val ?s2 r \<noteq> reg_val s1 r \<longrightarrow> r \<notin> {X 29, X 30} \<and> (\<exists>p \<in> allocated_regs sample_output. touches p r)"
    by force
  then obtain s3 where "arm_leave ?self ?s2 = Some s3" "xregs s3 63 = 4096" "\<forall>r \<in> aapcs_kept. reg_val s3 r = reg_val ?s r"
    using spec [OF body, of ?s2] by auto
  moreover have "X 19 \<in> aapcs_kept" by (simp add: aapcs_kept_def)
  ultimately have "arm_leave ?self ?s2 = Some s3 \<and> xregs s3 63 = 4096 \<and> reg_val s3 (X 19) = 4096" by force
  then show ?thesis using s1(1) sp sample_layout
    by (intro exI [of _ ?self] exI [of _ sample_frame] exI [of _ s1] exI [of _ s3]) (simp add: get_frame_layout_def)
qed

section \<open>The areas of a frame\<close>

text \<open>The stack objects that lowering requests, one after another.\<close>

definition alloc_objects :: "'i machine_spec \<Rightarrow> (hir_inst \<Rightarrow> ty) \<Rightarrow> callee_abi \<Rightarrow> hir_inst list \<Rightarrow> callee_abi rust" where
  "alloc_objects m tyof = foldM (\<lambda>self a. map_option snd (alloc_stackslot_or_get m self a (tyof a)))"

lemma alloc_objects_ok:
  assumes "alloc_objects m tyof self as = Some self'" and "objects_ok (stack_align m) tyof self"
    and "\<forall>a \<in> set as. ty_size (tyof a) < 2 ^ 32"
  shows "objects_ok (stack_align m) tyof self' \<and> alloc_to_ss self \<subseteq>\<^sub>m alloc_to_ss self' \<and> set as \<subseteq> dom (alloc_to_ss self')"
  using assms
proof (induction as arbitrary: self)
  case (Cons a as)
  obtain off s where s: "alloc_stackslot_or_get m self a (tyof a) = Some (off, s)" and r: "alloc_objects m tyof s as = Some self'"
    using Cons.prems(1) by (auto simp: alloc_objects_def)
  have "ty_size (tyof a) < 2 ^ 32" using Cons.prems(3) by simp
  note ok = alloc_stackslot_or_get_ok [OF Cons.prems(2) this s]
  have ih: "objects_ok (stack_align m) tyof self' \<and> alloc_to_ss s \<subseteq>\<^sub>m alloc_to_ss self' \<and> set as \<subseteq> dom (alloc_to_ss self')"
    by (rule Cons.IH [OF r ok(1)]) (use Cons.prems(3) in simp)
  moreover have "a \<in> dom (alloc_to_ss s)" using ok(2) by blast
  ultimately have "a \<in> dom (alloc_to_ss self')" by (meson map_le_implies_dom_le subsetD)
  then show ?case using ih map_le_trans [OF ok(3)] by simp
qed (simp add: alloc_objects_def map_le_def)

lemma callee_abi_new_ok: "callee_abi_new m params = Some self \<Longrightarrow> objects_ok align tyof self"
  by (auto simp: callee_abi_new_def objects_ok_def)

text \<open>C8: in the frame of a function whose stack objects are smaller than 4 GiB, for any back end, the areas do not overlap: every requested stack object is aligned
  and lies in the object area, different objects are apart, spill slots lie in the spill area after it and different
  slots are apart, and the areas of outgoing arguments, objects, spill slots, saved registers and frame setup together
  fit into the frame, whose size is aligned and exceeds their sum by less than the alignment.\<close>

theorem frame_areas_disjoint:
  assumes "callee_abi_new m params = Some new" and "alloc_objects m tyof new objs = Some self"
    and "\<forall>a \<in> set objs. ty_size (tyof a) < 2 ^ 32"
    and "compute_frame_layout m (self\<lparr>outgoing_arg_size := out, has_calls := calls\<rparr>) spills output = Some (Inr self')"
  shows "\<exists>f. get_frame_layout self' = Some f \<and> outgoing_args_size f = out \<and> spill_size f = spills
    \<and> (\<forall>a \<in> set objs. \<exists>off. alloc_to_ss self' a = Some off \<and> unat (stack_align m) dvd unat off
        \<and> unat off + ty_size (tyof a) \<le> unat (stackslots_size f))
    \<and> (\<forall>a b o1 o2. alloc_to_ss self' a = Some o1 \<longrightarrow> alloc_to_ss self' b = Some o2 \<longrightarrow> a \<noteq> b
        \<longrightarrow> unat o1 + ty_size (tyof a) \<le> unat o2 \<or> unat o2 + ty_size (tyof b) \<le> unat o1)
    \<and> (\<forall>slot u off. spill_slot_offset f slot u = Some off \<longrightarrow>
        unat out + unat (stackslots_size f) \<le> unat off \<and> unat off + unat u \<le> unat out + unat (stackslots_size f) + unat spills)
    \<and> (\<forall>s1 s2 u o1 o2. spill_slot_offset f s1 u = Some o1 \<longrightarrow> spill_slot_offset f s2 u = Some o2
        \<longrightarrow> spill_raw_bits s1 < spill_raw_bits s2 \<longrightarrow> unat o1 + unat u \<le> unat o2)
    \<and> area_sum f \<le> unat (total_size f) \<and> unat (total_size f) < area_sum f + unat (stack_align m)
    \<and> unat (stack_align m) dvd unat (total_size f)"
proof -
  let ?self = "self\<lparr>outgoing_arg_size := out, has_calls := calls\<rparr>"
  have obj: "objects_ok (stack_align m) tyof self" "set objs \<subseteq> dom (alloc_to_ss self)"
    using alloc_objects_ok [OF assms(2) callee_abi_new_ok [OF assms(1)] assms(3)] by blast+
  obtain f where f: "self' = ?self\<lparr>abi_frame_layout := Some f\<rparr>" "spill_size f = spills"
    "stackslots_size f = total_stackslots_size ?self" "outgoing_args_size f = outgoing_arg_size ?self"
    and sz: "area_sum f \<le> unat (total_size f)" "unat (total_size f) < area_sum f + unat (stack_align m)"
      "unat (stack_align m) dvd unat (total_size f)"
    by (rule compute_frame_layout_eq [OF assms(4)]) blast
  have ss: "alloc_to_ss self' = alloc_to_ss self" "stackslots_size f = total_stackslots_size self" "outgoing_args_size f = out"
    using f by simp_all
  have "\<exists>off. alloc_to_ss self' a = Some off \<and> unat (stack_align m) dvd unat off \<and> unat off + ty_size (tyof a) \<le> unat (stackslots_size f)"
    if a: "a \<in> set objs" for a
  proof -
    obtain off where "alloc_to_ss self a = Some off" using obj(2) a by blast
    then show ?thesis using obj(1) ss by (auto simp: objects_ok_def)
  qed
  moreover have "unat o1 + ty_size (tyof a) \<le> unat o2 \<or> unat o2 + ty_size (tyof b) \<le> unat o1"
    if "alloc_to_ss self' a = Some o1" "alloc_to_ss self' b = Some o2" "a \<noteq> b" for a b o1 o2
    using obj(1) that ss(1) unfolding objects_ok_def by simp
  moreover have "unat out + unat (stackslots_size f) \<le> unat off \<and> unat off + unat u \<le> unat out + unat (stackslots_size f) + unat spills"
    if "spill_slot_offset f slot u = Some off" for slot u off
    using spill_slot_offset_eq [OF that] ss(3) f(2) by simp
  moreover have "get_frame_layout self' = Some f" using f(1) by (simp add: get_frame_layout_def)
  ultimately show ?thesis using spill_slots_disjoint sz ss(3) f(2) by (intro exI [of _ f] conjI) (blast | simp)+
qed

text \<open>A function of no parameters with one stack object and one spill slot: a frame of 48 bytes.\<close>

theorem frame_areas_disjoint_witness:
  "\<exists>new self self' f off. callee_abi_new aarch64_abi [] = Some new \<and> alloc_objects aarch64_abi (\<lambda>_. Int32) new [7] = Some self
    \<and> compute_frame_layout aarch64_abi (self\<lparr>outgoing_arg_size := 0, has_calls := True\<rparr>) 8
        \<lparr>num_spillslots = 1, out_edits = [], out_allocs = [], inst_alloc_offsets = []\<rparr> = Some (Inr self')
    \<and> get_frame_layout self' = Some f \<and> spill_size f = 8
    \<and> alloc_to_ss self' 7 = Some off \<and> unat off + 4 \<le> unat (stackslots_size f) \<and> 16 dvd unat (total_size f)"
proof -
  let ?out = "\<lparr>num_spillslots = 1, out_edits = [], out_allocs = [], inst_alloc_offsets = []\<rparr> :: ra_output"
  let ?new = "\<lparr>abi_args = [], total_stackslots_size = 0, sized_stack_arg_size = 0, alloc_to_ss = Map.empty,
     outgoing_arg_size = 0, has_calls = False, abi_frame_layout = None, reg_args = [],
     bound_register_args = 0, unused_register_args_skipped = 0, incoming_stack_args_loaded = 0\<rparr>"
  let ?self = "?new\<lparr>total_stackslots_size := 16, alloc_to_ss := [7 \<mapsto> 0]\<rparr>"
  have m: "word_bytes aarch64_abi = 8" "stack_align aarch64_abi = 16" "compute_call_arg_loc aarch64_abi = arm_compute_call_arg_loc"
    by (simp_all add: aarch64_abi_def)
  have n: "u32_next_multiple_of 4 16 = Some 16" "u32_mul 2 8 = Some 16" "u32_add 16 0 = Some 16" "u32_add 0 16 = Some 16"
    "u32_add 16 8 = Some 24" "u32_add 24 16 = Some 40" "u32_add 40 0 = Some 40" "u32_sub 16 1 = Some 15" "u32_add 40 15 = Some 55"
    by code_simp+
  have h1: "callee_abi_new aarch64_abi [] = Some ?new"
    by (simp add: callee_abi_new_def m arm_compute_call_arg_loc_def planner_compute_def)
  have h2: "alloc_objects aarch64_abi (\<lambda>_. Int32) ?new [7] = Some ?self"
    by (simp add: alloc_objects_def alloc_stackslot_or_get_def allocate_stackslot_def m n)
  obtain self' where h3: "compute_frame_layout aarch64_abi (?self\<lparr>outgoing_arg_size := 0, has_calls := True\<rparr>) 8 ?out = Some (Inr self')"
    by (simp add: compute_frame_layout_def used_regs_def filter_callee_saved_def sort_dedup_def m n ok_or_def and_then_def)
  show ?thesis
    using frame_areas_disjoint [OF h1 h2 _ h3] h1 h2 h3 m(2) by auto
qed

end
