(* ===== verification/Arm_Args.thy ===== *)
theory Arm_Args
  imports Arm_Exec PReg_Sets
begin

text \<open>
  Arguments of AArch64 calls: the locations that \<open>compute_call_arg_loc\<close> of \<^verbatim>\<open>anon_armv8/src/abi.rs\<close> assigns, and
  where they depart from the procedure call standard.
\<close>

section \<open>The argument registers\<close>

fun bank_class :: "arg_reg_bank \<Rightarrow> reg_class" where
  "bank_class IntBank = IntClass" | "bank_class FloatBank = FloatClass" | "bank_class VectorBank = VectorClass"

definition arm_bank :: "ty \<Rightarrow> arg_reg_bank" where
  "arm_bank t = (case arm_classify t of Some b \<Rightarrow> b | None \<Rightarrow> IntBank)"

abbreviation arm_planner :: arg_planner where
  "arm_planner \<equiv> planner_with_vector_regs INT_ARG_REGS FLOAT_ARG_REGS VECTOR_ARG_REGS"

definition bank_reg :: "arg_reg_bank \<Rightarrow> nat \<Rightarrow> reg rust" where
  "bank_reg b = (case b of IntBank \<Rightarrow> int_reg | FloatBank \<Rightarrow> float_reg | VectorBank \<Rightarrow> vector_reg)"

lemma bank_reg_physical:
  assumes "k < 8"
  obtains r p where "bank_reg b k = Some r" and "reg_to_physical_reg r = Some p" and "preg_class p = Some (bank_class b)"
    and "preg_hw_enc p = k"
proof -
  have new: "\<exists>p. preg_new k c = Some p" for c using assms by (simp add: preg_new_def PREG_MAX_def)
  obtain p where p: "preg_new k (bank_class b) = Some p" using new by blast
  note dec = preg_decode [OF p]
  obtain r where r: "reg_from_physical_reg p = Some r" "reg_to_physical_reg r = Some p"
    using reg_physical_decode [of p "bank_class b"] dec by blast
  have "bank_reg b k = Some r" using p r(1) assms
    by (cases b) (simp_all add: bank_reg_def int_reg_def int_preg_def float_reg_def float_preg_def vector_reg_def vector_preg_def LR_def)
  then show ?thesis using that r(2) dec by blast
qed

lemma const_regs_map: "(\<And>i. i \<in> set is \<Longrightarrow> mk i \<noteq> None) \<Longrightarrow> const_regs mk is = map (the \<circ> mk) is"
proof (induction "is")
  case (Cons i "is")
  obtain r where "mk i = Some r" using Cons.prems [of i] by auto
  then show ?case using Cons by (simp add: const_regs_def List.map_filter_simps)
qed (simp add: const_regs_def List.map_filter_simps)

lemma bank_regs_arm: "bank_regs arm_planner b = map (the \<circ> bank_reg b) [0..<8]"
proof -
  have "[0, 1, 2, 3, 4, 5, 6, 7] = [0..<8 :: nat]" by (simp add: upt_rec)
  moreover have "bank_reg b i \<noteq> None" if lt: "i \<in> set [0..<8]" for i
  proof -
    have "i < 8" using lt by simp
    then show ?thesis using bank_reg_physical [of i b] by blast
  qed
  ultimately have "const_regs (bank_reg b) [0, 1, 2, 3, 4, 5, 6, 7] = map (the \<circ> bank_reg b) [0..<8]"
    using const_regs_map [of "[0..<8]" "bank_reg b"] by simp
  then show ?thesis
    by (cases b) (simp_all add: planner_with_vector_regs_def bank_reg_def INT_ARG_REGS_def FLOAT_ARG_REGS_def VECTOR_ARG_REGS_def)
qed

text \<open>The offset of a stack argument: the slots of the stack arguments before it.\<close>

definition arm_stack_before :: "ty list \<Rightarrow> nat \<Rightarrow> nat" where
  "arm_stack_before types i = sum_list (map (\<lambda>j. if 8 \<le> bank_rank arm_bank types j then unat (arm_slot_size (types ! j)) else 0) [0..<i])"

lemma arm_on_stack: "on_stack arm_planner arm_bank types i = (8 \<le> bank_rank arm_bank types i)"
  by (simp add: on_stack_def bank_regs_arm)

lemma arm_stack_before_eq: "stack_before arm_planner arm_bank arm_slot_size types i = arm_stack_before types i"
  by (simp add: stack_before_def arm_stack_before_def arm_on_stack)

lemma arm_compute_eq:
  assumes "\<And>t. t \<in> set types \<Longrightarrow> arm_classify t \<noteq> None"
  shows "arm_compute_call_arg_loc types = (if arm_stack_before types (length types) < 2 ^ 32
    then Some (map (arg_location arm_planner arm_bank arm_slot_size types) [0..<length types],
      word_of_nat (arm_stack_before types (length types))) else None)"
proof -
  have "arm_classify t = Some (arm_bank t)" if "t \<in> set types" for t using assms [OF that] by (auto simp: arm_bank_def)
  moreover have "reg_to_physical_reg r \<noteq> None" if m: "r \<in> set (bank_regs arm_planner b)" for b r
  proof -
    obtain k where "k < 8" "r = the (bank_reg b k)" using m unfolding bank_regs_arm by auto
    then show ?thesis by (metis bank_reg_physical option.distinct(1) option.sel)
  qed
  ultimately show ?thesis
    unfolding arm_compute_call_arg_loc_def arm_stack_before_eq [symmetric] by (rule argument_layout)
qed

lemma arm_location:
  assumes "bank_rank arm_bank types i < 8"
  obtains p where "arg_location arm_planner arm_bank arm_slot_size types i = RegArg p (types ! i)"
    and "preg_class p = Some (bank_class (arm_bank (types ! i)))" and "preg_hw_enc p = bank_rank arm_bank types i"
proof -
  let ?b = "arm_bank (types ! i)" and ?k = "bank_rank arm_bank types i"
  obtain r p where r: "bank_reg ?b ?k = Some r" "reg_to_physical_reg r = Some p" "preg_class p = Some (bank_class ?b)" "preg_hw_enc p = ?k"
    by (rule bank_reg_physical [OF assms, of ?b]) blast
  have "bank_regs arm_planner ?b ! ?k = r" using assms r(1) unfolding bank_regs_arm by simp
  then show ?thesis using that r assms by (simp add: arg_location_def arm_on_stack)
qed

text \<open>C9: an AArch64 call passes its k-th integer, floating point or vector argument (counting each kind from zero) in
  register k of its kind for k below eight, and the others on the stack in order, each right after the one before; the
  planner returns whenever all types can be passed and the stack area is below 4 GiB.\<close>

theorem arm_argument_locations:
  assumes "\<And>t. t \<in> set types \<Longrightarrow> arm_classify t \<noteq> None" and "arm_stack_before types (length types) < 2 ^ 32"
  shows "\<exists>slots. arm_compute_call_arg_loc types = Some (slots, word_of_nat (arm_stack_before types (length types)))
    \<and> length slots = length types
    \<and> (\<forall>i < length types. if bank_rank arm_bank types i < 8
        then \<exists>p. slots ! i = RegArg p (types ! i) \<and> preg_class p = Some (bank_class (arm_bank (types ! i)))
          \<and> preg_hw_enc p = bank_rank arm_bank types i
        else slots ! i = StackArg (word_of_nat (arm_stack_before types i)) (types ! i))
    \<and> (\<forall>i j. i < j \<longrightarrow> j < length types \<longrightarrow> arm_bank (types ! i) = arm_bank (types ! j)
        \<longrightarrow> bank_rank arm_bank types i < bank_rank arm_bank types j)
    \<and> (\<forall>i j. i < j \<longrightarrow> j < length types \<longrightarrow> 8 \<le> bank_rank arm_bank types i
        \<longrightarrow> arm_stack_before types i + unat (arm_slot_size (types ! i)) \<le> arm_stack_before types j)"
proof -
  let ?L = "arg_location arm_planner arm_bank arm_slot_size types"
  have "if bank_rank arm_bank types i < 8
      then \<exists>p. ?L i = RegArg p (types ! i) \<and> preg_class p = Some (bank_class (arm_bank (types ! i)))
        \<and> preg_hw_enc p = bank_rank arm_bank types i
      else ?L i = StackArg (word_of_nat (arm_stack_before types i)) (types ! i)" for i
    using arm_location [of types i] by (auto simp: arg_location_def arm_on_stack arm_stack_before_eq)
  moreover have "arm_stack_before types i + unat (arm_slot_size (types ! i)) \<le> arm_stack_before types j"
    if "i < j" "8 \<le> bank_rank arm_bank types i" for i j
    using stack_arguments_disjoint [of i j arm_planner arm_bank types arm_slot_size] that
    by (simp add: arm_on_stack arm_stack_before_eq)
  ultimately show ?thesis
    using assms(2) by (intro exI [of _ "map ?L [0..<length types]"])
      (auto simp: arm_compute_eq [OF assms(1)] intro: bank_rank_strict)
qed

text \<open>Ten arguments: eight integers and a float in registers, the ninth integer on the stack.\<close>

theorem arm_argument_locations_witness:
  "\<exists>slots p. arm_compute_call_arg_loc (Float32 # replicate 9 Int32) = Some (slots, 8) \<and> length slots = 10
    \<and> slots ! 8 = RegArg p Int32 \<and> preg_class p = Some IntClass \<and> preg_hw_enc p = 7 \<and> slots ! 9 = StackArg 0 Int32"
proof -
  let ?ts = "Float32 # replicate 9 Int32"
  have b: "arm_stack_before ?ts 10 = 8" "arm_stack_before ?ts 9 = 0" "bank_rank arm_bank ?ts 8 = 7" "bank_rank arm_bank ?ts 9 = 8"
    "?ts ! 8 = Int32" "?ts ! 9 = Int32" "bank_class (arm_bank Int32) = IntClass" by code_simp+
  have n: "length ?ts = 10" by simp
  have h: "\<And>t. t \<in> set ?ts \<Longrightarrow> arm_classify t \<noteq> None" "arm_stack_before ?ts (length ?ts) < 2 ^ 32"
    using b(1) n by auto
  obtain slots where "arm_compute_call_arg_loc ?ts = Some (slots, word_of_nat (arm_stack_before ?ts (length ?ts)))"
    and "length slots = length ?ts"
    and slots: "\<And>i. i < length ?ts \<Longrightarrow> if bank_rank arm_bank ?ts i < 8
        then \<exists>p. slots ! i = RegArg p (?ts ! i) \<and> preg_class p = Some (bank_class (arm_bank (?ts ! i)))
          \<and> preg_hw_enc p = bank_rank arm_bank ?ts i
        else slots ! i = StackArg (word_of_nat (arm_stack_before ?ts i)) (?ts ! i)"
    using arm_argument_locations [OF h] by blast
  moreover have "\<exists>p. slots ! 8 = RegArg p Int32 \<and> preg_class p = Some IntClass \<and> preg_hw_enc p = 7"
    using slots [of 8] b by (simp add: n)
  moreover have "slots ! 9 = StackArg 0 Int32" using slots [of 9] b by (simp add: n)
  ultimately show ?thesis using b(1) unfolding n by auto
qed

section \<open>Departures from the procedure call standard\<close>

text \<open>C40: floating point and vector arguments are counted separately although they use the same hardware registers, so a
  call with one of each passes both in v0; and a vector on the stack after an odd number of 8-byte arguments is not
  aligned to 16 bytes.\<close>

theorem arm_vector_arguments_misplaced:
  "(\<exists>p q. arm_compute_call_arg_loc [Float32, VectorTy Int32 4] = Some ([RegArg p Float32, RegArg q (VectorTy Int32 4)], 0)
      \<and> preg_name p = Some ''v0'' \<and> preg_name q = Some ''v0'')
    \<and> (\<exists>slots. arm_compute_call_arg_loc (replicate 9 Int32 @ replicate 9 (VectorTy Int32 4)) = Some (slots, 24)
      \<and> slots ! 17 = StackArg 8 (VectorTy Int32 4))"
proof
  let ?ts = "[Float32, VectorTy Int32 4]"
  have r: "bank_rank arm_bank ?ts 0 = 0" "bank_rank arm_bank ?ts 1 = 0" by (simp_all add: bank_rank_def arm_bank_def)
  obtain p where p: "arg_location arm_planner arm_bank arm_slot_size ?ts 0 = RegArg p Float32" "preg_class p = Some FloatClass" "preg_hw_enc p = 0"
    using arm_location [of ?ts 0] r by (auto simp: arm_bank_def)
  obtain q where q: "arg_location arm_planner arm_bank arm_slot_size ?ts 1 = RegArg q (VectorTy Int32 4)" "preg_class q = Some VectorClass" "preg_hw_enc q = 0"
    using arm_location [of ?ts 1] r by (auto simp: arm_bank_def)
  have z: "arm_stack_before ?ts 2 = 0" using r by (simp add: arm_stack_before_def upt_rec)
  have "arm_compute_call_arg_loc ?ts = (if arm_stack_before ?ts (length ?ts) < 2 ^ 32
    then Some (map (arg_location arm_planner arm_bank arm_slot_size ?ts) [0..<length ?ts],
      word_of_nat (arm_stack_before ?ts (length ?ts))) else None)"
    by (rule arm_compute_eq) auto
  moreover have "length ?ts = 2" "[0..<2 :: nat] = [0, 1]" by (simp_all add: upt_rec)
  ultimately have "arm_compute_call_arg_loc ?ts = Some ([RegArg p Float32, RegArg q (VectorTy Int32 4)], 0)"
    using p(1) q(1) z by (simp only: list.map) simp
  then show "\<exists>p q. arm_compute_call_arg_loc ?ts = Some ([RegArg p Float32, RegArg q (VectorTy Int32 4)], 0)
      \<and> preg_name p = Some ''v0'' \<and> preg_name q = Some ''v0''"
    using p q by (auto simp: preg_name_def vec_get_def FLOAT_REG_NAMES_def)
next
  let ?ts = "replicate 9 Int32 @ replicate 9 (VectorTy Int32 4)"
  have b: "arm_stack_before ?ts 18 = 24" "arm_stack_before ?ts 17 = 8" "bank_rank arm_bank ?ts 17 = 8" by code_simp+
  have "arg_location arm_planner arm_bank arm_slot_size ?ts 17 = StackArg 8 (VectorTy Int32 4)"
    using b(2,3) by (simp add: arg_location_def arm_on_stack arm_stack_before_eq nth_append)
  moreover have "arm_compute_call_arg_loc ?ts = (if arm_stack_before ?ts (length ?ts) < 2 ^ 32
    then Some (map (arg_location arm_planner arm_bank arm_slot_size ?ts) [0..<length ?ts],
      word_of_nat (arm_stack_before ?ts (length ?ts))) else None)"
    by (rule arm_compute_eq) auto
  moreover have "length ?ts = 18" by simp
  ultimately show "\<exists>slots. arm_compute_call_arg_loc ?ts = Some (slots, 24) \<and> slots ! 17 = StackArg 8 (VectorTy Int32 4)"
    using b(1) by (auto simp del: upt_Suc)
qed

end
