(* ===== verification/Arm_Env.thy ===== *)
theory Arm_Env
  imports Arm_Args Arm_Prologue Reg_Policy
begin

text \<open>
  The allocation policy of the AArch64 back end (\<^verbatim>\<open>anon_armv8/src/regs.rs\<close>): the machine environment given to the
  register allocator and the registers a call clobbers. The theorems show that the policy agrees with the
  procedure call standard, and where it breaks the allocator's rule that register classes are disjoint.
\<close>

section \<open>The environment\<close>

definition INT_ALLOCATOR_SCRATCH :: nat where "INT_ALLOCATOR_SCRATCH = 16"
definition FLOAT_ALLOCATOR_SCRATCH :: nat where "FLOAT_ALLOCATOR_SCRATCH = 31"
definition FLOAT_POST_RA_SCRATCH :: "nat list" where "FLOAT_POST_RA_SCRATCH = [30, 31]"

definition DEFAULT_CLOBBERS :: "preg_set rust" where
  "DEFAULT_CLOBBERS = do {
     s \<leftarrow> with_pregs int_preg [0, 1, 2, 3, 4, 5, 6, 7, 8, 9, 10, 11, 12, 13, 14, 15, 16, 17, 18, LR] pset_empty;
     s \<leftarrow> with_pregs float_preg [0, 1, 2, 3, 4, 5, 6, 7, 16, 17, 18, 19, 20, 21, 22, 23, 24, 25, 26, 27, 28, 29, 30, 31] s;
     with_pregs vector_preg [0, 1, 2, 3, 4, 5, 6, 7, 16, 17, 18, 19, 20, 21, 22, 23, 24, 25, 26, 27, 28, 29, 30, 31] s }"

definition arm_preg_set :: "nat list \<Rightarrow> reg_class \<Rightarrow> preg_set rust" where
  "arm_preg_set indices cls = with_pregs (\<lambda>index. preg_new index cls) indices pset_empty"

definition arm_machine_env :: "machine_env rust" where
  "arm_machine_env = do {
     p0 \<leftarrow> arm_preg_set [0, 1, 2, 3, 4, 5, 6, 7, 8, 9, 10, 11, 12, 13] IntClass;
     p1 \<leftarrow> arm_preg_set [0, 1, 2, 3, 4, 5, 6, 7, 16, 17, 18, 19, 20, 21, 22, 23, 24, 25, 26, 27, 28, 29] FloatClass;
     p2 \<leftarrow> arm_preg_set [0, 1, 2, 3, 4, 5, 6, 7, 16, 17, 18, 19, 20, 21, 22, 23, 24, 25, 26, 27, 28, 29, 30, 31] VectorClass;
     n0 \<leftarrow> arm_preg_set [19, 20, 21, 22, 23, 24, 25, 26, 27, 28] IntClass;
     n1 \<leftarrow> arm_preg_set [8, 9, 10, 11, 12, 13, 14, 15] FloatClass;
     n2 \<leftarrow> arm_preg_set [8, 9, 10, 11, 12, 13, 14, 15] VectorClass;
     si \<leftarrow> int_preg INT_ALLOCATOR_SCRATCH;
     sf \<leftarrow> float_preg FLOAT_ALLOCATOR_SCRATCH;
     ri \<leftarrow> option_all (map int_preg INT_POST_RA_SCRATCH);
     rf \<leftarrow> option_all (map float_preg FLOAT_POST_RA_SCRATCH);
     Some \<lparr>preferred_regs_by_class = [p0, p1, p2], non_preferred_regs_by_class = [n0, n1, n2],
       scratch_by_class = [Some si, Some sf, None], post_ra_scratch_by_class = [ri, rf, []], fixed_stack_slots = []\<rparr> }"

section \<open>Its members\<close>

lemma arm_preg_set_members:
  assumes "\<forall>i \<in> set is. i \<le> 63"
  obtains s where "arm_preg_set is cls = Some s" and "pset_wf s" and "members s = pregs_of cls (set is)"
  using with_pregs_members [OF empty_members(1), of "is" "\<lambda>i. preg_new i cls" cls] assms
  by (auto simp: arm_preg_set_def empty_members(2))

lemma default_clobbers_members:
  obtains s where "DEFAULT_CLOBBERS = Some s" and "pset_wf s"
    and "members s = pregs_of IntClass ({0..18} \<union> {30}) \<union> pregs_of FloatClass ({0..7} \<union> {16..31}) \<union> pregs_of VectorClass ({0..7} \<union> {16..31})"
proof -
  let ?i = "[0, 1, 2, 3, 4, 5, 6, 7, 8, 9, 10, 11, 12, 13, 14, 15, 16, 17, 18, LR]"
  let ?f = "[0, 1, 2, 3, 4, 5, 6, 7, 16, 17, 18, 19, 20, 21, 22, 23, 24, 25, 26, 27, 28, 29, 30, 31] :: nat list"
  have sets: "set ?i = {0..18} \<union> {30}" "set ?f = {0..7} \<union> {16..31}"
    by (auto simp: LR_def atLeastAtMost_upt upt_rec)
  obtain s1 where s1: "with_pregs int_preg ?i pset_empty = Some s1" "pset_wf s1" "members s1 = pregs_of IntClass ({0..18} \<union> {30})"
    using with_pregs_members [OF empty_members(1), of ?i int_preg IntClass] empty_members(2) unfolding sets
    by (force simp: int_preg_def LR_def)
  obtain s2 where s2: "with_pregs float_preg ?f s1 = Some s2" "pset_wf s2" "members s2 = members s1 \<union> pregs_of FloatClass ({0..7} \<union> {16..31})"
    using with_pregs_members [OF s1(2), of ?f float_preg FloatClass] unfolding sets by (force simp: float_preg_def)
  obtain s3 where s3: "with_pregs vector_preg ?f s2 = Some s3" "pset_wf s3" "members s3 = members s2 \<union> pregs_of VectorClass ({0..7} \<union> {16..31})"
    using with_pregs_members [OF s2(2), of ?f vector_preg VectorClass] unfolding sets by (force simp: vector_preg_def)
  have "DEFAULT_CLOBBERS = Some s3" using s1(1) s2(1) s3(1) by (simp add: DEFAULT_CLOBBERS_def del: bind_eq_Some)
  then show ?thesis using that s1(3) s2(3) s3(2,3) by blast
qed

text \<open>The environment exists; the sets of all classes and the scratch registers.\<close>

lemma arm_machine_env_members:
  obtains env where "arm_machine_env = Some env"
    and "members (pset_from_env env) = pregs_of IntClass ({0..13} \<union> {19..28}) \<union> pregs_of FloatClass {0..29} \<union> pregs_of VectorClass {0..31}"
    and "pset_wf (pset_from_env env)"
    and "scratch_by_class env = [int_preg 16, float_preg 31, None]"
    and "post_ra_scratch_by_class env = [map (the \<circ> int_preg) [14, 15, 16, 17], map (the \<circ> float_preg) [30, 31], []]"
proof -
  let ?pi = "[0, 1, 2, 3, 4, 5, 6, 7, 8, 9, 10, 11, 12, 13] :: nat list"
    and ?pf = "[0, 1, 2, 3, 4, 5, 6, 7, 16, 17, 18, 19, 20, 21, 22, 23, 24, 25, 26, 27, 28, 29] :: nat list"
    and ?pv = "[0, 1, 2, 3, 4, 5, 6, 7, 16, 17, 18, 19, 20, 21, 22, 23, 24, 25, 26, 27, 28, 29, 30, 31] :: nat list"
    and ?ni = "[19, 20, 21, 22, 23, 24, 25, 26, 27, 28] :: nat list" and ?nf = "[8, 9, 10, 11, 12, 13, 14, 15] :: nat list"
  have sets: "set ?pi \<union> set ?ni = {0..13} \<union> {19..28}" "set ?pf \<union> set ?nf = {0..29}" "set ?pv \<union> set ?nf = {0..31}"
    by code_simp+
  obtain p0 where p0: "arm_preg_set ?pi IntClass = Some p0" "pset_wf p0" "members p0 = pregs_of IntClass (set ?pi)"
    by (rule arm_preg_set_members [of ?pi IntClass]) simp
  obtain p1 where p1: "arm_preg_set ?pf FloatClass = Some p1" "pset_wf p1" "members p1 = pregs_of FloatClass (set ?pf)"
    by (rule arm_preg_set_members [of ?pf FloatClass]) simp
  obtain p2 where p2: "arm_preg_set ?pv VectorClass = Some p2" "pset_wf p2" "members p2 = pregs_of VectorClass (set ?pv)"
    by (rule arm_preg_set_members [of ?pv VectorClass]) simp
  obtain n0 where n0: "arm_preg_set ?ni IntClass = Some n0" "pset_wf n0" "members n0 = pregs_of IntClass (set ?ni)"
    by (rule arm_preg_set_members [of ?ni IntClass]) simp
  obtain n1 where n1: "arm_preg_set ?nf FloatClass = Some n1" "pset_wf n1" "members n1 = pregs_of FloatClass (set ?nf)"
    by (rule arm_preg_set_members [of ?nf FloatClass]) simp
  obtain n2 where n2: "arm_preg_set ?nf VectorClass = Some n2" "pset_wf n2" "members n2 = pregs_of VectorClass (set ?nf)"
    by (rule arm_preg_set_members [of ?nf VectorClass]) simp
  let ?sc = "[int_preg 16, float_preg 31, None]"
    and ?post = "[map (the \<circ> int_preg) [14, 15, 16, 17], map (the \<circ> float_preg) [30, 31], []]"
  let ?env = "\<lparr>preferred_regs_by_class = [p0, p1, p2], non_preferred_regs_by_class = [n0, n1, n2],
    scratch_by_class = ?sc, post_ra_scratch_by_class = ?post, fixed_stack_slots = []\<rparr>"
  have "arm_machine_env = Some ?env"
    using p0(1) p1(1) p2(1) n0(1) n1(1) n2(1)
    by (simp add: arm_machine_env_def INT_ALLOCATOR_SCRATCH_def FLOAT_ALLOCATOR_SCRATCH_def INT_POST_RA_SCRATCH_def
        FLOAT_POST_RA_SCRATCH_def int_preg_def float_preg_def LR_def preg_new_def PREG_MAX_def del: bind_eq_Some)
  moreover have "pset_wf (pset_from_env ?env) \<and> members (pset_from_env ?env)
    = members p0 \<union> members p1 \<union> members p2 \<union> members n0 \<union> members n1 \<union> members n2"
    using p0(2) p1(2) p2(2) n0(2) n1(2) n2(2) empty_members by (simp add: pset_from_env_def union_members)
  then have "pset_wf (pset_from_env ?env)" "members (pset_from_env ?env)
    = pregs_of IntClass (set ?pi \<union> set ?ni) \<union> pregs_of FloatClass (set ?pf \<union> set ?nf) \<union> pregs_of VectorClass (set ?pv \<union> set ?nf)"
    unfolding pregs_of_union [symmetric] p0(3) p1(3) p2(3) n0(3) n1(3) n2(3) by blast+
  ultimately show ?thesis using that [of ?env] unfolding sets by simp
qed

text \<open>C10: the AArch64 allocation policy: an allocatable register is preserved by a call exactly when the back end treats it
  as callee-saved, so the allocator's view of a call agrees with what prologues save. The frame pointer, the link
  register, the platform register, the stack pointer and all scratch registers are not allocatable, the dedicated
  scratch registers are among those reserved for later expansion, and every argument register is allocatable
  and clobbered by calls.\<close>

theorem arm_machine_env_policy:
  "\<exists>env clob. arm_machine_env = Some env \<and> DEFAULT_CLOBBERS = Some clob
    \<and> (\<forall>p \<in> members (pset_from_env env). arm_is_callee_saved p = Some (p \<notin> members clob))
    \<and> (\<forall>p. preg_class p = Some IntClass \<and> preg_hw_enc p \<in> {14, 15, 16, 17, 18, FP, LR, SP_HW_ENC} \<longrightarrow> p \<notin> members (pset_from_env env))
    \<and> (\<forall>rs \<in> set (post_ra_scratch_by_class env). \<forall>p \<in> set rs. p \<notin> members (pset_from_env env))
    \<and> (\<forall>i < 3. case scratch_by_class env ! i of None \<Rightarrow> True | Some p \<Rightarrow> p \<in> set (post_ra_scratch_by_class env ! i))
    \<and> (\<forall>b k. k < 8 \<longrightarrow> (\<exists>r p. bank_reg b k = Some r \<and> reg_to_physical_reg r = Some p
        \<and> p \<in> members (pset_from_env env) \<and> p \<in> members clob))"
proof -
  obtain env where env: "arm_machine_env = Some env"
    and alloc: "members (pset_from_env env) = pregs_of IntClass ({0..13} \<union> {19..28}) \<union> pregs_of FloatClass {0..29} \<union> pregs_of VectorClass {0..31}"
    and scratch: "scratch_by_class env = [int_preg 16, float_preg 31, None]"
    and post: "post_ra_scratch_by_class env = [map (the \<circ> int_preg) [14, 15, 16, 17], map (the \<circ> float_preg) [30, 31], []]"
    by (rule arm_machine_env_members) blast
  obtain clob where clob: "DEFAULT_CLOBBERS = Some clob" and cm: "members clob
      = pregs_of IntClass ({0..18} \<union> {30}) \<union> pregs_of FloatClass ({0..7} \<union> {16..31}) \<union> pregs_of VectorClass ({0..7} \<union> {16..31})"
    by (rule default_clobbers_members) blast
  have int: "\<exists>p. int_preg i = Some p \<and> preg_class p = Some IntClass \<and> preg_hw_enc p = i" if "i \<le> 30" for i
    using that preg_decode [of i IntClass] by (simp add: int_preg_def LR_def preg_new_Some)
  have float: "\<exists>p. float_preg i = Some p \<and> preg_class p = Some FloatClass \<and> preg_hw_enc p = i" if "i \<le> 31" for i
    using that preg_decode [of i FloatClass] by (simp add: float_preg_def preg_new_Some)
  have "arm_is_callee_saved p = Some (p \<notin> members clob)" if "p \<in> members (pset_from_env env)" for p
    using that unfolding alloc cm by (auto simp: pregs_of_def arm_is_callee_saved_def)
  moreover have "p \<notin> members (pset_from_env env)"
    if "preg_class p = Some IntClass" "preg_hw_enc p \<in> {14, 15, 16, 17, 18, FP, LR, SP_HW_ENC}" for p
    using that unfolding alloc by (auto simp: pregs_of_def FP_def LR_def SP_HW_ENC_def)
  moreover have "p \<notin> members (pset_from_env env)" if "p \<in> set rs" "rs \<in> set (post_ra_scratch_by_class env)" for rs p
    using that int [of 14] int [of 15] int [of 16] int [of 17] float [of 30] float [of 31]
    unfolding alloc post by (auto simp: pregs_of_def)
  moreover have "case scratch_by_class env ! i of None \<Rightarrow> True | Some p \<Rightarrow> p \<in> set (post_ra_scratch_by_class env ! i)"
    if lt: "i < 3" for i
  proof -
    consider "i = 0" | "i = 1" | "i = 2" using lt by linarith
    then show ?thesis using int [of 16] float [of 31] unfolding scratch post by cases auto
  qed
  moreover have "\<exists>r p. bank_reg b k = Some r \<and> reg_to_physical_reg r = Some p
      \<and> p \<in> members (pset_from_env env) \<and> p \<in> members clob" if lt: "k < 8" for b k
  proof -
    obtain r p where r: "bank_reg b k = Some r" "reg_to_physical_reg r = Some p" "preg_class p = Some (bank_class b)" "preg_hw_enc p = k"
      by (rule bank_reg_physical [OF lt, of b]) blast
    then have "p \<in> members (pset_from_env env)" "p \<in> members clob"
      using lt unfolding alloc cm by (cases b; simp add: pregs_of_def)+
    then show ?thesis using r by blast
  qed
  ultimately show ?thesis using env clob by blast
qed

theorem arm_machine_env_policy_witness:
  "\<exists>env clob r p. arm_machine_env = Some env \<and> DEFAULT_CLOBBERS = Some clob \<and> int_reg 7 = Some r
    \<and> reg_to_physical_reg r = Some p \<and> p \<in> members (pset_from_env env) \<and> p \<in> members clob \<and> arm_is_callee_saved p = Some False"
proof -
  obtain env clob where e: "arm_machine_env = Some env" "DEFAULT_CLOBBERS = Some clob"
    and saved: "\<And>p. p \<in> members (pset_from_env env) \<Longrightarrow> arm_is_callee_saved p = Some (p \<notin> members clob)"
    and args: "\<And>b k. k < 8 \<Longrightarrow> \<exists>r p. bank_reg b k = Some r \<and> reg_to_physical_reg r = Some p
        \<and> p \<in> members (pset_from_env env) \<and> p \<in> members clob"
    using arm_machine_env_policy by blast
  then show ?thesis using args [of 7 IntBank] by (force simp: bank_reg_def)
qed

section \<open>Floating point and vector registers\<close>

text \<open>C39: the allocator takes register classes to be disjoint, but on AArch64 the floating point and the vector class are two
  views of one register file. Floating point register i and vector register i are both allocatable for i
  below 30 and print as the same register, and the floating point scratch registers 30 and 31 are allocatable
  as vectors: a floating point move through scratch register 31 overwrites the vector that an allocation placed there.\<close>

theorem arm_float_vector_classes_overlap:
  "\<exists>env. arm_machine_env = Some env
    \<and> (\<forall>i < 30. \<exists>p q. float_preg i = Some p \<and> vector_preg i = Some q \<and> p \<noteq> q \<and> preg_name p = preg_name q
        \<and> p \<in> members (pset_from_env env) \<and> q \<in> members (pset_from_env env))
    \<and> (\<forall>i \<in> {30, 31}. \<exists>p q. float_preg i = Some p \<and> vector_preg i = Some q \<and> p \<in> set (post_ra_scratch_by_class env ! 1)
        \<and> preg_name p = preg_name q \<and> q \<in> members (pset_from_env env))
    \<and> (\<exists>p q d a s'. scratch_by_class env ! 1 = Some p \<and> vector_preg 31 = Some q \<and> q \<in> members (pset_from_env env)
        \<and> reg_from_physical_reg p = Some d \<and> float_reg 0 = Some a
        \<and> exec_inst (gen_move a d lt_F32) \<lparr>xregs = \<lambda>_. 0, vregs = (\<lambda>_. 0)(31 := 5), mem = \<lambda>_. 0\<rparr> = Some s'
        \<and> reg_val s' (hw_of q) = 0)"
proof -
  obtain env where env: "arm_machine_env = Some env"
    and alloc: "members (pset_from_env env) = pregs_of IntClass ({0..13} \<union> {19..28}) \<union> pregs_of FloatClass {0..29} \<union> pregs_of VectorClass {0..31}"
    and scratch: "scratch_by_class env = [int_preg 16, float_preg 31, None]"
    and post: "post_ra_scratch_by_class env = [map (the \<circ> int_preg) [14, 15, 16, 17], map (the \<circ> float_preg) [30, 31], []]"
    by (rule arm_machine_env_members) blast
  have f: "\<exists>p. float_preg i = Some p \<and> preg_class p = Some FloatClass \<and> preg_hw_enc p = i"
    and v: "\<exists>p. vector_preg i = Some p \<and> preg_class p = Some VectorClass \<and> preg_hw_enc p = i" if "i \<le> 31" for i
    using that preg_decode [of i FloatClass] preg_decode [of i VectorClass] by (simp_all add: float_preg_def vector_preg_def preg_new_Some)
  have same: "\<exists>p q. float_preg i = Some p \<and> vector_preg i = Some q \<and> p \<noteq> q \<and> preg_name p = preg_name q
        \<and> p \<in> members (pset_from_env env) \<and> q \<in> members (pset_from_env env)" if lt: "i < 30" for i
  proof -
    obtain p q where "float_preg i = Some p" "preg_class p = Some FloatClass" "preg_hw_enc p = i"
      "vector_preg i = Some q" "preg_class q = Some VectorClass" "preg_hw_enc q = i"
      using f [of i] v [of i] lt by auto
    then show ?thesis using lt unfolding alloc by (auto simp: pregs_of_def preg_name_def)
  qed
  have scratch30: "\<exists>p q. float_preg i = Some p \<and> vector_preg i = Some q \<and> p \<in> set (post_ra_scratch_by_class env ! 1)
        \<and> preg_name p = preg_name q \<and> q \<in> members (pset_from_env env)" if i: "i \<in> {30, 31}" for i
  proof -
    obtain p q where "float_preg i = Some p" "preg_class p = Some FloatClass" "preg_hw_enc p = i"
      "vector_preg i = Some q" "preg_class q = Some VectorClass" "preg_hw_enc q = i"
      using f [of i] v [of i] i by auto
    then show ?thesis using i unfolding alloc post by (auto simp: pregs_of_def preg_name_def)
  qed
  obtain q where q: "vector_preg 31 = Some q" "preg_class q = Some VectorClass" "preg_hw_enc q = 31" using v [of 31] by auto
  moreover obtain p where p: "float_preg 31 = Some p" "preg_class p = Some FloatClass" "preg_hw_enc p = 31" using f [of 31] by auto
  moreover obtain d where d: "reg_from_physical_reg p = Some d" "reg_to_physical_reg d = Some p"
    using reg_physical_decode [OF p(2)] by blast
  moreover obtain a b where a: "float_reg 0 = Some a" "reg_to_physical_reg a = Some b" "preg_hw_enc b = 0"
    by (rule bank_reg_physical [of 0 FloatBank]) (simp_all add: bank_reg_def)
  moreover have "hw d = 31" "hw a = 0" using d a p by (simp_all add: hw_def)
  then have "exec_inst (gen_move a d lt_F32) s = Some (s\<lparr>vregs := (vregs s)(31 := take_bit 32 (vregs s 0))\<rparr>)" for s :: machine
    by (simp add: gen_move_def vset_def lowered_types)
  moreover have "hw_of q = Q 31" using q by (simp add: hw_of_def)
  moreover have "q \<in> members (pset_from_env env)" using q unfolding alloc by (simp add: pregs_of_def)
  ultimately have "\<exists>p q d a s'. scratch_by_class env ! 1 = Some p \<and> vector_preg 31 = Some q \<and> q \<in> members (pset_from_env env)
        \<and> reg_from_physical_reg p = Some d \<and> float_reg 0 = Some a
        \<and> exec_inst (gen_move a d lt_F32) \<lparr>xregs = \<lambda>_. 0, vregs = (\<lambda>_. 0)(31 := 5), mem = \<lambda>_. 0\<rparr> = Some s'
        \<and> reg_val s' (hw_of q) = 0"
    using scratch by force
  then show ?thesis using env same scratch30 by blast
qed

theorem arm_float_vector_classes_overlap_witness:
  "\<exists>env p q. arm_machine_env = Some env \<and> float_preg 3 = Some p \<and> vector_preg 3 = Some q \<and> p \<noteq> q \<and> preg_name p = preg_name q
    \<and> p \<in> members (pset_from_env env) \<and> q \<in> members (pset_from_env env)"
proof -
  have "(3 :: nat) < 30" by simp
  then show ?thesis using arm_float_vector_classes_overlap by blast
qed

end
