(* ===== verification/Spec2Isabelle.thy ===== *)
theory Spec2Isabelle
  imports Rust_Prelude Div_Magic IR_Ops Int_Ranges Range_Analysis Reg_Encoding PReg_Sets VReg_Alias Alloc_Output Reg_Operands
    Parallel_Moves Index_Ranges Entities List_Pool Emit_Buffer Emit_Flow Emit_Simplify Emit_Function
    Control_Flow Dominance Dom_Tree Dom_Result Legacy_Dom Natural_Loops Loop_Analysis Loop_Forest
    Abi_Layout Machine_Memory Reg_Policy Arm_Constants Arm_Frame Arm_Exec Arm_Prologue Arm_Args Arm_Env
begin

text \<open>
  Verification of the AnonBeijing compiler, an optimising compiler from SysY to AArch64 and RISC-V
  assembly written in Rust.

  \<^bold>\<open>The program.\<close> \<^verbatim>\<open>soyo_compiler\<close> parses SysY and builds RaanaIR; \<^verbatim>\<open>raana_ir\<close> holds the IR, its analyses
  and optimisation passes; \<^verbatim>\<open>taki_mir\<close> lowers the IR to machine instructions over virtual registers,
  allocates registers and emits text; \<^verbatim>\<open>anon_armv8\<close> and \<^verbatim>\<open>uika_riscv\<close> are the two back ends;
  \<^verbatim>\<open>tomori_utils\<close> has the containers they share. The passes ask the analyses for facts (ranges of
  values); lowering asks the number theory for division sequences; the register allocator reads
  operands packed by the collector, returns allocations and a list of moves, and the emitter writes them back.

  \<^bold>\<open>Conventions.\<close> A computation that can panic is an \<open>option\<close>, and \<open>None\<close> is the panic; debug assertions and
  overflow checks are on. \<open>usize\<close> is \<open>nat\<close>, machine integers are words. Loops are structural recursions,
  or \<^verbatim>\<open>partial_function (option)\<close> where the source loop could run forever, with theorems that the value is
  \<open>Some\<close>; no fuel is used. A \<open>&mut\<close> argument is returned. Closures and back end tables are parameters.

  \<^bold>\<open>Theories.\<close>
  \<^item> \<open>Rust_Prelude\<close>: checked operations, signed words, fields of words.
  \<^item> \<open>Div_Magic\<close> (\<^verbatim>\<open>taki_mir/src/div_magic.rs\<close>): magic numbers for signed division. The loop returns for every
    divisor that needs it, and the multiply-high sequence is the truncating quotient.
  \<^item> \<open>IR_Ops\<close> (\<^verbatim>\<open>raana_ir/src/ir/types.rs\<close>, \<^verbatim>\<open>inst_kind/binary.rs\<close>): types with sizes, binary operators and their
    rewrites, constant folding.
  \<^item> \<open>Int_Ranges\<close> (\<^verbatim>\<open>raana_ir/src/opt/analysis_passes/range.rs\<close>): the interval domain. Soundness of transfer
    functions and refinements, exactness of the lattice operations, stabilisation of widening. The locales
    \<open>value_domain\<close> and \<open>widening_domain\<close> state what the analysis needs of a domain.
  \<^item> \<open>Range_Analysis\<close> (same file): evaluation of values against the facts of a program point, refinement on
    branch edges, joins, induction variable caps. The values of an execution stay in the ranges that evaluation gives at
    every kind of context, provided the recorded ranges hold and the execution has no logical right shift that keeps a
    negative value (\<open>no_sign_keeping_shift\<close>), the case in which the transfer function itself is unsound.
  \<^item> \<open>Reg_Encoding\<close> (\<^verbatim>\<open>taki_mir/src/reg_alloc/reg.rs\<close>, \<^verbatim>\<open>taki_mir/src/register.rs\<close>): bit-packed registers, allocations,
    program points and operands, with round trips.
  \<^item> \<open>PReg_Sets\<close> (\<^verbatim>\<open>reg.rs\<close>): register sets as bit arrays; refinement of sets through the locale \<open>reg_set\<close>.
  \<^item> \<open>VReg_Alias\<close> (\<^verbatim>\<open>register.rs\<close>): the virtual register allocator and its alias chains, as a state machine.
  \<^item> \<open>Alloc_Output\<close> (\<^verbatim>\<open>reg.rs\<close>, \<^verbatim>\<open>reg_alloc/index.rs\<close>): the result of allocation and the walk over a block that
    interleaves instructions and moves.
  \<^item> \<open>Reg_Operands\<close> (\<^verbatim>\<open>reg.rs\<close>): the visitor that collects operands and the one that writes allocations back;
    the locale \<open>counting_visitor\<close> shows that both see the same operands.
  \<^item> \<open>Parallel_Moves\<close> (\<^verbatim>\<open>reg_alloc/moves.rs\<close>): ordering of parallel moves, and the removal of moves between stack
    slots. The result is executed on a store of locations and compared with executing the moves at once.
  \<^item> \<open>Index_Ranges\<close> (\<^verbatim>\<open>tomori_utils/src/ranges.rs\<close>): lists of ranges and their two reversals.
  \<^item> \<open>Entities\<close> (\<^verbatim>\<open>entity.rs\<close>, \<^verbatim>\<open>packed_option.rs\<close>): entity references and packed options; the locale \<open>reserved_type\<close>
    is the contract of a reserved value.
  \<^item> \<open>List_Pool\<close> (\<^verbatim>\<open>list.rs\<close>): entity lists in a shared pool with a block allocator. The invariant says that
    blocks do not overlap and that free lists are chains of blocks of their class; every operation on a list
    implements the operation on sequences and leaves all other lists alone (the locale \<open>pool_edit\<close>).
  \<^item> \<open>Emit_Buffer\<close> (\<^verbatim>\<open>taki_mir/src/emit_buffer.rs\<close>, \<^verbatim>\<open>emit_buffer/label.rs\<close>, \<^verbatim>\<open>emit.rs\<close>): the emission buffer with labels, branch
    simplification, range checks, veneers and rendering. \<open>Emit_Flow\<close> gives the control flow of a buffer, its invariant and the
    rewritings that keep the flow, \<open>Emit_Simplify\<close> the simplification loop (an instance of the locale \<open>progress_loop\<close> of the
    prelude), and \<open>Emit_Function\<close> the emission of a function: with and without simplifications the code has the same
    instructions and the same control flow.
  \<^item> \<open>Control_Flow\<close> (\<^verbatim>\<open>raana_ir/src/opt/utils/cfg.rs\<close>): the control flow graph of a function, built by an iterative depth first
    search (another instance of \<open>progress_loop\<close>). The layout gives the blocks and the kinds of their instructions; the iteration order
    of hash maps is a parameter.
  \<^item> \<open>Dominance\<close>: paths and dominance, and the locale \<open>rpo_graph\<close> of graphs listed in reverse postorder, with the
    invariant of the iteration for immediate dominators. \<open>Dom_Tree\<close> (\<^verbatim>\<open>analysis_passes/dom_tree.rs\<close>, module \<^verbatim>\<open>v2\<close>) models
    the analysis; \<open>Dom_Result\<close> interprets the locale on the graph of a function and shows that the tree is the dominator tree.
  \<^item> \<open>Natural_Loops\<close>: the order of dominance, natural loops, and why two of them are disjoint or nested. \<open>Loop_Analysis\<close>
    (\<^verbatim>\<open>analysis_passes/loop_analysis.rs\<close>) models the analysis and shows, in the locale \<open>loop_graph\<close> (the contract of graph and
    dominator tree), what its walks compute; \<open>Loop_Forest\<close> is about the nesting of loops and the result for a function.
  \<^item> \<open>Legacy_Dom\<close> (\<^verbatim>\<open>opt/utils.rs\<close>, \<^verbatim>\<open>analysis_passes/cfg.rs\<close>, \<^verbatim>\<open>dom_tree.rs\<close>): the older numbering, graph and dominators.
  \<^item> \<open>Abi_Layout\<close> (\<^verbatim>\<open>taki_mir/src/abi.rs\<close>, \<^verbatim>\<open>taki_mir/src/types.rs\<close>): machine types, argument planning, stack objects and the layout
    of a frame. A target is a record of its hooks (the trait \<^verbatim>\<open>ABIMachineSpec\<close>).
  \<^item> \<open>Machine_Memory\<close>: registers and a byte memory on which frame code is executed, and the locale \<open>frame_code\<close>, the contract
    between the code that saves registers and the code that restores them.
  \<^item> \<open>Reg_Policy\<close>: register sets written as chains of \<open>with\<close>.
  \<^item> \<open>Arm_Constants\<close> (\<^verbatim>\<open>anon_armv8/src/constants.rs\<close>, \<^verbatim>\<open>anon_armv8/src/instructions.rs\<close>): immediates and the planning of integer
    constants. A plan exists, is short and gives the constant; logical immediates are exactly the encodable ones.
  \<^item> \<open>Arm_Frame\<close> (\<^verbatim>\<open>anon_armv8/src/abi.rs\<close>, \<^verbatim>\<open>anon_armv8/src/regs.rs\<close>): the AArch64 hooks, prologue, epilogue, saves, restores and the
    legalization of frame addresses. \<open>Arm_Exec\<close> executes this code.
  \<^item> \<open>Arm_Prologue\<close>: the slots of saved registers (the locale \<open>paired_slots\<close>, interpreted on the saves and the restores) and the
    interpretation of \<open>frame_code\<close>: a function keeps the registers the procedure call standard preserves, and the areas of its
    frame do not overlap.
  \<^item> \<open>Arm_Args\<close>: the locations of arguments. \<open>Arm_Env\<close> (\<^verbatim>\<open>regs.rs\<close>): the environment given to the register allocator and the
    registers a call clobbers, against the procedure call standard.

  \<^bold>\<open>Bounds.\<close> Pool operations assume that the pool stays below \<open>2 ^ 32 - 1\<close> elements (\<open>pool_room\<close>), beyond which the
  32-bit list handles of the source are truncated. Parallel moves assume one source per destination, which the source asserts.
  Emission assumes fewer than \<open>2 ^ 64 - 2\<close> calls, so that no slot has the offset of an unbound label.
  Stack objects and argument areas are assumed smaller than 4 GiB, because the source keeps sizes and offsets in 32 bits. Extending a list from
  an iterator is modelled for every size hint and proved for exact ones. Branch distances are unbounded integers, where
  the source casts to \<open>i64\<close>. Loop analysis is about reducible graphs, its documented precondition.

  \<^bold>\<open>Findings.\<close> The range of a logical right shift by a multiple of 32 misses negative values; \<open>add_up_to\<close> on register
  sets drops members; \<open>Allocation::from_bits\<close> rejects every allocation; \<open>copy_from\<close> of entity lists accepts ranges beyond
  the end of its source; the expression form of \<open>entity_impl!\<close> cannot make its reserved value; the range check
  of branches reads offsets of threaded labels that are out of date and can panic, and the RISC-V reaches are twice too large;
  the older computation of immediate dominators compares blocks by the wrong array and can miss the immediate dominator. In the AArch64 back end the float and vector classes
  share registers although the allocator requires disjoint classes; float and vector arguments are counted apart, so that both can be given
  \<open>v0\<close>, and a vector on the stack is not aligned; a comment says that the standard preserves all 128 bits of \<open>v8\<close> to \<open>v15\<close>, where it
  preserves the low 64.

  \<^bold>\<open>Not modelled.\<close> The frontend (its parser is generated at build time), the IR arena and the passes over it, instruction
  selection, the core of the register allocator, printers, statistics and the command line. Of the AArch64 back end instruction
  selection, the schedulers, the peephole passes and the printing of instructions are not modelled; the RISC-V back end is not modelled.
  The worklist of the range analysis is not modelled: the theorems are about its steps.
  The order planned for them is: range worklist, block order, IR layout, RISC-V frame code, allocator core.
\<close>

end
